(* ===== verification/Prelude.thy ===== *)
theory Prelude
  imports Main "HOL-Library.Word" "HOL-Library.Multiset" "HOL-Library.Monad_Syntax"
begin

unbundle bit_operations_syntax

text \<open>
  Shared material of the development: the machine integer types of the C++ sources, the
  two compiler builtins the hash table relies on (\<open>__builtin_popcount\<close> and
  \<open>__builtin_ctz\<close>), loops over arrays that may abort, and the lemmas on words, lists and
  multisets that the component theories share.

  Convention: an operation of the sources that contains an \<open>assert\<close>, a \<open>LOG(FATAL)\<close> or
  that is undefined for some arguments returns an \<open>option\<close>; \<open>None\<close> stands for the aborted
  process. The components prove that the abort is unreachable under their invariants.
\<close>

type_synonym u8 = "8 word"
type_synonym u16 = "16 word"
type_synonym u32 = "32 word"
type_synonym u64 = "64 word"

named_theorems bucket_defs \<open>unfolding of the bucket operations\<close>
named_theorems seg_defs \<open>unfolding of the segment operations\<close>
named_theorems wf_simps \<open>facts about sizes of the arrays\<close>

subsection \<open>Assertions\<close>

definition assert_opt :: "bool \<Rightarrow> unit option" where
  "assert_opt P = (if P then Some () else None)"

lemma assert_opt_simps [simp]:
  "assert_opt True = Some ()"
  "assert_opt False = None"
  "assert_opt P = Some u \<longleftrightarrow> P"
  "assert_opt P = None \<longleftrightarrow> \<not> P"
  by (auto simp: assert_opt_def)

subsection \<open>Compiler builtins\<close>

text \<open>\<open>__builtin_popcount\<close> on a 32-bit word.\<close>

definition popcount :: "u32 \<Rightarrow> nat" where
  "popcount w = length (filter (bit w) [0..<32])"

text \<open>\<open>__builtin_ctz\<close> on a 32-bit word: the number of trailing zero bits. The builtin is
  undefined at zero, where this function is 32; every caller tests for zero first or asserts
  that the result is below the slot count.\<close>

definition ctz :: "u32 \<Rightarrow> nat" where
  "ctz w = length (takeWhile (\<lambda>i. \<not> bit w i) [0..<32])"

lemma length_takeWhile_upt:
  assumes "n \<le> m" and "m < k" and "P m" and "\<And>j. n \<le> j \<Longrightarrow> j < m \<Longrightarrow> \<not> P j"
  shows "length (takeWhile (\<lambda>i. \<not> P i) [n..<k]) = m - n"
proof -
  have "[n..<k] = [n..<m] @ m # [Suc m..<k]"
    using assms(1,2) by (metis upt_add_eq_append upt_conv_Cons le_add_diff_inverse less_imp_le)
  moreover have "takeWhile (\<lambda>i. \<not> P i) ([n..<m] @ m # [Suc m..<k]) = [n..<m]"
    using assms(3,4) by (subst takeWhile_append2) auto
  ultimately show ?thesis by simp
qed

lemma ctz_eqI:
  assumes "m < 32" and "bit w m" and "\<And>j. j < m \<Longrightarrow> \<not> bit w j"
  shows "ctz w = m"
  using length_takeWhile_upt [of 0 m 32 "bit w"] assms by (simp add: ctz_def)

lemma ctz_0: "ctz 0 = 32"
proof -
  have all: "takeWhile (\<lambda>i. \<not> bit (0 :: u32) i) [0..<32] = [0..<32]"
    by (rule takeWhile_eq_all_conv [THEN iffD2]) simp
  show ?thesis unfolding ctz_def all by simp
qed

lemma word32_nonzero_bit: "(w :: u32) \<noteq> 0 \<Longrightarrow> \<exists>m < 32. bit w m"
  using bit_imp_le_length by (fastforce simp: bit_eq_iff)

lemma ctz_props:
  assumes "w \<noteq> 0"
  shows "ctz w < 32" and "bit w (ctz w)" and "\<And>j. j < ctz w \<Longrightarrow> \<not> bit w j"
proof -
  obtain n where n: "n < 32" "bit w n" using word32_nonzero_bit [OF assms] by blast
  define m where "m = (LEAST i. bit w i)"
  have m: "bit w m" "m \<le> n" "\<And>j. j < m \<Longrightarrow> \<not> bit w j"
    unfolding m_def using n by (auto intro: LeastI Least_le dest: not_less_Least)
  then have "ctz w = m" using n by (intro ctz_eqI) auto
  then show "ctz w < 32" and "bit w (ctz w)" and "\<And>j. j < ctz w \<Longrightarrow> \<not> bit w j"
    using m n by auto
qed

lemma popcount_conv_card: "popcount w = card {i. i < 32 \<and> bit w i}"
proof -
  have "{i. i < 32 \<and> bit w i} = set (filter (bit w) [0..<32])" by auto
  then show ?thesis
    unfolding popcount_def by (metis distinct_card distinct_filter distinct_upt)
qed

subsection \<open>Machine integers\<close>

lemma bit_exp_word [simp]:
  "bit (2 ^ n :: 'a::len word) i \<longleftrightarrow> i = n \<and> n < LENGTH('a)"
  by (auto simp: bit_simps)

lemma bit_of_bool_push [simp]:
  "bit (push_bit n (of_bool b :: 'a::len word)) i \<longleftrightarrow> b \<and> i = n \<and> n < LENGTH('a)"
  by (cases b) auto

lemma and_255_take_bit: "(w :: u64) AND 255 = take_bit 8 w"
  by (simp add: take_bit_eq_mask mask_eq_exp_minus_1)

subsection \<open>Loops over a list that may abort\<close>

fun foldM :: "('a \<Rightarrow> 's \<Rightarrow> 's option) \<Rightarrow> 'a list \<Rightarrow> 's \<Rightarrow> 's option" where
  "foldM f [] s = Some s"
| "foldM f (x # xs) s = Option.bind (f x s) (foldM f xs)"

lemma foldM_append: "foldM f (xs @ ys) s = Option.bind (foldM f xs s) (foldM f ys)"
  by (induction xs arbitrary: s) (auto split: bind_splits)

lemma foldM_cong:
  assumes "\<And>x t. x \<in> set xs \<Longrightarrow> f x t = g x t"
  shows "foldM f xs s = foldM g xs s"
  using assms
proof (induction xs arbitrary: s)
  case Nil
  then show ?case by simp
next
  case (Cons x xs)
  then have "f x s = g x s" and "foldM f xs t = foldM g xs t" for t by auto
  then show ?case by (auto split: bind_splits)
qed

text \<open>The loop rule: an invariant indexed by the part of the list already visited.\<close>

lemma foldM_rule:
  assumes "I [] s"
    and "\<And>ys x s. I ys s \<Longrightarrow> (\<exists>zs. ys @ x # zs = xs) \<Longrightarrow> \<exists>s'. f x s = Some s' \<and> I (ys @ [x]) s'"
  shows "\<exists>s'. foldM f xs s = Some s' \<and> I xs s'"
proof -
  have "\<exists>s'. foldM f (take n xs) s = Some s' \<and> I (take n xs) s'" if "n \<le> length xs" for n
    using that
  proof (induction n)
    case 0
    then show ?case using assms(1) by simp
  next
    case (Suc n)
    then obtain s1 where s1: "foldM f (take n xs) s = Some s1" "I (take n xs) s1" by auto
    have split: "take (Suc n) xs = take n xs @ [xs ! n]"
      using Suc.prems by (simp add: take_Suc_conv_app_nth)
    have "take n xs @ xs ! n # drop (Suc n) xs = xs"
      using Suc.prems by (simp add: Cons_nth_drop_Suc)
    then obtain s2 where "f (xs ! n) s1 = Some s2" "I (take n xs @ [xs ! n]) s2"
      using assms(2) [OF s1(2)] by blast
    with s1 show ?case by (simp add: split foldM_append)
  qed
  from this [of "length xs"] show ?thesis by simp
qed

text \<open>The same rule for a loop that may abort, under a condition \<open>B\<close> only.\<close>

lemma foldM_cases:
  assumes "I [] s"
    and "\<And>ys x s. I ys s \<Longrightarrow> (\<exists>zs. ys @ x # zs = xs) \<Longrightarrow>
      (\<exists>s'. f x s = Some s' \<and> I (ys @ [x]) s') \<or> f x s = None \<and> B"
  shows "(\<exists>s'. foldM f xs s = Some s' \<and> I xs s') \<or> foldM f xs s = None \<and> B"
proof -
  have "(\<exists>s'. foldM f vs t = Some s' \<and> I (us @ vs) s') \<or> foldM f vs t = None \<and> B"
    if "I us t" "us @ vs = xs" for us vs t
    using that
  proof (induction vs arbitrary: us t)
    case Nil
    then show ?case by simp
  next
    case (Cons x vs)
    have "\<exists>zs. us @ x # zs = xs" using Cons.prems(2) by blast
    then consider t1 where "f x t = Some t1" "I (us @ [x]) t1" | "f x t = None" "B"
      using assms(2) [OF Cons.prems(1)] by auto
    then show ?case
    proof cases
      case 1
      then show ?thesis using Cons.IH [OF 1(2)] Cons.prems by simp
    qed simp
  qed
  from this [of "[]" s xs] assms(1) show ?thesis by simp
qed

text \<open>The partial-correctness rule: what holds of every result.\<close>

lemma foldM_inv:
  assumes "foldM f xs s = Some s'" and "I [] s"
    and "\<And>ys x s s'. I ys s \<Longrightarrow> (\<exists>zs. ys @ x # zs = xs) \<Longrightarrow> f x s = Some s' \<Longrightarrow> I (ys @ [x]) s'"
  shows "I xs s'"
proof -
  have "I (us @ vs) s'" if "foldM f vs t = Some s'" "I us t" "us @ vs = xs" for us vs t
    using that
  proof (induction vs arbitrary: us t)
    case Nil
    then show ?case by simp
  next
    case (Cons x vs)
    then obtain t1 where t1: "f x t = Some t1" "foldM f vs t1 = Some s'"
      by (auto split: bind_splits)
    with Cons.prems have "I (us @ [x]) t1" by (intro assms(3)) auto
    from Cons.IH [OF t1(2) this] Cons.prems show ?case by simp
  qed
  from this [of xs s "[]"] assms(1,2) show ?thesis by simp
qed

subsection \<open>Lists, sums and multisets\<close>

lemma sum_list_map_update:
  fixes f :: "'a \<Rightarrow> 'b::comm_monoid_add"
  assumes "i < length xs"
  shows "sum_list (map f (xs[i := x])) + f (xs ! i) = sum_list (map f xs) + f x"
proof -
  have xs: "xs = take i xs @ xs ! i # drop (Suc i) xs"
    using assms by (simp add: id_take_nth_drop)
  have upd: "xs[i := x] = take i xs @ x # drop (Suc i) xs"
    using assms by (simp add: upd_conv_take_nth_drop)
  show ?thesis
    by (subst (2 3) xs, subst upd) (simp add: nth_append assms add.commute add.left_commute)
qed

lemma in_sum_list_mset: "x \<in># sum_list (map f xs) \<longleftrightarrow> (\<exists>y \<in> set xs. x \<in># f y)"
  by (induction xs) auto

lemma size_sum_list_mset:
  fixes f :: "'a \<Rightarrow> 'b multiset"
  shows "size (sum_list (map f xs)) = sum_list (map (\<lambda>x. size (f x)) xs)"
  by (induction xs) auto

lemma filter_upt_split:
  assumes "i < n"
  shows "mset (filter P [0..<n]) = (if P i then {#i#} else {#}) + mset (filter (\<lambda>j. P j \<and> j \<noteq> i) [0..<n])"
proof -
  have "[0..<n] = [0..<i] @ i # [Suc i..<n]"
    using assms by (metis le0 less_imp_le upt_add_eq_append upt_conv_Cons le_add_diff_inverse add_0)
  moreover have "filter (\<lambda>j. P j \<and> j \<noteq> i) [0..<i] = filter P [0..<i]"
    and "filter (\<lambda>j. P j \<and> j \<noteq> i) [Suc i..<n] = filter P [Suc i..<n]"
    by (auto intro: filter_cong)
  ultimately show ?thesis by simp
qed

end
