(* ===== verification/Slot_Bitmap.thy ===== *)
theory Slot_Bitmap
  imports Prelude
begin

text \<open>
  Class \<open>SlotBitmap\<close> of \<open>dash_internal.hpp\<close>, at the slot count of the production table
  (\<open>PrimeTablePolicy::kSlotNum\<close>). One 32-bit word holds the busy bits of a bucket, a second
  one the probe bits (the entry in the slot belongs to the previous bucket).
\<close>

definition kSlotNum :: nat where
  "kSlotNum = 14"

record SlotBitmap =
  val_busy :: u32
  val_probe :: u32

definition kAllocMask :: u32 where
  "kAllocMask = push_bit kSlotNum 1 - 1"

definition SlotBitmap_init :: SlotBitmap where
  "SlotBitmap_init = \<lparr>val_busy = 0, val_probe = 0\<rparr>"

definition sb_GetProbe :: "SlotBitmap \<Rightarrow> bool \<Rightarrow> u32" where
  "sb_GetProbe m probe = (val_probe m AND kAllocMask) XOR (of_bool (\<not> probe) * kAllocMask)"

definition sb_GetBusy :: "SlotBitmap \<Rightarrow> u32" where
  "sb_GetBusy m = val_busy m"

definition sb_Size :: "SlotBitmap \<Rightarrow> nat" where
  "sb_Size m = popcount (val_busy m)"

definition sb_IsFull :: "SlotBitmap \<Rightarrow> bool" where
  "sb_IsFull m \<longleftrightarrow> sb_Size m = kSlotNum"

definition FindEmptySlot :: "SlotBitmap \<Rightarrow> nat option" where
  "FindEmptySlot m = do {
     let slot = ctz (NOT (sb_GetBusy m));
     assert_opt (slot < kSlotNum);
     Some slot }"

definition sb_ClearSlots :: "SlotBitmap \<Rightarrow> u32 \<Rightarrow> SlotBitmap" where
  "sb_ClearSlots m msk = m\<lparr>val_busy := val_busy m AND NOT msk, val_probe := val_probe m AND NOT msk\<rparr>"

definition sb_Clear :: "SlotBitmap \<Rightarrow> SlotBitmap" where
  "sb_Clear m = m\<lparr>val_busy := 0, val_probe := 0\<rparr>"

definition ClearSlot :: "SlotBitmap \<Rightarrow> nat \<Rightarrow> SlotBitmap option" where
  "ClearSlot m index = do {
     assert_opt (sb_Size m > 0);
     Some (sb_ClearSlots m (push_bit index 1)) }"

definition SetSlot :: "SlotBitmap \<Rightarrow> nat \<Rightarrow> bool \<Rightarrow> SlotBitmap option" where
  "SetSlot m index probe = do {
     assert_opt (drop_bit index (val_busy m) AND 1 = 0);
     Some (m\<lparr>val_busy := val_busy m OR push_bit index 1,
             val_probe := val_probe m OR push_bit index (of_bool probe)\<rparr>) }"

definition sb_ShiftLeft :: "SlotBitmap \<Rightarrow> bool \<times> SlotBitmap" where
  "sb_ShiftLeft m =
     (let kBusyLastSlot = drop_bit 1 kAllocMask + 1;
          res = (val_busy m AND kBusyLastSlot \<noteq> 0)
      in (res, m\<lparr>val_busy := push_bit 1 (val_busy m) AND kAllocMask,
                 val_probe := push_bit 1 (val_probe m) AND kAllocMask\<rparr>))"

text \<open>The exchange of two bits of one word, as \<open>Swap\<close> computes it for \<open>lo < hi\<close>.\<close>

definition swap_bits :: "u32 \<Rightarrow> nat \<Rightarrow> nat \<Rightarrow> u32" where
  "swap_bits w lo hi =
     (let a = (push_bit (hi - lo) w XOR w) AND push_bit hi 1;
          a = a OR drop_bit (hi - lo) a
      in w XOR a)"

text \<open>In \<open>Swap\<close> the whole body is inside the test \<open>slot_a > slot_b\<close>.\<close>

definition sb_Swap :: "SlotBitmap \<Rightarrow> nat \<Rightarrow> nat \<Rightarrow> SlotBitmap" where
  "sb_Swap m slot_a slot_b =
     (if slot_a > slot_b
      then m\<lparr>val_busy := swap_bits (val_busy m) slot_b slot_a,
             val_probe := swap_bits (val_probe m) slot_b slot_a\<rparr>
      else m)"

subsection \<open>Well-formed bitmaps\<close>

definition sb_wf :: "SlotBitmap \<Rightarrow> bool" where
  "sb_wf m \<longleftrightarrow> (\<forall>i. bit (val_busy m) i \<longrightarrow> i < kSlotNum) \<and>
               (\<forall>i. bit (val_probe m) i \<longrightarrow> bit (val_busy m) i)"

definition first_empty :: "SlotBitmap \<Rightarrow> nat" where
  "first_empty m = ctz (NOT (val_busy m))"

lemma kSlotNum_le [simp]: "kSlotNum < 32" "0 < kSlotNum" "kSlotNum < 255" "kSlotNum \<le> 16"
  by (simp_all add: kSlotNum_def)

lemma kAllocMask_eq: "kAllocMask = mask kSlotNum"
  by (simp add: kAllocMask_def mask_eq_exp_minus_1 push_bit_eq_mult)

lemma bit_kAllocMask [simp]: "bit kAllocMask i \<longleftrightarrow> i < kSlotNum"
  unfolding kAllocMask_eq bit_mask_iff by (auto simp: kSlotNum_def possible_bit_def)

lemma sb_wf_probeD: "sb_wf m \<Longrightarrow> bit (val_probe m) i \<Longrightarrow> bit (val_busy m) i"
  by (simp add: sb_wf_def)

lemma sb_wf_busyD: "sb_wf m \<Longrightarrow> bit (val_busy m) i \<Longrightarrow> i < kSlotNum"
  by (simp add: sb_wf_def)

lemma sb_wf_init [simp]: "sb_wf SlotBitmap_init"
  by (simp add: sb_wf_def SlotBitmap_init_def)

lemma bit_sb_GetProbe:
  "bit (sb_GetProbe m probe) i \<longleftrightarrow> i < kSlotNum \<and> (bit (val_probe m) i \<longleftrightarrow> probe)"
  by (cases probe) (auto simp: sb_GetProbe_def bit_simps)

lemma sb_Size_card: "sb_wf m \<Longrightarrow> sb_Size m = card {i. i < kSlotNum \<and> bit (val_busy m) i}"
  unfolding sb_Size_def popcount_conv_card
  by (rule arg_cong [where f = card]) (auto dest: sb_wf_busyD intro: less_trans)

lemma sb_Size_le: "sb_wf m \<Longrightarrow> sb_Size m \<le> kSlotNum"
proof -
  assume "sb_wf m"
  then have "sb_Size m \<le> card {i. i < kSlotNum}"
    unfolding sb_Size_card [OF \<open>sb_wf m\<close>] by (intro card_mono) auto
  then show ?thesis by simp
qed

lemma sb_IsFull_iff: "sb_wf m \<Longrightarrow> sb_IsFull m \<longleftrightarrow> (\<forall>i < kSlotNum. bit (val_busy m) i)"
proof -
  assume wf: "sb_wf m"
  let ?S = "{i. i < kSlotNum \<and> bit (val_busy m) i}"
  have "sb_IsFull m \<longleftrightarrow> card ?S = card {i. i < kSlotNum}"
    by (simp add: sb_IsFull_def sb_Size_card [OF wf])
  also have "\<dots> \<longleftrightarrow> ?S = {i. i < kSlotNum}"
  proof
    assume "card ?S = card {i. i < kSlotNum}"
    then show "?S = {i. i < kSlotNum}" by (intro card_subset_eq) auto
  qed (rule arg_cong)
  also have "\<dots> \<longleftrightarrow> (\<forall>i < kSlotNum. bit (val_busy m) i)" by auto
  finally show ?thesis .
qed

lemma sb_Size_pos: "sb_wf m \<Longrightarrow> bit (val_busy m) i \<Longrightarrow> sb_Size m > 0"
proof -
  assume wf: "sb_wf m" and "bit (val_busy m) i"
  then have "i \<in> {i. i < kSlotNum \<and> bit (val_busy m) i}" by (auto dest: sb_wf_busyD)
  then show ?thesis unfolding sb_Size_card [OF wf] by (subst card_gt_0_iff) auto
qed

subsection \<open>The first empty slot\<close>

lemma first_empty_props:
  assumes "sb_wf m" and "\<not> sb_IsFull m"
  shows "first_empty m < kSlotNum" and "\<not> bit (val_busy m) (first_empty m)"
proof -
  obtain i where i: "i < kSlotNum" "\<not> bit (val_busy m) i"
    using assms by (auto simp: sb_IsFull_iff)
  have lt: "i < 32" using i(1) kSlotNum_le(1) by (rule less_trans)
  then have b: "bit (NOT (val_busy m)) i" using i by (simp add: bit_not_iff)
  then have nz: "NOT (val_busy m) \<noteq> 0" by (metis bit_0_eq bot_apply bot_bool_def)
  have "\<not> i < first_empty m"
    using ctz_props(3) [OF nz] b by (auto simp: first_empty_def)
  then show "first_empty m < kSlotNum" using i(1) by simp
  show "\<not> bit (val_busy m) (first_empty m)"
    using ctz_props(2) [OF nz] by (simp add: first_empty_def bit_not_iff)
qed

lemma FindEmptySlot_eq:
  assumes "sb_wf m" and "\<not> sb_IsFull m"
  shows "FindEmptySlot m = Some (first_empty m)"
  using first_empty_props [OF assms]
  by (simp add: FindEmptySlot_def first_empty_def sb_GetBusy_def)

lemma FindEmptySlot_full: "sb_wf m \<Longrightarrow> sb_IsFull m \<Longrightarrow> FindEmptySlot m = None"
proof -
  assume wf: "sb_wf m" and full: "sb_IsFull m"
  then have b: "\<And>j. bit (val_busy m) j \<longleftrightarrow> j < kSlotNum"
    by (auto simp: sb_IsFull_iff dest: sb_wf_busyD)
  have "ctz (NOT (val_busy m)) = kSlotNum"
    by (rule ctz_eqI) (auto simp: bit_not_iff b)
  then show ?thesis by (simp add: FindEmptySlot_def sb_GetBusy_def)
qed

subsection \<open>Setting and clearing\<close>

lemma drop_bit_and_1_iff: "drop_bit i (w :: 'a::len word) AND 1 = 0 \<longleftrightarrow> \<not> bit w i"
  by (simp add: bit_iff_odd_drop_bit and_one_eq even_iff_mod_2_eq_zero)

lemma SetSlot_eq:
  assumes "\<not> bit (val_busy m) i"
  shows "SetSlot m i p = Some (m\<lparr>val_busy := val_busy m OR push_bit i 1,
             val_probe := val_probe m OR push_bit i (of_bool p)\<rparr>)"
  using assms by (simp add: SetSlot_def drop_bit_and_1_iff)

lemma SetSlot_busy: "bit (val_busy m) i \<Longrightarrow> SetSlot m i p = None"
  by (simp add: SetSlot_def drop_bit_and_1_iff)

lemma SetSlot_wf: "sb_wf m \<Longrightarrow> i < kSlotNum \<Longrightarrow> SetSlot m i p = Some m' \<Longrightarrow> sb_wf m'"
  by (auto simp: SetSlot_def sb_wf_def bit_simps split: bind_splits)

lemma ClearSlot_eq: "sb_wf m \<Longrightarrow> bit (val_busy m) i \<Longrightarrow> ClearSlot m i = Some (sb_ClearSlots m (push_bit i 1))"
  by (simp add: ClearSlot_def sb_Size_pos)

lemma sb_ClearSlots_wf: "sb_wf m \<Longrightarrow> sb_wf (sb_ClearSlots m msk)"
  by (auto simp: sb_wf_def sb_ClearSlots_def bit_simps)

lemma bit_sb_ClearSlots:
  "bit (val_busy (sb_ClearSlots m msk)) i \<longleftrightarrow> bit (val_busy m) i \<and> \<not> bit msk i"
  "bit (val_probe (sb_ClearSlots m msk)) i \<longleftrightarrow> bit (val_probe m) i \<and> \<not> bit msk i"
  by (auto simp: sb_ClearSlots_def bit_simps dest: bit_imp_le_length)

end
