(* ===== verification/Bucket.thy ===== *)
theory Bucket
  imports Slot_Bitmap
begin

text \<open>
  Classes \<open>BucketBase\<close> and \<open>Segment::Bucket\<close> of \<open>dash_internal.hpp\<close>: the slot bitmap,
  the fingerprint array, the four stash pointers of a bucket (fingerprint, two-bit position
  of the stash bucket, probe flag) with the overflow counter, and the key and value arrays.
  The derived class is a record extension.

  The key and the value arrays hold objects with assignment operators of their own
  (\<open>CompactObj\<close>), so an assignment \<open>key[slot] = std::forward<U>(u)\<close> is a function from the
  object in the slot to the new object: the operations below take these two functions as
  arguments in place of the forwarded references.
\<close>

record BucketBase =
  slotb :: SlotBitmap
  finger_arr :: "u8 list"
  stash_arr :: "u8 list"
  stash_busy :: u8
  stash_pos :: u8
  stash_probe_mask :: u8
  overflow_count :: u8

record ('k, 'v) Bucket = BucketBase +
  key :: "'k list"
  "value" :: "'v list"

type_synonym SlotId = nat

definition kNanSlot :: SlotId where "kNanSlot = 255"
definition kStashFpLen :: nat where "kStashFpLen = 4"
definition kStashPresentBit :: u8 where "kStashPresentBit = push_bit 4 1"

definition Bucket_init :: "'k \<Rightarrow> 'v \<Rightarrow> ('k, 'v) Bucket" where
  "Bucket_init k0 v0 =
     \<lparr>slotb = SlotBitmap_init, finger_arr = replicate kSlotNum 0, stash_arr = replicate kStashFpLen 0,
      stash_busy = 0, stash_pos = 0, stash_probe_mask = 0, overflow_count = 0,
      key = replicate kSlotNum k0, value = replicate kSlotNum v0\<rparr>"

subsection \<open>Operations on the slots\<close>

definition GetProbe :: "'z BucketBase_scheme \<Rightarrow> bool \<Rightarrow> u32" where
  "GetProbe b probe = sb_GetProbe (slotb b) probe"

definition GetBusy :: "'z BucketBase_scheme \<Rightarrow> u32" where
  "GetBusy b = sb_GetBusy (slotb b)"

definition Size :: "'z BucketBase_scheme \<Rightarrow> nat" where
  "Size b = sb_Size (slotb b)"

definition IsFull :: "'z BucketBase_scheme \<Rightarrow> bool" where
  "IsFull b \<longleftrightarrow> Size b = kSlotNum"

definition IsEmpty :: "'z BucketBase_scheme \<Rightarrow> bool" where
  "IsEmpty b \<longleftrightarrow> GetBusy b = 0"

definition IsBusy :: "'z BucketBase_scheme \<Rightarrow> nat \<Rightarrow> bool" where
  "IsBusy b slot \<longleftrightarrow> GetBusy b AND push_bit slot 1 \<noteq> 0"

definition Delete :: "'z BucketBase_scheme \<Rightarrow> SlotId \<Rightarrow> 'z BucketBase_scheme option" where
  "Delete b sid = do { m \<leftarrow> ClearSlot (slotb b) sid; Some (b\<lparr>slotb := m\<rparr>) }"

definition ClearSlots :: "'z BucketBase_scheme \<Rightarrow> u32 \<Rightarrow> 'z BucketBase_scheme" where
  "ClearSlots b msk = b\<lparr>slotb := sb_ClearSlots (slotb b) msk\<rparr>"

definition Clear :: "'z BucketBase_scheme \<Rightarrow> 'z BucketBase_scheme" where
  "Clear b = b\<lparr>slotb := sb_Clear (slotb b)\<rparr>"

text \<open>\<open>CompareFP\<close> loads 16 bytes at the address of \<open>finger_arr_\<close>: the 14 fingerprints and the
  first two bytes of the array that follows it in the object, \<open>stash_arr_\<close>.\<close>

definition CompareFP :: "'z BucketBase_scheme \<Rightarrow> u8 \<Rightarrow> u32" where
  "CompareFP b fp = horner_sum of_bool 2 (map (\<lambda>x. x = fp) (take 16 (finger_arr b @ stash_arr b)))"

definition Find :: "'z BucketBase_scheme \<Rightarrow> u8 \<Rightarrow> bool \<Rightarrow> u32" where
  "Find b fp_hash probe = (CompareFP b fp_hash AND GetBusy b) AND GetProbe b probe"

definition Fp :: "'z BucketBase_scheme \<Rightarrow> nat \<Rightarrow> u8 option" where
  "Fp b i = do { assert_opt (i < length (finger_arr b)); Some (finger_arr b ! i) }"

definition SetHash :: "'z BucketBase_scheme \<Rightarrow> nat \<Rightarrow> u8 \<Rightarrow> bool \<Rightarrow> 'z BucketBase_scheme option" where
  "SetHash b slot_id meta_hash probe = do {
     assert_opt (slot_id < length (finger_arr b));
     m \<leftarrow> SetSlot (slotb b) slot_id probe;
     Some (b\<lparr>finger_arr := (finger_arr b)[slot_id := meta_hash], slotb := m\<rparr>) }"

subsection \<open>Stash pointers\<close>

definition ClearStashPtrs :: "'z BucketBase_scheme \<Rightarrow> 'z BucketBase_scheme" where
  "ClearStashPtrs b = b\<lparr>stash_busy := 0, stash_pos := 0, stash_probe_mask := 0, overflow_count := 0\<rparr>"

definition HasStash :: "'z BucketBase_scheme \<Rightarrow> bool" where
  "HasStash b \<longleftrightarrow> stash_busy b AND kStashPresentBit \<noteq> 0"

definition HasStashOverflow :: "'z BucketBase_scheme \<Rightarrow> bool" where
  "HasStashOverflow b \<longleftrightarrow> overflow_count b > 0"

text \<open>The two bits of \<open>stash_pos_\<close> that belong to pointer \<open>i\<close>.\<close>

definition stash_pos_at :: "'z BucketBase_scheme \<Rightarrow> nat \<Rightarrow> nat" where
  "stash_pos_at b i = unat (drop_bit (i * 2) (stash_pos b) AND 3)"

fun IterateStash_loop ::
  "'z BucketBase_scheme \<Rightarrow> u8 \<Rightarrow> (nat \<Rightarrow> nat \<Rightarrow> SlotId) \<Rightarrow> nat \<Rightarrow> u32 \<Rightarrow> u32 \<Rightarrow> nat \<Rightarrow> nat \<times> SlotId" where
  "IterateStash_loop b fp func 0 ob om i = (0, kNanSlot)"
| "IterateStash_loop b fp func (Suc n) ob om i =
     (if ob AND 1 \<noteq> 0 \<and> stash_arr b ! i = fp \<and> om AND 1 \<noteq> 0
         \<and> func i (stash_pos_at b i) \<noteq> kNanSlot
      then (stash_pos_at b i, func i (stash_pos_at b i))
      else IterateStash_loop b fp func n (drop_bit 1 ob) (drop_bit 1 om) (Suc i))"

definition IterateStash :: "'z BucketBase_scheme \<Rightarrow> u8 \<Rightarrow> bool \<Rightarrow> (nat \<Rightarrow> nat \<Rightarrow> SlotId) \<Rightarrow> nat \<times> SlotId" where
  "IterateStash b fp is_probe func =
     (let om = (if is_probe then ucast (stash_probe_mask b) else NOT (ucast (stash_probe_mask b)));
          ob = ucast (stash_busy b)
      in IterateStash_loop b fp func kStashFpLen ob om 0)"

definition SetStash :: "'z BucketBase_scheme \<Rightarrow> u8 \<Rightarrow> nat \<Rightarrow> bool \<Rightarrow> bool \<times> 'z BucketBase_scheme" where
  "SetStash b fp spos probe =
     (let free_slot = ctz (NOT (ucast (stash_busy b)))
      in if free_slot \<ge> kStashFpLen then (False, b)
         else (True, b\<lparr>stash_arr := (stash_arr b)[free_slot := fp],
                       stash_busy := stash_busy b OR push_bit free_slot 1,
                       stash_probe_mask := stash_probe_mask b OR push_bit free_slot (of_bool probe),
                       stash_pos := (stash_pos b AND NOT (push_bit (free_slot * 2) 3))
                                    OR push_bit (free_slot * 2) (of_nat spos)\<rparr>))"

text \<open>The callback of \<open>ClearStash\<close> tests the position and, when it matches, clears pointer
  \<open>i\<close> and stops the iteration; \<open>SClearAt\<close> is the clearing.\<close>

definition SClearAt :: "'z BucketBase_scheme \<Rightarrow> nat \<Rightarrow> 'z BucketBase_scheme" where
  "SClearAt b i = b\<lparr>stash_busy := stash_busy b AND NOT (push_bit i 1),
                    stash_probe_mask := stash_probe_mask b AND NOT (push_bit i 1),
                    stash_pos := stash_pos b AND NOT (push_bit (i * 2) 3)\<rparr>"

fun ClearStash_loop ::
  "'z BucketBase_scheme \<Rightarrow> u8 \<Rightarrow> nat \<Rightarrow> nat \<Rightarrow> u32 \<Rightarrow> u32 \<Rightarrow> nat \<Rightarrow> bool \<times> 'z BucketBase_scheme" where
  "ClearStash_loop b fp spos 0 ob om i = (False, b)"
| "ClearStash_loop b fp spos (Suc n) ob om i =
     (if ob AND 1 \<noteq> 0 \<and> stash_arr b ! i = fp \<and> om AND 1 \<noteq> 0 \<and> stash_pos_at b i = spos
      then (True, SClearAt b i)
      else ClearStash_loop b fp spos n (drop_bit 1 ob) (drop_bit 1 om) (Suc i))"

definition ClearStash :: "'z BucketBase_scheme \<Rightarrow> u8 \<Rightarrow> nat \<Rightarrow> bool \<Rightarrow> bool \<times> 'z BucketBase_scheme" where
  "ClearStash b fp spos probe =
     (let om = (if probe then ucast (stash_probe_mask b) else NOT (ucast (stash_probe_mask b)));
          ob = ucast (stash_busy b)
      in ClearStash_loop b fp spos kStashFpLen ob om 0)"

text \<open>\<open>SetStashPtr\<close> and \<open>UnsetStashPtr\<close> change the bucket and its neighbour; both are returned.\<close>

definition SetStashPtr ::
  "'z BucketBase_scheme \<Rightarrow> nat \<Rightarrow> u8 \<Rightarrow> 'z BucketBase_scheme
    \<Rightarrow> ('z BucketBase_scheme \<times> 'z BucketBase_scheme) option" where
  "SetStashPtr b spos meta_hash nx = do {
     assert_opt (spos < 4);
     let (ok, b) = SetStash b meta_hash spos False;
     let (b, nx) =
       (if ok then (b, nx)
        else let (ok2, nx) = SetStash nx meta_hash spos True
             in (if ok2 then b else b\<lparr>overflow_count := overflow_count b + 1\<rparr>, nx));
     Some (b\<lparr>stash_busy := stash_busy b OR kStashPresentBit\<rparr>, nx) }"

definition UnsetStashPtr ::
  "'z BucketBase_scheme \<Rightarrow> u8 \<Rightarrow> nat \<Rightarrow> 'z BucketBase_scheme
    \<Rightarrow> (nat \<times> 'z BucketBase_scheme \<times> 'z BucketBase_scheme) option" where
  "UnsetStashPtr b fp_hash spos nx = do {
     let (ok, b) = ClearStash b fp_hash spos False;
     let (ok2, nx) = (if ok then (True, nx) else ClearStash nx fp_hash spos True);
     let res = (if \<not> ok \<and> ok2 then 1 else 0);
     b \<leftarrow> (if ok2 then Some b
          else do { assert_opt (overflow_count b > 0);
                    Some (b\<lparr>overflow_count := overflow_count b - 1\<rparr>) });
     let mask1 = stash_busy b AND (kStashPresentBit - 1);
     let mask2 = stash_busy nx AND (kStashPresentBit - 1);
     let b = (if mask1 AND NOT (stash_probe_mask b) = 0 \<and> overflow_count b = 0
                 \<and> mask2 AND stash_probe_mask nx = 0
              then b\<lparr>stash_busy := stash_busy b AND NOT kStashPresentBit\<rparr> else b);
     Some (res, b, nx) }"

subsection \<open>Operations of the derived class\<close>

definition Bucket_Insert ::
  "('k, 'v) Bucket \<Rightarrow> nat \<Rightarrow> ('k \<Rightarrow> 'k) \<Rightarrow> ('v \<Rightarrow> 'v) \<Rightarrow> u8 \<Rightarrow> bool \<Rightarrow> ('k, 'v) Bucket option" where
  "Bucket_Insert b slot u v meta_hash probe = do {
     assert_opt (slot < kSlotNum);
     let b = b\<lparr>key := (key b)[slot := u (key b ! slot)]\<rparr>;
     let b = b\<lparr>value := (value b)[slot := v (value b ! slot)]\<rparr>;
     SetHash b slot meta_hash probe }"

text \<open>The result \<open>-1\<close> of \<open>TryInsertToBucket\<close> is the slot \<open>None\<close>.\<close>

definition TryInsertToBucket ::
  "('k, 'v) Bucket \<Rightarrow> ('k \<Rightarrow> 'k) \<Rightarrow> ('v \<Rightarrow> 'v) \<Rightarrow> u8 \<Rightarrow> bool \<Rightarrow> (nat option \<times> ('k, 'v) Bucket) option" where
  "TryInsertToBucket b new_key new_value meta_hash probe =
     (if IsFull b then Some (None, b)
      else do { slot \<leftarrow> FindEmptySlot (slotb b);
                b \<leftarrow> Bucket_Insert b slot new_key new_value meta_hash probe;
                Some (Some slot, b) })"

fun FindByFp_loop :: "'k list \<Rightarrow> ('k \<Rightarrow> bool) \<Rightarrow> nat \<Rightarrow> u32 \<Rightarrow> nat \<Rightarrow> SlotId" where
  "FindByFp_loop keys pred 0 msk i = kNanSlot"
| "FindByFp_loop keys pred (Suc n) msk i =
     (if msk AND 1 \<noteq> 0 \<and> pred (keys ! i) then i
      else FindByFp_loop keys pred n (drop_bit 1 msk) (Suc i))"

definition FindByFp :: "('k, 'v) Bucket \<Rightarrow> u8 \<Rightarrow> bool \<Rightarrow> ('k \<Rightarrow> bool) \<Rightarrow> SlotId" where
  "FindByFp b fp_hash probe pred =
     (let msk = Find b fp_hash probe
      in if msk = 0 then kNanSlot
         else let delta = ctz msk
              in FindByFp_loop (key b) pred (kSlotNum - delta) (drop_bit delta msk) delta)"

fun ForEachSlot_loop :: "(nat \<Rightarrow> bool \<Rightarrow> 's \<Rightarrow> 's option) \<Rightarrow> nat \<Rightarrow> u32 \<Rightarrow> u32 \<Rightarrow> nat \<Rightarrow> 's \<Rightarrow> 's option" where
  "ForEachSlot_loop cb 0 msk probe_mask j s = Some s"
| "ForEachSlot_loop cb (Suc n) msk probe_mask j s = do {
     s \<leftarrow> (if msk AND 1 \<noteq> 0 then cb j (probe_mask AND 1 \<noteq> 0) s else Some s);
     ForEachSlot_loop cb n (drop_bit 1 msk) (drop_bit 1 probe_mask) (Suc j) s }"

text \<open>The masks are read once, before the first callback; the callback gets the slot, the probe
  flag and the state it changes.\<close>

definition ForEachSlot :: "'z BucketBase_scheme \<Rightarrow> (nat \<Rightarrow> bool \<Rightarrow> 's \<Rightarrow> 's option) \<Rightarrow> 's \<Rightarrow> 's option" where
  "ForEachSlot b cb s = ForEachSlot_loop cb kSlotNum (GetBusy b) (GetProbe b True) 0 s"

text \<open>\<open>ShiftRight\<close> moves every slot up by one and reports whether the last slot was busy. The base
  class overwrites the fingerprints, the derived class rotates keys and values by swaps.\<close>

definition shift_up :: "'a list \<Rightarrow> 'a list" where
  "shift_up xs = foldl (\<lambda>xs i. xs[i := xs ! (i - 1)]) xs (rev [1..<kSlotNum])"

definition swap_up :: "'a list \<Rightarrow> 'a list" where
  "swap_up xs = foldl (\<lambda>xs i. xs[i := xs ! (i - 1), i - 1 := xs ! i]) xs (rev [1..<kSlotNum])"

definition BucketBase_ShiftRight :: "'z BucketBase_scheme \<Rightarrow> (bool \<times> 'z BucketBase_scheme) option" where
  "BucketBase_ShiftRight b = do {
     let b = b\<lparr>finger_arr := shift_up (finger_arr b)\<rparr>;
     let (res, m) = sb_ShiftLeft (slotb b);
     e \<leftarrow> FindEmptySlot m;
     assert_opt (e = 0);
     Some (res, b\<lparr>slotb := m\<rparr>) }"

definition Bucket_ShiftRight :: "('k, 'v) Bucket \<Rightarrow> (bool \<times> ('k, 'v) Bucket) option" where
  "Bucket_ShiftRight b = do {
     (res, b) \<leftarrow> BucketBase_ShiftRight b;
     Some (res, b\<lparr>key := swap_up (key b), value := swap_up (value b)\<rparr>) }"

definition list_swap :: "'a list \<Rightarrow> nat \<Rightarrow> nat \<Rightarrow> 'a list" where
  "list_swap xs i j = xs[i := xs ! j, j := xs ! i]"

definition Bucket_Swap :: "('k, 'v) Bucket \<Rightarrow> nat \<Rightarrow> nat \<Rightarrow> ('k, 'v) Bucket" where
  "Bucket_Swap b slot_a slot_b =
     b\<lparr>slotb := sb_Swap (slotb b) slot_a slot_b,
       finger_arr := list_swap (finger_arr b) slot_a slot_b,
       key := list_swap (key b) slot_a slot_b,
       value := list_swap (value b) slot_a slot_b\<rparr>"

subsection \<open>Well-formed buckets and what they hold\<close>

abbreviation busy :: "'z BucketBase_scheme \<Rightarrow> nat \<Rightarrow> bool" where
  "busy b i \<equiv> bit (val_busy (slotb b)) i"

abbreviation probing :: "'z BucketBase_scheme \<Rightarrow> nat \<Rightarrow> bool" where
  "probing b i \<equiv> bit (val_probe (slotb b)) i"

definition base_wf :: "'z BucketBase_scheme \<Rightarrow> bool" where
  "base_wf b \<longleftrightarrow> sb_wf (slotb b) \<and> length (finger_arr b) = kSlotNum \<and> length (stash_arr b) = kStashFpLen \<and>
     (\<forall>i. bit (stash_busy b) i \<longrightarrow> i < 5) \<and>
     (\<forall>i. bit (stash_probe_mask b) i \<longrightarrow> i < 4 \<and> bit (stash_busy b) i)"

definition bucket_wf :: "('k, 'v) Bucket \<Rightarrow> bool" where
  "bucket_wf b \<longleftrightarrow> base_wf b \<and> length (key b) = kSlotNum \<and> length (value b) = kSlotNum"

text \<open>The multiset of the entries of a bucket: key, value, fingerprint and probe flag.\<close>

definition slot_of :: "('k, 'v) Bucket \<Rightarrow> nat \<Rightarrow> 'k \<times> 'v \<times> u8 \<times> bool" where
  "slot_of b i = (key b ! i, value b ! i, finger_arr b ! i, probing b i)"

definition busy_slots :: "'z BucketBase_scheme \<Rightarrow> nat list" where
  "busy_slots b = filter (\<lambda>i. busy b i) [0..<kSlotNum]"

definition slots :: "('k, 'v) Bucket \<Rightarrow> ('k \<times> 'v \<times> u8 \<times> bool) multiset" where
  "slots b = image_mset (slot_of b) (mset (busy_slots b))"

text \<open>The multiset of the stash pointers of a bucket with a given probe flag: fingerprint and
  stash bucket.\<close>

definition ptr_slots :: "'z BucketBase_scheme \<Rightarrow> bool \<Rightarrow> nat list" where
  "ptr_slots b probe =
     filter (\<lambda>i. bit (stash_busy b) i \<and> bit (stash_probe_mask b) i = probe) [0..<kStashFpLen]"

definition ptr_of :: "'z BucketBase_scheme \<Rightarrow> nat \<Rightarrow> u8 \<times> nat" where
  "ptr_of b i = (stash_arr b ! i, stash_pos_at b i)"

definition ptrs :: "'z BucketBase_scheme \<Rightarrow> bool \<Rightarrow> (u8 \<times> nat) multiset" where
  "ptrs b probe = image_mset (ptr_of b) (mset (ptr_slots b probe))"

text \<open>The bucket after a successful insertion at slot \<open>i\<close>.\<close>

definition put :: "('k, 'v) Bucket \<Rightarrow> nat \<Rightarrow> 'k \<Rightarrow> 'v \<Rightarrow> u8 \<Rightarrow> bool \<Rightarrow> ('k, 'v) Bucket" where
  "put b i k v fp p =
     b\<lparr>key := (key b)[i := k], value := (value b)[i := v], finger_arr := (finger_arr b)[i := fp],
       slotb := (slotb b)\<lparr>val_busy := val_busy (slotb b) OR push_bit i 1,
                           val_probe := val_probe (slotb b) OR push_bit i (of_bool p)\<rparr>\<rparr>"

text \<open>Frames: a step that leaves the slots, or the stash pointers, as they are.\<close>

definition same_slots :: "'z BucketBase_scheme \<Rightarrow> 'z BucketBase_scheme \<Rightarrow> bool" where
  "same_slots b b' \<longleftrightarrow> slotb b' = slotb b \<and> finger_arr b' = finger_arr b \<and>
     BucketBase.more b' = BucketBase.more b"

definition same_stash :: "'z BucketBase_scheme \<Rightarrow> 'z BucketBase_scheme \<Rightarrow> bool" where
  "same_stash b b' \<longleftrightarrow> stash_arr b' = stash_arr b \<and> stash_busy b' = stash_busy b \<and>
     stash_pos b' = stash_pos b \<and> stash_probe_mask b' = stash_probe_mask b \<and>
     overflow_count b' = overflow_count b"

subsection \<open>Reading the slots\<close>

lemma bucket_wf_base [simp]: "bucket_wf b \<Longrightarrow> base_wf b"
  by (simp add: bucket_wf_def)

lemma base_wf_sb [simp]: "base_wf b \<Longrightarrow> sb_wf (slotb b)"
  by (simp add: base_wf_def)

lemma base_wf_len [wf_simps]:
  "base_wf b \<Longrightarrow> length (finger_arr b) = kSlotNum" "base_wf b \<Longrightarrow> length (stash_arr b) = kStashFpLen"
  by (simp_all add: base_wf_def)

lemma bucket_wf_len [wf_simps]:
  "bucket_wf b \<Longrightarrow> length (key b) = kSlotNum" "bucket_wf b \<Longrightarrow> length (value b) = kSlotNum"
  by (simp_all add: bucket_wf_def)

lemma busy_lt: "base_wf b \<Longrightarrow> busy b i \<Longrightarrow> i < kSlotNum"
  by (auto simp: base_wf_def dest: sb_wf_busyD)

lemma probing_busy: "base_wf b \<Longrightarrow> probing b i \<Longrightarrow> busy b i"
  by (auto simp: base_wf_def dest: sb_wf_probeD)

lemma set_busy_slots: "base_wf b \<Longrightarrow> set (busy_slots b) = {i. busy b i}"
  by (auto simp: busy_slots_def dest: busy_lt)

lemma in_slots_iff: "base_wf b \<Longrightarrow> x \<in># slots b \<longleftrightarrow> (\<exists>i. busy b i \<and> x = slot_of b i)"
  by (auto simp: slots_def set_busy_slots)

lemma IsBusy_iff: "i < 32 \<Longrightarrow> IsBusy b i \<longleftrightarrow> busy b i"
  by (simp add: IsBusy_def GetBusy_def sb_GetBusy_def and_exp_eq_0_iff_not_bit)

lemma IsFull_iff: "base_wf b \<Longrightarrow> IsFull b \<longleftrightarrow> (\<forall>i < kSlotNum. busy b i)"
  using sb_IsFull_iff [of "slotb b"] by (simp add: IsFull_def Size_def sb_IsFull_def)

lemma Size_slots: "base_wf (b :: ('k, 'v) Bucket) \<Longrightarrow> Size b = size (slots b)"
proof -
  assume wf: "base_wf b"
  have "Size b = card {i. i < kSlotNum \<and> busy b i}"
    using wf by (simp add: Size_def sb_Size_card)
  also have "{i. i < kSlotNum \<and> busy b i} = set (busy_slots b)"
    by (auto simp: busy_slots_def)
  also have "card (set (busy_slots b)) = length (busy_slots b)"
    by (rule distinct_card) (simp add: busy_slots_def)
  finally show ?thesis by (simp add: slots_def)
qed

lemma size_slots_le: "base_wf b \<Longrightarrow> size (slots b) \<le> kSlotNum"
  using sb_Size_le [of "slotb b"] by (simp add: Size_def flip: Size_slots)

lemma IsFull_slots: "base_wf (b :: ('k, 'v) Bucket) \<Longrightarrow> IsFull b \<longleftrightarrow> size (slots b) = kSlotNum"
  by (simp add: IsFull_def Size_slots)

lemma bit_CompareFP:
  assumes "base_wf b"
  shows "bit (CompareFP b fp) i \<longleftrightarrow> i < 16 \<and> (finger_arr b @ stash_arr b) ! i = fp"
proof -
  define xs where "xs = finger_arr b @ stash_arr b"
  have "length xs = 18"
    using assms by (simp add: xs_def wf_simps kSlotNum_def kStashFpLen_def)
  then show ?thesis
    unfolding CompareFP_def bit_horner_sum_bit_iff xs_def [symmetric]
    by (auto simp: possible_bit_def)
qed

lemma bit_Find:
  assumes "base_wf b"
  shows "bit (Find b fp p) i \<longleftrightarrow> busy b i \<and> finger_arr b ! i = fp \<and> probing b i = p"
proof (cases "busy b i")
  case True
  then have i: "i < kSlotNum" using assms by (simp add: busy_lt)
  then have i16: "i < 16" by (simp add: kSlotNum_def)
  have "(finger_arr b @ stash_arr b) ! i = finger_arr b ! i"
    using assms i by (simp add: nth_append wf_simps)
  then show ?thesis
    using True i i16 by (auto simp: Find_def GetBusy_def GetProbe_def sb_GetBusy_def
      bit_and_iff bit_CompareFP [OF assms] bit_sb_GetProbe)
next
  case False
  then show ?thesis by (simp add: Find_def GetBusy_def sb_GetBusy_def bit_and_iff)
qed

lemma and_1_bit: "(w :: 'a::len word) AND 1 \<noteq> 0 \<longleftrightarrow> bit w 0"
  by (simp add: bit_0 and_one_eq odd_iff_mod_2_eq_one)

lemma FindByFp_loop_spec:
  "FindByFp_loop keys pred n msk i = kNanSlot \<and> (\<forall>j < n. \<not> (bit msk j \<and> pred (keys ! (i + j)))) \<or>
   (\<exists>j < n. FindByFp_loop keys pred n msk i = i + j \<and> bit msk j \<and> pred (keys ! (i + j)))"
proof (induction n arbitrary: msk i)
  case 0
  then show ?case by simp
next
  case (Suc n)
  show ?case
  proof (cases "bit msk 0 \<and> pred (keys ! i)")
    case True
    then show ?thesis by (intro disjI2 exI [of _ 0]) (simp add: and_1_bit)
  next
    case False
    then have step: "FindByFp_loop keys pred (Suc n) msk i = FindByFp_loop keys pred n (drop_bit 1 msk) (Suc i)"
      by (auto simp: and_1_bit)
    have all: "(\<forall>j < Suc n. \<not> (bit msk j \<and> pred (keys ! (i + j)))) \<longleftrightarrow>
        (\<forall>j < n. \<not> (bit (drop_bit 1 msk) j \<and> pred (keys ! (Suc i + j))))"
      using False by (auto simp: bit_drop_bit_eq less_Suc_eq_0_disj)
    from Suc.IH [of "drop_bit 1 msk" "Suc i"] show ?thesis
    proof (elim disjE conjE exE)
      assume "FindByFp_loop keys pred n (drop_bit 1 msk) (Suc i) = kNanSlot"
        "\<forall>j < n. \<not> (bit (drop_bit 1 msk) j \<and> pred (keys ! (Suc i + j)))"
      then show ?thesis unfolding step using all by simp
    next
      fix j assume "j < n" "FindByFp_loop keys pred n (drop_bit 1 msk) (Suc i) = Suc i + j"
        "bit (drop_bit 1 msk) j" "pred (keys ! (Suc i + j))"
      then show ?thesis unfolding step
        by (intro disjI2 exI [of _ "Suc j"]) (simp add: bit_drop_bit_eq)
    qed
  qed
qed

lemma kNanSlot_gt: "kSlotNum < kNanSlot"
  by (simp add: kNanSlot_def)

lemma FindByFp_spec:
  assumes "base_wf b"
  shows "FindByFp b fp p pred = kNanSlot \<and>
           (\<forall>i. \<not> (busy b i \<and> finger_arr b ! i = fp \<and> probing b i = p \<and> pred (key b ! i))) \<or>
         (\<exists>i < kSlotNum. FindByFp b fp p pred = i \<and> busy b i \<and> finger_arr b ! i = fp \<and> probing b i = p
            \<and> pred (key b ! i))"
proof (cases "Find b fp p = 0")
  case True
  then have "\<not> bit (Find b fp p) i" for i by simp
  then have "\<forall>i. \<not> (busy b i \<and> finger_arr b ! i = fp \<and> probing b i = p \<and> pred (key b ! i))"
    unfolding bit_Find [OF assms] by blast
  then show ?thesis using True by (simp add: FindByFp_def)
next
  case False
  let ?m = "Find b fp p" and ?d = "ctz (Find b fp p)"
  have d: "bit ?m ?d" "\<And>j. j < ?d \<Longrightarrow> \<not> bit ?m j" using ctz_props [OF False] by auto
  have dlt: "?d < kSlotNum" using d(1) assms by (simp add: bit_Find busy_lt)
  have eq: "FindByFp b fp p pred = FindByFp_loop (key b) pred (kSlotNum - ?d) (drop_bit ?d ?m) ?d"
    using False by (simp add: FindByFp_def Let_def)
  from FindByFp_loop_spec [of "key b" pred "kSlotNum - ?d" "drop_bit ?d ?m" ?d]
  show ?thesis
  proof (elim disjE conjE exE)
    assume "FindByFp_loop (key b) pred (kSlotNum - ?d) (drop_bit ?d ?m) ?d = kNanSlot"
      and none: "\<forall>j < kSlotNum - ?d. \<not> (bit (drop_bit ?d ?m) j \<and> pred (key b ! (?d + j)))"
    moreover have "\<not> (bit ?m i \<and> pred (key b ! i))" for i
    proof (cases "?d \<le> i \<and> i < kSlotNum")
      case True
      then have "i - ?d < kSlotNum - ?d" by linarith
      then show ?thesis using none [rule_format, of "i - ?d"] True by (auto simp: bit_drop_bit_eq)
    next
      case False
      then show ?thesis using d(2) assms busy_lt [OF assms, of i] by (auto simp: bit_Find not_less)
    qed
    ultimately show ?thesis unfolding eq by (simp add: bit_Find [OF assms])
  next
    fix j assume "j < kSlotNum - ?d" "FindByFp_loop (key b) pred (kSlotNum - ?d) (drop_bit ?d ?m) ?d = ?d + j"
      "bit (drop_bit ?d ?m) j" "pred (key b ! (?d + j))"
    then show ?thesis unfolding eq
      by (intro disjI2 exI [of _ "?d + j"]) (auto simp: bit_drop_bit_eq bit_Find [OF assms])
  qed
qed

lemma FindByFp_found:
  assumes "base_wf b" and "FindByFp b fp p pred \<noteq> kNanSlot"
  shows "FindByFp b fp p pred < kSlotNum" "busy b (FindByFp b fp p pred)"
    "probing b (FindByFp b fp p pred) = p" "pred (key b ! FindByFp b fp p pred)"
  using FindByFp_spec [OF assms(1), of fp p pred] assms(2) by auto

lemma FindByFp_complete:
  assumes "base_wf b" and "(k, v, fp, p) \<in># slots b" and "pred k"
  shows "FindByFp b fp p pred \<noteq> kNanSlot"
  using FindByFp_spec [OF assms(1), of fp p pred] assms kNanSlot_gt
  by (auto simp: in_slots_iff slot_of_def)

subsection \<open>Visiting the slots\<close>

lemma ForEachSlot_loop_foldM:
  "ForEachSlot_loop cb n msk pm j s =
     foldM (\<lambda>i. cb i (bit pm (i - j))) (filter (\<lambda>i. bit msk (i - j)) [j..<j + n]) s"
proof (induction n arbitrary: msk pm j s)
  case 0
  then show ?case by simp
next
  case (Suc n)
  have upt: "[j..<j + Suc n] = j # [Suc j..<Suc j + n]" by (simp add: upt_conv_Cons)
  have rest: "foldM (\<lambda>i. cb i (bit (drop_bit 1 pm) (i - Suc j)))
        (filter (\<lambda>i. bit (drop_bit 1 msk) (i - Suc j)) [Suc j..<Suc j + n]) t =
      foldM (\<lambda>i. cb i (bit pm (i - j))) (filter (\<lambda>i. bit msk (i - j)) [Suc j..<Suc j + n]) t" for t
  proof -
    have "filter (\<lambda>i. bit (drop_bit 1 msk) (i - Suc j)) [Suc j..<Suc j + n] =
        filter (\<lambda>i. bit msk (i - j)) [Suc j..<Suc j + n]"
      by (rule filter_cong) (auto simp: bit_drop_bit_eq Suc_diff_Suc)
    moreover have "foldM (\<lambda>i. cb i (bit (drop_bit 1 pm) (i - Suc j))) xs t =
        foldM (\<lambda>i. cb i (bit pm (i - j))) xs t" if "set xs \<subseteq> {Suc j..}" for xs
      using that by (intro foldM_cong) (auto simp: bit_drop_bit_eq Suc_diff_Suc Suc_le_eq)
    ultimately show ?thesis by (simp add: subset_iff)
  qed
  show ?case
    unfolding ForEachSlot_loop.simps Suc.IH rest upt by (auto simp: and_1_bit split: bind_splits)
qed

lemma ForEachSlot_foldM:
  assumes "base_wf b"
  shows "ForEachSlot b cb s = foldM (\<lambda>i. cb i (probing b i)) (busy_slots b) s"
proof -
  have "foldM (\<lambda>i. cb i (bit (GetProbe b True) i)) (busy_slots b) s = foldM (\<lambda>i. cb i (probing b i)) (busy_slots b) s"
    by (rule foldM_cong) (auto simp: busy_slots_def GetProbe_def bit_sb_GetProbe)
  then show ?thesis
    by (simp add: ForEachSlot_def ForEachSlot_loop_foldM busy_slots_def GetBusy_def sb_GetBusy_def)
qed

subsection \<open>Inserting and deleting\<close>

lemma same_stashD:
  assumes "same_stash b b'"
  shows "ptrs b' p = ptrs b p" "overflow_count b' = overflow_count b" "HasStash b' = HasStash b"
  using assms
  by (simp_all add: same_stash_def ptrs_def ptr_slots_def ptr_of_def [abs_def] stash_pos_at_def HasStash_def)

lemma same_slotsD:
  fixes b b' :: "('k, 'v) Bucket"
  assumes "same_slots b b'"
  shows "slots b' = slots b" "key b' = key b" "value b' = value b" "finger_arr b' = finger_arr b"
    "slotb b' = slotb b" "Size b' = Size b"
proof -
  show k: "key b' = key b" and v: "value b' = value b"
    using assms by (cases b; cases b'; simp add: same_slots_def)+
  show "slots b' = slots b"
    using assms k v by (simp add: same_slots_def slots_def busy_slots_def slot_of_def [abs_def])
qed (use assms in \<open>simp_all add: same_slots_def Size_def\<close>)

lemma same_slots_refl [simp]: "same_slots b b"
  by (simp add: same_slots_def)

lemma same_slots_trans: "same_slots a b \<Longrightarrow> same_slots b c \<Longrightarrow> same_slots a c"
  by (simp add: same_slots_def)

lemma same_slots_wf: "bucket_wf b \<Longrightarrow> same_slots b b' \<Longrightarrow> base_wf b' \<Longrightarrow> bucket_wf b'"
  by (simp add: bucket_wf_def same_slotsD)

lemma put_wf: "bucket_wf b \<Longrightarrow> i < kSlotNum \<Longrightarrow> bucket_wf (put b i k v f p)"
  by (auto simp: bucket_wf_def base_wf_def put_def sb_wf_def bit_or_iff)

lemma put_same_stash [simp]: "same_stash b (put b i k v f p)"
  by (simp add: same_stash_def put_def)

lemma slots_put:
  assumes "bucket_wf b" "i < kSlotNum" "\<not> busy b i"
  shows "slots (put b i k v f p) = add_mset (k, v, f, p) (slots b)"
proof -
  let ?b = "put b i k v f p"
  have i32: "i < 32" using assms(2) kSlotNum_le(1) by (rule less_trans)
  have busy: "busy ?b j \<longleftrightarrow> busy b j \<or> j = i" for j
    using i32 by (auto simp: put_def bit_or_iff)
  have probe: "\<not> probing b i" using assms by (auto dest: probing_busy [rotated])
  have eq1: "mset (busy_slots ?b) = {#i#} + mset (filter (\<lambda>j. (busy ?b j) \<and> j \<noteq> i) [0..<kSlotNum])"
    unfolding busy_slots_def by (subst filter_upt_split [OF assms(2)]) (simp add: busy)
  have eq2: "filter (\<lambda>j. (busy ?b j) \<and> j \<noteq> i) [0..<kSlotNum] = busy_slots b"
    using assms(3) by (auto simp: busy_slots_def busy intro!: filter_cong)
  have at_i: "slot_of ?b i = (k, v, f, p)"
    using assms i32 probe by (simp add: slot_of_def put_def wf_simps bit_or_iff)
  have other: "slot_of ?b j = slot_of b j" if "j \<in> set (busy_slots b)" for j
  proof -
    have "j \<noteq> i" using that assms(3) by (auto simp: busy_slots_def)
    then show ?thesis by (simp add: slot_of_def put_def bit_or_iff)
  qed
  have "slots ?b = add_mset (slot_of ?b i) (image_mset (slot_of ?b) (mset (busy_slots b)))"
    unfolding slots_def eq1 eq2 by simp
  also have "image_mset (slot_of ?b) (mset (busy_slots b)) = slots b"
    unfolding slots_def by (rule image_mset_cong) (simp add: other)
  finally show ?thesis by (simp add: at_i)
qed

lemma Bucket_Insert_eq:
  assumes "bucket_wf b" "i < kSlotNum" "\<not> busy b i"
  shows "Bucket_Insert b i u v f p = Some (put b i (u (key b ! i)) (v (value b ! i)) f p)"
  using assms by (simp add: Bucket_Insert_def SetHash_def SetSlot_eq put_def wf_simps)

lemma TryInsertToBucket_full: "IsFull b \<Longrightarrow> TryInsertToBucket b u v f p = Some (None, b)"
  by (simp add: TryInsertToBucket_def)

lemma not_IsFull_sb: "\<not> IsFull b \<Longrightarrow> \<not> sb_IsFull (slotb b)"
  by (simp add: IsFull_def Size_def sb_IsFull_def)

lemma TryInsertToBucket_eq:
  assumes "bucket_wf b" "\<not> IsFull b"
  obtains i where "i < kSlotNum" "\<not> busy b i"
    "TryInsertToBucket b u v f p = Some (Some i, put b i (u (key b ! i)) (v (value b ! i)) f p)"
proof -
  let ?i = "first_empty (slotb b)"
  have sb: "sb_wf (slotb b)" "\<not> sb_IsFull (slotb b)"
    using assms by (simp_all add: not_IsFull_sb)
  note i = first_empty_props [OF sb]
  show ?thesis
  proof (rule that [OF i])
    show "TryInsertToBucket b u v f p = Some (Some ?i, put b ?i (u (key b ! ?i)) (v (value b ! ?i)) f p)"
      using assms by (simp add: TryInsertToBucket_def FindEmptySlot_eq [OF sb] Bucket_Insert_eq i)
  qed
qed

lemma Delete_eq: "base_wf b \<Longrightarrow> busy b i \<Longrightarrow> Delete b i = Some (ClearSlots b (push_bit i 1))"
  by (simp add: Delete_def ClearSlots_def ClearSlot_eq)

lemma ClearSlots_wf: "bucket_wf b \<Longrightarrow> bucket_wf (ClearSlots b msk)"
  by (simp add: bucket_wf_def base_wf_def ClearSlots_def sb_ClearSlots_wf)

lemma ClearSlots_same_stash [simp]: "same_stash b (ClearSlots b msk)"
  by (simp add: same_stash_def ClearSlots_def)

lemma busy_ClearSlots [simp]: "busy (ClearSlots b msk) i \<longleftrightarrow> busy b i \<and> \<not> bit msk i"
  by (simp add: ClearSlots_def bit_sb_ClearSlots)

lemma slots_ClearSlots:
  "slots (ClearSlots b msk) = image_mset (slot_of b) (mset (filter (\<lambda>i. \<not> bit msk i) (busy_slots b)))"
proof -
  have "busy_slots (ClearSlots b msk) = filter (\<lambda>i. \<not> bit msk i) (busy_slots b)"
    by (auto simp: busy_slots_def conj_commute intro!: filter_cong)
  moreover have "slot_of (ClearSlots b msk) i = slot_of b i" if "\<not> bit msk i" for i
    using that by (simp add: slot_of_def ClearSlots_def bit_sb_ClearSlots)
  ultimately show ?thesis by (auto simp: slots_def intro!: image_mset_cong)
qed

lemma slots_delete:
  assumes "base_wf b" "busy b i"
  shows "slots b = add_mset (slot_of b i) (slots (ClearSlots b (push_bit i 1)))"
proof -
  have i: "i < kSlotNum" using assms by (rule busy_lt)
  have i32: "i < 32" using i kSlotNum_le(1) by (rule less_trans)
  have "mset (busy_slots b) = {#i#} + mset (filter (\<lambda>j. (busy b j) \<and> j \<noteq> i) [0..<kSlotNum])"
    unfolding busy_slots_def using assms(2) by (subst filter_upt_split [OF i]) simp
  also have "filter (\<lambda>j. (busy b j) \<and> j \<noteq> i) [0..<kSlotNum] = filter (\<lambda>j. \<not> bit (push_bit i 1 :: u32) j) (busy_slots b)"
    using i32 by (auto simp: busy_slots_def conj_commute intro!: filter_cong)
  finally have "slots b = image_mset (slot_of b) ({#i#} + mset (filter (\<lambda>j. \<not> bit (push_bit i 1 :: u32) j) (busy_slots b)))"
    unfolding slots_def by (rule arg_cong)
  then show ?thesis unfolding slots_ClearSlots by simp
qed

subsection \<open>Stash pointers\<close>

lemma three_mask: "(3 :: u8) = mask 2"
  by (simp add: mask_eq_exp_minus_1)

lemma bit_nat_lt4:
  assumes "s < (4 :: nat)" and "bit s n"
  shows "n < 2"
proof (rule ccontr)
  assume "\<not> n < 2"
  then have "(2 :: nat) ^ 2 \<le> 2 ^ n" by (intro power_increasing) auto
  then have "s div 2 ^ n = 0" using assms(1) by simp
  with assms(2) show False by (simp add: bit_iff_odd)
qed

lemma pos_clear_other:
  fixes w :: u8
  assumes "i < 4" "j < 4" "i \<noteq> j"
  shows "drop_bit (j * 2) (w AND NOT (push_bit (i * 2) 3)) AND 3 = drop_bit (j * 2) w AND 3"
  unfolding three_mask
  by (rule bit_word_eqI) (use assms in \<open>auto simp: bit_simps\<close>)

lemma pos_set:
  fixes w :: u8
  assumes "i < 4" "j < 4" "s < 4"
  shows "drop_bit (j * 2) ((w AND NOT (push_bit (i * 2) 3)) OR push_bit (i * 2) (of_nat s)) AND 3 =
     (if j = i then of_nat s else drop_bit (j * 2) w AND 3)"
  unfolding three_mask
proof (rule bit_word_eqI)
  fix n assume "n < LENGTH(8)"
  then show "bit (drop_bit (j * 2) ((w AND NOT (push_bit (i * 2) (mask 2))) OR push_bit (i * 2) (of_nat s)) AND mask 2) n =
     bit (if j = i then of_nat s else drop_bit (j * 2) w AND mask 2) n"
    using assms bit_nat_lt4 [OF assms(3), of n] bit_nat_lt4 [OF assms(3), of "j * 2 + n - i * 2"]
    by (auto simp: bit_simps)
qed

lemma IterateStash_loop_spec:
  "IterateStash_loop b fp func n ob om i = (0, kNanSlot) \<and>
     (\<forall>j < n. bit ob j \<and> stash_arr b ! (i + j) = fp \<and> bit om j \<longrightarrow> func (i + j) (stash_pos_at b (i + j)) = kNanSlot) \<or>
   (\<exists>j < n. bit ob j \<and> stash_arr b ! (i + j) = fp \<and> bit om j \<and> func (i + j) (stash_pos_at b (i + j)) \<noteq> kNanSlot \<and>
     IterateStash_loop b fp func n ob om i = (stash_pos_at b (i + j), func (i + j) (stash_pos_at b (i + j))))"
  (is "?none n ob om i \<or> (\<exists>j < n. ?hit n ob om i j)")
proof (induction n arbitrary: ob om i)
  case 0
  then show ?case by simp
next
  case (Suc n)
  show ?case
  proof (cases "bit ob 0 \<and> stash_arr b ! i = fp \<and> bit om 0 \<and> func i (stash_pos_at b i) \<noteq> kNanSlot")
    case True
    then show ?thesis by (intro disjI2 exI [of _ 0]) (simp add: and_1_bit)
  next
    case False
    then have step: "IterateStash_loop b fp func (Suc n) ob om i =
        IterateStash_loop b fp func n (drop_bit 1 ob) (drop_bit 1 om) (Suc i)"
      by (auto simp: and_1_bit)
    from Suc.IH [of "drop_bit 1 ob" "drop_bit 1 om" "Suc i"] show ?thesis
    proof
      assume "?none n (drop_bit 1 ob) (drop_bit 1 om) (Suc i)"
      then show ?thesis unfolding step using False
        by (auto simp: bit_drop_bit_eq less_Suc_eq_0_disj)
    next
      assume "\<exists>j < n. ?hit n (drop_bit 1 ob) (drop_bit 1 om) (Suc i) j"
      then obtain j where "j < n" "?hit n (drop_bit 1 ob) (drop_bit 1 om) (Suc i) j" by blast
      then show ?thesis unfolding step
        by (intro disjI2 exI [of _ "Suc j"]) (simp add: bit_drop_bit_eq)
    qed
  qed
qed

lemma ClearStash_loop_spec:
  "ClearStash_loop b fp spos n ob om i = (False, b) \<and>
     (\<forall>j < n. \<not> (bit ob j \<and> stash_arr b ! (i + j) = fp \<and> bit om j \<and> stash_pos_at b (i + j) = spos)) \<or>
   (\<exists>j < n. bit ob j \<and> stash_arr b ! (i + j) = fp \<and> bit om j \<and> stash_pos_at b (i + j) = spos \<and>
     ClearStash_loop b fp spos n ob om i = (True, SClearAt b (i + j)))"
  (is "?none n ob om i \<or> (\<exists>j < n. ?hit n ob om i j)")
proof (induction n arbitrary: ob om i)
  case 0
  then show ?case by simp
next
  case (Suc n)
  show ?case
  proof (cases "bit ob 0 \<and> stash_arr b ! i = fp \<and> bit om 0 \<and> stash_pos_at b i = spos")
    case True
    then show ?thesis by (intro disjI2 exI [of _ 0]) (simp add: and_1_bit)
  next
    case False
    then have step: "ClearStash_loop b fp spos (Suc n) ob om i =
        ClearStash_loop b fp spos n (drop_bit 1 ob) (drop_bit 1 om) (Suc i)"
      by (auto simp: and_1_bit)
    from Suc.IH [of "drop_bit 1 ob" "drop_bit 1 om" "Suc i"] show ?thesis
    proof
      assume "?none n (drop_bit 1 ob) (drop_bit 1 om) (Suc i)"
      then show ?thesis unfolding step using False
        by (auto simp: bit_drop_bit_eq less_Suc_eq_0_disj)
    next
      assume "\<exists>j < n. ?hit n (drop_bit 1 ob) (drop_bit 1 om) (Suc i) j"
      then obtain j where "j < n" "?hit n (drop_bit 1 ob) (drop_bit 1 om) (Suc i) j" by blast
      then show ?thesis unfolding step
        by (intro disjI2 exI [of _ "Suc j"]) (simp add: bit_drop_bit_eq)
    qed
  qed
qed

lemma bit_probe_sel:
  assumes "j < kStashFpLen"
  shows "bit (if pr then ucast (w :: u8) else NOT (ucast w) :: u32) j \<longleftrightarrow> bit w j = pr"
  using assms by (auto simp: bit_simps kStashFpLen_def)

lemma in_ptr_slots: "i \<in> set (ptr_slots b pr) \<longleftrightarrow>
    i < kStashFpLen \<and> bit (stash_busy b) i \<and> bit (stash_probe_mask b) i = pr"
  by (auto simp: ptr_slots_def)

lemma bit_ob: "j < kStashFpLen \<Longrightarrow> bit (ucast (w :: u8) :: u32) j \<longleftrightarrow> bit w j"
  by (auto simp: bit_simps kStashFpLen_def)

text \<open>\<open>IterateStash\<close> calls the function on the pointers with the fingerprint and the probe flag
  until it returns a slot.\<close>

lemma IterateStash_cases:
  obtains (None) "IterateStash b fp pr func = (0, kNanSlot)"
      "\<And>sp. (fp, sp) \<in># ptrs b pr \<Longrightarrow> (\<And>i. func i sp = g sp) \<Longrightarrow> g sp = kNanSlot"
    | (Some) i where "i \<in> set (ptr_slots b pr)" "func i (stash_pos_at b i) \<noteq> kNanSlot"
      "IterateStash b fp pr func = (stash_pos_at b i, func i (stash_pos_at b i))"
proof -
  let ?om = "if pr then ucast (stash_probe_mask b) else NOT (ucast (stash_probe_mask b)) :: u32"
  have eq: "IterateStash b fp pr func = IterateStash_loop b fp func kStashFpLen (ucast (stash_busy b)) ?om 0"
    by (simp add: IterateStash_def Let_def)
  from IterateStash_loop_spec [of b fp func kStashFpLen "ucast (stash_busy b)" ?om 0]
  show ?thesis
  proof (elim disjE conjE exE)
    assume 1: "IterateStash_loop b fp func kStashFpLen (ucast (stash_busy b)) ?om 0 = (0, kNanSlot)"
      and 2: "\<forall>j < kStashFpLen. bit (ucast (stash_busy b) :: u32) j \<and> stash_arr b ! (0 + j) = fp \<and> bit ?om j \<longrightarrow>
        func (0 + j) (stash_pos_at b (0 + j)) = kNanSlot"
    show ?thesis
    proof (rule None)
      show "IterateStash b fp pr func = (0, kNanSlot)" using 1 by (simp only: eq)
      fix sp assume "(fp, sp) \<in># ptrs b pr" and g: "\<And>i. func i sp = g sp"
      then obtain i where i: "i \<in> set (ptr_slots b pr)" "stash_arr b ! i = fp" "stash_pos_at b i = sp"
        by (auto simp: ptrs_def ptr_of_def)
      then have "i < kStashFpLen" by (simp add: in_ptr_slots)
      with 2 [rule_format, of i] i have "func i sp = kNanSlot"
        by (simp add: bit_probe_sel bit_ob in_ptr_slots)
      then show "g sp = kNanSlot" by (simp add: g)
    qed
  next
    fix j assume "j < kStashFpLen" "bit (ucast (stash_busy b) :: u32) j" "bit ?om j"
      "func (0 + j) (stash_pos_at b (0 + j)) \<noteq> kNanSlot"
      "IterateStash_loop b fp func kStashFpLen (ucast (stash_busy b)) ?om 0 =
        (stash_pos_at b (0 + j), func (0 + j) (stash_pos_at b (0 + j)))"
    then show ?thesis by (intro Some [of j]) (simp_all add: eq in_ptr_slots bit_probe_sel bit_ob)
  qed
qed

lemma SClearAt_same_slots [simp]: "same_slots b (SClearAt b i)"
  by (simp add: same_slots_def SClearAt_def)

lemma SClearAt_wf: "base_wf b \<Longrightarrow> base_wf (SClearAt b i)"
  by (auto simp: base_wf_def SClearAt_def bit_and_iff bit_not_iff)

lemma SClearAt_present:
  "i < kStashFpLen \<Longrightarrow> bit (stash_busy (SClearAt b i)) 4 \<longleftrightarrow> bit (stash_busy b) 4"
  "overflow_count (SClearAt b i) = overflow_count b"
  by (auto simp: SClearAt_def bit_and_iff bit_not_iff kStashFpLen_def)

lemma ptr_slots_split:
  assumes "i \<in> set (ptr_slots b pr)"
  shows "mset (ptr_slots b pr) = {#i#} + mset (ptr_slots (SClearAt b i) pr)"
    and "ptr_slots (SClearAt b i) (\<not> pr) = ptr_slots b (\<not> pr)"
proof -
  have i: "i < kStashFpLen" "bit (stash_busy b) i" "bit (stash_probe_mask b) i = pr"
    using assms by (auto simp: in_ptr_slots)
  then have "i < 8" by (simp add: kStashFpLen_def)
  then have bits: "bit (stash_busy (SClearAt b i)) j \<longleftrightarrow> bit (stash_busy b) j \<and> j \<noteq> i"
      "bit (stash_probe_mask (SClearAt b i)) j \<longleftrightarrow> bit (stash_probe_mask b) j \<and> j \<noteq> i" for j
    using bit_imp_le_length [of "stash_busy b" j] bit_imp_le_length [of "stash_probe_mask b" j]
    by (auto simp: SClearAt_def bit_and_iff bit_not_iff)
  show "mset (ptr_slots b pr) = {#i#} + mset (ptr_slots (SClearAt b i) pr)"
    unfolding ptr_slots_def using i
    by (subst filter_upt_split [OF i(1)]) (auto simp: bits intro!: arg_cong [where f = mset] filter_cong)
  show "ptr_slots (SClearAt b i) (\<not> pr) = ptr_slots b (\<not> pr)"
    unfolding ptr_slots_def using i by (auto simp: bits intro!: filter_cong)
qed

lemma ptr_of_SClearAt: "i < kStashFpLen \<Longrightarrow> j < kStashFpLen \<Longrightarrow> j \<noteq> i \<Longrightarrow> ptr_of (SClearAt b i) j = ptr_of b j"
  using pos_clear_other [of i j "stash_pos b"]
  by (simp add: ptr_of_def stash_pos_at_def SClearAt_def kStashFpLen_def del: drop_bit_and)

lemma ptrs_SClearAt:
  assumes "i \<in> set (ptr_slots b pr)"
  shows "ptrs b pr = add_mset (ptr_of b i) (ptrs (SClearAt b i) pr)"
    and "ptrs (SClearAt b i) (\<not> pr) = ptrs b (\<not> pr)"
proof -
  have i: "i < kStashFpLen" using assms by (simp add: in_ptr_slots)
  have "j \<noteq> i" if "j \<in> set (ptr_slots (SClearAt b i) q)" for j q
    using that i by (auto simp: in_ptr_slots SClearAt_def bit_and_iff bit_not_iff kStashFpLen_def)
  then have frame: "image_mset (ptr_of (SClearAt b i)) (mset (ptr_slots (SClearAt b i) q)) =
      image_mset (ptr_of b) (mset (ptr_slots (SClearAt b i) q))" for q
    using i by (intro image_mset_cong) (auto simp: in_ptr_slots intro!: ptr_of_SClearAt)
  show "ptrs b pr = add_mset (ptr_of b i) (ptrs (SClearAt b i) pr)"
    unfolding ptrs_def frame ptr_slots_split(1) [OF assms] by simp
  show "ptrs (SClearAt b i) (\<not> pr) = ptrs b (\<not> pr)"
    unfolding ptrs_def frame unfolding ptr_slots_split(2) [OF assms] ..
qed

lemma ClearStash_cases:
  obtains (Miss) "(fp, sp) \<notin># ptrs b pr" "ClearStash b fp sp pr = (False, b)"
    | (Hit) b' where "(fp, sp) \<in># ptrs b pr" "ClearStash b fp sp pr = (True, b')"
      "ptrs b pr = add_mset (fp, sp) (ptrs b' pr)" "ptrs b' (\<not> pr) = ptrs b (\<not> pr)"
      "same_slots b b'" "base_wf b \<Longrightarrow> base_wf b'" "overflow_count b' = overflow_count b"
      "bit (stash_busy b') 4 = bit (stash_busy b) 4"
proof -
  let ?om = "if pr then ucast (stash_probe_mask b) else NOT (ucast (stash_probe_mask b)) :: u32"
  have eq: "ClearStash b fp sp pr = ClearStash_loop b fp sp kStashFpLen (ucast (stash_busy b)) ?om 0"
    by (simp add: ClearStash_def Let_def)
  from ClearStash_loop_spec [of b fp sp kStashFpLen "ucast (stash_busy b)" ?om 0]
  show ?thesis
  proof (elim disjE conjE exE)
    assume 1: "ClearStash_loop b fp sp kStashFpLen (ucast (stash_busy b)) ?om 0 = (False, b)"
      and 2: "\<forall>j < kStashFpLen. \<not> (bit (ucast (stash_busy b) :: u32) j \<and> stash_arr b ! (0 + j) = fp \<and> bit ?om j \<and>
        stash_pos_at b (0 + j) = sp)"
    have "(fp, sp) \<notin># ptrs b pr"
      using 2 by (auto simp: ptrs_def ptr_of_def in_ptr_slots bit_ob bit_probe_sel simp del: not_all)
    then show ?thesis by (rule Miss) (use 1 in \<open>simp only: eq\<close>)
  next
    fix j assume j: "j < kStashFpLen" "bit (ucast (stash_busy b) :: u32) j" "bit ?om j"
      and at: "stash_arr b ! (0 + j) = fp" "stash_pos_at b (0 + j) = sp"
      and res: "ClearStash_loop b fp sp kStashFpLen (ucast (stash_busy b)) ?om 0 = (True, SClearAt b (0 + j))"
    have mem: "j \<in> set (ptr_slots b pr)" using j by (simp add: in_ptr_slots bit_ob bit_probe_sel)
    have ptr: "ptr_of b j = (fp, sp)" using at by (simp add: ptr_of_def)
    show ?thesis
    proof (rule Hit [of "SClearAt b j"])
      show "ptrs b pr = add_mset (fp, sp) (ptrs (SClearAt b j) pr)"
        using ptrs_SClearAt(1) [OF mem] by (simp only: ptr)
      then show "(fp, sp) \<in># ptrs b pr" by simp
    qed (use res mem j in \<open>simp_all add: eq ptrs_SClearAt SClearAt_wf SClearAt_present\<close>)
  qed
qed

lemma SetStash_cases [consumes 2, case_names Full Ok]:
  assumes "base_wf b" and "sp < 4"
  obtains (Full) "SetStash b fp sp pr = (False, b)"
    | (Ok) b' where "SetStash b fp sp pr = (True, b')"
      "ptrs b' pr = add_mset (fp, sp) (ptrs b pr)" "ptrs b' (\<not> pr) = ptrs b (\<not> pr)"
      "same_slots b b'" "base_wf b'" "overflow_count b' = overflow_count b"
      "bit (stash_busy b') 4 = bit (stash_busy b) 4"
proof -
  let ?fs = "ctz (NOT (ucast (stash_busy b)))"
  show ?thesis
  proof (cases "?fs < kStashFpLen")
    case False
    then show ?thesis by (intro Full) (simp add: SetStash_def Let_def)
  next
    case True
    define b' where "b' = snd (SetStash b fp sp pr)"
    have fs: "?fs < 4" using True by (simp add: kStashFpLen_def)
    have "NOT (ucast (stash_busy b)) \<noteq> (0 :: u32)" using fs by (auto simp: ctz_0)
    then have "bit (NOT (ucast (stash_busy b)) :: u32) ?fs" by (rule ctz_props)
    then have free: "\<not> bit (stash_busy b) ?fs" using fs by (simp add: bit_simps)
    have nprobe: "\<not> bit (stash_probe_mask b) ?fs" using assms(1) free by (auto simp: base_wf_def)
    have res: "SetStash b fp sp pr = (True, b')"
      using True by (simp add: b'_def SetStash_def Let_def)
    have bits: "bit (stash_busy b') j \<longleftrightarrow> bit (stash_busy b) j \<or> j = ?fs"
        "bit (stash_probe_mask b') j \<longleftrightarrow> bit (stash_probe_mask b) j \<or> j = ?fs \<and> pr" for j
      using True fs by (auto simp: b'_def SetStash_def Let_def bit_or_iff)
    have split: "mset (ptr_slots b' pr) = {#?fs#} + mset (ptr_slots b pr)"
      unfolding ptr_slots_def using True free nprobe
      by (subst filter_upt_split [OF True]) (auto simp: bits intro!: arg_cong [where f = mset] filter_cong)
    have rest: "ptr_slots b' (\<not> pr) = ptr_slots b (\<not> pr)"
      unfolding ptr_slots_def using free nprobe by (auto simp: bits intro!: filter_cong)
    have at: "ptr_of b' ?fs = (fp, sp)"
      using True fs assms pos_set [OF fs fs assms(2), of "stash_pos b"]
      by (simp add: ptr_of_def b'_def SetStash_def Let_def stash_pos_at_def wf_simps unat_of_nat
        del: drop_bit_and drop_bit_or)
    have other: "ptr_of b' j = ptr_of b j" if "j < kStashFpLen" "j \<noteq> ?fs" for j
      using that True fs pos_set [OF fs _ assms(2), of j "stash_pos b"]
      by (simp add: ptr_of_def b'_def SetStash_def Let_def stash_pos_at_def kStashFpLen_def
        del: drop_bit_and drop_bit_or)
    have frame: "image_mset (ptr_of b') (mset (ptr_slots b q)) = ptrs b q" for q
      unfolding ptrs_def using free
      by (intro image_mset_cong other) (auto simp: in_ptr_slots)
    show ?thesis
    proof (rule Ok [OF res])
      show "ptrs b' pr = add_mset (fp, sp) (ptrs b pr)"
        unfolding ptrs_def [of b' pr] split by (simp add: at frame)
      show "ptrs b' (\<not> pr) = ptrs b (\<not> pr)"
        unfolding ptrs_def [of b' "\<not> pr"] rest by (simp add: frame)
      show "same_slots b b'" and "overflow_count b' = overflow_count b"
        using True by (simp_all add: same_slots_def b'_def SetStash_def Let_def)
      show "bit (stash_busy b') 4 = bit (stash_busy b) 4" using fs by (simp add: bits)
      have "slotb b' = slotb b" "finger_arr b' = finger_arr b" "length (stash_arr b') = length (stash_arr b)"
        using True by (simp_all add: b'_def SetStash_def Let_def)
      then show "base_wf b'" using assms(1) fs by (auto simp: base_wf_def bits)
    qed
  qed
qed

lemma bit_present: "bit kStashPresentBit i \<longleftrightarrow> i = 4"
  unfolding kStashPresentBit_def push_bit_of_1 bit_exp_word by simp

lemma HasStash_iff: "HasStash b \<longleftrightarrow> bit (stash_busy b) 4"
  unfolding HasStash_def kStashPresentBit_def push_bit_of_1
  by (simp only: and_exp_eq_0_iff_not_bit not_not)

lemma bit_present_mask: "bit (kStashPresentBit - 1) i \<longleftrightarrow> i < kStashFpLen"
proof -
  have "kStashPresentBit - 1 = mask 4" by (simp add: kStashPresentBit_def mask_eq_exp_minus_1)
  then show ?thesis by (auto simp: bit_mask_iff kStashFpLen_def possible_bit_def)
qed

lemma no_own_ptrs: "(stash_busy b AND (kStashPresentBit - 1)) AND NOT (stash_probe_mask b) = 0 \<longleftrightarrow> ptrs b False = {#}"
proof -
  have "(stash_busy b AND (kStashPresentBit - 1)) AND NOT (stash_probe_mask b) = 0 \<longleftrightarrow>
      (\<forall>i < kStashFpLen. \<not> (bit (stash_busy b) i \<and> \<not> bit (stash_probe_mask b) i))"
    unfolding bit_eq_iff by (auto simp: bit_and_iff bit_not_iff bit_present_mask kStashFpLen_def)
  also have "\<dots> \<longleftrightarrow> ptr_slots b False = []"
    by (auto simp: ptr_slots_def filter_empty_conv)
  finally show ?thesis by (simp add: ptrs_def)
qed

lemma no_probe_ptrs: "(stash_busy b AND (kStashPresentBit - 1)) AND stash_probe_mask b = 0 \<longleftrightarrow> ptrs b True = {#}"
proof -
  have "(stash_busy b AND (kStashPresentBit - 1)) AND stash_probe_mask b = 0 \<longleftrightarrow>
      (\<forall>i < kStashFpLen. \<not> (bit (stash_busy b) i \<and> bit (stash_probe_mask b) i))"
    unfolding bit_eq_iff by (auto simp: bit_and_iff bit_present_mask kStashFpLen_def)
  also have "\<dots> \<longleftrightarrow> ptr_slots b True = []"
    by (auto simp: ptr_slots_def filter_empty_conv)
  finally show ?thesis by (simp add: ptrs_def)
qed

text \<open>Setting and clearing the present bit touches no pointer.\<close>

lemma present_bit_frame:
  assumes "b' = b\<lparr>stash_busy := stash_busy b OR kStashPresentBit\<rparr> \<or>
           b' = b\<lparr>stash_busy := stash_busy b AND NOT kStashPresentBit\<rparr>"
  shows "ptrs b' p = ptrs b p" "same_slots b b'" "overflow_count b' = overflow_count b"
    "base_wf b \<Longrightarrow> base_wf b'"
proof -
  have bits: "bit (stash_busy b') i = bit (stash_busy b) i" if "i < kStashFpLen" for i
    using assms that by (auto simp: bit_present kStashFpLen_def bit_or_iff bit_and_iff bit_not_iff)
  have "ptr_slots b' p = ptr_slots b p"
    unfolding ptr_slots_def using assms by (intro filter_cong) (auto simp: bits)
  moreover have "ptr_of b' = ptr_of b"
    using assms by (auto simp: ptr_of_def stash_pos_at_def fun_eq_iff)
  ultimately show "ptrs b' p = ptrs b p" by (simp add: ptrs_def)
  show "same_slots b b'" "overflow_count b' = overflow_count b"
    using assms by (auto simp: same_slots_def)
  have 5: "bit (stash_busy b') i \<Longrightarrow> bit (stash_busy b) i \<or> i = 4" for i
    using assms by (auto simp: bit_present bit_or_iff bit_and_iff)
  show "base_wf b'" if wf: "base_wf b"
  proof -
    have "slotb b' = slotb b" "finger_arr b' = finger_arr b" "stash_arr b' = stash_arr b"
      "stash_probe_mask b' = stash_probe_mask b" using assms by auto
    then show ?thesis using wf 5 bits unfolding base_wf_def kStashFpLen_def by fastforce
  qed
qed

text \<open>What a step that works on the stash pointers of a bucket \<open>b\<close> and its neighbour \<open>nx\<close> keeps.\<close>

definition stash_frame :: "'z BucketBase_scheme \<Rightarrow> 'z BucketBase_scheme \<Rightarrow> 'z BucketBase_scheme
    \<Rightarrow> 'z BucketBase_scheme \<Rightarrow> bool" where
  "stash_frame b nx b' nx' \<longleftrightarrow> same_slots b b' \<and> same_slots nx nx' \<and> base_wf b' \<and> base_wf nx' \<and>
     ptrs b' True = ptrs b True \<and> ptrs nx' False = ptrs nx False \<and>
     overflow_count nx' = overflow_count nx \<and> HasStash nx' = HasStash nx"

lemma word8_unat_Suc: "unat (w :: u8) < 255 \<Longrightarrow> unat (w + 1) = unat w + 1"
  by (simp add: unat_word_ariths)

lemma word8_unat_pred: "(w :: u8) > 0 \<Longrightarrow> unat (w - 1) + 1 = unat w"
  using unat_gt_0 [of w] by (simp add: unat_minus_one word_gt_0)

lemma SetStashPtr_spec:
  assumes wf: "base_wf b" "base_wf nx" and sp: "sp < 4" and ov: "unat (overflow_count b) < 255"
  obtains b' nx' where "SetStashPtr b sp fp nx = Some (b', nx')" "stash_frame b nx b' nx'" "HasStash b'"
    "ptrs b' False + ptrs nx' True = add_mset (fp, sp) (ptrs b False + ptrs nx True) \<and>
       overflow_count b' = overflow_count b \<or>
     ptrs b' False + ptrs nx' True = ptrs b False + ptrs nx True \<and>
       unat (overflow_count b') = unat (overflow_count b) + 1"
proof -
  let ?P = "\<lambda>b. b\<lparr>stash_busy := stash_busy b OR kStashPresentBit\<rparr>"
  note pb = present_bit_frame [OF disjI1, OF refl]
  have has: "HasStash (?P c)" for c :: "'a BucketBase_scheme"
    by (simp add: HasStash_iff bit_or_iff bit_present)
  show ?thesis
    using wf(1) sp
  proof (cases rule: SetStash_cases [where fp = fp and pr = False])
    case (Ok b1)
    show ?thesis
    proof (rule that [of "?P b1" nx])
      show "stash_frame b nx (?P b1) nx"
        using Ok wf pb(2) [of b1] by (auto simp: stash_frame_def pb(1,4) intro: same_slots_trans)
    qed (use Ok sp has in \<open>simp_all add: SetStashPtr_def pb(1)\<close>)
  next
    case Full
    show ?thesis
      using wf(2) sp
    proof (cases rule: SetStash_cases [where fp = fp and pr = True])
      case (Ok n1)
      show ?thesis
      proof (rule that [of "?P b" n1])
        show "stash_frame b nx (?P b) n1"
          using Ok wf by (auto simp: stash_frame_def pb(1,2,4) HasStash_iff)
      qed (use Full Ok sp has in \<open>simp_all add: SetStashPtr_def pb(1)\<close>)
    next
      case none: Full
      let ?b1 = "b\<lparr>overflow_count := overflow_count b + 1\<rparr>"
      have ptrs: "ptrs ?b1 q = ptrs b q" for q
        by (simp add: ptrs_def ptr_slots_def ptr_of_def [abs_def] stash_pos_at_def)
      have wf1: "base_wf ?b1" using wf(1) by (simp add: base_wf_def)
      have same: "same_slots b (?P ?b1)"
        using pb(2) [of ?b1] by (auto simp: same_slots_def)
      have "base_wf (?P ?b1)" using pb(4) [of ?b1] wf1 by blast
      show ?thesis
      proof (rule that [of "?P ?b1" nx])
        show "stash_frame b nx (?P ?b1) nx"
          using wf wf1 same pb(1) [of ?b1] pb(4) [of ?b1] by (auto simp: stash_frame_def ptrs)
        show "ptrs (?P ?b1) False + ptrs nx True = add_mset (fp, sp) (ptrs b False + ptrs nx True) \<and>
            overflow_count (?P ?b1) = overflow_count b \<or>
          ptrs (?P ?b1) False + ptrs nx True = ptrs b False + ptrs nx True \<and>
            unat (overflow_count (?P ?b1)) = unat (overflow_count b) + 1"
          using pb(1) [of ?b1] word8_unat_Suc [OF ov] by (simp add: ptrs)
        show "SetStashPtr b sp fp nx = Some (?P ?b1, nx)"
          using Full none sp by (simp add: SetStashPtr_def)
        show "HasStash (?P ?b1)" by (rule has)
      qed
    qed
  qed
qed

text \<open>The last part of \<open>UnsetStashPtr\<close>: the present bit goes when nothing is left.\<close>

definition drop_present :: "'z BucketBase_scheme \<Rightarrow> 'z BucketBase_scheme \<Rightarrow> 'z BucketBase_scheme" where
  "drop_present b nx =
     (if (stash_busy b AND (kStashPresentBit - 1)) AND NOT (stash_probe_mask b) = 0 \<and> overflow_count b = 0
         \<and> (stash_busy nx AND (kStashPresentBit - 1)) AND stash_probe_mask nx = 0
      then b\<lparr>stash_busy := stash_busy b AND NOT kStashPresentBit\<rparr> else b)"

lemma drop_present_frame:
  "ptrs (drop_present b nx) p = ptrs b p" "same_slots b (drop_present b nx)"
  "overflow_count (drop_present b nx) = overflow_count b" "base_wf b \<Longrightarrow> base_wf (drop_present b nx)"
  "HasStash (drop_present b nx) \<longleftrightarrow> HasStash b \<and> \<not> (ptrs b False + ptrs nx True = {#} \<and> overflow_count b = 0)"
proof -
  let ?D = "b\<lparr>stash_busy := stash_busy b AND NOT kStashPresentBit\<rparr>"
  have d: "drop_present b nx = (if ptrs b False = {#} \<and> overflow_count b = 0 \<and> ptrs nx True = {#} then ?D else b)"
    by (simp add: drop_present_def no_own_ptrs no_probe_ptrs)
  note pb = present_bit_frame [OF disjI2, OF refl, of b]
  show "ptrs (drop_present b nx) p = ptrs b p" "same_slots b (drop_present b nx)"
    "overflow_count (drop_present b nx) = overflow_count b" "base_wf b \<Longrightarrow> base_wf (drop_present b nx)"
    using pb by (simp_all add: d)
  show "HasStash (drop_present b nx) \<longleftrightarrow> HasStash b \<and> \<not> (ptrs b False + ptrs nx True = {#} \<and> overflow_count b = 0)"
    by (auto simp: d HasStash_iff bit_and_iff bit_not_iff bit_present)
qed

lemma UnsetStashPtr_drop:
  "UnsetStashPtr b fp sp nx =
     (let (ok, b1) = ClearStash b fp sp False;
          (ok2, nx1) = (if ok then (True, nx) else ClearStash nx fp sp True)
      in if ok2 then Some (if ok then 0 else 1, drop_present b1 nx1, nx1)
         else if overflow_count b1 > 0
         then Some (0, drop_present (b1\<lparr>overflow_count := overflow_count b1 - 1\<rparr>) nx1, nx1) else None)"
  by (auto simp: UnsetStashPtr_def drop_present_def Let_def split: prod.splits)

lemma UnsetStashPtr_spec:
  assumes wf: "base_wf b" "base_wf nx"
    and pre: "(fp, sp) \<in># ptrs b False + ptrs nx True \<or> overflow_count b > 0"
  obtains r b' nx' where "UnsetStashPtr b fp sp nx = Some (r, b', nx')" "stash_frame b nx b' nx'"
    "(fp, sp) \<in># ptrs b False + ptrs nx True \<Longrightarrow>
       ptrs b False + ptrs nx True = add_mset (fp, sp) (ptrs b' False + ptrs nx' True) \<and>
       overflow_count b' = overflow_count b"
    "(fp, sp) \<notin># ptrs b False + ptrs nx True \<Longrightarrow>
       ptrs b' False + ptrs nx' True = ptrs b False + ptrs nx True \<and>
       unat (overflow_count b') + 1 = unat (overflow_count b)"
    "HasStash b' \<longleftrightarrow> HasStash b \<and> \<not> (ptrs b' False + ptrs nx' True = {#} \<and> overflow_count b' = 0)"
proof (cases rule: ClearStash_cases [of fp sp b False])
  case (Hit b1)
  show ?thesis
  proof (rule that [of 0 "drop_present b1 nx" nx])
    show "stash_frame b nx (drop_present b1 nx) nx"
      using Hit wf drop_present_frame [of b1 nx] by (auto simp: stash_frame_def intro: same_slots_trans)
  qed (use Hit drop_present_frame [of b1 nx] in \<open>auto simp: UnsetStashPtr_drop HasStash_iff\<close>)
next
  case Miss
  show ?thesis
  proof (cases rule: ClearStash_cases [of fp sp nx True])
    case (Hit n1)
    show ?thesis
    proof (rule that [of 1 "drop_present b n1" n1])
      show "stash_frame b nx (drop_present b n1) n1"
        using Hit wf drop_present_frame [of b n1] by (auto simp: stash_frame_def HasStash_iff)
    qed (use Miss Hit drop_present_frame [of b n1] in \<open>auto simp: UnsetStashPtr_drop HasStash_iff\<close>)
  next
    case miss2: Miss
    let ?b1 = "b\<lparr>overflow_count := overflow_count b - 1\<rparr>"
    have pos: "overflow_count b > 0" using pre Miss miss2 by simp
    have ptrs: "ptrs ?b1 q = ptrs b q" for q
      by (simp add: ptrs_def ptr_slots_def ptr_of_def [abs_def] stash_pos_at_def)
    have wf1: "base_wf ?b1" using wf(1) by (simp add: base_wf_def)
    have same: "same_slots b ?b1" by (simp add: same_slots_def)
    note dp = drop_present_frame [of ?b1 nx]
    show ?thesis
    proof (rule that [of 0 "drop_present ?b1 nx" nx])
      show "stash_frame b nx (drop_present ?b1 nx) nx"
        using dp wf wf1 same by (auto simp: stash_frame_def ptrs intro: same_slots_trans)
      show "HasStash (drop_present ?b1 nx) \<longleftrightarrow>
        HasStash b \<and> \<not> (ptrs (drop_present ?b1 nx) False + ptrs nx True = {#} \<and> overflow_count (drop_present ?b1 nx) = 0)"
        using dp by (simp add: HasStash_iff)
    qed (use Miss miss2 pos dp word8_unat_pred [OF pos] in \<open>simp_all add: UnsetStashPtr_drop ptrs\<close>)
  qed
qed

end
