(* ===== verification/Segment.thy ===== *)
theory Segment
  imports Bucket
begin

text \<open>
  Class \<open>Segment\<close> of \<open>dash_internal.hpp\<close> at the bucket count of the production table
  (\<open>PrimeTablePolicy::kBucketNum\<close>): 56 regular buckets and 4 stash buckets, lookup
  (\<open>FindIt\<close>), insertion with neighbour probing, displacement and stash (\<open>InsertUniq\<close>,
  \<open>MoveToOther\<close>), deletion, clearing and the iteration primitives.
  The segment invariant says where an entry may live and that the stash pointers of a home
  bucket together with its overflow counter account for every stash entry of that bucket.
\<close>

text \<open>
  The \<open>Policy\<close> parameter of the templates and the assignment operators of the key and value
  types. \<open>HashFn\<close> is the hash of a stored key (\<open>None\<close>: \<open>LOG(FATAL)\<close>), \<open>HashView\<close> the hash of
  a search key, \<open>Equal\<close> compares the two. \<open>MoveKey d s\<close> is the object in \<open>d\<close> after
  \<open>d = std::move(s)\<close>, \<open>AssignKey d u\<close> the one after \<open>d = u\<close>.
\<close>

record ('k, 'v, 'u) Policy =
  HashFn :: "'k \<Rightarrow> u64 option"
  HashView :: "'u \<Rightarrow> u64"
  Equal :: "'k \<Rightarrow> 'u \<Rightarrow> bool"
  MoveKey :: "'k \<Rightarrow> 'k \<Rightarrow> 'k"
  MoveValue :: "'v \<Rightarrow> 'v \<Rightarrow> 'v"
  AssignKey :: "'k \<Rightarrow> 'u \<Rightarrow> 'k"
  DestroyKey :: "'k \<Rightarrow> 'k"
  DestroyValue :: "'v \<Rightarrow> 'v"

definition kBucketNum :: nat where "kBucketNum = 56"
definition kStashBucketNum :: nat where "kStashBucketNum = 4"
definition kTotalBuckets :: nat where "kTotalBuckets = kBucketNum + kStashBucketNum"
definition kFingerBits :: nat where "kFingerBits = 8"
definition kNanBid :: nat where "kNanBid = 255"
definition kFpMask :: u64 where "kFpMask = push_bit kFingerBits 1 - 1"

record ('k, 'v) Segment =
  bucket_arr :: "('k, 'v) Bucket list"
  local_depth :: nat
  segment_id :: nat

record SegIterator =
  index :: nat
  slot :: nat

definition SegIterator_end :: SegIterator where
  "SegIterator_end = \<lparr>index = kNanBid, slot = kNanSlot\<rparr>"

definition found :: "SegIterator \<Rightarrow> bool" where
  "found it \<longleftrightarrow> index it \<noteq> kNanBid"

definition Segment_init :: "'k \<Rightarrow> 'v \<Rightarrow> nat \<Rightarrow> nat \<Rightarrow> ('k, 'v) Segment" where
  "Segment_init k0 v0 depth sid =
     \<lparr>bucket_arr = replicate kTotalBuckets (Bucket_init k0 v0), local_depth = depth, segment_id = sid\<rparr>"

definition num_buckets :: "('k, 'v) Segment \<Rightarrow> nat" where
  "num_buckets s = kBucketNum + kStashBucketNum"

definition HomeIndex :: "u64 \<Rightarrow> nat" where
  "HomeIndex hash = unat (drop_bit kFingerBits hash) mod kBucketNum"

definition NextBid :: "nat \<Rightarrow> nat" where
  "NextBid bid = (if bid < kBucketNum - 1 then bid + 1 else 0)"

definition PrevBid :: "nat \<Rightarrow> nat" where
  "PrevBid bid = (if bid \<noteq> 0 then bid - 1 else kBucketNum - 1)"

text \<open>The 8-bit fingerprint \<open>key_hash & kFpMask\<close>.\<close>

definition meta :: "u64 \<Rightarrow> u8" where
  "meta key_hash = ucast (key_hash AND kFpMask)"

abbreviation GetBucket :: "('k, 'v) Segment \<Rightarrow> nat \<Rightarrow> ('k, 'v) Bucket" where
  "GetBucket s i \<equiv> bucket_arr s ! i"

definition upd :: "('k, 'v) Segment \<Rightarrow> nat \<Rightarrow> ('k, 'v) Bucket \<Rightarrow> ('k, 'v) Segment" where
  "upd s i b = s\<lparr>bucket_arr := (bucket_arr s)[i := b]\<rparr>"

definition Segment_IsBusy :: "('k, 'v) Segment \<Rightarrow> nat \<Rightarrow> nat \<Rightarrow> bool" where
  "Segment_IsBusy s bid sl = IsBusy (GetBucket s bid) sl"

definition Segment_Key :: "('k, 'v) Segment \<Rightarrow> nat \<Rightarrow> nat \<Rightarrow> 'k option" where
  "Segment_Key s bid sl = do { assert_opt (Segment_IsBusy s bid sl); Some (key (GetBucket s bid) ! sl) }"

definition Segment_Value :: "('k, 'v) Segment \<Rightarrow> nat \<Rightarrow> nat \<Rightarrow> 'v option" where
  "Segment_Value s bid sl = do { assert_opt (Segment_IsBusy s bid sl); Some (value (GetBucket s bid) ! sl) }"

subsection \<open>Lookup\<close>

fun FindIt_stash :: "('k, 'v) Segment \<Rightarrow> u8 \<Rightarrow> ('k \<Rightarrow> bool) \<Rightarrow> nat list \<Rightarrow> SegIterator" where
  "FindIt_stash s fp pred [] = SegIterator_end"
| "FindIt_stash s fp pred (i # is) =
     (let sid = FindByFp (GetBucket s (kBucketNum + i)) fp False pred
      in if sid \<noteq> kNanSlot then \<lparr>index = kBucketNum + i, slot = sid\<rparr> else FindIt_stash s fp pred is)"

definition FindIt :: "('k, 'v) Segment \<Rightarrow> u64 \<Rightarrow> ('k \<Rightarrow> bool) \<Rightarrow> SegIterator" where
  "FindIt s key_hash pred =
     (let bidx = HomeIndex key_hash; target = GetBucket s bidx;
          fp_hash = meta key_hash;
          sid = FindByFp target fp_hash False pred
      in if sid \<noteq> kNanSlot then \<lparr>index = bidx, slot = sid\<rparr>
      else let nid = NextBid bidx; probe = GetBucket s nid;
               sid = FindByFp probe fp_hash True pred
      in if sid \<noteq> kNanSlot then \<lparr>index = nid, slot = sid\<rparr>
      else if \<not> HasStash target then SegIterator_end
      else let stash_cb = (\<lambda>overflow_index pos. FindByFp (GetBucket s (pos + kBucketNum)) fp_hash False pred)
      in if HasStashOverflow target then FindIt_stash s fp_hash pred [0..<kStashBucketNum]
      else let stash_res = IterateStash target fp_hash False stash_cb
      in if snd stash_res \<noteq> kNanSlot then \<lparr>index = kBucketNum + fst stash_res, slot = snd stash_res\<rparr>
      else let stash_res = IterateStash probe fp_hash True stash_cb
      in if snd stash_res \<noteq> kNanSlot then \<lparr>index = kBucketNum + fst stash_res, slot = snd stash_res\<rparr>
      else SegIterator_end)"

subsection \<open>Insertion\<close>

definition MoveToOther :: "('k, 'v, 'u) Policy \<Rightarrow> ('k, 'v) Segment \<Rightarrow> bool \<Rightarrow> nat \<Rightarrow> nat
    \<Rightarrow> (nat option \<times> ('k, 'v) Segment) option" where
  "MoveToOther P s own_items from_bid to_bid = do {
     assert_opt (from_bid < kBucketNum \<and> to_bid < kBucketNum);
     let src = GetBucket s from_bid;
     let msk = GetProbe src (\<not> own_items);
     if msk = 0 then Some (None, s)
     else do {
       let src_slot = ctz msk;
       fp \<leftarrow> Fp src src_slot;
       (dst_slot, tb) \<leftarrow> TryInsertToBucket (GetBucket s to_bid)
          (\<lambda>d. MoveKey P d (key src ! src_slot)) (\<lambda>d. MoveValue P d (value src ! src_slot)) fp own_items;
       case dst_slot of
         None \<Rightarrow> Some (None, s)
       | Some _ \<Rightarrow> do {
           let s = upd s to_bid tb;
           sb \<leftarrow> Delete (GetBucket s from_bid) src_slot;
           Some (Some src_slot, upd s from_bid sb) } } }"

fun InsertUniq_stash :: "('k, 'v) Segment \<Rightarrow> ('k \<Rightarrow> 'k) \<Rightarrow> ('v \<Rightarrow> 'v) \<Rightarrow> u8 \<Rightarrow> nat \<Rightarrow> nat \<Rightarrow> nat list
    \<Rightarrow> (SegIterator \<times> ('k, 'v) Segment) option" where
  "InsertUniq_stash s u v meta_hash bid nid [] = Some (SegIterator_end, s)"
| "InsertUniq_stash s u v meta_hash bid nid (i # is) = do {
     let spos = (bid + i) mod kStashBucketNum;
     (stash_slot, b) \<leftarrow> TryInsertToBucket (GetBucket s (kBucketNum + spos)) u v meta_hash False;
     case stash_slot of
       None \<Rightarrow> InsertUniq_stash s u v meta_hash bid nid is
     | Some sl \<Rightarrow> do {
         let s = upd s (kBucketNum + spos) b;
         (target, neighbor) \<leftarrow> SetStashPtr (GetBucket s bid) spos meta_hash (GetBucket s nid);
         Some (\<lparr>index = kBucketNum + spos, slot = sl\<rparr>, upd (upd s bid target) nid neighbor) } }"

definition InsertUniq :: "('k, 'v, 'u) Policy \<Rightarrow> ('k, 'v) Segment \<Rightarrow> ('k \<Rightarrow> 'k) \<Rightarrow> ('v \<Rightarrow> 'v) \<Rightarrow> u64 \<Rightarrow> bool
    \<Rightarrow> (SegIterator \<times> ('k, 'v) Segment) option" where
  "InsertUniq P s u v key_hash spread = do {
     let bid = HomeIndex key_hash;
     let nid = NextBid bid;
     let meta_hash = meta key_hash;
     let ts = Size (GetBucket s bid);
     let ns = Size (GetBucket s nid);
     let (insert_first, probe) = (if spread \<and> ts > ns then (nid, True) else (bid, False));
     (slot1, b1) \<leftarrow> TryInsertToBucket (GetBucket s insert_first) u v meta_hash probe;
     case slot1 of
       Some sl \<Rightarrow> Some (\<lparr>index = insert_first, slot = sl\<rparr>, upd s insert_first b1)
     | None \<Rightarrow> do {
     (slot2, b2) \<leftarrow> (if \<not> spread then TryInsertToBucket (GetBucket s nid) u v meta_hash True
                    else Some (None, GetBucket s nid));
     case slot2 of
       Some sl \<Rightarrow> Some (\<lparr>index = nid, slot = sl\<rparr>, upd s nid b2)
     | None \<Rightarrow> do {
     (displace, s1) \<leftarrow> MoveToOther P s True nid (NextBid nid);
     case displace of
       Some sl \<Rightarrow> do {
         b \<leftarrow> Bucket_Insert (GetBucket s1 nid) sl u v meta_hash True;
         Some (\<lparr>index = nid, slot = sl\<rparr>, upd s1 nid b) }
     | None \<Rightarrow> do {
     (displace2, s2) \<leftarrow> MoveToOther P s1 False bid (PrevBid bid);
     case displace2 of
       Some sl \<Rightarrow> do {
         b \<leftarrow> Bucket_Insert (GetBucket s2 bid) sl u v meta_hash False;
         Some (\<lparr>index = bid, slot = sl\<rparr>, upd s2 bid b) }
     | None \<Rightarrow> InsertUniq_stash s2 u v meta_hash bid nid [0..<kStashBucketNum] } } } }"

definition Segment_Insert :: "('k, 'v, 'u) Policy \<Rightarrow> ('k, 'v) Segment \<Rightarrow> ('k \<Rightarrow> 'k) \<Rightarrow> ('v \<Rightarrow> 'v) \<Rightarrow> u64
    \<Rightarrow> ('k \<Rightarrow> bool) \<Rightarrow> (SegIterator \<times> bool \<times> ('k, 'v) Segment) option" where
  "Segment_Insert P s u v key_hash pred =
     (let it = FindIt s key_hash pred
      in if found it then Some (it, False, s)
         else do { (it, s) \<leftarrow> InsertUniq P s u v key_hash True; Some (it, found it, s) })"

subsection \<open>Deletion\<close>

definition RemoveStashReference :: "('k, 'v) Segment \<Rightarrow> nat \<Rightarrow> u64 \<Rightarrow> ('k, 'v) Segment option" where
  "RemoveStashReference s spos key_hash = do {
     let y = HomeIndex key_hash;
     (_, target, nx) \<leftarrow> UnsetStashPtr (GetBucket s y) (meta key_hash) spos (GetBucket s (NextBid y));
     Some (upd (upd s y target) (NextBid y) nx) }"

definition Segment_Delete :: "('k, 'v) Segment \<Rightarrow> SegIterator \<Rightarrow> u64 \<Rightarrow> ('k, 'v) Segment option" where
  "Segment_Delete s it key_hash = do {
     assert_opt (found it);
     s \<leftarrow> (if index it \<ge> kBucketNum then RemoveStashReference s (index it - kBucketNum) key_hash else Some s);
     b \<leftarrow> Delete (GetBucket s (index it)) (slot it);
     Some (upd s (index it) b) }"

definition Segment_Clear :: "('k, 'v) Segment \<Rightarrow> ('k, 'v) Segment" where
  "Segment_Clear s = s\<lparr>bucket_arr := map (\<lambda>b. ClearStashPtrs (Clear b)) (bucket_arr s)\<rparr>"

subsection \<open>Where entries live: the invariant\<close>

definition khash :: "('k, 'v, 'u) Policy \<Rightarrow> 'k \<Rightarrow> u64" where
  "khash P k = the (HashFn P k)"

definition home :: "('k, 'v, 'u) Policy \<Rightarrow> 'k \<Rightarrow> nat" where
  "home P k = HomeIndex (khash P k)"

definition slot_ok :: "('k, 'v, 'u) Policy \<Rightarrow> nat \<Rightarrow> 'k \<times> 'v \<times> u8 \<times> bool \<Rightarrow> bool" where
  "slot_ok P b x = (case x of (k, v, f, p) \<Rightarrow>
     HashFn P k \<noteq> None \<and> f = meta (khash P k) \<and> (if p then NextBid (home P k) = b else home P k = b))"

definition stash_slot_ok :: "('k, 'v, 'u) Policy \<Rightarrow> 'k \<times> 'v \<times> u8 \<times> bool \<Rightarrow> bool" where
  "stash_slot_ok P x = (case x of (k, v, f, p) \<Rightarrow> HashFn P k \<noteq> None \<and> f = meta (khash P k) \<and> \<not> p)"

text \<open>The stash entries of home bucket \<open>c\<close> in stash bucket \<open>j\<close>, as fingerprint and position, and in
  all stash buckets; the pointers to them.\<close>

definition stash_at :: "('k, 'v, 'u) Policy \<Rightarrow> nat \<Rightarrow> nat \<Rightarrow> ('k, 'v) Bucket \<Rightarrow> (u8 \<times> nat) multiset" where
  "stash_at P c j b = image_mset (\<lambda>(k, v, f, p). (f, j)) (filter_mset (\<lambda>(k, v, f, p). home P k = c) (slots b))"

definition stash_entries :: "('k, 'v, 'u) Policy \<Rightarrow> ('k, 'v) Segment \<Rightarrow> nat \<Rightarrow> (u8 \<times> nat) multiset" where
  "stash_entries P s c = (\<Sum>j \<leftarrow> [0..<kStashBucketNum]. stash_at P c j (GetBucket s (kBucketNum + j)))"

definition stash_ptrs :: "('k, 'v) Segment \<Rightarrow> nat \<Rightarrow> (u8 \<times> nat) multiset" where
  "stash_ptrs s c = ptrs (GetBucket s c) False + ptrs (GetBucket s (NextBid c)) True"

definition stash_ok :: "('k, 'v, 'u) Policy \<Rightarrow> ('k, 'v) Segment \<Rightarrow> nat \<Rightarrow> bool" where
  "stash_ok P s c \<longleftrightarrow> stash_ptrs s c \<subseteq># stash_entries P s c \<and>
     size (stash_entries P s c) = size (stash_ptrs s c) + unat (overflow_count (GetBucket s c)) \<and>
     (HasStash (GetBucket s c) \<longleftrightarrow> stash_entries P s c \<noteq> {#})"

definition seg_shape :: "('k, 'v, 'u) Policy \<Rightarrow> ('k, 'v) Segment \<Rightarrow> bool" where
  "seg_shape P s \<longleftrightarrow> length (bucket_arr s) = kTotalBuckets \<and>
     (\<forall>i < kTotalBuckets. bucket_wf (GetBucket s i)) \<and>
     (\<forall>b < kBucketNum. \<forall>x \<in># slots (GetBucket s b). slot_ok P b x) \<and>
     (\<forall>j < kStashBucketNum. \<forall>x \<in># slots (GetBucket s (kBucketNum + j)). stash_slot_ok P x)"

definition seg_inv :: "('k, 'v, 'u) Policy \<Rightarrow> ('k, 'v) Segment \<Rightarrow> bool" where
  "seg_inv P s \<longleftrightarrow> seg_shape P s \<and> (\<forall>c < kBucketNum. stash_ok P s c)"

text \<open>All entries of a segment, and the entries whose assignment operators copy the value.\<close>

definition seg_slots :: "('k, 'v) Segment \<Rightarrow> ('k \<times> 'v \<times> u8 \<times> bool) multiset" where
  "seg_slots s = (\<Sum>b \<leftarrow> bucket_arr s. slots b)"

definition entry_of :: "'k \<times> 'v \<times> u8 \<times> bool \<Rightarrow> 'k \<times> 'v" where
  "entry_of x = (fst x, fst (snd x))"

definition seg_entries :: "('k, 'v) Segment \<Rightarrow> ('k \<times> 'v) multiset" where
  "seg_entries s = image_mset entry_of (seg_slots s)"

definition regular :: "('k, 'v, 'u) Policy \<Rightarrow> 'k \<times> 'v \<Rightarrow> bool" where
  "regular P e \<longleftrightarrow> (\<forall>d. MoveKey P d (fst e) = fst e) \<and> (\<forall>d. MoveValue P d (snd e) = snd e)"

definition seg_regular :: "('k, 'v, 'u) Policy \<Rightarrow> ('k, 'v) Segment \<Rightarrow> bool" where
  "seg_regular P s \<longleftrightarrow> (\<forall>e \<in># seg_entries s. regular P e)"

end
