(* ===== verification/Segment_Correct.thy ===== *)
theory Segment_Correct
  imports Segment
begin

text \<open>
  Correctness of the segment operations: the segment invariant is kept by insertion and
  deletion, lookup finds exactly the stored entries, insertion adds exactly one entry and
  fails only when the home bucket, its neighbour and all stash buckets are full, and no
  assertion of the code is reachable.
\<close>

subsection \<open>Bucket numbers\<close>

lemma kTotal_lt [simp]: "kBucketNum < kTotalBuckets" "kTotalBuckets < kNanBid" "0 < kBucketNum"
  by (simp_all add: kBucketNum_def kTotalBuckets_def kStashBucketNum_def kNanBid_def)

lemma HomeIndex_lt [simp]: "HomeIndex h < kBucketNum"
  by (simp add: HomeIndex_def)

lemma home_lt [simp]: "home P k < kBucketNum"
  by (simp add: home_def)

lemma NextBid_lt [simp]: "NextBid b < kBucketNum"
  by (simp add: NextBid_def kBucketNum_def)

lemma PrevBid_lt: "b < kBucketNum \<Longrightarrow> PrevBid b < kBucketNum"
  by (auto simp: PrevBid_def kBucketNum_def)

lemma Next_Prev: "b < kBucketNum \<Longrightarrow> NextBid (PrevBid b) = b"
  by (auto simp: PrevBid_def NextBid_def kBucketNum_def)

lemma Prev_Next: "b < kBucketNum \<Longrightarrow> PrevBid (NextBid b) = b"
  by (auto simp: PrevBid_def NextBid_def kBucketNum_def)

lemma Next_inj: "b < kBucketNum \<Longrightarrow> c < kBucketNum \<Longrightarrow> NextBid b = NextBid c \<longleftrightarrow> b = c"
  by (metis Prev_Next)

lemma Next_neq: "b < kBucketNum \<Longrightarrow> NextBid b \<noteq> b" "b < kBucketNum \<Longrightarrow> PrevBid b \<noteq> b"
  by (auto simp: NextBid_def PrevBid_def kBucketNum_def)

lemma Next_neq2 [simp]: "b < kBucketNum \<Longrightarrow> b \<noteq> NextBid b" "b < kBucketNum \<Longrightarrow> b \<noteq> PrevBid b"
  using Next_neq by metis+

lemma lt_total: "b < kBucketNum \<Longrightarrow> b < kTotalBuckets" "j < kStashBucketNum \<Longrightarrow> kBucketNum + j < kTotalBuckets"
  by (simp_all add: kTotalBuckets_def)

subsection \<open>Updating a bucket\<close>

abbreviation seg_len :: "('k, 'v) Segment \<Rightarrow> bool" where
  "seg_len s \<equiv> length (bucket_arr s) = kTotalBuckets"

lemma upd_simps [simp]:
  "local_depth (upd s i b) = local_depth s" "segment_id (upd s i b) = segment_id s"
  "length (bucket_arr (upd s i b)) = length (bucket_arr s)"
  by (simp_all add: upd_def)

lemma GetBucket_upd:
  "seg_len s \<Longrightarrow> i < kTotalBuckets \<Longrightarrow> GetBucket (upd s i b) j = (if j = i then b else GetBucket s j)"
  by (simp add: upd_def nth_list_update)

lemma seg_slots_upd:
  assumes "seg_len s" "i < kTotalBuckets"
  shows "seg_slots (upd s i b) + slots (GetBucket s i) = seg_slots s + slots b"
  using assms by (simp add: seg_slots_def upd_def sum_list_map_update)

lemma seg_slots_upd_same:
  assumes "seg_len s" "i < kTotalBuckets" "slots b = slots (GetBucket s i)"
  shows "seg_slots (upd s i b) = seg_slots s"
  using seg_slots_upd [OF assms(1,2), of b] assms(3) by simp

lemma in_seg_slots:
  assumes "seg_len s"
  shows "x \<in># seg_slots s \<longleftrightarrow> (\<exists>i < kTotalBuckets. x \<in># slots (GetBucket s i))"
  unfolding seg_slots_def in_sum_list_mset using assms by (metis in_set_conv_nth)

lemma in_seg_entries:
  assumes "seg_len s"
  shows "(k, v) \<in># seg_entries s \<longleftrightarrow> (\<exists>i < kTotalBuckets. \<exists>f p. (k, v, f, p) \<in># slots (GetBucket s i))"
proof -
  have "(k, v) \<in># seg_entries s \<longleftrightarrow> (\<exists>x \<in># seg_slots s. (k, v) = entry_of x)"
    by (auto simp: seg_entries_def)
  also have "\<dots> \<longleftrightarrow> (\<exists>i < kTotalBuckets. \<exists>x \<in># slots (GetBucket s i). (k, v) = entry_of x)"
    unfolding Bex_def in_seg_slots [OF assms] by blast
  also have "\<dots> \<longleftrightarrow> (\<exists>i < kTotalBuckets. \<exists>f p. (k, v, f, p) \<in># slots (GetBucket s i))"
    by (force simp: entry_of_def)
  finally show ?thesis .
qed

lemma seg_shapeD:
  assumes "seg_shape P s"
  shows "seg_len s" "\<And>i. i < kTotalBuckets \<Longrightarrow> bucket_wf (GetBucket s i)"
    "\<And>b x. b < kBucketNum \<Longrightarrow> x \<in># slots (GetBucket s b) \<Longrightarrow> slot_ok P b x"
    "\<And>j x. j < kStashBucketNum \<Longrightarrow> x \<in># slots (GetBucket s (kBucketNum + j)) \<Longrightarrow> stash_slot_ok P x"
  using assms by (auto simp: seg_shape_def)

lemma seg_invD: "seg_inv P s \<Longrightarrow> seg_shape P s" "seg_inv P s \<Longrightarrow> c < kBucketNum \<Longrightarrow> stash_ok P s c"
  by (auto simp: seg_inv_def)

lemma seg_shape_bucket [simp]: "seg_shape P s \<Longrightarrow> b < kBucketNum \<Longrightarrow> bucket_wf (GetBucket s b)"
  by (simp add: seg_shapeD lt_total)

lemma seg_shape_upd:
  assumes "seg_shape P s" "i < kTotalBuckets" "bucket_wf b"
    and "\<And>x. i < kBucketNum \<Longrightarrow> x \<in># slots b \<Longrightarrow> slot_ok P i x"
    and "\<And>x. kBucketNum \<le> i \<Longrightarrow> x \<in># slots b \<Longrightarrow> stash_slot_ok P x"
  shows "seg_shape P (upd s i b)"
  using assms seg_shapeD [OF assms(1)]
  by (auto simp: seg_shape_def GetBucket_upd lt_total)

lemma stash_entries_upd_regular:
  assumes "seg_len s" "b < kBucketNum"
  shows "stash_entries P (upd s b x) c = stash_entries P s c"
  unfolding stash_entries_def using assms
  by (intro arg_cong [where f = sum_list] map_cong) (auto simp: GetBucket_upd lt_total)

lemma stash_entries_upd_stash:
  assumes "seg_len s" "j < kStashBucketNum"
  shows "stash_entries P (upd s (kBucketNum + j) x) c + stash_at P c j (GetBucket s (kBucketNum + j)) =
    stash_entries P s c + stash_at P c j x"
proof -
  let ?f = "\<lambda>i. stash_at P c i (GetBucket s (kBucketNum + i))"
  let ?g = "\<lambda>i. stash_at P c i (GetBucket (upd s (kBucketNum + j) x) (kBucketNum + i))"
  have g: "?g i = (if i = j then stash_at P c j x else ?f i)" for i
    using assms by (simp add: GetBucket_upd lt_total)
  have "[0..<kStashBucketNum] = [0..<j] @ j # [Suc j..<kStashBucketNum]"
    using assms(2) by (metis le0 less_imp_le upt_add_eq_append upt_conv_Cons le_add_diff_inverse add_0)
  then have f: "sum_list (map h [0..<kStashBucketNum]) = sum_list (map h [0..<j]) + h j + sum_list (map h [Suc j..<kStashBucketNum])"
    for h :: "nat \<Rightarrow> (u8 \<times> nat) multiset" by simp
  have "map ?g [0..<j] = map ?f [0..<j]" "map ?g [Suc j..<kStashBucketNum] = map ?f [Suc j..<kStashBucketNum]"
    by (intro map_cong refl; simp add: g)+
  then have "sum_list (map ?g [0..<kStashBucketNum]) + ?f j = sum_list (map ?f [0..<kStashBucketNum]) + ?g j"
    unfolding f [of ?g] f [of ?f] by (simp only: ac_simps)
  then show ?thesis unfolding stash_entries_def g [of j] by simp
qed

text \<open>A step on the slots of a regular bucket keeps the invariant when the new entries are at home.\<close>

lemma seg_inv_upd_regular:
  assumes inv: "seg_inv P s" and b: "b < kBucketNum" and wf: "bucket_wf x"
    and st: "same_stash (GetBucket s b) x" and ok: "\<And>y. y \<in># slots x \<Longrightarrow> slot_ok P b y"
  shows "seg_inv P (upd s b x)"
proof -
  note sh = seg_invD(1) [OF inv]
  have len: "seg_len s" using sh by (rule seg_shapeD)
  have shape: "seg_shape P (upd s b x)"
    using sh b wf ok by (intro seg_shape_upd) (auto simp: lt_total)
  have "stash_ok P (upd s b x) c" if c: "c < kBucketNum" for c
  proof -
    have "stash_ptrs (upd s b x) c = stash_ptrs s c"
      using len b by (simp add: stash_ptrs_def GetBucket_upd lt_total same_stashD [OF st])
    moreover have "overflow_count (GetBucket (upd s b x) c) = overflow_count (GetBucket s c)"
      "HasStash (GetBucket (upd s b x) c) = HasStash (GetBucket s c)"
      using len b by (simp_all add: GetBucket_upd lt_total same_stashD [OF st])
    ultimately show ?thesis
      using seg_invD(2) [OF inv c] by (simp add: stash_ok_def stash_entries_upd_regular [OF len b])
  qed
  with shape show ?thesis by (simp add: seg_inv_def)
qed

text \<open>A step on the slots of stash bucket \<open>j\<close> and the stash pointers of home bucket \<open>c\<close>.\<close>

lemma stash_ptrs_upd2:
  assumes len: "seg_len s" and b: "b < kBucketNum"
    and fr: "stash_frame (GetBucket s b) (GetBucket s (NextBid b)) x y"
    and s': "s' = upd (upd s b x) (NextBid b) y"
  shows "stash_ptrs s' b = ptrs x False + ptrs y True" "GetBucket s' b = x"
    "c < kBucketNum \<Longrightarrow> c \<noteq> b \<Longrightarrow> stash_ptrs s' c = stash_ptrs s c"
    "c < kBucketNum \<Longrightarrow> c \<noteq> b \<Longrightarrow> overflow_count (GetBucket s' c) = overflow_count (GetBucket s c)"
    "c < kBucketNum \<Longrightarrow> c \<noteq> b \<Longrightarrow> HasStash (GetBucket s' c) = HasStash (GetBucket s c)"
    "i < kTotalBuckets \<Longrightarrow> same_slots (GetBucket s i) (GetBucket s' i)"
    "kBucketNum \<le> i \<Longrightarrow> GetBucket s' i = GetBucket s i"
proof -
  have get: "GetBucket s' i = (if i = NextBid b then y else if i = b then x else GetBucket s i)" for i
    using len b unfolding s' by (simp add: GetBucket_upd lt_total)
  have ne: "b \<noteq> NextBid b" using b by simp
  show "stash_ptrs s' b = ptrs x False + ptrs y True" "GetBucket s' b = x"
    using ne by (simp_all add: stash_ptrs_def get)
  show "c < kBucketNum \<Longrightarrow> c \<noteq> b \<Longrightarrow> stash_ptrs s' c = stash_ptrs s c"
    using fr ne b Next_inj [of c b] by (auto simp: stash_ptrs_def get stash_frame_def)
  show "c < kBucketNum \<Longrightarrow> c \<noteq> b \<Longrightarrow> overflow_count (GetBucket s' c) = overflow_count (GetBucket s c)"
    "c < kBucketNum \<Longrightarrow> c \<noteq> b \<Longrightarrow> HasStash (GetBucket s' c) = HasStash (GetBucket s c)"
    using fr by (auto simp: get stash_frame_def)
  show "same_slots (GetBucket s i) (GetBucket s' i)" using fr by (auto simp: get stash_frame_def)
  show "kBucketNum \<le> i \<Longrightarrow> GetBucket s' i = GetBucket s i"
    using b NextBid_lt [of b] by (auto simp: get simp del: NextBid_lt)
qed

lemma seg_slots_cong:
  assumes "seg_len s" "seg_len s'" "\<And>i. i < kTotalBuckets \<Longrightarrow> slots (GetBucket s' i) = slots (GetBucket s i)"
  shows "seg_slots s' = seg_slots s"
proof -
  have "map slots (bucket_arr s') = map slots (bucket_arr s)"
    using assms by (intro nth_equalityI) auto
  then show ?thesis by (simp add: seg_slots_def)
qed

lemma stash_entries_cong:
  assumes "\<And>j. j < kStashBucketNum \<Longrightarrow> slots (GetBucket s' (kBucketNum + j)) = slots (GetBucket s (kBucketNum + j))"
  shows "stash_entries P s' c = stash_entries P s c"
  unfolding stash_entries_def using assms
  by (intro arg_cong [where f = sum_list] map_cong) (auto simp: stash_at_def)

lemma seg_shape_same_slots:
  assumes "seg_shape P s" "seg_len s'" "\<And>i. i < kTotalBuckets \<Longrightarrow> same_slots (GetBucket s i) (GetBucket s' i)"
    "\<And>i. i < kTotalBuckets \<Longrightarrow> base_wf (GetBucket s' i)"
  shows "seg_shape P s'"
proof -
  have "slots (GetBucket s' i) = slots (GetBucket s i)" if "i < kTotalBuckets" for i
    using assms(3) [OF that] by (rule same_slotsD)
  moreover have "bucket_wf (GetBucket s' i)" if "i < kTotalBuckets" for i
    using same_slots_wf [OF _ assms(3) [OF that] assms(4) [OF that]] assms(1) that by (simp add: seg_shapeD)
  ultimately show ?thesis using assms(1,2) by (auto simp: seg_shape_def lt_total)
qed

text \<open>The whole stash holds at most 56 entries, so the overflow counter never wraps.\<close>

lemma size_stash_at_le: "size (stash_at P c j b) \<le> size (slots b)"
  by (simp add: stash_at_def size_filter_mset_lesseq)

lemma stash_size_le:
  assumes "seg_shape P s"
  shows "size (stash_entries P s c) \<le> 56"
proof -
  have "size (stash_at P c j (GetBucket s (kBucketNum + j))) \<le> 14" if "j < kStashBucketNum" for j
    using size_stash_at_le [of P c j "GetBucket s (kBucketNum + j)"]
      size_slots_le [of "GetBucket s (kBucketNum + j)"] assms that
    by (simp add: seg_shapeD lt_total kSlotNum_def)
  from this [of 0] this [of 1] this [of 2] this [of 3] show ?thesis
    by (simp add: stash_entries_def kStashBucketNum_def upt_rec numeral_2_eq_2 numeral_3_eq_3)
qed

lemma overflow_lt:
  assumes "seg_inv P s" "c < kBucketNum"
  shows "unat (overflow_count (GetBucket s c)) < 255"
  using stash_size_le [OF seg_invD(1) [OF assms(1)], of c] seg_invD(2) [OF assms]
  by (simp add: stash_ok_def)

lemma in_stash_entries:
  "(f, j) \<in># stash_entries P s c \<longleftrightarrow> j < kStashBucketNum \<and>
     (\<exists>k v p. (k, v, f, p) \<in># slots (GetBucket s (kBucketNum + j)) \<and> home P k = c)"
proof -
  have "(f, j) \<in># stash_at P c i b \<longleftrightarrow> i = j \<and> (\<exists>k v p. (k, v, f, p) \<in># slots b \<and> home P k = c)" for i b
    by (force simp: stash_at_def)
  then show ?thesis by (auto simp: stash_entries_def in_sum_list_mset)
qed

subsection \<open>Lookup\<close>

definition it_points :: "('k, 'v) Segment \<Rightarrow> SegIterator \<Rightarrow> bool" where
  "it_points s it \<longleftrightarrow> index it < kTotalBuckets \<and> slot it < kSlotNum \<and> busy (GetBucket s (index it)) (slot it)"

definition it_key :: "('k, 'v) Segment \<Rightarrow> SegIterator \<Rightarrow> 'k" where
  "it_key s it = key (GetBucket s (index it)) ! slot it"

definition it_value :: "('k, 'v) Segment \<Rightarrow> SegIterator \<Rightarrow> 'v" where
  "it_value s it = value (GetBucket s (index it)) ! slot it"

lemma it_points_found: "it_points s it \<Longrightarrow> found it"
  by (auto simp: it_points_def found_def kTotalBuckets_def kBucketNum_def kStashBucketNum_def kNanBid_def)

lemma it_points_entry:
  assumes "seg_shape P s" "it_points s it"
  shows "slot_of (GetBucket s (index it)) (slot it) \<in># slots (GetBucket s (index it))"
    "(it_key s it, it_value s it) \<in># seg_entries s"
proof -
  have wf: "base_wf (GetBucket s (index it))" using assms by (simp add: it_points_def seg_shapeD)
  then show 1: "slot_of (GetBucket s (index it)) (slot it) \<in># slots (GetBucket s (index it))"
    using assms by (auto simp: in_slots_iff it_points_def)
  then show "(it_key s it, it_value s it) \<in># seg_entries s"
    unfolding in_seg_entries [OF seg_shapeD(1) [OF assms(1)]]
    using assms(2) by (auto simp: it_points_def it_key_def it_value_def slot_of_def)
qed

lemma not_found_end [simp]: "\<not> found SegIterator_end"
  by (simp add: found_def SegIterator_end_def)

text \<open>A slot returned by \<open>FindByFp\<close> on bucket \<open>i\<close> is a busy slot with a key that satisfies the predicate.\<close>

lemma FindByFp_points:
  assumes "seg_shape P s" "i < kTotalBuckets" "FindByFp (GetBucket s i) fp p pred \<noteq> kNanSlot"
  shows "it_points s \<lparr>index = i, slot = FindByFp (GetBucket s i) fp p pred\<rparr> \<and>
    pred (it_key s \<lparr>index = i, slot = FindByFp (GetBucket s i) fp p pred\<rparr>)"
  using FindByFp_found [OF _ assms(3)] seg_shapeD(2) [OF assms(1,2)] assms(2)
  by (simp add: it_points_def it_key_def)

lemma FindIt_stash_sound:
  assumes "seg_shape P s" "set js \<subseteq> {..<kStashBucketNum}" "found (FindIt_stash s fp pred js)"
  shows "it_points s (FindIt_stash s fp pred js) \<and> pred (it_key s (FindIt_stash s fp pred js))"
  using assms(2,3)
proof (induction js)
  case Nil
  then show ?case by simp
next
  case (Cons j js)
  then show ?case
    using FindByFp_points [OF assms(1) lt_total(2), of j fp False pred] by (auto simp: Let_def split: if_splits)
qed

lemma FindIt_stash_complete:
  assumes "j \<in> set js" "set js \<subseteq> {..<kStashBucketNum}" "FindByFp (GetBucket s (kBucketNum + j)) fp False pred \<noteq> kNanSlot"
  shows "found (FindIt_stash s fp pred js)"
  using assms(1,2)
proof (induction js)
  case Nil
  then show ?case by simp
next
  case (Cons i js)
  then show ?case using assms(3)
    by (auto simp: Let_def found_def kBucketNum_def kStashBucketNum_def kNanBid_def)
qed

lemma stash_pos_lt: "stash_pos_at b i < kStashBucketNum"
proof -
  have "unat (drop_bit (i * 2) (stash_pos b) AND 3) \<le> unat (3 :: u8)"
    by (rule word_le_nat_alt [THEN iffD1]) (rule word_and_le1)
  then show ?thesis by (simp add: stash_pos_at_def kStashBucketNum_def)
qed

lemma IterateStash_sound:
  assumes "seg_shape P s"
    and "r = IterateStash b fp pr (\<lambda>i pos. FindByFp (GetBucket s (pos + kBucketNum)) fp False pred)"
    and "snd r \<noteq> kNanSlot"
  shows "it_points s \<lparr>index = kBucketNum + fst r, slot = snd r\<rparr> \<and>
    pred (it_key s \<lparr>index = kBucketNum + fst r, slot = snd r\<rparr>)"
proof -
  let ?f = "\<lambda>(i :: nat) pos. FindByFp (GetBucket s (pos + kBucketNum)) fp False pred"
  obtain i where "r = (stash_pos_at b i, ?f i (stash_pos_at b i))"
    by (rule IterateStash_cases [of b fp pr ?f "\<lambda>_. 0"]) (use assms(2,3) in auto)
  then show ?thesis
    using FindByFp_points [OF assms(1) lt_total(2) [OF stash_pos_lt], of b i fp False pred] assms(3)
    by (simp add: add.commute)
qed

lemma IterateStash_complete:
  assumes "(fp, j) \<in># ptrs b pr" "FindByFp (GetBucket s (j + kBucketNum)) fp False pred \<noteq> kNanSlot"
  shows "snd (IterateStash b fp pr (\<lambda>i pos. FindByFp (GetBucket s (pos + kBucketNum)) fp False pred)) \<noteq> kNanSlot"
  using assms
  by (cases rule: IterateStash_cases [of b fp pr "\<lambda>i pos. FindByFp (GetBucket s (pos + kBucketNum)) fp False pred"
        "\<lambda>pos. FindByFp (GetBucket s (pos + kBucketNum)) fp False pred"]) auto

lemma FindIt_sound:
  assumes "seg_shape P s" "found (FindIt s h pred)"
  shows "it_points s (FindIt s h pred)" "pred (it_key s (FindIt s h pred))"
proof -
  define hit where "hit it \<longleftrightarrow> it_points s it \<and> pred (it_key s it)" for it
  note bucket = FindByFp_points [OF assms(1) lt_total(1), of _ _ _ pred, folded hit_def]
  note stash = FindIt_stash_sound [OF assms(1), of "[0..<kStashBucketNum]" _ pred, folded hit_def]
  note ptr = IterateStash_sound [OF assms(1) refl, of _ _ _ pred, folded hit_def]
  have "hit (FindIt s h pred)"
    using assms(2) unfolding FindIt_def Let_def
    by (auto split: if_split_asm intro: bucket stash ptr)
  then show "it_points s (FindIt s h pred)" "pred (it_key s (FindIt s h pred))" by (auto simp: hit_def)
qed

lemma found_bucket [simp]: "i < kTotalBuckets \<Longrightarrow> found \<lparr>index = i, slot = x\<rparr>"
  using kTotal_lt(2) by (auto simp: found_def simp del: kTotal_lt)

lemma FindIt_complete:
  assumes inv: "seg_inv P s" and e: "(k, v) \<in># seg_entries s" and k: "pred k" "khash P k = h"
  shows "found (FindIt s h pred)"
proof -
  note sh = seg_invD(1) [OF inv]
  let ?c = "HomeIndex h" and ?f = "meta h"
  have stot: "kBucketNum + fst (IterateStash b fp pr (\<lambda>i pos. FindByFp (GetBucket s (pos + kBucketNum)) fp False pred))
      < kTotalBuckets" if "snd (IterateStash b fp pr (\<lambda>i pos. FindByFp (GetBucket s (pos + kBucketNum)) fp False pred))
      \<noteq> kNanSlot" for b :: "('a, 'b) Bucket" and fp pr
    using IterateStash_sound [OF sh refl that] by (simp add: it_points_def)
  obtain i f p where i: "i < kTotalBuckets" "(k, v, f, p) \<in># slots (GetBucket s i)"
    using e unfolding in_seg_entries [OF seg_shapeD(1) [OF sh]] by blast
  note fnd = FindByFp_complete [OF bucket_wf_base [OF seg_shapeD(2) [OF sh i(1)]] i(2), of pred, OF k(1)]
  show ?thesis
  proof (cases "i < kBucketNum")
    case True
    with seg_shapeD(3) [OF sh _ i(2)] have "f = ?f" "if p then NextBid ?c = i else ?c = i"
      by (auto simp: slot_ok_def home_def k split: if_splits)
    with fnd show ?thesis
      unfolding FindIt_def Let_def by (cases p) (auto simp: lt_total)
  next
    case False
    then obtain j where j: "i = kBucketNum + j" "j < kStashBucketNum"
      using i(1) by (metis add_less_cancel_left kTotalBuckets_def le_add_diff_inverse not_less)
    then have "stash_slot_ok P (k, v, f, p)" using seg_shapeD(4) [OF sh j(2)] i by blast
    then have f: "f = ?f" "\<not> p" by (auto simp: stash_slot_ok_def k)
    have "(?f, j) \<in># stash_entries P s ?c"
      using i j f k(2) by (auto simp: in_stash_entries home_def)
    moreover have ok: "stash_ok P s ?c" using inv by (simp add: seg_invD)
    ultimately have has: "HasStash (GetBucket s ?c)" by (auto simp: stash_ok_def)
    have fj: "FindByFp (GetBucket s (kBucketNum + j)) ?f False pred \<noteq> kNanSlot" using fnd f j by simp
    show ?thesis
    proof (cases "HasStashOverflow (GetBucket s ?c)")
      case True
      then show ?thesis
        using has FindIt_stash_complete [OF _ _ fj, of "[0..<kStashBucketNum]"] j(2)
        unfolding FindIt_def Let_def by (auto simp: lt_total atLeast0LessThan)
    next
      case noov: False
      then have "size (stash_entries P s ?c) = size (stash_ptrs s ?c)" "stash_ptrs s ?c \<subseteq># stash_entries P s ?c"
        using ok by (simp_all add: stash_ok_def HasStashOverflow_def word_gt_0)
      then have "stash_entries P s ?c = stash_ptrs s ?c"
        by (metis mset_subset_size order_less_irrefl subset_mset.le_imp_less_or_eq)
      with \<open>(?f, j) \<in># stash_entries P s ?c\<close>
      have "(?f, j) \<in># ptrs (GetBucket s ?c) False \<or> (?f, j) \<in># ptrs (GetBucket s (NextBid ?c)) True"
        by (auto simp: stash_ptrs_def)
      then show ?thesis
        using has noov IterateStash_complete [of ?f j _ _ s pred] fj stot
        unfolding FindIt_def Let_def by (auto simp: lt_total add.commute)
    qed
  qed
qed

subsection \<open>Insertion\<close>

lemma put_it: 
  assumes "bucket_wf b" "i < kSlotNum"
  shows "busy (put b i k v f p) i" "key (put b i k v f p) ! i = k" "value (put b i k v f p) ! i = v"
proof -
  have "i < 32" using assms(2) kSlotNum_le(1) by (rule less_trans)
  then show "busy (put b i k v f p) i" "key (put b i k v f p) ! i = k" "value (put b i k v f p) ! i = v"
    using assms by (simp_all add: put_def wf_simps bit_or_iff)
qed

lemma it_points_put:
  assumes "seg_len s" "b < kTotalBuckets" "bucket_wf (GetBucket s b)" "i < kSlotNum"
    and s': "s' = upd s b (put (GetBucket s b) i k v f p)"
  shows "it_points s' \<lparr>index = b, slot = i\<rparr>" "it_key s' \<lparr>index = b, slot = i\<rparr> = k"
    "it_value s' \<lparr>index = b, slot = i\<rparr> = v"
  using assms(1-4) put_it [OF assms(3,4)] unfolding s'
  by (simp_all add: it_points_def it_key_def it_value_def GetBucket_upd)

lemma seg_slots_put:
  assumes "seg_shape P s" "b < kTotalBuckets" "i < kSlotNum" "\<not> busy (GetBucket s b) i"
  shows "seg_slots (upd s b (put (GetBucket s b) i k v f p)) = add_mset (k, v, f, p) (seg_slots s)"
  using seg_slots_upd [OF seg_shapeD(1) [OF assms(1)] assms(2), of "put (GetBucket s b) i k v f p"]
  by (simp add: slots_put [OF seg_shapeD(2) [OF assms(1,2)] assms(3,4)])

lemma seg_slots_del:
  assumes "seg_shape P s" "b < kTotalBuckets" "busy (GetBucket s b) i"
  shows "seg_slots s = add_mset (slot_of (GetBucket s b) i)
     (seg_slots (upd s b (ClearSlots (GetBucket s b) (push_bit i 1))))"
  using seg_slots_upd [OF seg_shapeD(1) [OF assms(1)] assms(2), of "ClearSlots (GetBucket s b) (push_bit i 1)"]
    slots_delete [OF bucket_wf_base [OF seg_shapeD(2) [OF assms(1,2)]] assms(3)]
  by (simp del: push_bit_of_1)

lemma put_inv:
  assumes "seg_inv P s" "b < kBucketNum" "i < kSlotNum" "\<not> busy (GetBucket s b) i" "slot_ok P b (k, v, f, p)"
  shows "seg_inv P (upd s b (put (GetBucket s b) i k v f p))"
proof (rule seg_inv_upd_regular [OF assms(1,2)])
  have wf: "bucket_wf (GetBucket s b)" using seg_invD(1) [OF assms(1)] assms(2) by (rule seg_shape_bucket)
  show "bucket_wf (put (GetBucket s b) i k v f p)" using wf assms(3) by (rule put_wf)
  show "slot_ok P b y" if "y \<in># slots (put (GetBucket s b) i k v f p)" for y
    using that assms(5) seg_shapeD(3) [OF seg_invD(1) [OF assms(1)] assms(2), of y]
    unfolding slots_put [OF wf assms(3,4)] by fastforce
qed simp

lemma del_inv:
  assumes "seg_inv P s" "b < kBucketNum" "busy (GetBucket s b) i"
  shows "seg_inv P (upd s b (ClearSlots (GetBucket s b) (push_bit i 1)))"
proof (rule seg_inv_upd_regular [OF assms(1,2)])
  have wf: "bucket_wf (GetBucket s b)" using seg_invD(1) [OF assms(1)] assms(2) by (rule seg_shape_bucket)
  then show "bucket_wf (ClearSlots (GetBucket s b) (push_bit i 1))" by (rule ClearSlots_wf)
  show "slot_ok P b y" if "y \<in># slots (ClearSlots (GetBucket s b) (push_bit i 1))" for y
    using that seg_shapeD(3) [OF seg_invD(1) [OF assms(1)] assms(2)] slots_delete [OF _ assms(3)] wf
    by simp
qed simp

text \<open>The result of an insertion of the entry \<open>e\<close> at \<open>it\<close>.\<close>

definition inserted :: "('k, 'v, 'u) Policy \<Rightarrow> ('k, 'v) Segment \<Rightarrow> SegIterator \<Rightarrow> 'k \<times> 'v \<Rightarrow> ('k, 'v) Segment \<Rightarrow> bool" where
  "inserted P s it e s' \<longleftrightarrow> seg_inv P s' \<and> seg_entries s' = add_mset e (seg_entries s) \<and>
     it_points s' it \<and> (it_key s' it, it_value s' it) = e \<and>
     local_depth s' = local_depth s \<and> segment_id s' = segment_id s"

lemma inserted_regular:
  assumes inv: "seg_inv P s" and b: "b < kBucketNum" and i: "i < kSlotNum" "\<not> busy (GetBucket s b) i"
    and ok: "slot_ok P b (k, v, f, p)"
  shows "inserted P s \<lparr>index = b, slot = i\<rparr> (k, v) (upd s b (put (GetBucket s b) i k v f p))"
proof -
  note sh = seg_invD(1) [OF inv] and bt = lt_total(1) [OF b]
  note pts = it_points_put [OF seg_shapeD(1) [OF sh] bt seg_shapeD(2) [OF sh bt] i(1) refl]
  show ?thesis
    unfolding inserted_def
    using put_inv [OF inv b i ok] seg_slots_put [OF sh bt i] pts
    by (simp add: seg_entries_def entry_of_def)
qed

lemma MoveToOther_spec:
  assumes inv: "seg_inv P s" and reg: "seg_regular P s"
    and b: "from < kBucketNum" "to < kBucketNum" "if own then to = NextBid from else from = NextBid to"
    and full: "IsFull (GetBucket s from)"
  obtains "MoveToOther P s own from to = Some (None, s)"
  | sl s' where "MoveToOther P s own from to = Some (Some sl, s')" "seg_inv P s'"
      "seg_entries s' = seg_entries s" "sl < kSlotNum" "\<not> busy (GetBucket s' from) sl"
      "local_depth s' = local_depth s" "segment_id s' = segment_id s"
proof -
  note sh = seg_invD(1) [OF inv] and bt = lt_total(1) [OF b(1)] lt_total(1) [OF b(2)]
  let ?src = "GetBucket s from" and ?dst = "GetBucket s to"
  have wf: "bucket_wf ?src" "bucket_wf ?dst" using sh bt by (simp_all add: seg_shapeD)
  have ne: "from \<noteq> to" using b Next_neq(1) by (auto split: if_splits)
  show ?thesis
  proof (cases "GetProbe ?src (\<not> own) = 0 \<or> IsFull ?dst")
    case True
    have "ctz (GetProbe ?src (\<not> own)) < kSlotNum" if "GetProbe ?src (\<not> own) \<noteq> 0"
      using ctz_props(2) [OF that] by (simp add: GetProbe_def bit_sb_GetProbe)
    with True have "MoveToOther P s own from to = Some (None, s)"
      using b wf by (auto simp: MoveToOther_def Let_def TryInsertToBucket_full Fp_def wf_simps)
    then show ?thesis by (rule that(1))
  next
    case False
    define sl where "sl = ctz (GetProbe ?src (\<not> own))"
    have "bit (GetProbe ?src (\<not> own)) sl" using False ctz_props(2) by (auto simp: sl_def)
    then have sl: "sl < kSlotNum" "probing ?src sl = (\<not> own)" by (auto simp: GetProbe_def bit_sb_GetProbe)
    then have bs: "busy ?src sl" using full wf by (simp add: IsFull_iff)
    define k v f where kvf: "k = key ?src ! sl" "v = value ?src ! sl" "f = finger_arr ?src ! sl"
    have so: "slot_of ?src sl = (k, v, f, \<not> own)" by (simp add: slot_of_def kvf sl)
    have mem: "slot_of ?src sl \<in># slots ?src" using wf bs by (auto simp: in_slots_iff)
    then have "(k, v) \<in># seg_entries s"
      unfolding so in_seg_entries [OF seg_shapeD(1) [OF sh]] using bt(1) by blast
    then have mv: "MoveKey P d k = k" "MoveValue P d' v = v" for d d'
      using reg by (auto simp: seg_regular_def regular_def)
    have "slot_ok P from (k, v, f, \<not> own)" using seg_shapeD(3) [OF sh b(1) mem] so by simp
    then have ok: "slot_ok P to (k, v, f, own)"
      using b(2,3) Next_inj [OF home_lt, of to P k] by (cases own) (simp_all add: slot_ok_def)
    obtain i where i: "i < kSlotNum" "\<not> busy ?dst i"
      "TryInsertToBucket ?dst (\<lambda>d. MoveKey P d k) (\<lambda>d. MoveValue P d v) f own = Some (Some i, put ?dst i k v f own)"
      using TryInsertToBucket_eq [OF wf(2), of "\<lambda>d. MoveKey P d k" "\<lambda>d. MoveValue P d v" f own] False
      by (auto simp: mv)
    define s1 where "s1 = upd s to (put ?dst i k v f own)"
    note ins = inserted_regular [OF inv b(2) i(1,2) ok, folded s1_def, unfolded inserted_def]
    have src1: "GetBucket s1 from = ?src"
      using ne bt seg_shapeD(1) [OF sh] by (simp add: s1_def GetBucket_upd)
    have inv1: "seg_inv P s1" using ins by simp
    define s2 where "s2 = upd s1 from (ClearSlots ?src (push_bit sl 1))"
    note del = seg_slots_del [OF seg_invD(1) [OF inv1] bt(1), unfolded src1, OF bs, folded s2_def]
    show ?thesis
    proof (rule that(2) [of sl s2])
      show "MoveToOther P s own from to = Some (Some sl, s2)"
        using False b wf sl i bs src1
        by (simp add: MoveToOther_def sl_def [symmetric] Fp_def wf_simps kvf [symmetric] s1_def [symmetric]
          s2_def Delete_eq)
      show "seg_inv P s2"
        using del_inv [OF inv1 b(1), unfolded src1, OF bs] by (simp add: s2_def)
      have "seg_entries s1 = add_mset (k, v) (seg_entries s2)"
        unfolding seg_entries_def del so by (simp add: entry_of_def)
      then show "seg_entries s2 = seg_entries s" using ins by simp
      show "sl < kSlotNum" by (rule sl)
      have "sl < 32" using sl(1) kSlotNum_le(1) by (rule less_trans)
      then show "\<not> busy (GetBucket s2 from) sl"
        using seg_shapeD(1) [OF seg_invD(1) [OF inv1]] bt by (simp add: s2_def GetBucket_upd)
      show "local_depth s2 = local_depth s" "segment_id s2 = segment_id s"
        using ins by (simp_all add: s2_def)
    qed
  qed
qed

subsection \<open>The stash\<close>

text \<open>The balance of stash entries, pointers, overflow counter and present flag of one home bucket.\<close>

definition balanced :: "'a multiset \<Rightarrow> 'a multiset \<Rightarrow> nat \<Rightarrow> bool \<Rightarrow> bool" where
  "balanced E p ov has \<longleftrightarrow> p \<subseteq># E \<and> size E = size p + ov \<and> (has \<longleftrightarrow> E \<noteq> {#})"

lemma stash_ok_balanced:
  "stash_ok P s c \<longleftrightarrow> balanced (stash_entries P s c) (stash_ptrs s c) (unat (overflow_count (GetBucket s c)))
     (HasStash (GetBucket s c))"
  by (simp add: stash_ok_def balanced_def)

lemma balanced_add:
  assumes "balanced E p ov has" "p' = add_mset x p \<and> ov' = ov \<or> p' = p \<and> ov' = ov + 1"
  shows "balanced (add_mset x E) p' ov' True"
  using assms by (auto simp: balanced_def intro: subset_mset.le_supI1 mset_subset_eq_insertD
    subset_mset.order_trans [of p E "add_mset x E"])

lemma balanced_pre:
  assumes "balanced E p ov has" "x \<in># E" "x \<notin># p"
  shows "ov > 0"
proof (rule ccontr)
  assume "\<not> ov > 0"
  then have "size E = size p" using assms(1) by (simp add: balanced_def)
  then have "E = p" using assms(1)
    by (metis balanced_def mset_subset_size order_less_irrefl subset_mset.le_imp_less_or_eq)
  then show False using assms by simp
qed

lemma balanced_remove:
  assumes "balanced (add_mset x E) p ov has"
    and "x \<in># p \<Longrightarrow> p = add_mset x p' \<and> ov' = ov" "x \<notin># p \<Longrightarrow> p' = p \<and> ov' + 1 = ov"
    and "has' \<longleftrightarrow> has \<and> \<not> (p' = {#} \<and> ov' = 0)"
  shows "balanced E p' ov' has'"
proof -
  have sub: "p \<subseteq># add_mset x E" and sz: "Suc (size E) = size p + ov" and has
    using assms(1) by (auto simp: balanced_def)
  have 1: "p' \<subseteq># E"
  proof (cases "x \<in># p")
    case True
    then show ?thesis using assms(2) sub by simp
  next
    case False
    then show ?thesis using assms(3) sub by (metis diff_single_trivial subset_eq_diff_conv add_mset_add_single)
  qed
  moreover have 2: "size E = size p' + ov'"
    using assms(2,3) sz by (cases "x \<in># p") auto
  ultimately show ?thesis
    using \<open>has\<close> assms(4) by (auto simp: balanced_def)
qed

lemma stash_at_put:
  assumes "bucket_wf b" "i < kSlotNum" "\<not> busy b i"
  shows "stash_at P c j (put b i k v f p) = (if home P k = c then {#(f, j)#} else {#}) + stash_at P c j b"
  by (simp add: stash_at_def slots_put [OF assms])

lemma stash_entries_put:
  assumes "seg_shape P s" "j < kStashBucketNum" "i < kSlotNum" "\<not> busy (GetBucket s (kBucketNum + j)) i"
  shows "stash_entries P (upd s (kBucketNum + j) (put (GetBucket s (kBucketNum + j)) i k v f p)) c =
     (if home P k = c then add_mset (f, j) (stash_entries P s c) else stash_entries P s c)"
  using stash_entries_upd_stash [OF seg_shapeD(1) [OF assms(1)] assms(2), of P
    "put (GetBucket s (kBucketNum + j)) i k v f p" c]
  by (simp add: stash_at_put [OF seg_shapeD(2) [OF assms(1) lt_total(2) [OF assms(2)]] assms(3,4)] split: if_splits)

lemma inserted_stash:
  assumes inv: "seg_inv P s" and j: "j < kStashBucketNum"
    and i: "i < kSlotNum" "\<not> busy (GetBucket s (kBucketNum + j)) i"
    and h: "HashFn P k = Some h" and bid: "bid = HomeIndex h"
    and s1: "s1 = upd s (kBucketNum + j) (put (GetBucket s (kBucketNum + j)) i k v (meta h) False)"
  shows "\<exists>t n. SetStashPtr (GetBucket s1 bid) j (meta h) (GetBucket s1 (NextBid bid)) = Some (t, n) \<and>
    inserted P s \<lparr>index = kBucketNum + j, slot = i\<rparr> (k, v) (upd (upd s1 bid t) (NextBid bid) n)"
proof -
  note sh = seg_invD(1) [OF inv] and jt = lt_total(2) [OF j]
  note len = seg_shapeD(1) [OF sh] and wfj = seg_shapeD(2) [OF sh jt]
  have kh: "khash P k = h" "home P k = bid" by (simp_all add: khash_def home_def h bid)
  have b: "bid < kBucketNum" by (simp add: bid)
  have reg: "GetBucket s1 c = GetBucket s c" if "c < kBucketNum" for c
    using that len jt by (simp add: s1 GetBucket_upd)
  have sh1: "seg_shape P s1"
    unfolding s1
  proof (rule seg_shape_upd [OF sh jt put_wf [OF wfj i(1)]])
    show "stash_slot_ok P x" if "x \<in># slots (put (GetBucket s (kBucketNum + j)) i k v (meta h) False)" for x
      using that seg_shapeD(4) [OF sh j, of x] unfolding slots_put [OF wfj i]
      by (auto simp: stash_slot_ok_def kh h)
  qed simp
  note len1 = seg_shapeD(1) [OF sh1]
  have E1: "stash_entries P s1 c = (if c = bid then add_mset (meta h, j) (stash_entries P s c) else stash_entries P s c)"
    for c unfolding s1 stash_entries_put [OF sh j i] kh by auto
  have ov: "unat (overflow_count (GetBucket s1 bid)) < 255" using overflow_lt [OF inv b] reg [OF b] by simp
  have j4: "j < 4" using j by (simp add: kStashBucketNum_def)
  obtain t n where tn: "SetStashPtr (GetBucket s1 bid) j (meta h) (GetBucket s1 (NextBid bid)) = Some (t, n)"
      "stash_frame (GetBucket s1 bid) (GetBucket s1 (NextBid bid)) t n" "HasStash t"
      "ptrs t False + ptrs n True = add_mset (meta h, j) (stash_ptrs s1 bid) \<and>
         overflow_count t = overflow_count (GetBucket s1 bid) \<or>
       ptrs t False + ptrs n True = stash_ptrs s1 bid \<and>
         unat (overflow_count t) = unat (overflow_count (GetBucket s1 bid)) + 1"
    unfolding stash_ptrs_def
    by (rule SetStashPtr_spec [OF _ _ j4 ov, of "GetBucket s1 (NextBid bid)" "meta h"])
      (use sh1 b in auto)
  define s2 where "s2 = upd (upd s1 bid t) (NextBid bid) n"
  note u2 = stash_ptrs_upd2 [OF len1 b tn(2) s2_def]
  have len2: "seg_len s2" using len1 by (simp add: s2_def)
  have wf2: "base_wf (GetBucket s2 c)" if "c < kTotalBuckets" for c
    using tn(2) that len1 b seg_shapeD(2) [OF sh1]
    by (auto simp: s2_def GetBucket_upd lt_total stash_frame_def)
  have sh2: "seg_shape P s2" by (rule seg_shape_same_slots [OF sh1 len2 u2(6) wf2])
  have sl2: "slots (GetBucket s2 c) = slots (GetBucket s1 c)" if "c < kTotalBuckets" for c
    using u2(6) [OF that] by (rule same_slotsD)
  have E2: "stash_entries P s2 c = stash_entries P s1 c" for c
    by (rule stash_entries_cong) (simp add: sl2 lt_total)
  have sp1: "stash_ptrs s1 c = stash_ptrs s c" if "c < kBucketNum" for c
    using that by (simp add: stash_ptrs_def reg)
  have "stash_ok P s2 c" if c: "c < kBucketNum" for c
  proof (cases "c = bid")
    case True
    have "balanced (stash_entries P s2 bid) (stash_ptrs s2 bid) (unat (overflow_count t)) True"
      unfolding E2 E1 u2(1) if_P [OF refl]
      by (rule balanced_add [OF seg_invD(2) [OF inv b, unfolded stash_ok_balanced]])
        (use tn(4) sp1 [OF b] reg [OF b] in auto)
    then show ?thesis using True tn(3) by (simp add: stash_ok_balanced u2(2))
  next
    case False
    then show ?thesis
      using seg_invD(2) [OF inv c] by (simp add: stash_ok_balanced E2 E1 u2(3-5) [OF c] reg [OF c] sp1 [OF c])
  qed
  with sh2 have inv2: "seg_inv P s2" by (simp add: seg_inv_def)
  have "seg_slots s2 = add_mset (k, v, meta h, False) (seg_slots s)"
    using seg_slots_cong [OF len1 len2 sl2] seg_slots_put [OF sh jt i] by (simp add: s1)
  moreover have "it_points s2 \<lparr>index = kBucketNum + j, slot = i\<rparr>" "it_key s2 \<lparr>index = kBucketNum + j, slot = i\<rparr> = k"
    "it_value s2 \<lparr>index = kBucketNum + j, slot = i\<rparr> = v"
    using it_points_put [OF len jt wfj i(1) s1] u2(7) [of "kBucketNum + j"]
    by (simp_all add: it_points_def it_key_def it_value_def)
  ultimately have "inserted P s \<lparr>index = kBucketNum + j, slot = i\<rparr> (k, v) s2"
    using inv2 by (simp add: inserted_def seg_entries_def entry_of_def) (simp add: s2_def s1)
  with tn(1) show ?thesis by (auto simp: s2_def)
qed

subsection \<open>\<open>InsertUniq\<close>\<close>

lemma InsertUniq_stash_spec:
  assumes inv: "seg_inv P s" and h: "HashFn P k = Some h" and u: "\<And>d. u d = k"
  obtains (Full) "InsertUniq_stash s u v (meta h) (HomeIndex h) (NextBid (HomeIndex h)) js = Some (SegIterator_end, s)"
      "\<And>i. i \<in> set js \<Longrightarrow> IsFull (GetBucket s (kBucketNum + (HomeIndex h + i) mod kStashBucketNum))"
    | (Ok) it s' v0 where "InsertUniq_stash s u v (meta h) (HomeIndex h) (NextBid (HomeIndex h)) js = Some (it, s')"
      "inserted P s it (k, v v0) s'"
proof (induction js arbitrary: thesis)
  case Nil
  show ?case by (rule Nil(1)) simp_all
next
  case (Cons i js)
  let ?j = "(HomeIndex h + i) mod kStashBucketNum"
  let ?b = "GetBucket s (kBucketNum + ?j)"
  have j: "?j < kStashBucketNum" by (simp add: kStashBucketNum_def)
  have wf: "bucket_wf ?b" using seg_shapeD(2) [OF seg_invD(1) [OF inv] lt_total(2) [OF j]] .
  show ?case
  proof (cases "IsFull ?b")
    case True
    have step: "InsertUniq_stash s u v (meta h) (HomeIndex h) (NextBid (HomeIndex h)) (i # js) =
        InsertUniq_stash s u v (meta h) (HomeIndex h) (NextBid (HomeIndex h)) js"
      using True by (simp add: TryInsertToBucket_full)
    show ?thesis
    proof (rule Cons.IH, goal_cases)
      case 1
      show ?case by (rule Cons.prems(1)) (use 1 True in \<open>auto simp only: step list.set insert_iff\<close>)
    next
      case (2 it s' v0)
      show ?case by (rule Cons.prems(2) [OF _ 2(2)]) (simp only: step 2(1))
    qed
  next
    case False
    obtain sl where sl: "sl < kSlotNum" "\<not> busy ?b sl"
      "TryInsertToBucket ?b u v (meta h) False = Some (Some sl, put ?b sl k (v (value ?b ! sl)) (meta h) False)"
      using TryInsertToBucket_eq [OF wf False, of u v "meta h" False] by (metis u)
    define s1 where "s1 = upd s (kBucketNum + ?j) (put ?b sl k (v (value ?b ! sl)) (meta h) False)"
    obtain t n where tn: "SetStashPtr (GetBucket s1 (HomeIndex h)) ?j (meta h) (GetBucket s1 (NextBid (HomeIndex h))) = Some (t, n)"
      "inserted P s \<lparr>index = kBucketNum + ?j, slot = sl\<rparr> (k, v (value ?b ! sl))
         (upd (upd s1 (HomeIndex h) t) (NextBid (HomeIndex h)) n)"
      using inserted_stash [OF inv j sl(1,2) h refl s1_def] by blast
    show ?thesis
      by (rule Cons.prems(2) [OF _ tn(2)]) (simp add: sl(3) s1_def [symmetric] tn(1))
  qed
qed

lemma rotate_hits: "j < kStashBucketNum \<Longrightarrow> \<exists>i < kStashBucketNum. (b + i) mod kStashBucketNum = j"
  unfolding kStashBucketNum_def by presburger

lemma inserted_after:
  assumes "inserted P s1 it e s'" "seg_entries s1 = seg_entries s"
    "local_depth s1 = local_depth s" "segment_id s1 = segment_id s"
  shows "inserted P s it e s'"
  using assms by (simp add: inserted_def)

lemma seg_full_sizes:
  assumes "bucket_wf a" "bucket_wf b" "IsFull a" "Size a \<le> Size b"
  shows "IsFull b"
  using assms size_slots_le [of b] by (simp add: IsFull_def Size_slots)

lemma InsertUniq_spec:
  assumes inv: "seg_inv P s" and reg: "seg_regular P s" and h: "HashFn P k = Some h" and u: "\<And>d. u d = k"
  obtains (Full) "InsertUniq P s u v h spread = Some (SegIterator_end, s)"
      "IsFull (GetBucket s (HomeIndex h))" "IsFull (GetBucket s (NextBid (HomeIndex h)))"
      "\<And>j. j < kStashBucketNum \<Longrightarrow> IsFull (GetBucket s (kBucketNum + j))"
    | (Ok) it s' v0 where "InsertUniq P s u v h spread = Some (it, s')" "inserted P s it (k, v v0) s'"
proof -
  let ?b = "HomeIndex h" let ?n = "NextBid ?b"
  let ?B = "GetBucket s ?b" and ?N = "GetBucket s ?n"
  note sh = seg_invD(1) [OF inv]
  have wf: "bucket_wf ?B" "bucket_wf ?N" using sh by simp_all
  have okb: "slot_ok P ?b (k, w, meta h, False)" and okn: "slot_ok P ?n (k, w, meta h, True)" for w
    by (simp_all add: slot_ok_def h khash_def home_def)
  have ins: ?thesis if "c = ?b \<and> p = False \<or> c = ?n \<and> p = True" "i < kSlotNum" "seg_inv P s1"
    "\<not> busy (GetBucket s1 c) i" "seg_entries s1 = seg_entries s" "local_depth s1 = local_depth s" "segment_id s1 = segment_id s"
    "InsertUniq P s u v h spread = Some (\<lparr>index = c, slot = i\<rparr>,
       upd s1 c (put (GetBucket s1 c) i k (v (value (GetBucket s1 c) ! i)) (meta h) p))" for c p i s1
  proof -
    have ok: "slot_ok P c (k, v (value (GetBucket s1 c) ! i), meta h, p)" and c: "c < kBucketNum"
      using that(1) okb okn by auto
    show ?thesis
      by (rule Ok [OF that(8) inserted_after [OF inserted_regular [OF that(3) c that(2,4) ok] that(5-7)]])
  qed
  consider (B) "\<not> IsFull ?B" "\<not> (spread \<and> Size ?B > Size ?N)" | (N) "spread \<and> Size ?B > Size ?N"
    | (N2) "\<not> spread" "IsFull ?B" "\<not> IsFull ?N" | (F) "IsFull ?B" "IsFull ?N"
    using seg_full_sizes [OF wf] by force
  then show ?thesis
  proof cases
    case B
    show ?thesis
      by (rule TryInsertToBucket_eq [OF wf(1) B(1), of u v "meta h" False], rule ins [OF disjI1])
        (use B inv in \<open>auto simp: InsertUniq_def Let_def u\<close>)
  next
    case N
    then have "\<not> IsFull ?N"
      using size_slots_le [of ?B] wf by (auto simp: IsFull_def Size_slots)
    then show ?thesis
      by (rule TryInsertToBucket_eq [OF wf(2), of u v "meta h" True], intro ins [OF disjI2])
        (use N inv in \<open>auto simp: InsertUniq_def Let_def u\<close>)
  next
    case N2
    show ?thesis
      by (rule TryInsertToBucket_eq [OF wf(2) N2(3), of u v "meta h" True], rule ins [OF disjI2])
        (use N2 inv in \<open>auto simp: InsertUniq_def Let_def u TryInsertToBucket_full\<close>)
  next
    case F
    then have "Size ?B = Size ?N" by (simp add: IsFull_def)
    then have eq: "InsertUniq P s u v h spread = (do {
     (displace, s1) \<leftarrow> MoveToOther P s True ?n (NextBid ?n);
     case displace of
       Some sl \<Rightarrow> do {
         b \<leftarrow> Bucket_Insert (GetBucket s1 ?n) sl u v (meta h) True;
         Some (\<lparr>index = ?n, slot = sl\<rparr>, upd s1 ?n b) }
     | None \<Rightarrow> do {
     (displace2, s2) \<leftarrow> MoveToOther P s1 False ?b (PrevBid ?b);
     case displace2 of
       Some sl \<Rightarrow> do {
         b \<leftarrow> Bucket_Insert (GetBucket s2 ?b) sl u v (meta h) False;
         Some (\<lparr>index = ?b, slot = sl\<rparr>, upd s2 ?b b) }
     | None \<Rightarrow> InsertUniq_stash s2 u v (meta h) ?b ?n [0..<kStashBucketNum] } })"
      using F by (simp add: InsertUniq_def Let_def TryInsertToBucket_full)
    have wf1: "bucket_wf (GetBucket s1 c)" if "seg_inv P s1" "c < kBucketNum" for s1 c
      using seg_invD(1) [OF that(1)] that(2) by (rule seg_shape_bucket)
    show ?thesis
    proof (rule MoveToOther_spec [OF inv reg _ _ _ F(2), of "NextBid ?n" True])
      fix sl s' assume m: "MoveToOther P s True ?n (NextBid ?n) = Some (Some sl, s')" "seg_inv P s'"
        "seg_entries s' = seg_entries s" "sl < kSlotNum" "\<not> busy (GetBucket s' ?n) sl"
        "local_depth s' = local_depth s" "segment_id s' = segment_id s"
      show ?thesis
        by (rule ins [OF disjI2 m(4,2,5,3,6,7)])
          (simp_all add: eq m(1) Bucket_Insert_eq [OF wf1 [OF m(2)] m(4,5)] u)
    next
      assume m1: "MoveToOther P s True ?n (NextBid ?n) = Some (None, s)"
      show ?thesis
      proof (rule MoveToOther_spec [OF inv reg _ _ _ F(1), of "PrevBid ?b" False])
        fix sl s' assume m: "MoveToOther P s False ?b (PrevBid ?b) = Some (Some sl, s')" "seg_inv P s'"
          "seg_entries s' = seg_entries s" "sl < kSlotNum" "\<not> busy (GetBucket s' ?b) sl"
          "local_depth s' = local_depth s" "segment_id s' = segment_id s"
        show ?thesis
          by (rule ins [OF disjI1 m(4,2,5,3,6,7)])
            (simp_all add: eq m1 m(1) Bucket_Insert_eq [OF wf1 [OF m(2)] m(4,5)] u)
      next
        assume m2: "MoveToOther P s False ?b (PrevBid ?b) = Some (None, s)"
        show ?thesis
        proof (cases rule: InsertUniq_stash_spec [OF inv h, of u v "[0..<kStashBucketNum]", case_names _ Full Ok])
          case Full
          have "IsFull (GetBucket s (kBucketNum + j))" if "j < kStashBucketNum" for j
            using rotate_hits [OF that, of ?b] Full(2) by auto
          with Full(1) F show ?thesis by (intro that(1)) (simp_all add: eq m1 m2)
        qed (use u in \<open>auto simp: eq m1 m2 intro: Ok\<close>)
      qed (simp_all add: PrevBid_lt Next_Prev)
    qed simp_all
  qed
qed

subsection \<open>Deletion\<close>

definition deleted :: "('k, 'v, 'u) Policy \<Rightarrow> ('k, 'v) Segment \<Rightarrow> 'k \<times> 'v \<Rightarrow> ('k, 'v) Segment \<Rightarrow> bool" where
  "deleted P s e s' \<longleftrightarrow> seg_inv P s' \<and> seg_entries s = add_mset e (seg_entries s') \<and>
     local_depth s' = local_depth s \<and> segment_id s' = segment_id s"

lemma stash_entries_del:
  assumes "seg_shape P s" "j < kStashBucketNum" "busy (GetBucket s (kBucketNum + j)) i"
    and "slot_of (GetBucket s (kBucketNum + j)) i = (k, v, f, p)"
  shows "stash_entries P s c = (if home P k = c then {#(f, j)#} else {#}) +
     stash_entries P (upd s (kBucketNum + j) (ClearSlots (GetBucket s (kBucketNum + j)) (push_bit i 1))) c"
proof -
  let ?b = "GetBucket s (kBucketNum + j)"
  have "stash_at P c j ?b = (if home P k = c then {#(f, j)#} else {#}) + stash_at P c j (ClearSlots ?b (push_bit i 1))"
    using slots_delete [OF bucket_wf_base [OF seg_shapeD(2) [OF assms(1) lt_total(2) [OF assms(2)]]] assms(3)] assms(4)
    by (simp add: stash_at_def)
  then show ?thesis
    using stash_entries_upd_stash [OF seg_shapeD(1) [OF assms(1)] assms(2), of P "ClearSlots ?b (push_bit i 1)" c]
    by (simp split: if_splits)
qed

lemma delete_regular:
  assumes inv: "seg_inv P s" and it: "it_points s it" "index it < kBucketNum"
  shows "\<exists>s'. Segment_Delete s it h = Some s' \<and> deleted P s (it_key s it, it_value s it) s'"
proof -
  note sh = seg_invD(1) [OF inv] and bt = lt_total(1) [OF it(2)]
  let ?b = "GetBucket s (index it)"
  have wf: "base_wf ?b" using sh it(2) by simp
  have bs: "busy ?b (slot it)" using it by (simp add: it_points_def)
  have "Segment_Delete s it h = Some (upd s (index it) (ClearSlots ?b (push_bit (slot it) 1)))"
    using it it_points_found [OF it(1)] wf bs by (simp add: Segment_Delete_def Delete_eq)
  moreover have "seg_entries s = add_mset (it_key s it, it_value s it)
      (seg_entries (upd s (index it) (ClearSlots ?b (push_bit (slot it) 1))))"
    unfolding seg_entries_def seg_slots_del [OF sh bt bs]
    by (simp add: entry_of_def slot_of_def it_key_def it_value_def)
  ultimately show ?thesis using del_inv [OF inv it(2) bs] by (simp add: deleted_def)
qed

lemma delete_stash:
  assumes inv: "seg_inv P s" and it: "it_points s it" "index it = kBucketNum + j" "j < kStashBucketNum"
    and h: "HashFn P (it_key s it) = Some h"
  shows "\<exists>s'. Segment_Delete s it h = Some s' \<and> deleted P s (it_key s it, it_value s it) s'"
proof -
  note sh = seg_invD(1) [OF inv] and jt = lt_total(2) [OF it(3)]
  note len = seg_shapeD(1) [OF sh]
  let ?B = "GetBucket s (kBucketNum + j)" and ?c = "HomeIndex h" and ?k = "it_key s it"
  have b: "?c < kBucketNum" by simp
  have wf: "bucket_wf ?B" by (rule seg_shapeD(2) [OF sh jt])
  have bs: "busy ?B (slot it)" using it by (simp add: it_points_def)
  have mem: "slot_of ?B (slot it) \<in># slots ?B" using it_points_entry(1) [OF sh it(1)] it(2) by simp
  have kh: "khash P ?k = h" "home P ?k = ?c" by (simp_all add: khash_def home_def h)
  have so: "slot_of ?B (slot it) = (?k, it_value s it, meta h, False)"
    using seg_shapeD(4) [OF sh it(3) mem] kh it(2)
    by (auto simp: slot_of_def stash_slot_ok_def it_key_def it_value_def)
  note bal = seg_invD(2) [OF inv b, unfolded stash_ok_balanced]
  have inE: "(meta h, j) \<in># stash_entries P s ?c"
    using stash_entries_del [OF sh it(3) bs so, of ?c] kh by simp
  have pre: "(meta h, j) \<in># ptrs (GetBucket s ?c) False + ptrs (GetBucket s (NextBid ?c)) True \<or>
      overflow_count (GetBucket s ?c) > 0"
    using balanced_pre [OF bal inE] by (auto simp: stash_ptrs_def unat_gt_0 word_gt_0)
  obtain r t n where tn: "UnsetStashPtr (GetBucket s ?c) (meta h) j (GetBucket s (NextBid ?c)) = Some (r, t, n)"
    "stash_frame (GetBucket s ?c) (GetBucket s (NextBid ?c)) t n"
    "(meta h, j) \<in># stash_ptrs s ?c \<Longrightarrow>
       stash_ptrs s ?c = add_mset (meta h, j) (ptrs t False + ptrs n True) \<and>
       overflow_count t = overflow_count (GetBucket s ?c)"
    "(meta h, j) \<notin># stash_ptrs s ?c \<Longrightarrow>
       ptrs t False + ptrs n True = stash_ptrs s ?c \<and>
       unat (overflow_count t) + 1 = unat (overflow_count (GetBucket s ?c))"
    "HasStash t \<longleftrightarrow> HasStash (GetBucket s ?c) \<and> \<not> (ptrs t False + ptrs n True = {#} \<and> overflow_count t = 0)"
    unfolding stash_ptrs_def
    by (rule UnsetStashPtr_spec [OF _ _ pre]) (use sh in auto)
  define s1 where "s1 = upd (upd s ?c t) (NextBid ?c) n"
  note u1 = stash_ptrs_upd2 [OF len b tn(2) s1_def]
  have len1: "seg_len s1" using len by (simp add: s1_def)
  have wf1: "base_wf (GetBucket s1 i)" if "i < kTotalBuckets" for i
    using tn(2) that len b seg_shapeD(2) [OF sh] by (auto simp: s1_def GetBucket_upd lt_total stash_frame_def)
  have sh1: "seg_shape P s1" by (rule seg_shape_same_slots [OF sh len1 u1(6) wf1])
  have B1: "GetBucket s1 (kBucketNum + j) = ?B" by (simp add: u1(7))
  define s2 where "s2 = upd s1 (kBucketNum + j) (ClearSlots ?B (push_bit (slot it) 1))"
  have reg: "GetBucket s2 i = GetBucket s1 i" if "i < kBucketNum" for i
    using that len1 jt by (simp add: s2_def GetBucket_upd)
  have E: "stash_entries P s i = (if ?c = i then {#(meta h, j)#} else {#}) + stash_entries P s2 i" for i
  proof -
    have "stash_entries P s1 i = stash_entries P s i" by (rule stash_entries_cong) (simp add: u1(7))
    then show ?thesis
      using stash_entries_del [OF sh1 it(3), unfolded B1, OF bs so, of i] kh by (simp add: s2_def)
  qed
  have p2: "stash_ptrs s2 i = stash_ptrs s1 i" if "i < kBucketNum" for i
    using that by (simp add: stash_ptrs_def reg)
  have sh2: "seg_shape P s2"
    unfolding s2_def
  proof (rule seg_shape_upd [OF sh1 jt ClearSlots_wf [OF wf]])
    show "stash_slot_ok P x" if "x \<in># slots (ClearSlots ?B (push_bit (slot it) 1))" for x
      using that seg_shapeD(4) [OF sh it(3), of x] slots_delete [OF bucket_wf_base [OF wf] bs] by simp
  qed simp
  have "stash_ok P s2 i" if i: "i < kBucketNum" for i
  proof (cases "i = ?c")
    case True
    have bal': "balanced (add_mset (meta h, j) (stash_entries P s2 ?c)) (stash_ptrs s ?c)
        (unat (overflow_count (GetBucket s ?c))) (HasStash (GetBucket s ?c))"
      using bal E [of ?c] by simp
    have "balanced (stash_entries P s2 ?c) (ptrs t False + ptrs n True) (unat (overflow_count t)) (HasStash t)"
      by (rule balanced_remove [OF bal']) (use tn(3-5) in \<open>auto simp: unat_eq_0\<close>)
    then show ?thesis using True by (simp add: stash_ok_balanced p2 [OF b] reg [OF b] u1(1,2))
  next
    case False
    then show ?thesis
      using seg_invD(2) [OF inv i] E [of i] by (simp add: stash_ok_balanced p2 [OF i] reg [OF i] u1(3-5) [OF i])
  qed
  with sh2 have inv2: "seg_inv P s2" by (simp add: seg_inv_def)
  have "seg_slots s1 = seg_slots s"
    by (rule seg_slots_cong [OF len len1]) (simp add: same_slotsD(1) [OF u1(6)])
  then have "seg_slots s = add_mset (?k, it_value s it, meta h, False) (seg_slots s2)"
    using seg_slots_del [OF sh1 jt, unfolded B1, OF bs, folded s2_def] so by simp
  then have "seg_entries s = add_mset (?k, it_value s it) (seg_entries s2)"
    by (simp add: seg_entries_def entry_of_def)
  moreover have "Segment_Delete s it h = Some s2"
    using it_points_found [OF it(1)] it tn(1) wf bs
    by (simp add: Segment_Delete_def RemoveStashReference_def s1_def [symmetric] B1 Delete_eq s2_def)
  ultimately show ?thesis using inv2 by (auto simp: deleted_def s2_def s1_def)
qed

lemma Segment_Delete_spec:
  assumes inv: "seg_inv P s" and it: "it_points s it" and h: "HashFn P (it_key s it) = Some h"
  shows "\<exists>s'. Segment_Delete s it h = Some s' \<and> deleted P s (it_key s it, it_value s it) s'"
proof (cases "index it < kBucketNum")
  case True
  then show ?thesis using inv it by (intro delete_regular)
next
  case False
  then have "index it = kBucketNum + (index it - kBucketNum)" "index it - kBucketNum < kStashBucketNum"
    using it by (auto simp: it_points_def kTotalBuckets_def)
  then show ?thesis using inv it h by (intro delete_stash)
qed

subsection \<open>Construction and clearing\<close>

lemma empty_segment_inv:
  assumes "seg_len s" "\<And>i. i < kTotalBuckets \<Longrightarrow> bucket_wf (GetBucket s i) \<and> val_busy (slotb (GetBucket s i)) = 0 \<and>
    stash_busy (GetBucket s i) = 0 \<and> overflow_count (GetBucket s i) = 0"
  shows "seg_inv P s" "seg_entries s = {#}"
proof -
  have sl: "slots (GetBucket s i) = {#}" if "i < kTotalBuckets" for i
    using assms(2) [OF that] by (simp add: slots_def busy_slots_def)
  then have E: "stash_entries P s c = {#}" for c
  proof -
    have "map (\<lambda>j. stash_at P c j (GetBucket s (kBucketNum + j))) [0..<kStashBucketNum] = map (\<lambda>_. {#}) [0..<kStashBucketNum]"
      using sl by (intro map_cong) (auto simp: stash_at_def lt_total)
    then show ?thesis by (simp add: stash_entries_def del: map_eq_conv)
  qed
  have p: "ptrs (GetBucket s i) q = {#}" if "i < kTotalBuckets" for i q
    using assms(2) [OF that] by (simp add: ptrs_def ptr_slots_def)
  have "stash_ok P s c" if "c < kBucketNum" for c
    using assms(2) [of c] that by (simp add: stash_ok_def E stash_ptrs_def p lt_total HasStash_def)
  then show "seg_inv P s"
    using assms sl by (auto simp: seg_inv_def seg_shape_def lt_total)
  have "set_mset (seg_slots s) = {}"
    using sl in_seg_slots [OF assms(1)] by (metis empty_iff equals0I set_mset_empty)
  then have "seg_slots s = {#}" by simp
  then show "seg_entries s = {#}" by (simp add: seg_entries_def)
qed

lemma Bucket_init_wf: "bucket_wf (Bucket_init k v)"
  by (simp add: bucket_wf_def base_wf_def Bucket_init_def)

lemma Segment_init_inv: "seg_inv P (Segment_init k0 v0 d sid)" "seg_entries (Segment_init k0 v0 d sid) = {#}"
  by (intro empty_segment_inv; auto simp: Segment_init_def Bucket_init_wf; simp add: Bucket_init_def SlotBitmap_init_def)+

lemma Segment_Clear_inv:
  assumes "seg_shape P s"
  shows "seg_inv P' (Segment_Clear s)" "seg_entries (Segment_Clear s) = {#}"
    "local_depth (Segment_Clear s) = local_depth s" "segment_id (Segment_Clear s) = segment_id s"
proof -
  have wf: "bucket_wf (ClearStashPtrs (Clear b))" if "bucket_wf b" for b :: "('a, 'b) Bucket"
    using that by (simp add: bucket_wf_def base_wf_def ClearStashPtrs_def Clear_def sb_Clear_def sb_wf_def)
  show "seg_inv P' (Segment_Clear s)" "seg_entries (Segment_Clear s) = {#}"
    using seg_shapeD(1,2) [OF assms]
    by (intro empty_segment_inv; auto simp: Segment_Clear_def wf; simp add: Clear_def ClearStashPtrs_def sb_Clear_def)+
qed (simp_all add: Segment_Clear_def)

subsection \<open>The contract of a segment\<close>

text \<open>A concrete policy for the witnesses: 64-bit keys that hash to themselves.\<close>

definition u64_policy :: "(u64, 'v, u64) Policy" where
  "u64_policy = \<lparr>HashFn = Some, HashView = id, Equal = (=), MoveKey = (\<lambda>d s. s), MoveValue = (\<lambda>d s. s),
     AssignKey = (\<lambda>d s. s), DestroyKey = id, DestroyValue = id\<rparr>"

lemma u64_policy_regular: "seg_regular u64_policy s"
  by (simp add: seg_regular_def regular_def u64_policy_def)

text \<open>Lookup in a segment is exact: \<open>FindIt\<close> returns an iterator to a busy slot whose key satisfies
  the predicate, or no stored key with that hash satisfies it. The search through fingerprints, the
  neighbour bucket, the stash pointers and the overflow scan misses no entry.\<close>

theorem FindIt_correct:
  assumes "seg_inv P s"
  shows "found (FindIt s h pred) \<and> it_points s (FindIt s h pred) \<and> pred (it_key s (FindIt s h pred)) \<or>
    \<not> found (FindIt s h pred) \<and> (\<forall>k v. (k, v) \<in># seg_entries s \<and> khash P k = h \<longrightarrow> \<not> pred k)"
proof (cases "found (FindIt s h pred)")
  case True
  then show ?thesis using FindIt_sound [OF seg_invD(1) [OF assms] True] by simp
next
  case False
  then show ?thesis using FindIt_complete [OF assms, of _ _ pred h] by metis
qed

theorem FindIt_correct_witness:
  "\<not> found (FindIt (Segment_init (0 :: u64) (0 :: nat) 1 0) 5 (\<lambda>k. k = 5))"
proof -
  let ?s = "Segment_init (0 :: u64) (0 :: nat) 1 0"
  have inv: "seg_inv u64_policy ?s" by (rule Segment_init_inv)
  have "\<not> it_points ?s it" for it
    using it_points_entry(2) [OF seg_invD(1) [OF inv], of it] by (auto simp: Segment_init_inv(2))
  with FindIt_correct [OF inv, of 5 "\<lambda>k. k = 5"] show ?thesis by blast
qed

text \<open>Insertion into a segment: with spreading, displacement and stash, \<open>InsertUniq\<close> adds exactly the
  new entry, the returned iterator points to it, the invariant and the depth are kept; or the
  segment is unchanged and the home bucket, its neighbour and all stash buckets are full. No
  assertion fails.\<close>

theorem InsertUniq_correct:
  assumes "seg_inv P s" "seg_regular P s" "HashFn P k = Some h" "\<forall>d. u d = k"
  shows "(\<exists>it s' v0. InsertUniq P s u v h spread = Some (it, s') \<and> found it \<and> inserted P s it (k, v v0) s') \<or>
    InsertUniq P s u v h spread = Some (SegIterator_end, s) \<and> IsFull (GetBucket s (HomeIndex h)) \<and>
      IsFull (GetBucket s (NextBid (HomeIndex h))) \<and>
      (\<forall>j < kStashBucketNum. IsFull (GetBucket s (kBucketNum + j)))"
proof (rule InsertUniq_spec [OF assms(1-3), of u v spread])
  show "u d = k" for d using assms(4) by blast
next
  fix it s' v0 assume "InsertUniq P s u v h spread = Some (it, s')" "inserted P s it (k, v v0) s'"
  moreover then have "found it" by (auto simp: inserted_def intro: it_points_found)
  ultimately show ?thesis by blast
qed blast

lemma Segment_init_not_full: "i < kTotalBuckets \<Longrightarrow> \<not> IsFull (GetBucket (Segment_init k0 v0 d n) i)"
  by (simp add: Segment_init_def Bucket_init_def IsFull_def Size_def sb_Size_def SlotBitmap_init_def
    popcount_conv_card)

theorem InsertUniq_correct_witness:
  "\<exists>it s' v0. InsertUniq u64_policy (Segment_init 0 0 1 0) (\<lambda>d. 77) (\<lambda>d. 5 :: nat) 77 True = Some (it, s') \<and>
     found it \<and> inserted u64_policy (Segment_init 0 0 1 0) it (77, 5) s'"
proof -
  let ?s = "Segment_init (0 :: u64) (0 :: nat) 1 0"
  have h: "HashFn u64_policy 77 = Some 77" by (simp add: u64_policy_def)
  have "\<not> IsFull (GetBucket ?s (HomeIndex 77))" by (simp add: Segment_init_not_full lt_total)
  with InsertUniq_correct [OF Segment_init_inv(1) u64_policy_regular h, of "\<lambda>d. 77" 0 0 1 0 "\<lambda>d. 5 :: nat" True]
  show ?thesis by simp
qed

text \<open>Deletion removes exactly the entry under the iterator and keeps the invariant; for an entry of
  the stash the pointer or overflow count of its home bucket is released, so that the present
  flag stays exact. No assertion fails.\<close>

theorem Segment_Delete_correct:
  assumes "seg_inv P s" "it_points s it" "HashFn P (it_key s it) = Some h"
  shows "\<exists>s'. Segment_Delete s it h = Some s' \<and> seg_inv P s' \<and>
    seg_entries s = add_mset (it_key s it, it_value s it) (seg_entries s') \<and>
    local_depth s' = local_depth s \<and> segment_id s' = segment_id s"
  using Segment_Delete_spec [OF assms] by (auto simp: deleted_def)

definition one_entry :: "(u64, nat) Segment" where
  "one_entry = upd (Segment_init 0 0 1 0) 0 (put (Bucket_init 0 0) 0 0 7 0 False)"

lemma one_entry_inserted:
  "inserted u64_policy (Segment_init 0 0 1 0) \<lparr>index = 0, slot = 0\<rparr> (0, 7) one_entry"
proof -
  have b0: "GetBucket (Segment_init 0 0 1 0) 0 = (Bucket_init 0 0 :: (u64, nat) Bucket)"
    by (simp add: Segment_init_def kTotalBuckets_def kBucketNum_def)
  have ok: "slot_ok u64_policy 0 (0, 7 :: nat, 0, False)"
    by (simp add: slot_ok_def u64_policy_def khash_def home_def HomeIndex_def meta_def)
  have nb: "\<not> busy (GetBucket (Segment_init (0 :: u64) (0 :: nat) 1 0) 0) 0"
    unfolding b0 by (simp add: Bucket_init_def SlotBitmap_init_def)
  show ?thesis
    using inserted_regular [OF Segment_init_inv(1) _ _ nb ok] unfolding b0 one_entry_def by simp
qed

theorem Segment_Delete_correct_witness:
  "\<exists>s'. Segment_Delete one_entry \<lparr>index = 0, slot = 0\<rparr> 0 = Some s' \<and> seg_inv u64_policy s' \<and> seg_entries s' = {#}"
  using Segment_Delete_correct [of u64_policy one_entry "\<lparr>index = 0, slot = 0\<rparr>" 0] one_entry_inserted
  by (auto simp: inserted_def u64_policy_def Segment_init_inv(2))

end
