(* ===== verification/Segment_Split.thy ===== *)
theory Segment_Split
  imports Segment_Correct
begin

text \<open>
  \<open>Segment::Split\<close> with its helper \<open>TryMoveFromStash\<close>.
  \<open>Split\<close> moves the entries whose hash has the next bit set to a second segment, clears their
  slots after the visit of each bucket, and tries to bring the remaining stash entries back to
  their regular buckets. The assertion that the second segment accepts every entry is a
  \<open>None\<close> of the model: it can fail when the second segment fills up.
\<close>

subsection \<open>Definitions\<close>

definition is_mine :: "nat \<Rightarrow> u64 \<Rightarrow> bool" where
  "is_mine depth hash \<longleftrightarrow> drop_bit (64 - depth) hash AND 1 = 0"

definition TryMoveFromStash :: "('k, 'v, 'u) Policy \<Rightarrow> ('k, 'v) Segment \<Rightarrow> nat \<Rightarrow> nat \<Rightarrow> u64
    \<Rightarrow> (SegIterator \<times> ('k, 'v) Segment) option" where
  "TryMoveFromStash P s stash_id stash_slot_id key_hash = do {
     let bid = HomeIndex key_hash;
     let hash_fp = meta key_hash;
     let stash_bid = kBucketNum + stash_id;
     k \<leftarrow> Segment_Key s stash_bid stash_slot_id;
     v \<leftarrow> Segment_Value s stash_bid stash_slot_id;
     (r1, b1) \<leftarrow> TryInsertToBucket (GetBucket s bid) (\<lambda>d. MoveKey P d k) (\<lambda>d. MoveValue P d v) hash_fp False;
     (reg_slot, bid, b) \<leftarrow> (case r1 of
          Some _ \<Rightarrow> Some (r1, bid, b1)
        | None \<Rightarrow> do {
            let bid = NextBid bid;
            (r2, b2) \<leftarrow> TryInsertToBucket (GetBucket s bid) (\<lambda>d. MoveKey P d k) (\<lambda>d. MoveValue P d v) hash_fp True;
            Some (r2, bid, b2) });
     case reg_slot of
       None \<Rightarrow> Some (SegIterator_end, s)
     | Some sl \<Rightarrow> do {
         s \<leftarrow> RemoveStashReference (upd s bid b) stash_id key_hash;
         Some (\<lparr>index = bid, slot = sl\<rparr>, s) } }"

text \<open>The callback on the slots of a regular bucket \<open>b\<close> and the loop body of \<open>Split\<close>.\<close>

definition split_cb :: "('k, 'v, 'u) Policy \<Rightarrow> nat \<Rightarrow> ('k, 'v) Bucket \<Rightarrow> nat \<Rightarrow> bool
    \<Rightarrow> u32 \<times> ('k, 'v) Segment \<Rightarrow> (u32 \<times> ('k, 'v) Segment) option" where
  "split_cb P depth b sl probe st = (case st of (invalid_mask, dest) \<Rightarrow> do {
     hash \<leftarrow> HashFn P (key b ! sl);
     if is_mine depth hash then Some (invalid_mask, dest)
     else do {
       (it, dest) \<leftarrow> InsertUniq P dest (\<lambda>d. MoveKey P d (key b ! sl)) (\<lambda>d. MoveValue P d (value b ! sl)) hash False;
       assert_opt (found it);
       Some (invalid_mask OR push_bit sl 1, dest) } })"

definition split_regular :: "('k, 'v, 'u) Policy \<Rightarrow> nat \<Rightarrow> nat \<Rightarrow> ('k, 'v) Segment \<times> ('k, 'v) Segment
    \<Rightarrow> (('k, 'v) Segment \<times> ('k, 'v) Segment) option" where
  "split_regular P depth i st = (case st of (s, dest) \<Rightarrow> do {
     (invalid_mask, dest) \<leftarrow> ForEachSlot (GetBucket s i) (split_cb P depth (GetBucket s i)) (0, dest);
     Some (upd s i (ClearSlots (GetBucket s i) invalid_mask), dest) })"

definition split_stash_cb :: "('k, 'v, 'u) Policy \<Rightarrow> nat \<Rightarrow> nat \<Rightarrow> nat \<Rightarrow> bool
    \<Rightarrow> u32 \<times> ('k, 'v) Segment \<times> ('k, 'v) Segment \<Rightarrow> (u32 \<times> ('k, 'v) Segment \<times> ('k, 'v) Segment) option" where
  "split_stash_cb P depth i sl probe st = (case st of (invalid_mask, s, dest) \<Rightarrow> do {
     let b = GetBucket s (kBucketNum + i);
     hash \<leftarrow> HashFn P (key b ! sl);
     if is_mine depth hash then do {
       (it, s) \<leftarrow> TryMoveFromStash P s i sl hash;
       Some (if found it then invalid_mask OR push_bit sl 1 else invalid_mask, s, dest) }
     else do {
       (it, dest) \<leftarrow> InsertUniq P dest (\<lambda>d. MoveKey P d (key b ! sl)) (\<lambda>d. MoveValue P d (value b ! sl)) hash False;
       assert_opt (index it \<noteq> kNanBid);
       s \<leftarrow> RemoveStashReference s i hash;
       Some (invalid_mask OR push_bit sl 1, s, dest) } })"

definition split_stash :: "('k, 'v, 'u) Policy \<Rightarrow> nat \<Rightarrow> nat \<Rightarrow> ('k, 'v) Segment \<times> ('k, 'v) Segment
    \<Rightarrow> (('k, 'v) Segment \<times> ('k, 'v) Segment) option" where
  "split_stash P depth i st = (case st of (s, dest) \<Rightarrow> do {
     (invalid_mask, s, dest) \<leftarrow> ForEachSlot (GetBucket s (kBucketNum + i)) (split_stash_cb P depth i) (0, s, dest);
     Some (upd s (kBucketNum + i) (ClearSlots (GetBucket s (kBucketNum + i)) invalid_mask), dest) })"

definition Segment_Split :: "('k, 'v, 'u) Policy \<Rightarrow> ('k, 'v) Segment \<Rightarrow> ('k, 'v) Segment
    \<Rightarrow> (('k, 'v) Segment \<times> ('k, 'v) Segment) option" where
  "Segment_Split P s dest_right = do {
     let depth = (local_depth s + 1) mod 256;
     let s = s\<lparr>local_depth := depth\<rparr>;
     let dest_right = dest_right\<lparr>local_depth := depth\<rparr>;
     st \<leftarrow> foldM (split_regular P depth) [0..<kBucketNum] (s, dest_right);
     foldM (split_stash P depth) [0..<kStashBucketNum] st }"

text \<open>The entries of a segment whose bit at \<open>depth\<close> is clear, and the other ones.\<close>

definition mine :: "('k, 'v, 'u) Policy \<Rightarrow> nat \<Rightarrow> 'k \<times> 'v \<Rightarrow> bool" where
  "mine P depth e \<longleftrightarrow> is_mine depth (khash P (fst e))"

text \<open>The segment during the visit of stash bucket \<open>i\<close>, with the slots of the mask already cleared.\<close>

definition cleared :: "('k, 'v) Segment \<Rightarrow> nat \<Rightarrow> u32 \<Rightarrow> ('k, 'v) Segment" where
  "cleared s b msk = upd s b (ClearSlots (GetBucket s b) msk)"

subsection \<open>Splitting: the regular buckets\<close>

lemma slots_ClearSlots_split:
  "slots b = slots (ClearSlots b msk) + image_mset (slot_of b) (mset (filter (bit msk) (busy_slots b)))"
proof -
  have "mset (busy_slots b) = mset (filter (\<lambda>i. \<not> bit msk i) (busy_slots b)) + mset (filter (bit msk) (busy_slots b))"
    by (metis mset_filter multiset_partition union_commute)
  then show ?thesis unfolding slots_ClearSlots slots_def [of b] by (simp only: image_mset_union [symmetric])
qed

lemma seg_regularD: "seg_regular P s \<Longrightarrow> (k, v) \<in># seg_entries s \<Longrightarrow> MoveKey P d k = k \<and> MoveValue P d' v = v"
  by (auto simp: seg_regular_def regular_def)

lemma HashFn_entry:
  assumes "seg_shape P s" "(k, v) \<in># seg_entries s"
  shows "HashFn P k = Some (khash P k)"
proof -
  obtain i f p where i: "i < kTotalBuckets" "(k, v, f, p) \<in># slots (GetBucket s i)"
    using assms(2) unfolding in_seg_entries [OF seg_shapeD(1) [OF assms(1)]] by blast
  have "HashFn P k \<noteq> None"
  proof (cases "i < kBucketNum")
    case True
    then show ?thesis using seg_shapeD(3) [OF assms(1) True i(2)] by (simp add: slot_ok_def)
  next
    case False
    then obtain j where j: "i = kBucketNum + j" "j < kStashBucketNum"
      using i(1) by (metis add_less_cancel_left kTotalBuckets_def le_add_diff_inverse not_less)
    then have "stash_slot_ok P (k, v, f, p)" using seg_shapeD(4) [OF assms(1) j(2)] i(2) by blast
    then show ?thesis by (simp add: stash_slot_ok_def)
  qed
  then show ?thesis by (auto simp: khash_def)
qed

text \<open>One insertion into the second segment, when the assertion holds.\<close>

definition few :: "('k, 'v, 'u) Policy \<Rightarrow> nat \<Rightarrow> ('k \<times> 'v) multiset \<Rightarrow> bool" where
  "few P D T \<longleftrightarrow> (\<forall>c < kBucketNum. size (filter_mset (\<lambda>e. \<not> mine P D e \<and> home P (fst e) = c) T) \<le> kSlotNum)"

definition too_many :: "('k, 'v, 'u) Policy \<Rightarrow> nat \<Rightarrow> ('k \<times> 'v) multiset \<Rightarrow> bool" where
  "too_many P D T \<longleftrightarrow> 84 < size (filter_mset (\<lambda>e. \<not> mine P D e) T) \<and> \<not> few P D T"

definition homely :: "('k, 'v) Segment \<Rightarrow> bool" where
  "homely d \<longleftrightarrow> (\<forall>i < kTotalBuckets. \<forall>x \<in># slots (GetBucket d i). i < kBucketNum \<and> \<not> snd (snd (snd x)))"

definition dest_ok :: "('k, 'v, 'u) Policy \<Rightarrow> nat \<Rightarrow> ('k \<times> 'v) multiset \<Rightarrow> ('k, 'v) Segment \<Rightarrow> bool" where
  "dest_ok P D T d \<longleftrightarrow> seg_inv P d \<and> seg_regular P d \<and> (\<forall>e \<in># seg_entries d. \<not> mine P D e) \<and> (few P D T \<longrightarrow> homely d)"

lemma slots_sub: 
  assumes "seg_len s" "i < kTotalBuckets"
  shows "slots (GetBucket s i) \<subseteq># seg_slots s"
proof -
  have "bucket_arr s = take i (bucket_arr s) @ GetBucket s i # drop (Suc i) (bucket_arr s)"
    using assms by (simp add: id_take_nth_drop)
  from arg_cong [where f = "\<lambda>xs. sum_list (map slots xs)", OF this]
  have "seg_slots s = sum_list (map slots (take i (bucket_arr s))) +
      (slots (GetBucket s i) + sum_list (map slots (drop (Suc i) (bucket_arr s))))"
    unfolding seg_slots_def by (simp only: list.map map_append sum_list.Cons sum_list_append)
  then show ?thesis by simp
qed

lemma kSlots84:
  assumes "seg_shape P s" "a < kBucketNum" "IsFull (GetBucket s a)" "IsFull (GetBucket s (NextBid a))"
    "\<And>j. j < kStashBucketNum \<Longrightarrow> IsFull (GetBucket s (kBucketNum + j))"
  shows "84 \<le> size (seg_entries s)"
proof -
  let ?f = "\<lambda>b. size (slots b)"
  let ?I = "{a, NextBid a, kBucketNum, kBucketNum + 1, kBucketNum + 2, kBucketNum + 3}"
  have len: "seg_len s" by (rule seg_shapeD(1) [OF assms(1)])
  have "size (seg_slots s) = sum_list (map ?f (bucket_arr s))"
    by (simp add: seg_slots_def size_sum_list_mset)
  also have "\<dots> = (\<Sum>i < kTotalBuckets. ?f (GetBucket s i))"
    by (simp add: sum_list_sum_nth len atLeast0LessThan)
  also have "\<dots> \<ge> (\<Sum>i \<in> ?I. ?f (GetBucket s i))"
    using assms(2) NextBid_lt [of a]
    by (intro sum_mono2) (auto simp: kTotalBuckets_def kStashBucketNum_def simp del: NextBid_lt)
  moreover have "(\<Sum>i \<in> ?I. ?f (GetBucket s i)) = (\<Sum>i \<in> ?I. 14)"
  proof (rule sum.cong [OF refl])
    fix i assume "i \<in> ?I"
    then have "IsFull (GetBucket s i)" "i < kTotalBuckets"
      using assms(2-4) assms(5) [of 0] assms(5) [of 1] assms(5) [of 2] assms(5) [of 3]
      by (auto simp: kTotalBuckets_def kStashBucketNum_def less_imp_le trans_less_add1)
    then show "?f (GetBucket s i) = 14"
      using seg_shapeD(2) [OF assms(1)] by (simp add: IsFull_slots kSlotNum_def)
  qed
  moreover have "card ?I = 6"
    using assms(2) NextBid_lt [of a] Next_neq(1) [OF assms(2)] by (auto simp: card_insert_if simp del: NextBid_lt)
  ultimately show ?thesis by (simp add: seg_entries_def)
qed

text \<open>While every entry of the second segment is in its home bucket, that bucket is full only when more
  than 14 of the moved entries have it as home.\<close>

lemma filter_mset_all: "\<forall>x \<in># M. Q x \<Longrightarrow> filter_mset Q M = M"
  by (auto simp: multiset_eq_iff count_eq_zero_iff)

lemma filter_mset_none: "\<forall>x \<in># M. \<not> Q x \<Longrightarrow> filter_mset Q M = {#}"
  by auto

lemma homelyD:
  assumes "homely d" "i < kTotalBuckets" "(k, v, f, p) \<in># slots (GetBucket d i)"
  shows "i < kBucketNum" "\<not> p"
  using assms by (force simp: homely_def)+

lemma homely_full:
  assumes inv: "seg_inv P d" and ho: "homely d" and c: "c < kBucketNum" and full: "IsFull (GetBucket d c)"
  shows "kSlotNum \<le> size (filter_mset (\<lambda>e. home P (fst e) = c) (seg_entries d))"
proof -
  note sh = seg_invD(1) [OF inv] and ct = lt_total(1) [OF c]
  have "home P (fst (entry_of x)) = c" if "x \<in># slots (GetBucket d c)" for x
  proof -
    obtain k v f p where x: "x = (k, v, f, p)" by (cases x)
    then have "\<not> p" using homelyD(2) [OF ho ct] that by blast
    then show ?thesis using seg_shapeD(3) [OF sh c that] by (simp add: x slot_ok_def entry_of_def)
  qed
  then have "\<forall>e \<in># image_mset entry_of (slots (GetBucket d c)). home P (fst e) = c" by simp
  then have "image_mset entry_of (slots (GetBucket d c)) =
      filter_mset (\<lambda>e. home P (fst e) = c) (image_mset entry_of (slots (GetBucket d c)))"
    by (rule filter_mset_all [symmetric])
  also have "\<dots> \<subseteq># filter_mset (\<lambda>e. home P (fst e) = c) (seg_entries d)"
    unfolding seg_entries_def
    by (intro multiset_filter_mono image_mset_subseteq_mono slots_sub seg_shapeD(1) [OF sh] ct)
  finally have "size (slots (GetBucket d c)) \<le> size (filter_mset (\<lambda>e. home P (fst e) = c) (seg_entries d))"
    using size_mset_mono by fastforce
  moreover have "size (slots (GetBucket d c)) = kSlotNum"
    using full seg_shapeD(2) [OF sh ct] by (simp add: IsFull_slots)
  ultimately show ?thesis by simp
qed

lemma few_not_full:
  assumes f: "few P D T" and d: "dest_ok P D T d" and x: "\<not> mine P D x" "add_mset x (seg_entries d) \<subseteq># T"
  shows "\<not> IsFull (GetBucket d (home P (fst x)))"
proof
  let ?c = "home P (fst x)" let ?Q = "\<lambda>e. \<not> mine P D e \<and> home P (fst e) = ?c"
  assume "IsFull (GetBucket d ?c)"
  then have "kSlotNum \<le> size (filter_mset (\<lambda>e. home P (fst e) = ?c) (seg_entries d))"
    using d f by (intro homely_full) (auto simp: dest_ok_def)
  also have "filter_mset (\<lambda>e. home P (fst e) = ?c) (seg_entries d) = filter_mset ?Q (seg_entries d)"
    using d by (intro filter_mset_cong) (auto simp: dest_ok_def)
  finally have "kSlotNum < size (filter_mset ?Q (add_mset x (seg_entries d)))" using x(1) by simp
  also have "\<dots> \<le> size (filter_mset ?Q T)" by (rule size_mset_mono [OF multiset_filter_mono [OF x(2)]])
  finally show False using f [unfolded few_def, rule_format, of ?c] by simp
qed

lemma too_manyI:
  assumes "84 \<le> size d" "\<forall>e \<in># d. \<not> mine P D e" "\<not> mine P D x" "add_mset x d \<subseteq># T" "\<not> few P D T"
  shows "too_many P D T"
proof -
  have "add_mset x d = filter_mset (\<lambda>e. \<not> mine P D e) (add_mset x d)"
    using assms(2,3) by (auto simp: multiset_eq_iff count_eq_zero_iff)
  then have "add_mset x d \<subseteq># filter_mset (\<lambda>e. \<not> mine P D e) T"
    using assms(4) by (metis multiset_filter_mono)
  from size_mset_mono [OF this] show ?thesis using assms(1,5) by (simp add: too_many_def)
qed

lemma InsertUniq_home:
  assumes "seg_inv P d" "\<not> IsFull (GetBucket d (HomeIndex h))" "InsertUniq P d u v h False = Some (it, d')" "homely d"
  shows "homely d'"
proof -
  let ?c = "HomeIndex h"
  note sh = seg_invD(1) [OF assms(1)]
  have wf: "bucket_wf (GetBucket d ?c)" using sh by simp
  obtain i where i: "i < kSlotNum" "\<not> busy (GetBucket d ?c) i"
    "TryInsertToBucket (GetBucket d ?c) u v (meta h) False =
       Some (Some i, put (GetBucket d ?c) i (u (key (GetBucket d ?c) ! i)) (v (value (GetBucket d ?c) ! i)) (meta h) False)"
    by (rule TryInsertToBucket_eq [OF wf assms(2), of u v "meta h" False])
  then have "d' = upd d ?c (put (GetBucket d ?c) i (u (key (GetBucket d ?c) ! i)) (v (value (GetBucket d ?c) ! i)) (meta h) False)"
    using assms(3) by (simp add: InsertUniq_def Let_def)
  then have "i < kBucketNum \<and> \<not> p" if "i < kTotalBuckets" "(k, w, f, p) \<in># slots (GetBucket d' i)" for i k w f p
    using homelyD [OF assms(4) that(1), of k w f p] that seg_shapeD(1) [OF sh]
    by (auto simp: GetBucket_upd lt_total slots_put [OF wf i(1,2)] split: if_splits)
  then show ?thesis unfolding homely_def by (metis prod.collapse)
qed

lemma dest_insert:
  assumes d: "dest_ok P D T d" and r: "regular P (k, v)" and h: "HashFn P k = Some h"
    and x: "\<not> mine P D (k, v)" "add_mset (k, v) (seg_entries d) \<subseteq># T"
  obtains (Ok) it d' where "InsertUniq P d (\<lambda>x. MoveKey P x k) (\<lambda>x. MoveValue P x v) h False = Some (it, d')"
      "found it" "dest_ok P D T d'" "seg_entries d' = add_mset (k, v) (seg_entries d)"
      "local_depth d' = local_depth d" "segment_id d' = segment_id d"
  | (Full) it where "InsertUniq P d (\<lambda>x. MoveKey P x k) (\<lambda>x. MoveValue P x v) h False = Some (it, d)"
      "\<not> found it" "too_many P D T"
proof -
  have mv: "MoveKey P x k = k" "MoveValue P y v = v" for x y using r by (auto simp: regular_def)
  have inv: "seg_inv P d" "seg_regular P d" using d by (simp_all add: dest_ok_def)
  have nf: "\<not> IsFull (GetBucket d (HomeIndex h))" if "few P D T"
    using few_not_full [OF that d x] by (simp add: home_def khash_def h)
  show ?thesis
    using inv h mv(1)
  proof (cases rule: InsertUniq_spec [of P d k h "\<lambda>x. MoveKey P x k" "\<lambda>x. MoveValue P x v" False, consumes 4, case_names F O])
    case F
    then have "84 \<le> size (seg_entries d)"
      using kSlots84 [OF seg_invD(1) [OF inv(1)], of "HomeIndex h"] by simp
    moreover have "\<not> few P D T" using nf F by blast
    ultimately have "too_many P D T" using d x by (intro too_manyI) (auto simp: dest_ok_def)
    then show ?thesis by (intro Full [OF F(1)]) auto
  next
    case (O it s' v0)
    have "homely s'" if "few P D T"
      using InsertUniq_home [OF inv(1) nf [OF that] O(1)] d that by (simp add: dest_ok_def)
    then show ?thesis
      using inv r mv d x(1) O(2) it_points_found [of s' it]
      by (intro Ok [OF O(1)]) (auto simp: inserted_def dest_ok_def seg_regular_def)
  qed
qed

definition slot_entry :: "('k, 'v) Bucket \<Rightarrow> nat \<Rightarrow> 'k \<times> 'v" where
  "slot_entry b i = (key b ! i, value b ! i)"

lemma entry_of_slot_of: "image_mset entry_of (image_mset (slot_of b) M) = image_mset (slot_entry b) M"
  by (simp add: multiset.map_comp comp_def entry_of_def slot_of_def slot_entry_def [abs_def])

lemma slot_entries_sub:
  assumes "seg_len s" "i < kTotalBuckets"
  shows "image_mset (slot_entry (GetBucket s i)) (mset (busy_slots (GetBucket s i))) \<subseteq># seg_entries s"
  using image_mset_subseteq_mono [OF slots_sub [OF assms], of entry_of]
  by (simp add: seg_entries_def slots_def entry_of_slot_of)

lemma cleared_entries:
  assumes "seg_len s" "i < kTotalBuckets"
  shows "seg_entries s = seg_entries (cleared s i msk) +
     image_mset (slot_entry (GetBucket s i)) (mset (filter (bit msk) (busy_slots (GetBucket s i))))"
proof -
  let ?b = "GetBucket s i"
  have "seg_slots s = seg_slots (cleared s i msk) + image_mset (slot_of ?b) (mset (filter (bit msk) (busy_slots ?b)))"
  proof -
    have "slots (ClearSlots ?b msk) + seg_slots s =
        slots (ClearSlots ?b msk) + (seg_slots (cleared s i msk) + image_mset (slot_of ?b) (mset (filter (bit msk) (busy_slots ?b))))"
      using seg_slots_upd [OF assms, of "ClearSlots ?b msk", folded cleared_def]
      by (subst (asm) slots_ClearSlots_split [of ?b msk]) (simp only: ac_simps)
    then show ?thesis by (simp only: add_left_cancel)
  qed
  then show ?thesis unfolding seg_entries_def by (metis entry_of_slot_of image_mset_union)
qed

lemma cleared_slots_sub: "slots (ClearSlots b msk) \<subseteq># slots b"
  using slots_ClearSlots_split [of b msk] by (metis mset_subset_eq_add_left)

lemma cleared_inv_regular:
  assumes inv: "seg_inv P s" and i: "i < kBucketNum"
  shows "seg_inv P (cleared s i msk)"
  unfolding cleared_def
proof (rule seg_inv_upd_regular [OF inv i])
  show "bucket_wf (ClearSlots (GetBucket s i) msk)"
    by (rule ClearSlots_wf [OF seg_shape_bucket [OF seg_invD(1) [OF inv] i]])
  show "slot_ok P i y" if "y \<in># slots (ClearSlots (GetBucket s i) msk)" for y
    using seg_shapeD(3) [OF seg_invD(1) [OF inv] i] mset_subset_eqD [OF cleared_slots_sub that] .
qed simp

definition split_ok :: "('k, 'v, 'u) Policy \<Rightarrow> nat \<Rightarrow> ('k \<times> 'v) multiset \<Rightarrow> nat \<times> nat
    \<Rightarrow> ('k, 'v) Segment \<times> ('k, 'v) Segment \<Rightarrow> bool" where
  "split_ok P D T ids st \<longleftrightarrow> (case st of (s, d) \<Rightarrow> seg_inv P s \<and> seg_regular P s \<and> dest_ok P D T d \<and>
     seg_entries s + seg_entries d = T \<and>
     local_depth s = D \<and> local_depth d = D \<and> (segment_id s, segment_id d) = ids)"

definition all_mine :: "('k, 'v, 'u) Policy \<Rightarrow> nat \<Rightarrow> ('k, 'v) Segment \<Rightarrow> nat \<Rightarrow> bool" where
  "all_mine P D s i \<longleftrightarrow> (\<forall>x \<in># slots (GetBucket s i). mine P D (entry_of x))"

text \<open>The visit of a regular bucket: the mask collects the slots to clear.\<close>

lemma split_cb_loop:
  fixes s d :: "('k, 'v) Segment"
  assumes ok: "split_ok P D T ids (s, d)" and i: "i < kTotalBuckets"
  defines "b \<equiv> GetBucket s i"
  defines "nm \<equiv> \<lambda>j. \<not> mine P D (slot_entry b j)"
  shows "(\<exists>msk d'. foldM (\<lambda>j. split_cb P D b j (probing b j)) (busy_slots b) (0, d) = Some (msk, d') \<and> dest_ok P D T d' \<and>
      seg_entries d' = seg_entries d + image_mset (slot_entry b) (mset (filter nm (busy_slots b))) \<and>
      (\<forall>j. bit msk j \<longleftrightarrow> j \<in> set (busy_slots b) \<and> nm j) \<and>
      local_depth d' = local_depth d \<and> segment_id d' = segment_id d) \<or>
    foldM (\<lambda>j. split_cb P D b j (probing b j)) (busy_slots b) (0, d) = None \<and> too_many P D T"
proof -
  have s: "seg_inv P s" "seg_regular P s" "dest_ok P D T d" "seg_entries s + seg_entries d = T"
    using ok by (auto simp: split_ok_def)
  note sh = seg_invD(1) [OF s(1)]
  have wf: "base_wf b" using seg_shapeD(2) [OF sh i] by (simp add: b_def)
  let ?I = "\<lambda>vis (msk :: u32, d' :: ('k, 'v) Segment). dest_ok P D T d' \<and>
      seg_entries d' = seg_entries d + image_mset (slot_entry b) (mset (filter nm vis)) \<and>
      (\<forall>j. bit msk j \<longleftrightarrow> j \<in> set vis \<and> nm j) \<and>
      local_depth d' = local_depth d \<and> segment_id d' = segment_id d"
  have "(\<exists>st. foldM (\<lambda>j. split_cb P D b j (probing b j)) (busy_slots b) (0, d) = Some st \<and> ?I (busy_slots b) st) \<or>
    foldM (\<lambda>j. split_cb P D b j (probing b j)) (busy_slots b) (0, d) = None \<and> too_many P D T"
  proof (rule foldM_cases)
    show "?I [] (0, d)" using s by simp
  next
    fix vis j st assume st: "?I vis st" and ex: "\<exists>zs. vis @ j # zs = busy_slots b"
    obtain msk d' where eq: "st = (msk, d')" by (cases st)
    obtain zs where vis: "busy_slots b = vis @ j # zs" using ex by metis
    have bs: "busy b j" "j < kSlotNum" using vis set_busy_slots [OF wf] wf by (auto dest: busy_lt)
    have j32: "j < 32" using bs(2) kSlotNum_le(1) by (rule less_trans)
    have sub: "image_mset (slot_entry b) (mset (busy_slots b)) \<subseteq># seg_entries s"
      unfolding b_def by (rule slot_entries_sub [OF seg_shapeD(1) [OF sh] i])
    have ent: "slot_entry b j \<in># seg_entries s" by (rule mset_subset_eqD [OF sub]) (simp add: vis)
    then have h: "HashFn P (key b ! j) = Some (khash P (key b ! j))"
      unfolding slot_entry_def by (rule HashFn_entry [OF sh])
    have r: "regular P (key b ! j, value b ! j)" using s(2) ent by (simp add: seg_regular_def slot_entry_def)
    show "(\<exists>st'. split_cb P D b j (probing b j) st = Some st' \<and> ?I (vis @ [j]) st') \<or>
      split_cb P D b j (probing b j) st = None \<and> too_many P D T"
    proof (cases "nm j")
      case False
      then have "split_cb P D b j (probing b j) st = Some st"
        by (simp add: split_cb_def eq h nm_def mine_def slot_entry_def)
      then show ?thesis using st False by (auto simp: eq)
    next
      case True
      then have nm: "\<not> is_mine D (khash P (key b ! j))" by (simp add: nm_def mine_def slot_entry_def)
      have d': "dest_ok P D T d'" using st by (simp add: eq)
      let ?X = "image_mset (slot_entry b) (mset (filter nm vis))"
      have "?X \<subseteq># image_mset (slot_entry b) (mset vis)"
        by (intro image_mset_subseteq_mono) simp
      then have "{#slot_entry b j#} + ?X \<subseteq># image_mset (slot_entry b) (mset (busy_slots b))"
        unfolding vis by (simp add: subset_mset.add_increasing2)
      also note sub
      finally have "({#slot_entry b j#} + ?X) + seg_entries d \<subseteq># seg_entries s + seg_entries d"
        by (rule subset_mset.add_right_mono)
      then have x: "add_mset (key b ! j, value b ! j) (seg_entries d') \<subseteq># T"
        using st unfolding s(4) by (simp add: eq add.commute slot_entry_def)
      have m: "\<not> mine P D (key b ! j, value b ! j)" using True by (simp add: nm_def slot_entry_def)
      show ?thesis
        using d' r h m x
      proof (cases rule: dest_insert [consumes 5, case_names Ok Full])
        case (Ok it d2)
        then have "split_cb P D b j (probing b j) st = Some (msk OR push_bit j 1, d2)"
          by (simp add: split_cb_def eq h nm)
        moreover have "?I (vis @ [j]) (msk OR push_bit j 1, d2)"
          using Ok st True j32 by (auto simp: eq bit_or_iff slot_entry_def)
        ultimately show ?thesis by blast
      next
        case (Full it)
        then have "split_cb P D b j (probing b j) st = None" by (simp add: split_cb_def eq h nm)
        with Full show ?thesis by simp
      qed
    qed
  qed
  then show ?thesis by auto
qed

lemma all_mine_cleared:
  assumes "seg_len s" "i < kTotalBuckets" "base_wf (GetBucket s i)"
    "\<And>j. busy (GetBucket s i) j \<Longrightarrow> \<not> bit msk j \<Longrightarrow> mine P D (slot_entry (GetBucket s i) j)"
  shows "all_mine P D (cleared s i msk) i"
  using assms set_busy_slots [OF assms(3)]
  by (auto simp: all_mine_def cleared_def GetBucket_upd slots_ClearSlots entry_of_def slot_of_def slot_entry_def)

lemma split_ok_cleared:
  assumes ok: "split_ok P D T ids (s, d)" and i: "i < kTotalBuckets" and inv: "seg_inv P (cleared s i msk)"
    and d': "dest_ok P D T d'" "seg_entries d' = seg_entries d + X" "\<forall>e \<in># X. \<not> mine P D e"
      "local_depth d' = local_depth d" "segment_id d' = segment_id d"
    and X: "seg_entries s = seg_entries (cleared s i msk) + X"
  shows "split_ok P D T ids (cleared s i msk, d')"
  using ok inv d' X unfolding split_ok_def seg_regular_def
  by (auto simp: cleared_def ac_simps)

lemma split_regular_spec:
  assumes ok: "split_ok P D T ids (s, d)" and i: "i < kBucketNum"
  shows "(\<exists>s' d'. split_regular P D i (s, d) = Some (s', d') \<and> split_ok P D T ids (s', d') \<and> all_mine P D s' i \<and>
      (\<forall>j. j \<noteq> i \<longrightarrow> GetBucket s' j = GetBucket s j)) \<or>
    split_regular P D i (s, d) = None \<and> too_many P D T"
proof -
  let ?b = "GetBucket s i"
  note it = lt_total(1) [OF i]
  have inv: "seg_inv P s" using ok by (simp add: split_ok_def)
  note sh = seg_invD(1) [OF inv]
  have wf: "base_wf ?b" using seg_shape_bucket [OF sh i] by simp
  have step: "split_regular P D i (s, d) = (do {
      (msk, d') \<leftarrow> foldM (\<lambda>j. split_cb P D ?b j (probing ?b j)) (busy_slots ?b) (0, d);
      Some (cleared s i msk, d') })"
    by (simp add: split_regular_def ForEachSlot_foldM [OF wf] cleared_def)
  from split_cb_loop [OF ok it] show ?thesis
  proof (elim disjE exE conjE)
    fix msk d'
    assume r: "foldM (\<lambda>j. split_cb P D ?b j (probing ?b j)) (busy_slots ?b) (0, d) = Some (msk, d')"
      "dest_ok P D T d'" "seg_entries d' = seg_entries d +
         image_mset (slot_entry ?b) (mset (filter (\<lambda>j. \<not> mine P D (slot_entry ?b j)) (busy_slots ?b)))"
      "\<forall>j. bit msk j \<longleftrightarrow> j \<in> set (busy_slots ?b) \<and> \<not> mine P D (slot_entry ?b j)"
      "local_depth d' = local_depth d" "segment_id d' = segment_id d"
    let ?X = "image_mset (slot_entry ?b) (mset (filter (bit msk) (busy_slots ?b)))"
    have "filter (\<lambda>j. \<not> mine P D (slot_entry ?b j)) (busy_slots ?b) = filter (bit msk) (busy_slots ?b)"
      using r(4) by (intro filter_cong) auto
    then have d': "seg_entries d' = seg_entries d + ?X" using r(3) by simp
    have "split_ok P D T ids (cleared s i msk, d')"
      by (rule split_ok_cleared [OF ok it cleared_inv_regular [OF inv i] r(2) d' _ r(5,6)
          cleared_entries [OF seg_shapeD(1) [OF sh] it]]) (use r(4) in auto)
    moreover have "all_mine P D (cleared s i msk) i"
      by (rule all_mine_cleared [OF seg_shapeD(1) [OF sh] it wf]) (use r(4) set_busy_slots [OF wf] in auto)
    moreover have "GetBucket (cleared s i msk) j = GetBucket s j" if "j \<noteq> i" for j
      using that it seg_shapeD(1) [OF sh] by (simp add: cleared_def GetBucket_upd)
    ultimately show ?thesis using r(1) step by auto
  qed (simp add: step)
qed

lemma split_regular_loop:
  assumes "split_ok P D T ids (s, d)"
  shows "(\<exists>s' d'. foldM (split_regular P D) [0..<kBucketNum] (s, d) = Some (s', d') \<and> split_ok P D T ids (s', d') \<and>
      (\<forall>i < kBucketNum. all_mine P D s' i)) \<or>
    foldM (split_regular P D) [0..<kBucketNum] (s, d) = None \<and> too_many P D T"
proof -
  let ?I = "\<lambda>vis st. split_ok P D T ids st \<and> (\<forall>i \<in> set vis. all_mine P D (fst st) i)"
  have "(\<exists>st. foldM (split_regular P D) [0..<kBucketNum] (s, d) = Some st \<and> ?I [0..<kBucketNum] st) \<or>
    foldM (split_regular P D) [0..<kBucketNum] (s, d) = None \<and> too_many P D T"
  proof (rule foldM_cases)
    fix vis i st assume st: "?I vis st" and ex: "\<exists>zs. vis @ i # zs = [0..<kBucketNum]"
    have i: "i < kBucketNum" using ex by (metis atLeastLessThan_iff in_set_conv_decomp set_upt)
    obtain s d where eq: "st = (s, d)" by (cases st)
    have keep: "\<forall>j \<in> set (vis @ [i]). all_mine P D s' j"
      if "all_mine P D s' i" "\<forall>j. j \<noteq> i \<longrightarrow> GetBucket s' j = GetBucket s j" for s' :: "('a, 'b) Segment"
      using that st by (fastforce simp: eq all_mine_def)
    show "(\<exists>st'. split_regular P D i st = Some st' \<and> ?I (vis @ [i]) st') \<or>
        split_regular P D i st = None \<and> too_many P D T"
      using split_regular_spec [OF _ i, of P D T ids s d] st keep unfolding eq by (metis fst_conv)
  qed (use assms in simp)
  then show ?thesis by auto
qed

subsection \<open>Splitting: the stash buckets\<close>

lemma upd_commute: "i \<noteq> j \<Longrightarrow> upd (upd s i a) j b = upd (upd s j b) i a"
  by (simp add: upd_def list_update_swap)

lemma upd_twice [simp]: "upd (upd s i a) i b = upd s i b"
  by (simp add: upd_def)

lemma GetBucket_upd_neq: "i \<noteq> j \<Longrightarrow> GetBucket (upd s i b) j = GetBucket s j"
  by (simp add: upd_def)

lemma RemoveStashReference_upd:
  assumes "kBucketNum \<le> b"
  shows "RemoveStashReference (upd s b x) j h = map_option (\<lambda>t. upd t b x) (RemoveStashReference s j h)"
proof -
  have ne: "b \<noteq> HomeIndex h" "b \<noteq> NextBid (HomeIndex h)"
    using assms HomeIndex_lt [of h] NextBid_lt [of "HomeIndex h"] by (auto simp del: NextBid_lt HomeIndex_lt)
  show ?thesis
    unfolding RemoveStashReference_def Let_def GetBucket_upd_neq [OF ne(1)] GetBucket_upd_neq [OF ne(2)]
    by (auto split: bind_splits simp: upd_commute [OF ne(1)] upd_commute [OF ne(2)])
qed

lemma UnsetStashPtr_same_slots:
  assumes "UnsetStashPtr b fp sp nx = Some (r, b', nx')"
  shows "same_slots b b'" "same_slots nx nx'"
proof -
  obtain b1 ok where c1: "ClearStash b fp sp False = (ok, b1)" "same_slots b b1"
    by (rule ClearStash_cases [of fp sp b False]) auto
  obtain n1 ok2 where c2: "ClearStash nx fp sp True = (ok2, n1)" "same_slots nx n1"
    by (rule ClearStash_cases [of fp sp nx True]) auto
  have ov: "same_slots b (b1\<lparr>overflow_count := x\<rparr>)" for x using c1(2) by (auto simp: same_slots_def)
  show "same_slots b b'" "same_slots nx nx'"
    using assms c1 c2 ov drop_present_frame(2) same_slots_trans
    by (auto simp: UnsetStashPtr_drop split: if_splits) blast+
qed

lemma RemoveStashReference_frame:
  assumes "RemoveStashReference s j h = Some s'" "seg_len s"
  shows "seg_len s'" "local_depth s' = local_depth s" "segment_id s' = segment_id s"
    "kBucketNum \<le> i \<Longrightarrow> GetBucket s' i = GetBucket s i"
    "i < kBucketNum \<Longrightarrow> same_slots (GetBucket s i) (GetBucket s' i)"
proof -
  obtain r t n where tn: "UnsetStashPtr (GetBucket s (HomeIndex h)) (meta h) j (GetBucket s (NextBid (HomeIndex h))) = Some (r, t, n)"
    "s' = upd (upd s (HomeIndex h) t) (NextBid (HomeIndex h)) n"
    using assms(1) by (auto simp: RemoveStashReference_def Let_def split: bind_splits)
  note ss = UnsetStashPtr_same_slots [OF tn(1)]
  show "seg_len s'" "local_depth s' = local_depth s" "segment_id s' = segment_id s"
    using assms(2) tn(2) by simp_all
  have get: "GetBucket s' i = (if i = NextBid (HomeIndex h) then n else if i = HomeIndex h then t else GetBucket s i)" for i
    using tn(2) assms(2) by (simp add: GetBucket_upd lt_total)
  show "kBucketNum \<le> i \<Longrightarrow> GetBucket s' i = GetBucket s i"
    using HomeIndex_lt [of h] NextBid_lt [of "HomeIndex h"] by (auto simp: get simp del: NextBid_lt HomeIndex_lt)
  show "i < kBucketNum \<Longrightarrow> same_slots (GetBucket s i) (GetBucket s' i)" using ss by (auto simp: get)
qed

text \<open>Removing the reference of a stash entry whose slot is cleared later is a deletion of that entry
  from the segment with the mask cleared.\<close>

lemma ClearSlots_twice: "ClearSlots (ClearSlots b m) n = ClearSlots b (m OR n)"
  by (simp add: ClearSlots_def sb_ClearSlots_def and.assoc)

lemma deferred_delete:
  fixes s :: "('k, 'v) Segment"
  assumes i: "i < kStashBucketNum" and len: "seg_len s"
    and inv: "seg_inv P (cleared s (kBucketNum + i) msk)"
    and B: "B = GetBucket s (kBucketNum + i)" and j: "busy B j" "\<not> bit msk j"
    and h: "HashFn P (key B ! j) = Some h"
  obtains s' where "RemoveStashReference s i h = Some s'"
    "deleted P (cleared s (kBucketNum + i) msk) (slot_entry B j) (cleared s' (kBucketNum + i) (msk OR push_bit j 1))"
proof -
  let ?b = "kBucketNum + i" let ?c = "cleared s ?b msk" let ?it = "\<lparr>index = ?b, slot = j\<rparr>"
  note bt = lt_total(2) [OF i]
  have cb: "GetBucket ?c ?b = ClearSlots B msk" using len bt by (simp add: cleared_def GetBucket_upd B)
  have "bucket_wf (ClearSlots B msk)" using seg_shapeD(2) [OF seg_invD(1) [OF inv] bt] cb by simp
  then have wfc: "base_wf (ClearSlots B msk)" by simp
  then have "busy (ClearSlots B msk) j \<Longrightarrow> j < kSlotNum" by (rule busy_lt)
  then have pts: "it_points ?c ?it" using j bt by (simp add: it_points_def cb)
  have kv: "it_key ?c ?it = key B ! j" "it_value ?c ?it = value B ! j"
    by (simp_all add: it_key_def it_value_def cb ClearSlots_def)
  obtain c2 where c2: "Segment_Delete ?c ?it h = Some c2" "deleted P ?c (slot_entry B j) c2"
    using Segment_Delete_spec [OF inv pts] h by (auto simp: kv slot_entry_def)
  obtain s' where s': "RemoveStashReference s i h = Some s'"
    using c2(1) RemoveStashReference_upd [of ?b s "ClearSlots B msk" i h]
    by (auto simp: Segment_Delete_def cleared_def B split: bind_splits option.splits)
  have len': "seg_len s'" and B': "GetBucket s' ?b = B"
    using RemoveStashReference_frame [OF s' len] by (simp_all add: B)
  have "RemoveStashReference ?c i h = Some (upd s' ?b (ClearSlots B msk))"
    using RemoveStashReference_upd [of ?b s "ClearSlots B msk" i h] s' by (simp add: cleared_def B)
  moreover have "Delete (ClearSlots B msk) j = Some (ClearSlots B (msk OR push_bit j 1))"
    using Delete_eq [OF wfc, of j] j by (simp add: ClearSlots_twice)
  ultimately have "c2 = cleared s' ?b (msk OR push_bit j 1)"
    using c2(1) it_points_found [OF pts] len' bt
    by (simp add: Segment_Delete_def cleared_def B' GetBucket_upd)
  with c2(2) s' that show ?thesis by blast
qed

lemma cleared_upd: "r \<noteq> b \<Longrightarrow> cleared (upd s r x) b msk = upd (cleared s b msk) r x"
  by (simp add: cleared_def GetBucket_upd_neq upd_commute)

text \<open>Moving a stash entry back to its regular buckets.\<close>

lemma TryMoveFromStash_spec:
  fixes s :: "('k, 'v) Segment"
  assumes i: "i < kStashBucketNum" and len: "seg_len s"
    and inv: "seg_inv P (cleared s (kBucketNum + i) msk)" and reg: "seg_regular P (cleared s (kBucketNum + i) msk)"
    and B: "B = GetBucket s (kBucketNum + i)" and j: "busy B j" "\<not> bit msk j"
    and h: "HashFn P (key B ! j) = Some h" and wf: "bucket_wf B"
    and r: "regular P (slot_entry B j)"
  obtains (Stay) "TryMoveFromStash P s i j h = Some (SegIterator_end, s)"
  | (Moved) it s' where "TryMoveFromStash P s i j h = Some (it, s')" "found it" "seg_len s'"
      "seg_inv P (cleared s' (kBucketNum + i) (msk OR push_bit j 1))"
      "seg_entries (cleared s' (kBucketNum + i) (msk OR push_bit j 1)) = seg_entries (cleared s (kBucketNum + i) msk)"
      "local_depth s' = local_depth s" "segment_id s' = segment_id s"
      "\<And>b. kBucketNum \<le> b \<Longrightarrow> GetBucket s' b = GetBucket s b"
      "\<And>b x. b < kBucketNum \<Longrightarrow> x \<in># slots (GetBucket s' b) \<Longrightarrow>
         x \<in># slots (GetBucket s b) \<or> entry_of x = slot_entry B j"
proof -
  let ?b = "kBucketNum + i" let ?c = "cleared s ?b msk"
  let ?k = "key B ! j" and ?v = "value B ! j"
  have mv: "MoveKey P x ?k = ?k" "MoveValue P y ?v = ?v" for x y
    using r by (auto simp: regular_def slot_entry_def)
  have "j < kSlotNum" using bucket_wf_base [OF wf] j(1) by (rule busy_lt)
  then have j32: "j < 32" using kSlotNum_le(1) by (rule less_trans)
  have kv: "Segment_Key s ?b j = Some ?k" "Segment_Value s ?b j = Some ?v"
    using j by (simp_all add: Segment_Key_def Segment_Value_def Segment_IsBusy_def B IsBusy_iff [OF j32])
  have get: "GetBucket ?c a = GetBucket s a" if "a < kBucketNum" for a
    using that by (simp add: cleared_def GetBucket_upd_neq)
  have wfa: "bucket_wf (GetBucket s a)" if "a < kBucketNum" for a
    using seg_shape_bucket [OF seg_invD(1) [OF inv] that] get [OF that] by simp
  let ?B = "GetBucket s (HomeIndex h)" and ?N = "GetBucket s (NextBid (HomeIndex h))"
  have moved: ?thesis
    if a: "a = HomeIndex h \<and> p = False \<or> a = NextBid (HomeIndex h) \<and> p = True" "sl < kSlotNum"
      "\<not> busy (GetBucket s a) sl"
      "TryMoveFromStash P s i j h = do {
         s \<leftarrow> RemoveStashReference (upd s a (put (GetBucket s a) sl ?k ?v (meta h) p)) i h;
         Some (\<lparr>index = a, slot = sl\<rparr>, s) }" for a p sl
  proof -
    let ?s1 = "upd s a (put (GetBucket s a) sl ?k ?v (meta h) p)"
    have ab: "a < kBucketNum" using a(1) by auto
    have ne: "a \<noteq> ?b" using ab by simp
    have "slot_ok P a (?k, ?v, meta h, p)" using a(1) h by (auto simp: slot_ok_def khash_def home_def)
    then have ins: "inserted P ?c \<lparr>index = a, slot = sl\<rparr> (?k, ?v) (cleared ?s1 ?b msk)"
      using inserted_regular [OF inv ab a(2)] a(3) unfolding cleared_upd [OF ne] get [OF ab] by blast
    have len1: "seg_len ?s1" using len by simp
    have B1: "B = GetBucket ?s1 ?b" using ne by (simp add: GetBucket_upd_neq B)
    have "seg_inv P (cleared ?s1 ?b msk)" using ins by (simp add: inserted_def)
    then obtain s' where s': "RemoveStashReference ?s1 i h = Some s'"
      "deleted P (cleared ?s1 ?b msk) (slot_entry B j) (cleared s' ?b (msk OR push_bit j 1))"
      using deferred_delete [OF i len1 _ B1 j h] by blast
    note fr = RemoveStashReference_frame [OF s'(1) len1]
    show ?thesis
    proof (rule Moved [of "\<lparr>index = a, slot = sl\<rparr>" s'])
      show "TryMoveFromStash P s i j h = Some (\<lparr>index = a, slot = sl\<rparr>, s')" using a(4) s'(1) by simp
      show "seg_inv P (cleared s' ?b (msk OR push_bit j 1))"
        "seg_entries (cleared s' ?b (msk OR push_bit j 1)) = seg_entries ?c"
        using s'(2) ins by (auto simp: deleted_def inserted_def slot_entry_def)
      show "GetBucket s' b = GetBucket s b" if "kBucketNum \<le> b" for b
        using fr(4) [OF that] that ab by (simp add: GetBucket_upd_neq)
      show "x \<in># slots (GetBucket s b) \<or> entry_of x = slot_entry B j"
        if "b < kBucketNum" "x \<in># slots (GetBucket s' b)" for b x
      proof -
        have "x \<in># slots (GetBucket ?s1 b)" using same_slotsD(1) [OF fr(5) [OF that(1)]] that(2) by simp
        then show ?thesis
          using slots_put [OF wfa [OF ab] a(2,3), of ?k ?v "meta h" p] len ab
          by (auto simp: GetBucket_upd lt_total entry_of_def slot_entry_def split: if_splits)
      qed
    qed (use fr ab in \<open>simp_all add: lt_total\<close>)
  qed
  consider (b) "\<not> IsFull ?B" | (n) "IsFull ?B" "\<not> IsFull ?N" | (f) "IsFull ?B" "IsFull ?N" by blast
  then show ?thesis
  proof cases
    case b
    show ?thesis
      by (rule TryInsertToBucket_eq [OF wfa b, of "\<lambda>d. MoveKey P d ?k" "\<lambda>d. MoveValue P d ?v" "meta h" False], simp,
          rule moved [OF disjI1])
        (auto simp: TryMoveFromStash_def Let_def kv mv)
  next
    case n
    show ?thesis
      by (rule TryInsertToBucket_eq [OF wfa n(2), of "\<lambda>d. MoveKey P d ?k" "\<lambda>d. MoveValue P d ?v" "meta h" True], simp,
          rule moved [OF disjI2])
        (use n(1) in \<open>auto simp: TryMoveFromStash_def Let_def kv mv TryInsertToBucket_full\<close>)
  next
    case f
    then have "TryMoveFromStash P s i j h = Some (SegIterator_end, s)"
      by (simp add: TryMoveFromStash_def kv TryInsertToBucket_full Let_def)
    then show ?thesis by (rule Stay)
  qed
qed

text \<open>The loop invariant of the visit of stash bucket \<open>i\<close>.\<close>

definition stash_visit :: "('k, 'v, 'u) Policy \<Rightarrow> nat \<Rightarrow> ('k \<times> 'v) multiset \<Rightarrow> nat \<times> nat \<Rightarrow> nat \<Rightarrow> ('k, 'v) Segment
    \<Rightarrow> nat list \<Rightarrow> u32 \<times> ('k, 'v) Segment \<times> ('k, 'v) Segment \<Rightarrow> bool" where
  "stash_visit P D T ids i s0 vis st = (case st of (msk, s, d) \<Rightarrow> seg_len s \<and>
     split_ok P D T ids (cleared s (kBucketNum + i) msk, d) \<and>
     (\<forall>b \<ge> kBucketNum. GetBucket s b = GetBucket s0 b) \<and>
     (\<forall>b < kBucketNum. all_mine P D s b) \<and>
     (\<forall>j. bit msk j \<longrightarrow> j \<in> set vis) \<and>
     (\<forall>j \<in> set vis. \<not> bit msk j \<longrightarrow> mine P D (slot_entry (GetBucket s0 (kBucketNum + i)) j)))"

lemma cleared_fields [simp]:
  "local_depth (cleared s b m) = local_depth s" "segment_id (cleared s b m) = segment_id s"
  by (simp_all add: cleared_def)

lemma stash_visit_step:
  fixes s0 :: "('k, 'v) Segment"
  assumes i: "i < kStashBucketNum" and wf: "bucket_wf (GetBucket s0 (kBucketNum + i))"
    and vis: "busy_slots (GetBucket s0 (kBucketNum + i)) = vis @ j # zs"
    and st: "stash_visit P D T ids i s0 vis st"
  shows "(\<exists>st'. split_stash_cb P D i j p st = Some st' \<and> stash_visit P D T ids i s0 (vis @ [j]) st') \<or>
    split_stash_cb P D i j p st = None \<and> too_many P D T"
proof -
  let ?b = "kBucketNum + i"
  define B where "B = GetBucket s0 ?b"
  obtain msk s d where eq: "st = (msk, s, d)" by (cases st)
  let ?c = "cleared s ?b msk"
  have len: "seg_len s" and ok: "split_ok P D T ids (?c, d)" and B: "B = GetBucket s ?b"
    and frame: "\<And>b. kBucketNum \<le> b \<Longrightarrow> GetBucket s b = GetBucket s0 b"
    and am: "\<And>b. b < kBucketNum \<Longrightarrow> all_mine P D s b"
    and mv: "\<And>n. bit msk n \<Longrightarrow> n \<in> set vis" "\<And>n. n \<in> set vis \<Longrightarrow> \<not> bit msk n \<Longrightarrow> mine P D (slot_entry B n)"
    using st by (auto simp: stash_visit_def eq B_def)
  have inv: "seg_inv P ?c" and reg: "seg_regular P ?c" and dok: "dest_ok P D T d"
    and sum: "seg_entries ?c + seg_entries d = T"
    using ok by (auto simp: split_ok_def)
  have wfB: "bucket_wf B" using wf by (simp add: B_def)
  have dist: "distinct (busy_slots B)" by (simp add: busy_slots_def)
  have bj: "busy B j" using vis set_busy_slots [OF bucket_wf_base [OF wfB]] by (auto simp: B_def)
  have jv: "j \<notin> set vis" using dist vis by (auto simp: B_def)
  then have nj: "\<not> bit msk j" using mv(1) by blast
  have "j < kSlotNum" using bucket_wf_base [OF wfB] bj by (rule busy_lt)
  then have j32: "j < 32" using kSlotNum_le(1) by (rule less_trans)
  have cb: "GetBucket ?c ?b = ClearSlots B msk" using len i by (simp add: cleared_def GetBucket_upd lt_total B)
  have "it_points ?c \<lparr>index = ?b, slot = j\<rparr>"
    using bj nj \<open>j < kSlotNum\<close> i by (simp add: it_points_def cb lt_total)
  from it_points_entry(2) [OF seg_invD(1) [OF inv] this] have ent: "slot_entry B j \<in># seg_entries ?c"
    by (simp add: it_key_def it_value_def cb slot_entry_def ClearSlots_def)
  then have h: "HashFn P (key B ! j) = Some (khash P (key B ! j))"
    unfolding slot_entry_def by (rule HashFn_entry [OF seg_invD(1) [OF inv]])
  have r: "regular P (slot_entry B j)" using reg ent by (simp add: seg_regular_def)
  let ?h = "khash P (key B ! j)" and ?m = "msk OR push_bit j 1"
  show ?thesis
  proof (cases "is_mine D ?h")
    case True
    then have me: "mine P D (slot_entry B j)" by (simp add: mine_def slot_entry_def)
    show ?thesis
    proof (rule TryMoveFromStash_spec [OF i len inv reg B bj nj h wfB r])
      assume "TryMoveFromStash P s i j ?h = Some (SegIterator_end, s)"
      then have "split_stash_cb P D i j p st = Some st"
        using True h by (simp add: split_stash_cb_def eq B [symmetric])
      moreover have "stash_visit P D T ids i s0 (vis @ [j]) st"
        using st me by (auto simp: stash_visit_def eq B_def)
      ultimately show ?thesis by blast
    next
      fix it s'
      assume m: "TryMoveFromStash P s i j ?h = Some (it, s')" "found it" "seg_len s'"
        "seg_inv P (cleared s' ?b ?m)" "seg_entries (cleared s' ?b ?m) = seg_entries ?c"
        "local_depth s' = local_depth s" "segment_id s' = segment_id s"
        "\<And>b. kBucketNum \<le> b \<Longrightarrow> GetBucket s' b = GetBucket s b"
        "\<And>b x. b < kBucketNum \<Longrightarrow> x \<in># slots (GetBucket s' b) \<Longrightarrow>
           x \<in># slots (GetBucket s b) \<or> entry_of x = slot_entry B j"
      have "split_stash_cb P D i j p st = Some (?m, s', d)"
        using True h m(1,2) by (simp add: split_stash_cb_def eq B [symmetric])
      moreover have "split_ok P D T ids (cleared s' ?b ?m, d)"
        using ok m(4-7) by (simp add: split_ok_def seg_regular_def)
      moreover have "all_mine P D s' b" if "b < kBucketNum" for b
        using m(9) [OF that] am [OF that] me unfolding all_mine_def by metis
      ultimately show ?thesis
        using m(3,8) frame mv j32 by (auto simp: stash_visit_def bit_or_iff B_def)
    qed
  next
    case False
    then have me: "\<not> mine P D (slot_entry B j)" by (simp add: mine_def slot_entry_def)
    obtain s' where s': "RemoveStashReference s i ?h = Some s'"
      "deleted P ?c (slot_entry B j) (cleared s' ?b ?m)"
      using deferred_delete [OF i len inv B bj nj h] by blast
    note fr = RemoveStashReference_frame [OF s'(1) len]
    have r2: "regular P (key B ! j, value B ! j)" using r by (simp add: slot_entry_def)
    have "{#slot_entry B j#} \<subseteq># seg_entries ?c" using ent by simp
    from subset_mset.add_right_mono [OF this, of "seg_entries d"]
    have x: "add_mset (key B ! j, value B ! j) (seg_entries d) \<subseteq># T" using sum by (simp add: slot_entry_def)
    have m: "\<not> mine P D (key B ! j, value B ! j)" using me by (simp add: slot_entry_def)
    show ?thesis
      using dok r2 h m x
    proof (cases rule: dest_insert [consumes 5, case_names Ok Full])
      case (Ok it d')
      then have "split_stash_cb P D i j p st = Some (?m, s', d')"
        using False h s' by (simp add: split_stash_cb_def eq B [symmetric] found_def)
      moreover have "split_ok P D T ids (cleared s' ?b ?m, d')"
        using ok Ok s'(2) me by (auto simp: split_ok_def deleted_def slot_entry_def seg_regular_def)
      moreover have "all_mine P D s' b" if "b < kBucketNum" for b
        using same_slotsD(1) [OF fr(5) [OF that]] am [OF that] by (simp add: all_mine_def)
      ultimately show ?thesis
        using fr(1,4) frame mv j32 by (auto simp: stash_visit_def bit_or_iff B_def)
    next
      case (Full it)
      then have "split_stash_cb P D i j p st = None"
        using False h by (simp add: split_stash_cb_def eq B [symmetric] found_def)
      with Full show ?thesis by simp
    qed
  qed
qed

lemma split_stash_spec:
  assumes i: "i < kStashBucketNum" and ok: "split_ok P D T ids (s, d)"
    and am: "\<forall>b < kBucketNum. all_mine P D s b"
  shows "(\<exists>s' d'. split_stash P D i (s, d) = Some (s', d') \<and> split_ok P D T ids (s', d') \<and>
      (\<forall>b < kBucketNum. all_mine P D s' b) \<and> all_mine P D s' (kBucketNum + i) \<and>
      (\<forall>b \<ge> kBucketNum. b \<noteq> kBucketNum + i \<longrightarrow> GetBucket s' b = GetBucket s b)) \<or>
    split_stash P D i (s, d) = None \<and> too_many P D T"
proof -
  let ?b = "kBucketNum + i" let ?B = "GetBucket s ?b"
  have inv: "seg_inv P s" using ok by (simp add: split_ok_def)
  note sh = seg_invD(1) [OF inv] and bt = lt_total(2) [OF i]
  have wf: "bucket_wf ?B" by (rule seg_shapeD(2) [OF sh bt])
  have "cleared s ?b 0 = s"
    by (simp add: cleared_def upd_def ClearSlots_def sb_ClearSlots_def)
  then have 0: "stash_visit P D T ids i s [] (0, s, d)"
    using ok am seg_shapeD(1) [OF sh] by (simp add: stash_visit_def)
  have loop: "(\<exists>st. foldM (\<lambda>j. split_stash_cb P D i j (probing ?B j)) (busy_slots ?B) (0, s, d) = Some st \<and>
      stash_visit P D T ids i s (busy_slots ?B) st) \<or>
    foldM (\<lambda>j. split_stash_cb P D i j (probing ?B j)) (busy_slots ?B) (0, s, d) = None \<and> too_many P D T"
    by (rule foldM_cases [where I = "stash_visit P D T ids i s", OF 0]) (metis stash_visit_step [OF i wf])
  have step: "split_stash P D i (s, d) = (do {
      (msk, s, d) \<leftarrow> foldM (\<lambda>j. split_stash_cb P D i j (probing ?B j)) (busy_slots ?B) (0, s, d);
      Some (cleared s ?b msk, d) })"
    by (simp add: split_stash_def ForEachSlot_foldM [OF bucket_wf_base [OF wf]] cleared_def)
  from loop show ?thesis
  proof (elim disjE exE conjE)
    fix st assume r: "foldM (\<lambda>j. split_stash_cb P D i j (probing ?B j)) (busy_slots ?B) (0, s, d) = Some st"
      "stash_visit P D T ids i s (busy_slots ?B) st"
    obtain msk s' d' where eq: "st = (msk, s', d')" by (cases st)
    note v = r(2) [unfolded eq stash_visit_def, simplified]
    have get: "GetBucket (cleared s' ?b msk) b = GetBucket s' b" if "b \<noteq> ?b" for b
      using that by (simp add: cleared_def GetBucket_upd_neq)
    have "all_mine P D (cleared s' ?b msk) ?b"
      using v bt wf set_busy_slots [OF bucket_wf_base [OF wf]] by (intro all_mine_cleared) auto
    moreover have "all_mine P D (cleared s' ?b msk) b" if "b < kBucketNum" for b
      using v that get [of b] by (simp add: all_mine_def)
    ultimately show ?thesis using r(1) v get by (simp add: step eq)
  qed (simp add: step)
qed

lemma split_stash_loop:
  assumes ok: "split_ok P D T ids (s, d)" and am: "\<forall>b < kBucketNum. all_mine P D s b"
  shows "(\<exists>s' d'. foldM (split_stash P D) [0..<kStashBucketNum] (s, d) = Some (s', d') \<and> split_ok P D T ids (s', d') \<and>
      (\<forall>b < kTotalBuckets. all_mine P D s' b)) \<or>
    foldM (split_stash P D) [0..<kStashBucketNum] (s, d) = None \<and> too_many P D T"
proof -
  let ?I = "\<lambda>vis st. split_ok P D T ids st \<and> (\<forall>b < kBucketNum. all_mine P D (fst st) b) \<and>
    (\<forall>j \<in> set vis. all_mine P D (fst st) (kBucketNum + j))"
  have "(\<exists>st. foldM (split_stash P D) [0..<kStashBucketNum] (s, d) = Some st \<and> ?I [0..<kStashBucketNum] st) \<or>
    foldM (split_stash P D) [0..<kStashBucketNum] (s, d) = None \<and> too_many P D T"
  proof (rule foldM_cases)
    fix vis i st assume st: "?I vis st" and ex: "\<exists>zs. vis @ i # zs = [0..<kStashBucketNum]"
    have i: "i < kStashBucketNum" using ex by (metis atLeastLessThan_iff in_set_conv_decomp set_upt)
    obtain s d where eq: "st = (s, d)" by (cases st)
    have keep: "\<forall>j \<in> set (vis @ [i]). all_mine P D s' (kBucketNum + j)"
      if "all_mine P D s' (kBucketNum + i)"
        "\<forall>b \<ge> kBucketNum. b \<noteq> kBucketNum + i \<longrightarrow> GetBucket s' b = GetBucket s b" for s' :: "('a, 'b) Segment"
    proof
      fix j assume j: "j \<in> set (vis @ [i])"
      show "all_mine P D s' (kBucketNum + j)"
      proof (cases "j = i")
        case False
        then have "all_mine P D s (kBucketNum + j)" using j st by (simp add: eq)
        then show ?thesis using that(2) [rule_format, of "kBucketNum + j"] False by (simp add: all_mine_def)
      qed (use that in simp)
    qed
    have am: "\<forall>b < kBucketNum. all_mine P D s b" using st by (simp add: eq)
    have ok: "split_ok P D T ids (s, d)" using st by (simp add: eq)
    show "(\<exists>st'. split_stash P D i st = Some st' \<and> ?I (vis @ [i]) st') \<or>
        split_stash P D i st = None \<and> too_many P D T"
      using split_stash_spec [OF i ok am]
    proof (elim disjE exE conjE)
      fix s' d' assume r: "split_stash P D i (s, d) = Some (s', d')" "split_ok P D T ids (s', d')"
        "\<forall>b < kBucketNum. all_mine P D s' b" "all_mine P D s' (kBucketNum + i)"
        "\<forall>b \<ge> kBucketNum. b \<noteq> kBucketNum + i \<longrightarrow> GetBucket s' b = GetBucket s b"
      show ?thesis
        using r(1-3) keep [OF r(4,5)] unfolding eq by (intro disjI1 exI [of _ "(s', d')"]) simp
    qed (simp add: eq)
  qed (use assms in simp)
  then show ?thesis
  proof (elim disjE exE conjE)
    fix st assume r: "foldM (split_stash P D) [0..<kStashBucketNum] (s, d) = Some st" "split_ok P D T ids st"
      "\<forall>b < kBucketNum. all_mine P D (fst st) b" "\<forall>j \<in> set [0..<kStashBucketNum]. all_mine P D (fst st) (kBucketNum + j)"
    have "all_mine P D (fst st) b" if "b < kTotalBuckets" for b
      using that r(3,4) by (cases "b < kBucketNum") (auto simp: kTotalBuckets_def dest!: le_Suc_ex simp: not_less)
    with r show ?thesis by (cases st) auto
  qed simp
qed

subsection \<open>Splitting: the result\<close>

lemma seg_inv_depth [simp]: "seg_inv P (s\<lparr>local_depth := d\<rparr>) = seg_inv P s"
  "seg_entries (s\<lparr>local_depth := d\<rparr>) = seg_entries s" "seg_regular P (s\<lparr>local_depth := d\<rparr>) = seg_regular P s"
  "seg_inv P (s\<lparr>segment_id := n\<rparr>) = seg_inv P s"
  "seg_entries (s\<lparr>segment_id := n\<rparr>) = seg_entries s" "seg_regular P (s\<lparr>segment_id := n\<rparr>) = seg_regular P s"
  by (simp_all add: seg_inv_def seg_shape_def stash_ok_def stash_entries_def stash_ptrs_def
    seg_entries_def seg_slots_def seg_regular_def)

lemma empty_homely:
  assumes "seg_inv P d" "seg_entries d = {#}"
  shows "homely d"
proof -
  have "slots (GetBucket d i) = {#}" if "i < kTotalBuckets" for i
    using slots_sub [OF seg_shapeD(1) [OF seg_invD(1) [OF assms(1)]] that] assms(2) by (simp add: seg_entries_def)
  then show ?thesis by (simp add: homely_def)
qed

lemma Segment_Split_spec:
  assumes s: "seg_inv P s" "seg_regular P s" and d: "seg_inv P d" "seg_entries d = {#}"
    and D: "D = (local_depth s + 1) mod 256"
  shows "(\<exists>s' d'. Segment_Split P s d = Some (s', d') \<and> seg_inv P s' \<and> seg_inv P d' \<and>
      seg_entries s' = filter_mset (mine P D) (seg_entries s) \<and>
      seg_entries d' = filter_mset (\<lambda>e. \<not> mine P D e) (seg_entries s) \<and>
      local_depth s' = D \<and> local_depth d' = D \<and> segment_id s' = segment_id s \<and> segment_id d' = segment_id d) \<or>
    Segment_Split P s d = None \<and> too_many P D (seg_entries s)"
proof -
  let ?T = "seg_entries s" and ?ids = "(segment_id s, segment_id d)"
  let ?s = "s\<lparr>local_depth := D\<rparr>" and ?d = "d\<lparr>local_depth := D\<rparr>"
  have ok: "split_ok P D ?T ?ids (?s, ?d)"
    using s d empty_homely [OF d] by (simp add: split_ok_def dest_ok_def seg_regular_def homely_def)
  have eq: "Segment_Split P s d = foldM (split_regular P D) [0..<kBucketNum] (?s, ?d) \<bind>
      foldM (split_stash P D) [0..<kStashBucketNum]"
    unfolding Segment_Split_def Let_def D by simp
  from split_regular_loop [OF ok] show ?thesis
  proof (elim disjE exE conjE)
    fix s1 d1 assume 1: "foldM (split_regular P D) [0..<kBucketNum] (?s, ?d) = Some (s1, d1)"
      "split_ok P D ?T ?ids (s1, d1)" "\<forall>i < kBucketNum. all_mine P D s1 i"
    from split_stash_loop [OF 1(2,3)] consider s2 d2 where
        "foldM (split_stash P D) [0..<kStashBucketNum] (s1, d1) = Some (s2, d2)"
        "split_ok P D ?T ?ids (s2, d2)" "\<forall>b < kTotalBuckets. all_mine P D s2 b"
      | "foldM (split_stash P D) [0..<kStashBucketNum] (s1, d1) = None" "too_many P D ?T" by (elim disjE exE conjE)
    then show ?thesis
    proof cases
      case (1 s2 d2)
      note o = 1(2) [unfolded split_ok_def, simplified]
      have "\<forall>e \<in># seg_entries s2. mine P D e"
        using 1(3) in_seg_slots [OF seg_shapeD(1) [OF seg_invD(1)], of P s2] o
        by (auto simp: seg_entries_def all_mine_def)
      moreover have "\<forall>e \<in># seg_entries d2. \<not> mine P D e" using o by (auto simp: dest_ok_def)
      ultimately have "seg_entries s2 = filter_mset (mine P D) ?T"
        "seg_entries d2 = filter_mset (\<lambda>e. \<not> mine P D e) ?T"
        using o by (auto simp: filter_mset_all filter_mset_none dest!: sym [of _ ?T])
      then show ?thesis
        using o 1(1) \<open>foldM (split_regular P D) _ _ = _\<close> by (simp add: eq dest_ok_def)
    next
      case 2
      then show ?thesis using 1(1) by (simp add: eq)
    qed
  qed (simp add: eq)
qed



end
