(* ===== verification/Segment_Visit.thy ===== *)
theory Segment_Visit
  imports Segment_Correct
begin

text \<open>
  The visits of a segment: \<open>TraverseAll\<close> over every entry, \<open>TraverseLogicalBucket\<close> over the
  entries whose home is a given bucket, and \<open>FindValidStartingFrom\<close>, the step of the table
  iterator. The callbacks thread a state and may abort.
\<close>

subsection \<open>Definitions\<close>

definition TraverseAll :: "('k, 'v) Segment \<Rightarrow> (SegIterator \<Rightarrow> 's \<Rightarrow> 's option) \<Rightarrow> 's \<Rightarrow> 's option" where
  "TraverseAll s cb st =
     foldM (\<lambda>i. ForEachSlot (GetBucket s i) (\<lambda>sl probe. cb \<lparr>index = i, slot = sl\<rparr>)) [0..<kTotalBuckets] st"

text \<open>The callbacks may change the table that holds the segment, so the segment is read again through
  \<open>get\<close> wherever the code dereferences a bucket; the masks of a bucket are read once, when its
  visit starts.\<close>

definition TraverseLogicalBucket :: "('k \<Rightarrow> u64 option) \<Rightarrow> ('s \<Rightarrow> ('k, 'v) Segment) \<Rightarrow> nat
    \<Rightarrow> (SegIterator \<Rightarrow> 's \<Rightarrow> 's option) \<Rightarrow> 's \<Rightarrow> (bool \<times> 's) option" where
  "TraverseLogicalBucket hfun get bid cb st = do {
     assert_opt (bid < kBucketNum);
     let b = GetBucket (get st) bid;
     st \<leftarrow> (if GetProbe b False \<noteq> 0
           then ForEachSlot b (\<lambda>sl probe (fnd, st). if probe then Some (fnd, st)
              else do { st \<leftarrow> cb \<lparr>index = bid, slot = sl\<rparr> st; Some (True, st) }) (False, st)
           else Some (False, st));
     let nid = NextBid bid;
     let nx = GetBucket (get (snd st)) nid;
     st \<leftarrow> (if GetProbe nx True \<noteq> 0
           then ForEachSlot nx (\<lambda>sl probe (fnd, st). if \<not> probe then Some (fnd, st)
              else do { hash \<leftarrow> hfun (key (GetBucket (get st) nid) ! sl); assert_opt (HomeIndex hash = bid);
                        st \<leftarrow> cb \<lparr>index = nid, slot = sl\<rparr> st; Some (True, st) }) st
           else Some st);
     if HasStash (GetBucket (get (snd st)) bid)
     then foldM (\<lambda>j st. ForEachSlot (GetBucket (get (snd st)) j) (\<lambda>sl probe (fnd, st). do {
              hash \<leftarrow> hfun (key (GetBucket (get st) j) ! sl);
              if HomeIndex hash = bid
              then do { st \<leftarrow> cb \<lparr>index = j, slot = sl\<rparr> st; Some (True, st) }
              else Some (fnd, st) }) st) [kBucketNum..<kTotalBuckets] st
     else Some st }"

fun FindValidStartingFrom_loop :: "('k, 'v) Segment \<Rightarrow> nat \<Rightarrow> nat \<Rightarrow> nat \<Rightarrow> SegIterator" where
  "FindValidStartingFrom_loop s 0 bid sl = SegIterator_end"
| "FindValidStartingFrom_loop s (Suc n) bid sl =
     (let msk = drop_bit sl (GetBusy (GetBucket s bid))
      in if msk \<noteq> 0 then \<lparr>index = bid, slot = sl + ctz msk\<rparr>
         else FindValidStartingFrom_loop s n (Suc bid) 0)"

definition FindValidStartingFrom :: "('k, 'v) Segment \<Rightarrow> nat \<Rightarrow> nat \<Rightarrow> SegIterator" where
  "FindValidStartingFrom s bid sl = FindValidStartingFrom_loop s (kTotalBuckets - bid) bid sl"

text \<open>The iterators to the entries of one bucket, of the whole segment, and of one logical bucket, in
  the order of the visits; the order of positions.\<close>

definition bucket_its :: "('k, 'v) Segment \<Rightarrow> nat \<Rightarrow> SegIterator list" where
  "bucket_its s i = map (\<lambda>sl. \<lparr>index = i, slot = sl\<rparr>) (busy_slots (GetBucket s i))"

definition seg_its :: "('k, 'v) Segment \<Rightarrow> SegIterator list" where
  "seg_its s = concat (map (bucket_its s) [0..<kTotalBuckets])"

definition logical_its :: "('k, 'v, 'u) Policy \<Rightarrow> ('k, 'v) Segment \<Rightarrow> nat \<Rightarrow> SegIterator list" where
  "logical_its P s bid = filter (\<lambda>it. home P (it_key s it) = bid)
     (bucket_its s bid @ bucket_its s (NextBid bid) @ concat (map (bucket_its s) [kBucketNum..<kTotalBuckets]))"

definition it_entry :: "('k, 'v) Segment \<Rightarrow> SegIterator \<Rightarrow> 'k \<times> 'v" where
  "it_entry s it = (it_key s it, it_value s it)"

definition it_le :: "SegIterator \<Rightarrow> SegIterator \<Rightarrow> bool" where
  "it_le a b \<longleftrightarrow> index a < index b \<or> index a = index b \<and> slot a \<le> slot b"

subsection \<open>Lists of callbacks\<close>

lemma foldM_map: "foldM f (map g xs) s = foldM (\<lambda>x. f (g x)) xs s"
  by (induction xs arbitrary: s) (auto split: bind_splits)

lemma foldM_concat: "foldM f (concat (map g xs)) s = foldM (\<lambda>x. foldM f (g x)) xs s"
  by (induction xs arbitrary: s) (auto simp: foldM_append split: bind_splits)

lemma ForEachSlot_its:
  assumes "seg_shape P s" "i < kTotalBuckets"
  shows "ForEachSlot (GetBucket s i) (\<lambda>sl probe. cb \<lparr>index = i, slot = sl\<rparr>) st = foldM cb (bucket_its s i) st"
  using seg_shapeD(2) [OF assms] by (simp add: ForEachSlot_foldM bucket_its_def foldM_map)

text \<open>A visit that skips some slots and records whether it called back. \<open>R V u\<close> is an invariant of the
  state \<open>u\<close> after the callbacks on the list \<open>V\<close>.\<close>

lemma foldM_filter_flag:
  assumes "R V st" "distinct xs" "set xs \<inter> set V = {}"
    and "\<And>W x c u. R W u \<Longrightarrow> x \<in> set xs \<Longrightarrow> x \<notin> set W \<Longrightarrow>
      f x (c, u) = (if Q x then do { t \<leftarrow> cb x u; Some (True, t) } else Some (c, u))"
    and "\<And>W x u u'. R W u \<Longrightarrow> x \<in> set xs \<Longrightarrow> Q x \<Longrightarrow> x \<notin> set W \<Longrightarrow> cb x u = Some u' \<Longrightarrow> R (W @ [x]) u'"
  shows "foldM f xs (b, st) = map_option (\<lambda>t. (b \<or> filter Q xs \<noteq> [], t)) (foldM cb (filter Q xs) st) \<and>
    (\<forall>t. foldM cb (filter Q xs) st = Some t \<longrightarrow> R (V @ filter Q xs) t)"
  using assms
proof (induction xs arbitrary: b st V)
  case Nil
  then show ?case by simp
next
  case (Cons x xs)
  have step: "f x (b, st) = (if Q x then do { t \<leftarrow> cb x st; Some (True, t) } else Some (b, st))"
    using Cons.prems by (intro Cons.prems(4)) auto
  have IH: "foldM f xs (c, u) = map_option (\<lambda>t. (c \<or> filter Q xs \<noteq> [], t)) (foldM cb (filter Q xs) u) \<and>
    (\<forall>t. foldM cb (filter Q xs) u = Some t \<longrightarrow> R (W @ filter Q xs) t)" if "R W u" "set xs \<inter> set W = {}" for c u W
  proof (rule Cons.IH [OF that(1) _ that(2)])
    show "distinct xs" using Cons.prems(2) by simp
  qed (rule Cons.prems(4,5); simp)+
  show ?case
  proof (cases "Q x")
    case False
    then show ?thesis using IH [of V st b] Cons.prems(1,3) step by simp
  next
    case True
    show ?thesis
    proof (cases "cb x st")
      case None
      then show ?thesis using True step by simp
    next
      case (Some u)
      have "R (V @ [x]) u" using Cons.prems(1,3) True Some by (intro Cons.prems(5)) auto
      then show ?thesis
        using IH [of "V @ [x]" u True] Cons.prems(2,3) True Some step by auto
    qed
  qed
qed

lemma TraverseAll_its:
  assumes "seg_shape P s"
  shows "TraverseAll s cb st = foldM cb (seg_its s) st"
  unfolding TraverseAll_def seg_its_def foldM_concat
  by (rule foldM_cong) (simp add: ForEachSlot_its [OF assms])

lemma bucket_its_entries:
  "image_mset (\<lambda>it. slot_of (GetBucket s (index it)) (slot it)) (mset (bucket_its s i)) = slots (GetBucket s i)"
  by (simp add: bucket_its_def slots_def multiset.map_comp comp_def flip: mset_map)

subsection \<open>The visited entries\<close>

lemma in_bucket_its:
  assumes "seg_shape P s" "i < kTotalBuckets"
  shows "it \<in> set (bucket_its s i) \<longleftrightarrow> index it = i \<and> it_points s it"
proof -
  have wf: "base_wf (GetBucket s i)" using seg_shapeD(2) [OF assms] by simp
  show ?thesis
    using assms(2) busy_lt [OF wf] by (cases it) (auto simp: bucket_its_def it_points_def set_busy_slots [OF wf])
qed

lemma in_seg_its: "seg_shape P s \<Longrightarrow> it \<in> set (seg_its s) \<longleftrightarrow> it_points s it"
  by (auto simp: seg_its_def in_bucket_its it_points_def)

lemma distinct_bucket_its: "distinct (bucket_its s i)"
  by (auto simp: bucket_its_def distinct_map busy_slots_def inj_on_def)

lemma bucket_its_index: "it \<in> set (bucket_its s i) \<Longrightarrow> index it = i"
  by (auto simp: bucket_its_def)

lemma distinct_concat_its: "distinct is \<Longrightarrow> distinct (concat (map (bucket_its s) is))"
proof (induction "is")
  case (Cons i js)
  then have "set (bucket_its s i) \<inter> (\<Union>j \<in> set js. set (bucket_its s j)) = {}"
    using bucket_its_index by (auto dest!: bucket_its_index)
  then show ?case using Cons distinct_bucket_its [of s i] by auto
qed simp

lemma bucket_its_entry:
  "image_mset (it_entry s) (mset (bucket_its s i)) = image_mset entry_of (slots (GetBucket s i))"
  unfolding bucket_its_entries [symmetric] multiset.map_comp
  by (rule image_mset_cong) (simp add: it_entry_def it_key_def it_value_def entry_of_def slot_of_def)

lemma image_entry_sum: "image_mset f (sum_list (map g xs)) = sum_list (map (\<lambda>x. image_mset f (g x)) xs)"
  by (induction xs) auto

lemma mset_concat_map: "mset (concat (map g xs)) = sum_list (map (\<lambda>x. mset (g x)) xs)"
  by (induction xs) auto

lemma seg_its_entries:
  assumes "seg_len s"
  shows "image_mset (it_entry s) (mset (seg_its s)) = seg_entries s"
proof -
  have "map slots (bucket_arr s) = map (\<lambda>i. slots (GetBucket s i)) [0..<kTotalBuckets]"
    using assms by (intro nth_equalityI) auto
  then have "seg_slots s = (\<Sum>i \<leftarrow> [0..<kTotalBuckets]. slots (GetBucket s i))"
    by (simp only: seg_slots_def)
  then show ?thesis
    unfolding seg_its_def mset_concat_map seg_entries_def image_entry_sum
    by (simp add: image_entry_sum bucket_its_entry)
qed

text \<open>The probe flag of a slot tells whether its entry belongs to the bucket or to the previous one.\<close>

lemma probing_home:
  assumes sh: "seg_shape P s" and b: "bid < kBucketNum" and it: "it \<in> set (bucket_its s i)"
  shows "i = bid \<Longrightarrow> \<not> probing (GetBucket s i) (slot it) \<longleftrightarrow> home P (it_key s it) = bid"
    "i = NextBid bid \<Longrightarrow> probing (GetBucket s i) (slot it) \<longleftrightarrow> home P (it_key s it) = bid"
proof -
  have *: "slot_ok P i (slot_of (GetBucket s i) (slot it))" if i: "i < kBucketNum"
  proof -
    have "it_points s it" "index it = i" using in_bucket_its [OF sh lt_total(1) [OF i]] it by auto
    then show ?thesis using seg_shapeD(3) [OF sh i] it_points_entry(1) [OF sh] by metis
  qed
  have k: "it_key s it = key (GetBucket s i) ! slot it"
    using it by (simp add: it_key_def bucket_its_index)
  show "i = bid \<Longrightarrow> \<not> probing (GetBucket s i) (slot it) \<longleftrightarrow> home P (it_key s it) = bid"
    using * b Next_neq(1) by (auto simp: slot_ok_def slot_of_def k split: if_splits)
  show "i = NextBid bid \<Longrightarrow> probing (GetBucket s i) (slot it) \<longleftrightarrow> home P (it_key s it) = bid"
    using * b Next_inj [OF home_lt b, of P "it_key s it"] Next_neq(1) [OF b]
    by (auto simp: slot_ok_def slot_of_def k split: if_splits)
qed

lemma HashFn_it: "seg_shape P s \<Longrightarrow> it_points s it \<Longrightarrow> HashFn P (it_key s it) = Some (khash P (it_key s it))"
proof -
  assume sh: "seg_shape P s" and it: "it_points s it"
  let ?x = "slot_of (GetBucket s (index it)) (slot it)"
  have x: "?x \<in># slots (GetBucket s (index it))" by (rule it_points_entry(1) [OF sh it])
  have "HashFn P (it_key s it) \<noteq> None"
  proof (cases "index it < kBucketNum")
    case True
    then show ?thesis using seg_shapeD(3) [OF sh True x] by (simp add: slot_ok_def slot_of_def it_key_def)
  next
    case False
    then obtain j where j: "index it = kBucketNum + j" "j < kStashBucketNum"
      using it by (metis add_less_cancel_left it_points_def kTotalBuckets_def le_add_diff_inverse not_less)
    then show ?thesis
      using seg_shapeD(4) [OF sh j(2)] x by (force simp: stash_slot_ok_def slot_of_def it_key_def)
  qed
  then show ?thesis by (auto simp: khash_def)
qed

text \<open>The callbacks may erase the entry they are called on: a slot that has not been visited still has
  the contents it had at the start.\<close>

definition same_slot :: "('k, 'v) Segment \<Rightarrow> ('k, 'v) Segment \<Rightarrow> SegIterator \<Rightarrow> bool" where
  "same_slot s s' it \<longleftrightarrow> (busy (GetBucket s' (index it)) (slot it) \<longleftrightarrow> busy (GetBucket s (index it)) (slot it)) \<and>
     (probing (GetBucket s' (index it)) (slot it) \<longleftrightarrow> probing (GetBucket s (index it)) (slot it)) \<and>
     it_key s' it = it_key s it \<and> it_value s' it = it_value s it"

definition live :: "('k, 'v, 'u) Policy \<Rightarrow> ('k, 'v) Segment \<Rightarrow> SegIterator list \<Rightarrow> ('k, 'v) Segment \<Rightarrow> bool" where
  "live P s V s' \<longleftrightarrow> seg_inv P s' \<and> (\<forall>it. it \<notin> set V \<longrightarrow> same_slot s s' it)"

lemma same_slot_refl [simp]: "same_slot s s it"
  by (simp add: same_slot_def)

lemma liveD:
  assumes "live P s V s'" "\<forall>it \<in> set V. index it \<noteq> j"
  shows "bucket_its s' j = bucket_its s j" "probing (GetBucket s' j) i = probing (GetBucket s j) i"
    "it \<in> set (bucket_its s j) \<Longrightarrow> it_key s' it = it_key s it"
proof -
  have same: "same_slot s s' \<lparr>index = j, slot = i\<rparr>" for i
    using assms unfolding live_def by (metis SegIterator.select_convs(1))
  show "bucket_its s' j = bucket_its s j" "probing (GetBucket s' j) i = probing (GetBucket s j) i"
    using same by (auto simp: bucket_its_def busy_slots_def same_slot_def)
  show "it_key s' it = it_key s it" if "it \<in> set (bucket_its s j)"
    using that same [of "slot it"] by (auto simp: bucket_its_def same_slot_def)
qed

lemma GetProbe_its:
  assumes sh: "seg_shape P s" and i: "i < kTotalBuckets" and z: "GetProbe (GetBucket s i) pr = 0" and it: "it \<in> set (bucket_its s i)"
  shows "probing (GetBucket s i) (slot it) \<noteq> pr"
  using in_bucket_its [OF sh i, of it] it z bit_sb_GetProbe [of "slotb (GetBucket s i)" pr "slot it"]
  by (simp add: GetProbe_def it_points_def)

text \<open>The three parts of the visit, from a state \<open>u\<close> whose segment is \<open>s'\<close>. In each of them the visit of
  a bucket is a fold over its iterators.\<close>

lemma visit_bucket:
  assumes sh: "seg_shape P s'" and j: "j < kTotalBuckets" and its: "bucket_its s' j = bucket_its s j"
    and g: "\<And>it c u. it \<in> set (bucket_its s j) \<Longrightarrow> g (slot it) (probing (GetBucket s' j) (slot it)) (c, u) = f it (c, u)"
  shows "ForEachSlot (GetBucket s' j) g (c, u) = foldM f (bucket_its s j) (c, u)"
proof -
  have "base_wf (GetBucket s' j)" using seg_shapeD(2) [OF sh j] by simp
  then have "ForEachSlot (GetBucket s' j) g (c, u) =
      foldM (\<lambda>it. g (slot it) (probing (GetBucket s' j) (slot it))) (bucket_its s' j) (c, u)"
    by (simp add: ForEachSlot_foldM bucket_its_def foldM_map)
  also have "\<dots> = foldM f (bucket_its s j) (c, u)"
    unfolding its by (rule foldM_cong) (use g in \<open>auto split: prod.splits\<close>)
  finally show ?thesis .
qed

lemma no_stash_its:
  assumes inv: "seg_inv P s" and b: "bid < kBucketNum" and "\<not> HasStash (GetBucket s bid)"
  shows "filter (\<lambda>it. home P (it_key s it) = bid) (concat (map (bucket_its s) [kBucketNum..<kTotalBuckets])) = []"
proof -
  note sh = seg_invD(1) [OF inv]
  have E: "stash_entries P s bid = {#}" using seg_invD(2) [OF inv b] assms(3) by (simp add: stash_ok_def)
  have "home P (it_key s it) \<noteq> bid" if j: "kBucketNum \<le> j" "j < kTotalBuckets" "it \<in> set (bucket_its s j)" for j it
  proof
    assume h: "home P (it_key s it) = bid"
    obtain i where i: "j = kBucketNum + i" "i < kStashBucketNum"
      using j by (metis add_less_cancel_left kTotalBuckets_def le_add_diff_inverse)
    have "it_points s it" "index it = j" using j in_bucket_its [OF sh j(2)] by auto
    then have "slot_of (GetBucket s j) (slot it) \<in># slots (GetBucket s j)" using it_points_entry(1) [OF sh] by metis
    then have "(finger_arr (GetBucket s j) ! slot it, i) \<in># stash_entries P s bid"
      unfolding in_stash_entries using i h \<open>index it = j\<close> by (auto simp: slot_of_def it_key_def)
    then show False using E by simp
  qed
  note none = this
  show ?thesis
    unfolding filter_empty_conv
  proof
    fix it assume "it \<in> set (concat (map (bucket_its s) [kBucketNum..<kTotalBuckets]))"
    then obtain j where "kBucketNum \<le> j" "j < kTotalBuckets" "it \<in> set (bucket_its s j)" by auto
    then show "home P (it_key s it) \<noteq> bid" by (rule none)
  qed
qed

text \<open>\<open>visiting\<close>: the callback keeps \<open>R\<close>, and \<open>R\<close> keeps the unvisited slots. \<open>part_ok\<close>: a part of
  the visit, started after the callbacks on \<open>V\<close>, calls back on \<open>xs\<close> and reports whether it did.\<close>

definition visiting :: "('k, 'v, 'u) Policy \<Rightarrow> ('s \<Rightarrow> ('k, 'v) Segment) \<Rightarrow> ('k, 'v) Segment \<Rightarrow> nat
    \<Rightarrow> (SegIterator \<Rightarrow> 's \<Rightarrow> 's option) \<Rightarrow> (SegIterator list \<Rightarrow> 's \<Rightarrow> bool) \<Rightarrow> bool" where
  "visiting P get s bid cb R \<longleftrightarrow> (\<forall>V u. R V u \<longrightarrow> live P s V (get u)) \<and>
     (\<forall>V it u u'. R V u \<longrightarrow> it \<in> set (logical_its P s bid) \<longrightarrow> it \<notin> set V \<longrightarrow> cb it u = Some u' \<longrightarrow> R (V @ [it]) u')"

definition part_ok :: "(SegIterator list \<Rightarrow> 's \<Rightarrow> bool) \<Rightarrow> (SegIterator \<Rightarrow> 's \<Rightarrow> 's option) \<Rightarrow> SegIterator list
    \<Rightarrow> SegIterator list \<Rightarrow> bool \<times> 's \<Rightarrow> (bool \<times> 's) option \<Rightarrow> bool" where
  "part_ok R cb V xs cu m \<longleftrightarrow> m = map_option (\<lambda>t. (fst cu \<or> xs \<noteq> [], t)) (foldM cb xs (snd cu)) \<and>
     (\<forall>t. foldM cb xs (snd cu) = Some t \<longrightarrow> R (V @ xs) t)"

lemma part_ok_nil: "R V (snd cu) \<Longrightarrow> part_ok R cb V [] cu (Some cu)"
  by (simp add: part_ok_def)

lemma part_ok_bind:
  assumes "part_ok R cb V xs cu m" "\<And>c t. R (V @ xs) t \<Longrightarrow> part_ok R cb (V @ xs) ys (c, t) (k (c, t))"
  shows "part_ok R cb V (xs @ ys) cu (Option.bind m k)"
  using assms by (cases "foldM cb xs (snd cu)") (auto simp: part_ok_def foldM_append)

lemma part_bucket:
  assumes v: "visiting P get s bid cb R" and R: "R V u" and V: "\<forall>it \<in> set V. index it \<noteq> j" and j: "j < kTotalBuckets"
    and sub: "set (filter (\<lambda>it. home P (it_key s it) = bid) (bucket_its s j)) \<subseteq> set (logical_its P s bid)"
    and g: "\<And>W it c u. live P s W (get u) \<Longrightarrow> it \<in> set (bucket_its s j) \<Longrightarrow> it \<notin> set W \<Longrightarrow>
      g (slot it) (probing (GetBucket s j) (slot it)) (c, u) =
        (if home P (it_key s it) = bid then do { t \<leftarrow> cb it u; Some (True, t) } else Some (c, u))"
  shows "part_ok R cb V (filter (\<lambda>it. home P (it_key s it) = bid) (bucket_its s j)) (c, u) (ForEachSlot (GetBucket (get u) j) g (c, u))"
proof -
  have live: "live P s W (get w)" if "R W w" for W w using v that by (simp add: visiting_def)
  have sh: "seg_shape P (get u)" using live [OF R] by (simp add: live_def seg_invD)
  let ?f = "\<lambda>it. g (slot it) (probing (GetBucket s j) (slot it))"
  have eq: "ForEachSlot (GetBucket (get u) j) g (c, u) = foldM ?f (bucket_its s j) (c, u)"
    by (rule visit_bucket [OF sh j liveD(1) [OF live [OF R] V]]) (simp add: liveD(2) [OF live [OF R] V])
  have V': "set (bucket_its s j) \<inter> set V = {}" using V bucket_its_index by (metis disjoint_iff)
  show ?thesis
    unfolding part_ok_def eq fst_conv snd_conv
  proof (rule foldM_filter_flag [where R = R, OF R distinct_bucket_its V'])
    fix W it u u' assume "R W u" "it \<in> set (bucket_its s j)" "home P (it_key s it) = bid" "it \<notin> set W" "cb it u = Some u'"
    then show "R (W @ [it]) u'" using v sub unfolding visiting_def by force
  qed (rule g [OF live])
qed

lemma bucket_its_eta: "it \<in> set (bucket_its s j) \<Longrightarrow> \<lparr>index = j, slot = slot it\<rparr> = it"
  by (auto simp: bucket_its_def)

lemma live_hash:
  assumes sh: "seg_shape P s" and l: "live P s W s'" and j: "j < kTotalBuckets" and it: "it \<in> set (bucket_its s j)" "it \<notin> set W"
  shows "HashFn P (key (GetBucket s' j) ! slot it) = Some (khash P (it_key s it))"
proof -
  have p: "it_points s it" "index it = j" using in_bucket_its [OF sh j] it(1) by auto
  have "key (GetBucket s' j) ! slot it = it_key s it"
    using l it(2) p(2) by (auto simp: live_def same_slot_def it_key_def)
  then show ?thesis using HashFn_it [OF sh p(1)] by simp
qed

lemma foldM_parts:
  assumes "distinct js" "R V u"
    and "\<And>j V c u. j \<in> set js \<Longrightarrow> R V u \<Longrightarrow> \<forall>it \<in> set V. index it \<noteq> j \<Longrightarrow> part_ok R cb V (filter Q (bucket_its s j)) (c, u) (F j (c, u))"
    and "\<forall>it \<in> set V. index it \<notin> set js"
  shows "part_ok R cb V (filter Q (concat (map (bucket_its s) js))) (c, u) (foldM F js (c, u))"
  using assms
proof (induction js arbitrary: V c u)
  case Nil
  then show ?case by (simp add: part_ok_nil)
next
  case (Cons j js)
  have 1: "part_ok R cb V (filter Q (bucket_its s j)) (c, u) (F j (c, u))" using Cons.prems by auto
  have "part_ok R cb (V @ filter Q (bucket_its s j)) (filter Q (concat (map (bucket_its s) js))) (c', t) (foldM F js (c', t))"
    if "R (V @ filter Q (bucket_its s j)) t" for c' t
    using Cons.prems bucket_its_index that by (intro Cons.IH) fastforce+
  from part_ok_bind [OF 1 this] show ?case by simp
qed

lemma TraverseLogicalBucket_live:
  assumes inv: "seg_inv P s" and b: "bid < kBucketNum" and v: "visiting P get s bid cb R" and R: "R [] st" and get: "get st = s"
  shows "part_ok R cb [] (logical_its P s bid) (False, st) (TraverseLogicalBucket (HashFn P) get bid cb st)"
proof -
  note sh = seg_invD(1) [OF inv]
  let ?Q = "\<lambda>it. home P (it_key s it) = bid" and ?n = "NextBid bid" and ?st = "[kBucketNum..<kTotalBuckets]"
  let ?x = "filter ?Q (bucket_its s bid)" and ?y = "filter ?Q (bucket_its s ?n)"
    and ?z = "filter ?Q (concat (map (bucket_its s) ?st))"
  let ?M1 = "if GetProbe (GetBucket (get st) bid) False \<noteq> 0
      then ForEachSlot (GetBucket (get st) bid) (\<lambda>sl probe (fnd, st). if probe then Some (fnd, st)
              else do { st \<leftarrow> cb \<lparr>index = bid, slot = sl\<rparr> st; Some (True, st) }) (False, st)
      else Some (False, st)"
  let ?M2 = "\<lambda>cu. if GetProbe (GetBucket (get (snd cu)) ?n) True \<noteq> 0
      then ForEachSlot (GetBucket (get (snd cu)) ?n) (\<lambda>sl probe (fnd, st). if \<not> probe then Some (fnd, st)
              else do { hash \<leftarrow> HashFn P (key (GetBucket (get st) ?n) ! sl); assert_opt (HomeIndex hash = bid);
                        st \<leftarrow> cb \<lparr>index = ?n, slot = sl\<rparr> st; Some (True, st) }) cu
      else Some cu"
  let ?S = "\<lambda>j st. ForEachSlot (GetBucket (get (snd st)) j) (\<lambda>sl probe (fnd, st). do {
              hash \<leftarrow> HashFn P (key (GetBucket (get st) j) ! sl);
              if HomeIndex hash = bid
              then do { st \<leftarrow> cb \<lparr>index = j, slot = sl\<rparr> st; Some (True, st) }
              else Some (fnd, st) }) st"
  let ?M3 = "\<lambda>cu. if HasStash (GetBucket (get (snd cu)) bid) then foldM ?S ?st cu else Some cu"
  have T: "TraverseLogicalBucket (HashFn P) get bid cb st = Option.bind ?M1 (\<lambda>cu. Option.bind (?M2 cu) ?M3)"
    using b by (simp add: TraverseLogicalBucket_def Let_def)
  have live: "live P s W (get w)" if "R W w" for W w using v that by (simp add: visiting_def)
  have sub: "set (filter ?Q (bucket_its s j)) \<subseteq> set (logical_its P s bid)" if "j = bid \<or> j = ?n \<or> j \<in> set ?st" for j
    using that by (auto simp: logical_its_def)
  have tot: "bid < kTotalBuckets" "?n < kTotalBuckets" using b by (simp_all add: lt_total)
  have idx: "index it = bid \<or> index it = ?n" if "it \<in> set (?x @ ?y)" for it
    using that by (auto simp: bucket_its_index)
  have 1: "part_ok R cb [] ?x (False, st) ?M1" (is "part_ok _ _ _ _ _ (if _ then ?F else _)")
  proof -
    have "part_ok R cb [] ?x (False, st) ?F"
      by (rule part_bucket [OF v R _ tot(1) sub])
        (simp_all add: get probing_home(1) [OF sh b _ refl, symmetric] bucket_its_eta)
    moreover have "?x = []" if "GetProbe (GetBucket (get st) bid) False = 0"
      using GetProbe_its [OF sh tot(1) that [unfolded get]] probing_home(1) [OF sh b _ refl] by (auto simp: filter_empty_conv)
    ultimately show ?thesis using R by (auto simp: part_ok_nil)
  qed
  have 2: "part_ok R cb ?x ?y (c, u) (?M2 (c, u))" (is "part_ok _ _ _ _ _ (if _ then ?F else _)") if u: "R ?x u" for c u
  proof -
    have V: "\<forall>it \<in> set ?x. index it \<noteq> ?n" using Next_neq(1) [OF b] by (auto dest: bucket_its_index)
    have "part_ok R cb ?x ?y (c, u) ?F"
      unfolding snd_conv by (rule part_bucket [OF v u V tot(2) sub])
        (simp_all add: probing_home(2) [OF sh b _ refl] bucket_its_eta live_hash [OF sh _ tot(2)] home_def)
    moreover have "?y = []" if z: "GetProbe (GetBucket (get u) ?n) True = 0"
    proof -
      have shu: "seg_shape P (get u)" using live [OF u] by (simp add: live_def seg_invD)
      show ?thesis
        using GetProbe_its [OF shu tot(2) z] liveD [OF live [OF u] V] probing_home(2) [OF sh b _ refl]
        by (auto simp: filter_empty_conv)
    qed
    ultimately show ?thesis using u by (auto simp: part_ok_nil)
  qed
  have 3: "part_ok R cb (?x @ ?y) ?z (c, u) (?M3 (c, u))" (is "part_ok _ _ _ _ _ (if _ then ?F else _)") if u: "R (?x @ ?y) u" for c u
  proof -
    have V: "\<forall>it \<in> set (?x @ ?y). index it \<notin> set ?st" 
    proof
      fix it assume "it \<in> set (?x @ ?y)"
      from idx [OF this] show "index it \<notin> set ?st" using b NextBid_lt [of bid] unfolding set_upt by (metis atLeastLessThan_iff not_less)
    qed
    have "part_ok R cb (?x @ ?y) ?z (c, u) ?F"
    proof (rule foldM_parts [where R = R, OF _ u _ V])
      fix j V c u assume j: "j \<in> set ?st" and u: "R V u" "\<forall>it \<in> set V. index it \<noteq> j"
      then have jt: "j < kTotalBuckets" by simp
      show "part_ok R cb V (filter ?Q (bucket_its s j)) (c, u) (?S j (c, u))"
        unfolding snd_conv
        by (rule part_bucket [OF v u jt sub]) (use j in \<open>simp_all add: bucket_its_eta live_hash [OF sh _ jt] home_def\<close>)
    qed simp
    moreover have "?z = []" if "\<not> HasStash (GetBucket (get u) bid)"
    proof -
      have "seg_inv P (get u)" using live [OF u] by (simp add: live_def)
      then have none: "filter (\<lambda>it. home P (it_key (get u) it) = bid) (concat (map (bucket_its (get u)) ?st)) = []"
        by (rule no_stash_its [OF _ b that])
      have "home P (it_key s it) \<noteq> bid" if j: "j \<in> set ?st" "it \<in> set (bucket_its s j)" for j it
      proof -
        have "\<forall>x \<in> set (?x @ ?y). index x \<noteq> j" using V j(1) by metis
        note l = liveD(1,3) [OF live [OF u] this]
        have "it \<in> set (bucket_its (get u) j)" using j(2) l(1) by simp
        with j(1) have "it \<in> set (concat (map (bucket_its (get u)) ?st))" by auto
        then show ?thesis using none l(2) [OF j(2)] unfolding filter_empty_conv by metis
      qed
      then show ?thesis unfolding filter_empty_conv set_concat set_map by blast
    qed
    ultimately show ?thesis using u by (auto simp: part_ok_nil)
  qed
  have "part_ok R cb ?x (?y @ ?z) (c, u) (Option.bind (?M2 (c, u)) ?M3)" if "R ?x u" for c u
    by (rule part_ok_bind [OF 2 [OF that] 3])
  then have "part_ok R cb [] (?x @ ?y @ ?z) (False, st) (Option.bind ?M1 (\<lambda>cu. Option.bind (?M2 cu) ?M3))"
    by (intro part_ok_bind [OF 1]) simp
  then show ?thesis unfolding T by (simp add: logical_its_def)
qed

lemma TraverseLogicalBucket_its:
  assumes inv: "seg_inv P s" and b: "bid < kBucketNum" and get: "get st = s"
    and cb: "\<And>it u u'. get u = s \<Longrightarrow> cb it u = Some u' \<Longrightarrow> get u' = s"
  shows "TraverseLogicalBucket (HashFn P) get bid cb st =
    map_option (\<lambda>t. (logical_its P s bid \<noteq> [], t)) (foldM cb (logical_its P s bid) st)"
proof -
  have "visiting P get s bid cb (\<lambda>_ u. get u = s)"
    unfolding visiting_def
  proof (intro conjI allI impI)
    show "live P s V (get u)" if "get u = s" for V u using that inv by (simp add: live_def)
  qed (rule cb)
  from TraverseLogicalBucket_live [OF inv b this get get] show ?thesis by (simp add: part_ok_def)
qed

lemma regular_home:
  assumes sh: "seg_shape P s" and it: "it_points s it" "index it < kBucketNum"
  shows "index it = home P (it_key s it) \<or> index it = NextBid (home P (it_key s it))"
  using seg_shapeD(3) [OF sh it(2) it_points_entry(1) [OF sh it(1)]]
  by (auto simp: slot_ok_def slot_of_def it_key_def split: if_splits)

lemma set_logical_its:
  assumes sh: "seg_shape P s" and b: "bid < kBucketNum"
  shows "set (logical_its P s bid) = {it. it_points s it \<and> home P (it_key s it) = bid}" (is "?L = ?R")
proof
  show "?L \<subseteq> ?R"
    using in_bucket_its [OF sh] b lt_total(1) [OF NextBid_lt] by (auto simp: logical_its_def lt_total)
  show "?R \<subseteq> ?L"
  proof
    fix it assume "it \<in> ?R"
    then have it: "it_points s it" "home P (it_key s it) = bid" by auto
    then have lt: "index it < kTotalBuckets" by (simp add: it_points_def)
    have "it \<in> set (bucket_its s (index it))" using in_bucket_its [OF sh lt] it by simp
    moreover have "index it = bid \<or> index it = NextBid bid \<or> kBucketNum \<le> index it"
      using regular_home [OF sh it(1)] it(2) by (cases "index it < kBucketNum") auto
    ultimately show "it \<in> ?L" using it lt by (auto simp: logical_its_def)
  qed
qed

lemma distinct_logical_its:
  assumes "bid < kBucketNum"
  shows "distinct (logical_its P s bid)"
proof -
  have eq: "bucket_its s bid @ bucket_its s (NextBid bid) @ concat (map (bucket_its s) [kBucketNum..<kTotalBuckets]) =
      concat (map (bucket_its s) (bid # NextBid bid # [kBucketNum..<kTotalBuckets]))" by simp
  have "distinct (bid # NextBid bid # [kBucketNum..<kTotalBuckets])"
    using assms NextBid_lt [of bid] by (auto simp del: NextBid_lt)
  then show ?thesis unfolding logical_its_def eq by (intro distinct_filter distinct_concat_its)
qed

lemma logical_its_entries:
  assumes sh: "seg_shape P s" and b: "bid < kBucketNum"
  shows "image_mset (it_entry s) (mset (logical_its P s bid)) = filter_mset (\<lambda>e. home P (fst e) = bid) (seg_entries s)"
proof -
  have "set (logical_its P s bid) = set (filter (\<lambda>it. home P (it_key s it) = bid) (seg_its s))"
    by (auto simp: set_logical_its [OF sh b] in_seg_its [OF sh])
  moreover have "distinct (seg_its s)" unfolding seg_its_def by (rule distinct_concat_its) simp
  ultimately have "mset (logical_its P s bid) = filter_mset (\<lambda>it. home P (it_key s it) = bid) (mset (seg_its s))"
    using distinct_logical_its [OF b, of P s] by (metis distinct_filter mset_filter set_eq_iff_mset_eq_distinct)
  then show ?thesis
    by (simp add: it_entry_def filter_mset_image_mset flip: seg_its_entries [OF seg_shapeD(1) [OF sh]])
qed

subsection \<open>The next occupied slot\<close>

lemma busy_shift_zero:
  assumes "base_wf b" "drop_bit sl (GetBusy b) = 0" "busy b i"
  shows "i < sl"
proof (rule ccontr)
  assume "\<not> i < sl"
  then have "bit (drop_bit sl (GetBusy b)) (i - sl)" using assms(3) by (simp add: bit_drop_bit_eq GetBusy_def sb_GetBusy_def)
  then show False using assms(2) by simp
qed

lemma busy_shift_ctz:
  assumes "base_wf b" "drop_bit sl (GetBusy b) \<noteq> 0"
  shows "busy b (sl + ctz (drop_bit sl (GetBusy b)))"
    "\<And>i. busy b i \<Longrightarrow> sl \<le> i \<Longrightarrow> sl + ctz (drop_bit sl (GetBusy b)) \<le> i"
proof -
  let ?m = "drop_bit sl (GetBusy b)"
  show "busy b (sl + ctz ?m)"
    using ctz_props(2) [OF assms(2)] by (simp add: bit_drop_bit_eq GetBusy_def sb_GetBusy_def)
  show "sl + ctz ?m \<le> i" if "busy b i" "sl \<le> i" for i
  proof (rule ccontr)
    assume "\<not> sl + ctz ?m \<le> i"
    then have "i - sl < ctz ?m" using that by simp
    then have "\<not> bit ?m (i - sl)" by (rule ctz_props(3) [OF assms(2)])
    then show False using that by (simp add: bit_drop_bit_eq GetBusy_def sb_GetBusy_def)
  qed
qed

lemma FindValid_loop_spec:
  assumes sh: "seg_shape P s"
  shows "bid + n = kTotalBuckets \<Longrightarrow>
    (let r = FindValidStartingFrom_loop s n bid sl
     in if found r then it_points s r \<and> it_le \<lparr>index = bid, slot = sl\<rparr> r \<and>
           (\<forall>it. it_points s it \<and> it_le \<lparr>index = bid, slot = sl\<rparr> it \<longrightarrow> it_le r it)
        else (\<forall>it. it_points s it \<longrightarrow> \<not> it_le \<lparr>index = bid, slot = sl\<rparr> it))"
proof (induction n arbitrary: bid sl)
  case 0
  then show ?case by (auto simp: it_le_def it_points_def)
next
  case (Suc n)
  let ?b = "GetBucket s bid" let ?m = "drop_bit sl (GetBusy ?b)"
  have bt: "bid < kTotalBuckets" using Suc.prems by simp
  have wf: "base_wf ?b" using seg_shapeD(2) [OF sh bt] by simp
  show ?case
  proof (cases "?m = 0")
    case False
    note c = busy_shift_ctz [OF wf False]
    let ?r = "\<lparr>index = bid, slot = sl + ctz ?m\<rparr>"
    have "it_points s ?r" using c(1) busy_lt [OF wf c(1)] bt by (simp add: it_points_def)
    moreover have "it_le ?r it" if "it_points s it" "it_le \<lparr>index = bid, slot = sl\<rparr> it" for it
      using that c(2) [of "slot it"] by (auto simp: it_le_def it_points_def)
    ultimately show ?thesis using False bt by (simp add: it_le_def)
  next
    case True
    have skip: "it_le \<lparr>index = bid, slot = sl\<rparr> it \<longleftrightarrow> it_le \<lparr>index = Suc bid, slot = 0\<rparr> it" if "it_points s it" for it
      using that busy_shift_zero [OF wf True, of "slot it"] by (auto simp: it_le_def it_points_def)
    have step: "FindValidStartingFrom_loop s (Suc n) bid sl = FindValidStartingFrom_loop s n (Suc bid) 0"
      using True by simp
    show ?thesis using Suc.IH [of "Suc bid" 0] Suc.prems skip unfolding step Let_def by auto
  qed
qed

lemma FindValidStartingFrom_spec:
  assumes "seg_shape P s" "bid \<le> kTotalBuckets"
  shows "let r = FindValidStartingFrom s bid sl
     in if found r then it_points s r \<and> it_le \<lparr>index = bid, slot = sl\<rparr> r \<and>
           (\<forall>it. it_points s it \<and> it_le \<lparr>index = bid, slot = sl\<rparr> it \<longrightarrow> it_le r it)
        else (\<forall>it. it_points s it \<longrightarrow> \<not> it_le \<lparr>index = bid, slot = sl\<rparr> it)"
  using FindValid_loop_spec [OF assms(1), of bid "kTotalBuckets - bid" sl] assms(2)
  by (simp add: FindValidStartingFrom_def)

end
