(* ===== verification/Dash_Table.thy ===== *)
theory Dash_Table
  imports Segment_Split Segment_Visit
begin

text \<open>
  \<open>DashTable\<close> of \<open>dash_table.hpp\<close> with its base class: the directory of pointers to segments,
  lookup, insertion with directory doubling and segment splits, deletion, clearing, the iterator
  and the cursor traversal.

  Several directory entries point to one segment, so the segments are kept in a store and the
  directory is a list of addresses into it. \<open>k0\<close> and \<open>v0\<close> are the default-constructed key and
  value. The callbacks of \<open>DefaultEvictionPolicy\<close> have empty bodies and are left out.
  \<open>InsertInternal\<close> loops until the insertion succeeds; the loop takes fuel and returns \<open>None\<close>
  when it runs out, as it does when an assertion fails.
\<close>

subsection \<open>State\<close>

record ('k, 'v) DashTable =
  store :: "('k, 'v) Segment list"
  segment_dir :: "nat list"
  table_size :: nat
  unique_segments :: nat
  bucket_count :: nat
  initial_depth :: nat
  global_depth :: nat

text \<open>The table iterator; \<open>None\<close> is the iterator whose owner is null (\<open>is_done\<close>).\<close>

record TableIterator =
  seg_id :: nat
  bucket_id :: nat
  slot_id :: nat

datatype InsertMode = kInsertIfNotFound | kForceInsert

definition get_seg :: "('k, 'v) DashTable \<Rightarrow> nat \<Rightarrow> ('k, 'v) Segment" where
  "get_seg t sid = store t ! (segment_dir t ! sid)"

definition put_seg :: "('k, 'v) DashTable \<Rightarrow> nat \<Rightarrow> ('k, 'v) Segment \<Rightarrow> ('k, 'v) DashTable" where
  "put_seg t a s = t\<lparr>store := (store t)[a := s]\<rparr>"

definition SegmentId :: "('k, 'v) DashTable \<Rightarrow> u64 \<Rightarrow> nat" where
  "SegmentId t hash = (if global_depth t \<noteq> 0 then unat (drop_bit (64 - global_depth t) hash) mod 2 ^ 32 else 0)"

definition Table_Empty :: "('k, 'v) DashTable \<Rightarrow> bool" where
  "Table_Empty t \<longleftrightarrow> table_size t = 0"

definition ConstructSegment :: "'k \<Rightarrow> 'v \<Rightarrow> ('k, 'v) DashTable \<Rightarrow> nat \<Rightarrow> nat \<Rightarrow> nat \<times> ('k, 'v) DashTable" where
  "ConstructSegment k0 v0 t depth sid =
     (let s = Segment_init k0 v0 depth sid
      in (length (store t), t\<lparr>store := store t @ [s], bucket_count := bucket_count t + num_buckets s\<rparr>))"

definition DashTable_init :: "'k \<Rightarrow> 'v \<Rightarrow> nat \<Rightarrow> ('k, 'v) DashTable" where
  "DashTable_init k0 v0 capacity_log =
     (let n = 2 ^ capacity_log;
          t = \<lparr>store = [], segment_dir = replicate n 0, table_size = 0, unique_segments = n, bucket_count = 0,
               initial_depth = capacity_log, global_depth = capacity_log\<rparr>
      in foldl (\<lambda>t i. let (a, t) = ConstructSegment k0 v0 t (global_depth t) i
                      in t\<lparr>segment_dir := (segment_dir t)[i := a]\<rparr>) t [0..<n])"

definition NextSeg :: "('k, 'v) DashTable \<Rightarrow> nat \<Rightarrow> nat" where
  "NextSeg t sid = sid + 2 ^ (global_depth t - local_depth (get_seg t sid))"

lemma NextSeg_gt: "i < NextSeg t i"
  by (simp add: NextSeg_def)

lemma NextSeg_measure: "i < n \<Longrightarrow> n - NextSeg t i < n - i"
  using NextSeg_gt [of i t] by linarith

subsection \<open>Lookup\<close>

definition FindFirst :: "('k, 'v) DashTable \<Rightarrow> u64 \<Rightarrow> ('k \<Rightarrow> bool) \<Rightarrow> TableIterator option" where
  "FindFirst t key_hash pred =
     (let sid = SegmentId t key_hash;
          seg_it = FindIt (get_seg t sid) key_hash pred
      in if found seg_it then Some \<lparr>seg_id = sid, bucket_id = index seg_it, slot_id = slot seg_it\<rparr> else None)"

definition Table_Find :: "('k, 'v, 'u) Policy \<Rightarrow> ('k, 'v) DashTable \<Rightarrow> 'u \<Rightarrow> TableIterator option" where
  "Table_Find P t u = FindFirst t (HashView P u) (\<lambda>k. Equal P k u)"

subsection \<open>Splitting and doubling\<close>

text \<open>\<open>std::fill\<close> over a range of the directory.\<close>

fun fill :: "'a list \<Rightarrow> nat \<Rightarrow> nat \<Rightarrow> 'a \<Rightarrow> 'a list" where
  "fill xs offs 0 x = xs"
| "fill xs offs (Suc n) x = fill (xs[offs := x]) (Suc offs) n x"

text \<open>The in-place doubling runs from the last entry down, so that no entry is overwritten before it
  is read.\<close>

definition IncreaseDepth_step :: "nat \<Rightarrow> ('k, 'v) DashTable \<Rightarrow> nat \<Rightarrow> ('k, 'v) DashTable" where
  "IncreaseDepth_step repl_cnt t i =
     (let offs = i * repl_cnt;
          t = t\<lparr>segment_dir := fill (segment_dir t) offs repl_cnt (segment_dir t ! i)\<rparr>;
          a = segment_dir t ! i
      in put_seg t a ((store t ! a)\<lparr>segment_id := offs\<rparr>))"

definition IncreaseDepth :: "('k, 'v) DashTable \<Rightarrow> nat \<Rightarrow> ('k, 'v) DashTable option" where
  "IncreaseDepth t new_depth = do {
     assert_opt (segment_dir t \<noteq> []);
     assert_opt (new_depth > global_depth t);
     let prev_sz = length (segment_dir t);
     let repl_cnt = 2 ^ (new_depth - global_depth t);
     let t = t\<lparr>segment_dir := segment_dir t @ replicate (2 ^ new_depth - prev_sz) 0\<rparr>;
     let t = foldl (IncreaseDepth_step repl_cnt) t (rev [0..<prev_sz]);
     Some (t\<lparr>global_depth := new_depth\<rparr>) }"

definition chunk_start :: "nat \<Rightarrow> nat \<Rightarrow> nat" where
  "chunk_start sid chunk_size = unat ((of_nat sid :: u32) AND NOT (of_nat chunk_size - 1))"

definition Table_Split :: "('k, 'v, 'u) Policy \<Rightarrow> 'k \<Rightarrow> 'v \<Rightarrow> ('k, 'v) DashTable \<Rightarrow> nat \<Rightarrow> ('k, 'v) DashTable option" where
  "Table_Split P k0 v0 t sid = do {
     let a = segment_dir t ! sid;
     let source = store t ! a;
     let chunk_size = 2 ^ (global_depth t - local_depth source);
     let start_idx = chunk_start sid chunk_size;
     let target_id = start_idx + chunk_size div 2;
     let (b, t) = ConstructSegment k0 v0 t (local_depth source + 1) target_id;
     (source, target) \<leftarrow> Segment_Split P source (store t ! b);
     let t = put_seg (put_seg t a source) b target;
     Some (t\<lparr>unique_segments := unique_segments t + 1,
             segment_dir := fill (segment_dir t) target_id (start_idx + chunk_size - target_id) b\<rparr>) }"

subsection \<open>Insertion\<close>

fun InsertLoop :: "('k, 'v, 'u) Policy \<Rightarrow> 'k \<Rightarrow> 'v \<Rightarrow> nat \<Rightarrow> ('k, 'v) DashTable \<Rightarrow> 'u \<Rightarrow> ('v \<Rightarrow> 'v) \<Rightarrow> u64
    \<Rightarrow> InsertMode \<Rightarrow> nat \<Rightarrow> (TableIterator \<times> bool \<times> ('k, 'v) DashTable) option" where
  "InsertLoop P k0 v0 0 t u v key_hash mode target_seg_id = None"
| "InsertLoop P k0 v0 (Suc fuel) t u v key_hash mode target_seg_id = do {
     assert_opt (target_seg_id < length (segment_dir t));
     let a = segment_dir t ! target_seg_id;
     let target = store t ! a;
     (it, res, target') \<leftarrow> (case mode of
        kForceInsert \<Rightarrow> do { (it, s) \<leftarrow> InsertUniq P target (\<lambda>d. AssignKey P d u) v key_hash True;
                             Some (it, found it, s) }
      | kInsertIfNotFound \<Rightarrow> Segment_Insert P target (\<lambda>d. AssignKey P d u) v key_hash (\<lambda>k. Equal P k u));
     let t = put_seg t a target';
     let tit = \<lparr>seg_id = target_seg_id, bucket_id = index it, slot_id = slot it\<rparr>;
     if res then Some (tit, True, t\<lparr>bucket_count := bucket_count t + (num_buckets target' - num_buckets target),
                                    table_size := table_size t + 1\<rparr>)
     else if found it then Some (tit, False, t)
     else do {
       (t, target_seg_id) \<leftarrow> (if local_depth target' = global_depth t
          then do { t \<leftarrow> IncreaseDepth t (global_depth t + 1);
                    let target_seg_id = SegmentId t key_hash;
                    assert_opt (target_seg_id < length (segment_dir t) \<and> segment_dir t ! target_seg_id = a);
                    Some (t, target_seg_id) }
          else Some (t, target_seg_id));
       t \<leftarrow> Table_Split P k0 v0 t target_seg_id;
       InsertLoop P k0 v0 fuel t u v key_hash mode target_seg_id } }"

definition InsertInternal :: "('k, 'v, 'u) Policy \<Rightarrow> 'k \<Rightarrow> 'v \<Rightarrow> nat \<Rightarrow> ('k, 'v) DashTable \<Rightarrow> 'u \<Rightarrow> ('v \<Rightarrow> 'v)
    \<Rightarrow> InsertMode \<Rightarrow> (TableIterator \<times> bool \<times> ('k, 'v) DashTable) option" where
  "InsertInternal P k0 v0 fuel t u v mode =
     (let key_hash = HashView P u in InsertLoop P k0 v0 fuel t u v key_hash mode (SegmentId t key_hash))"

definition Table_Insert :: "('k, 'v, 'u) Policy \<Rightarrow> 'k \<Rightarrow> 'v \<Rightarrow> nat \<Rightarrow> ('k, 'v) DashTable \<Rightarrow> 'u \<Rightarrow> ('v \<Rightarrow> 'v)
    \<Rightarrow> (TableIterator \<times> bool \<times> ('k, 'v) DashTable) option" where
  "Table_Insert P k0 v0 fuel t u v = InsertInternal P k0 v0 fuel t u v kInsertIfNotFound"

definition InsertNew :: "('k, 'v, 'u) Policy \<Rightarrow> 'k \<Rightarrow> 'v \<Rightarrow> nat \<Rightarrow> ('k, 'v) DashTable \<Rightarrow> 'u \<Rightarrow> ('v \<Rightarrow> 'v)
    \<Rightarrow> (TableIterator \<times> ('k, 'v) DashTable) option" where
  "InsertNew P k0 v0 fuel t u v = do {
     (it, _, t) \<leftarrow> InsertInternal P k0 v0 fuel t u v kForceInsert; Some (it, t) }"

subsection \<open>Deletion\<close>

text \<open>\<open>it->first\<close> and \<open>it->second\<close>: both go through \<open>Segment::Key\<close> and \<open>Segment::Value\<close>, which assert
  that the slot is busy.\<close>

definition it_first :: "('k, 'v) DashTable \<Rightarrow> TableIterator \<Rightarrow> 'k option" where
  "it_first t it = Segment_Key (get_seg t (seg_id it)) (bucket_id it) (slot_id it)"

definition it_second :: "('k, 'v) DashTable \<Rightarrow> TableIterator \<Rightarrow> 'v option" where
  "it_second t it = Segment_Value (get_seg t (seg_id it)) (bucket_id it) (slot_id it)"

definition set_first :: "('k, 'v) DashTable \<Rightarrow> TableIterator \<Rightarrow> 'k \<Rightarrow> ('k, 'v) DashTable" where
  "set_first t it k =
     (let a = segment_dir t ! seg_id it; s = store t ! a; b = GetBucket s (bucket_id it)
      in put_seg t a (upd s (bucket_id it) (b\<lparr>key := (key b)[slot_id it := k]\<rparr>)))"

definition set_second :: "('k, 'v) DashTable \<Rightarrow> TableIterator \<Rightarrow> 'v \<Rightarrow> ('k, 'v) DashTable" where
  "set_second t it v =
     (let a = segment_dir t ! seg_id it; s = store t ! a; b = GetBucket s (bucket_id it)
      in put_seg t a (upd s (bucket_id it) (b\<lparr>value := (value b)[slot_id it := v]\<rparr>)))"

definition Table_Erase :: "('k, 'v, 'u) Policy \<Rightarrow> ('k, 'v) DashTable \<Rightarrow> TableIterator \<Rightarrow> ('k, 'v) DashTable option" where
  "Table_Erase P t it = do {
     k \<leftarrow> it_first t it;
     key_hash \<leftarrow> HashFn P k;
     v \<leftarrow> it_second t it;
     let t = set_second (set_first t it (DestroyKey P k)) it (DestroyValue P v);
     let a = segment_dir t ! seg_id it;
     target \<leftarrow> Segment_Delete (store t ! a) \<lparr>index = bucket_id it, slot = slot_id it\<rparr> key_hash;
     let t = put_seg t a target;
     Some (t\<lparr>table_size := table_size t - 1\<rparr>) }"

text \<open>\<open>Erase\<close> by key: the hash of the key and the comparison with it are given.\<close>

definition Table_Erase_key :: "('k, 'v, 'u) Policy \<Rightarrow> ('k, 'v) DashTable \<Rightarrow> u64 \<Rightarrow> ('k \<Rightarrow> bool)
    \<Rightarrow> (nat \<times> ('k, 'v) DashTable) option" where
  "Table_Erase_key P t key_hash pred =
     (let x = SegmentId t key_hash;
          it = FindIt (get_seg t x) key_hash pred
      in if \<not> found it then Some (0, t)
         else do {
           let tit = \<lparr>seg_id = x, bucket_id = index it, slot_id = slot it\<rparr>;
           k \<leftarrow> it_first t tit;
           v \<leftarrow> it_second t tit;
           let t = set_second (set_first t tit (DestroyKey P k)) tit (DestroyValue P v);
           target \<leftarrow> Segment_Delete (get_seg t x) it key_hash;
           let t = put_seg t (segment_dir t ! x) target;
           Some (1, t\<lparr>table_size := table_size t - 1\<rparr>) })"

subsection \<open>Clearing\<close>

text \<open>The directory indices visited by \<open>IterateDistinct\<close>: the first index of every segment.\<close>

function seg_walk :: "('k, 'v) DashTable \<Rightarrow> nat \<Rightarrow> nat list" where
  "seg_walk t i = (if i < length (segment_dir t) then i # seg_walk t (NextSeg t i) else [])"
  by auto

termination
  by (relation "measure (\<lambda>(t, i). length (segment_dir t) - i)") (auto simp: NextSeg_measure)

text \<open>The callbacks of the sources never stop the iteration and leave the directory as it is.\<close>

definition IterateDistinct :: "(nat \<Rightarrow> ('k, 'v) DashTable \<Rightarrow> ('k, 'v) DashTable option) \<Rightarrow> ('k, 'v) DashTable
    \<Rightarrow> ('k, 'v) DashTable option" where
  "IterateDistinct cb t = foldM cb (map (\<lambda>i. segment_dir t ! i) (seg_walk t 0)) t"

definition Destroy_cb :: "('k, 'v, 'u) Policy \<Rightarrow> SegIterator \<Rightarrow> ('k, 'v) Segment \<Rightarrow> ('k, 'v) Segment option" where
  "Destroy_cb P it s = do {
     k \<leftarrow> Segment_Key s (index it) (slot it);
     let b = GetBucket s (index it);
     let s = upd s (index it) (b\<lparr>key := (key b)[slot it := DestroyKey P k]\<rparr>);
     v \<leftarrow> Segment_Value s (index it) (slot it);
     let b = GetBucket s (index it);
     Some (upd s (index it) (b\<lparr>value := (value b)[slot it := DestroyValue P v]\<rparr>)) }"

definition Clear_cb :: "('k, 'v, 'u) Policy \<Rightarrow> nat \<Rightarrow> ('k, 'v) DashTable \<Rightarrow> ('k, 'v) DashTable option" where
  "Clear_cb P a t = do {
     s \<leftarrow> TraverseAll (store t ! a) (Destroy_cb P) (store t ! a);
     Some (put_seg t a (Segment_Clear s)) }"

function Clear_loop :: "nat \<Rightarrow> ('k, 'v) DashTable \<Rightarrow> nat \<Rightarrow> nat \<Rightarrow> ('k, 'v) DashTable" where
  "Clear_loop new_size t src dest =
     (if src < length (segment_dir t)
      then let a = segment_dir t ! src;
               next_src = NextSeg t src
           in if dest < new_size
              then Clear_loop new_size
                     ((put_seg t a ((store t ! a)\<lparr>local_depth := initial_depth t\<rparr>))
                        \<lparr>bucket_count := bucket_count t + num_buckets (store t ! a),
                         segment_dir := (segment_dir t)[dest := a]\<rparr>)
                     next_src (Suc dest)
              else Clear_loop new_size t next_src dest
      else t)"
  by auto

termination
  by (relation "measure (\<lambda>(n, t, src, dest). length (segment_dir t) - src)") (auto simp: put_seg_def NextSeg_measure)

definition Table_Clear :: "('k, 'v, 'u) Policy \<Rightarrow> ('k, 'v) DashTable \<Rightarrow> ('k, 'v) DashTable option" where
  "Table_Clear P t = do {
     t \<leftarrow> IterateDistinct (Clear_cb P) t;
     let t = t\<lparr>table_size := 0\<rparr>;
     Some (if global_depth t > initial_depth t
           then let new_size = 2 ^ initial_depth t;
                    t = Clear_loop new_size (t\<lparr>bucket_count := 0\<rparr>) 0 0
                in t\<lparr>global_depth := initial_depth t, unique_segments := new_size,
                     segment_dir := take new_size (segment_dir t)\<rparr>
           else t) }"

subsection \<open>The iterator\<close>

definition IsOccupied :: "('k, 'v) DashTable \<Rightarrow> TableIterator \<Rightarrow> bool" where
  "IsOccupied t it \<longleftrightarrow> seg_id it < length (segment_dir t) \<and>
     Segment_IsBusy (get_seg t (seg_id it)) (bucket_id it) (slot_id it)"

function Seek_loop :: "('k, 'v) DashTable \<Rightarrow> nat \<Rightarrow> nat \<Rightarrow> nat \<Rightarrow> TableIterator option" where
  "Seek_loop t sid bid sl =
     (if sid < length (segment_dir t)
      then let seg_it = FindValidStartingFrom (get_seg t sid) bid sl
           in if found seg_it then Some \<lparr>seg_id = sid, bucket_id = index seg_it, slot_id = slot seg_it\<rparr>
              else Seek_loop t (NextSeg t sid) 0 0
      else None)"
  by auto

termination
  by (relation "measure (\<lambda>(t, sid, bid, sl). length (segment_dir t) - sid)") (auto simp: NextSeg_measure)

text \<open>\<open>Seek2Occupied\<close> of the table iterator and of the iterator over one bucket; the outer option is
  the assertion, the inner one the owner.\<close>

definition Seek2Occupied :: "('k, 'v) DashTable \<Rightarrow> TableIterator option \<Rightarrow> TableIterator option option" where
  "Seek2Occupied t it = (case it of
     None \<Rightarrow> Some None
   | Some it \<Rightarrow> do { assert_opt (seg_id it < length (segment_dir t));
                      Some (Seek_loop t (seg_id it) (bucket_id it) (slot_id it)) })"

definition Seek2Occupied_bucket :: "('k, 'v) DashTable \<Rightarrow> TableIterator option \<Rightarrow> TableIterator option option" where
  "Seek2Occupied_bucket t it = (case it of
     None \<Rightarrow> Some None
   | Some it \<Rightarrow> do { assert_opt (seg_id it < length (segment_dir t));
                      let msk = drop_bit (slot_id it) (GetBusy (GetBucket (get_seg t (seg_id it)) (bucket_id it)));
                      Some (if msk \<noteq> 0 then Some (it\<lparr>slot_id := slot_id it + ctz msk\<rparr>) else None) })"

definition Table_begin :: "('k, 'v) DashTable \<Rightarrow> TableIterator option option" where
  "Table_begin t = Seek2Occupied t (Some \<lparr>seg_id = 0, bucket_id = 0, slot_id = 0\<rparr>)"

definition it_plus :: "('k, 'v) DashTable \<Rightarrow> TableIterator \<Rightarrow> nat \<Rightarrow> TableIterator option option" where
  "it_plus t it delta = Seek2Occupied t (Some (it\<lparr>slot_id := slot_id it + delta\<rparr>))"

definition it_next :: "('k, 'v) DashTable \<Rightarrow> TableIterator \<Rightarrow> TableIterator option option" where
  "it_next t it = it_plus t it 1"

subsection \<open>Cursors\<close>

definition DashCursor :: "nat \<Rightarrow> nat \<Rightarrow> nat \<Rightarrow> u64" where
  "DashCursor depth sid bid = push_bit (40 - depth) (of_nat sid) OR of_nat bid"

definition cursor_bucket_id :: "u64 \<Rightarrow> nat" where
  "cursor_bucket_id val = unat (val AND 0xFF)"

definition cursor_segment_id :: "u64 \<Rightarrow> nat \<Rightarrow> nat" where
  "cursor_segment_id val depth = unat (drop_bit (40 - depth) val) mod 2 ^ 32"

text \<open>The \<open>do \<dots> while\<close> loop of \<open>Traverse\<close>, from segment \<open>sid\<close> and bucket \<open>bid\<close> on; the callback may
  change the table. The loop ends at the last bucket, since \<open>NextSeg\<close> moves forward.\<close>

fun Traverse_loop :: "('k, 'v, 'u) Policy \<Rightarrow> (TableIterator \<Rightarrow> ('k, 'v) DashTable \<times> 's \<Rightarrow> (('k, 'v) DashTable \<times> 's) option)
    \<Rightarrow> nat \<Rightarrow> nat \<Rightarrow> nat \<Rightarrow> ('k, 'v) DashTable \<times> 's \<Rightarrow> (u64 \<times> ('k, 'v) DashTable \<times> 's) option" where
  "Traverse_loop P cb 0 sid bid st = None"
| "Traverse_loop P cb (Suc fuel) sid bid st = do {
     (fetched, st) \<leftarrow> TraverseLogicalBucket (HashFn P) (\<lambda>st. get_seg (fst st) sid) bid
        (\<lambda>it. cb \<lparr>seg_id = sid, bucket_id = index it, slot_id = slot it\<rparr>) st;
     let t = fst st;
     let sid = NextSeg t sid;
     let (sid, bid) = (if sid \<ge> length (segment_dir t) then (0, bid + 1) else (sid, bid));
     if bid \<ge> kBucketNum then Some (0, st)
     else if fetched then Some (DashCursor (global_depth t) sid bid, st)
     else Traverse_loop P cb fuel sid bid st }"

definition Traverse :: "('k, 'v, 'u) Policy \<Rightarrow> (TableIterator \<Rightarrow> ('k, 'v) DashTable \<times> 's \<Rightarrow> (('k, 'v) DashTable \<times> 's) option)
    \<Rightarrow> nat \<Rightarrow> u64 \<Rightarrow> ('k, 'v) DashTable \<times> 's \<Rightarrow> (u64 \<times> ('k, 'v) DashTable \<times> 's) option" where
  "Traverse P cb fuel curs st =
     (let sid = cursor_segment_id curs (global_depth (fst st));
          bid = cursor_bucket_id curs
      in if bid \<ge> kBucketNum \<or> sid \<ge> length (segment_dir (fst st)) then Some (0, st)
         else Traverse_loop P cb fuel sid bid st)"

declare seg_walk.simps [simp del] Clear_loop.simps [simp del] Seek_loop.simps [simp del]

end
