(* ===== verification/Dash_Table_Correct.thy ===== *)
theory Dash_Table_Correct
  imports Dash_Table
begin

text \<open>
  The table invariant and its preservation. The directory has one entry per value of the top
  \<open>global_depth\<close> bits of a hash; a segment of depth \<open>d\<close> owns the aligned chunk of the entries that
  share the top \<open>d\<close> bits, and holds exactly the entries of the table with that prefix. Lookup,
  insertion (with doubling and splits), deletion and clearing are then exact on the multiset of
  the entries of the table.
\<close>

subsection \<open>Definitions\<close>

text \<open>The top \<open>d\<close> bits of a hash.\<close>

definition prefix :: "nat \<Rightarrow> u64 \<Rightarrow> nat" where
  "prefix d h = unat h div 2 ^ (64 - d)"

definition chunk :: "('k, 'v) DashTable \<Rightarrow> nat \<Rightarrow> nat" where
  "chunk t i = 2 ^ (global_depth t - local_depth (get_seg t i))"

definition dir_ok :: "('k, 'v) DashTable \<Rightarrow> bool" where
  "dir_ok t \<longleftrightarrow> global_depth t \<le> 31 \<and> length (segment_dir t) = 2 ^ global_depth t \<and>
     (\<forall>i < 2 ^ global_depth t. segment_dir t ! i < length (store t) \<and>
        initial_depth t \<le> local_depth (get_seg t i) \<and> local_depth (get_seg t i) \<le> global_depth t \<and>
        (\<forall>j < 2 ^ global_depth t. segment_dir t ! i = segment_dir t ! j \<longleftrightarrow> i div chunk t i = j div chunk t i))"

definition tb_entries :: "('k, 'v) DashTable \<Rightarrow> ('k \<times> 'v) multiset" where
  "tb_entries t = (\<Sum>a \<in> set (segment_dir t). seg_entries (store t ! a))"

definition segs_ok :: "('k, 'v, 'u) Policy \<Rightarrow> ('k, 'v) DashTable \<Rightarrow> bool" where
  "segs_ok P t \<longleftrightarrow> (\<forall>i < 2 ^ global_depth t. seg_inv P (get_seg t i) \<and>
     (\<forall>e \<in># seg_entries (get_seg t i). prefix (local_depth (get_seg t i)) (khash P (fst e)) = i div chunk t i))"

definition table_inv :: "('k, 'v, 'u) Policy \<Rightarrow> ('k, 'v) DashTable \<Rightarrow> bool" where
  "table_inv P t \<longleftrightarrow> dir_ok t \<and> segs_ok P t \<and> table_size t = size (tb_entries t)"

text \<open>Every stored key and value survives a move into another slot.\<close>

definition all_regular :: "('k, 'v, 'u) Policy \<Rightarrow> ('k, 'v) DashTable \<Rightarrow> bool" where
  "all_regular P t \<longleftrightarrow> (\<forall>e \<in># tb_entries t. regular P e)"

subsection \<open>Prefixes of hashes\<close>

lemma unat_drop_bit_div: "unat (drop_bit n (h :: u64)) = unat h div 2 ^ n"
  unfolding unat_drop_bit_eq by (rule drop_bit_eq_div)

lemma prefix_lt: "d \<le> 64 \<Longrightarrow> prefix d h < 2 ^ d"
proof -
  assume "d \<le> 64"
  have "unat h < 2 ^ 64" using unsigned_less [of h, where ?'a = nat] by simp
  also have "(2 :: nat) ^ 64 = 2 ^ d * 2 ^ (64 - d)" using \<open>d \<le> 64\<close> by (simp flip: power_add)
  finally show ?thesis unfolding prefix_def by (rule less_mult_imp_div_less)
qed

lemma prefix_div: "d \<le> e \<Longrightarrow> e \<le> 64 \<Longrightarrow> prefix e h div 2 ^ (e - d) = prefix d h"
  by (simp add: prefix_def div_mult2_eq [symmetric] power_add [symmetric])

lemma prefix_Suc: "d < 64 \<Longrightarrow> prefix (Suc d) h div 2 = prefix d h"
  using prefix_div [of d "Suc d" h] by simp

lemma is_mine_prefix: "d \<le> 64 \<Longrightarrow> is_mine d h \<longleftrightarrow> even (prefix d h)"
proof -
  have "drop_bit (64 - d) h AND 1 = 0 \<longleftrightarrow> even (unat (drop_bit (64 - d) h))"
    by (simp add: and_one_eq even_iff_mod_2_eq_zero unat_arith_simps(3) unat_mod)
  also have "unat (drop_bit (64 - d) h) = prefix d h"
    by (simp only: prefix_def unat_drop_bit_div)
  finally show ?thesis by (simp add: is_mine_def)
qed

lemma SegmentId_prefix:
  assumes "global_depth t \<le> 31"
  shows "SegmentId t h = prefix (global_depth t) h"
proof (cases "global_depth t = 0")
  case True
  then show ?thesis using prefix_lt [of 0 h] by (simp add: SegmentId_def)
next
  case False
  have "prefix (global_depth t) h < 2 ^ global_depth t" using assms by (intro prefix_lt) simp
  also have "(2 :: nat) ^ global_depth t \<le> 2 ^ 32" using assms by (intro power_increasing) auto
  finally have "prefix (global_depth t) h < 2 ^ 32" .
  then show ?thesis using False
    unfolding SegmentId_def unat_drop_bit_div by (simp add: prefix_def)
qed

subsection \<open>The directory\<close>

lemma dir_okD:
  assumes "dir_ok t"
  shows "global_depth t \<le> 31" "length (segment_dir t) = 2 ^ global_depth t"
    "\<And>i. i < 2 ^ global_depth t \<Longrightarrow> segment_dir t ! i < length (store t)"
    "\<And>i. i < 2 ^ global_depth t \<Longrightarrow> local_depth (get_seg t i) \<le> global_depth t"
    "\<And>i. i < 2 ^ global_depth t \<Longrightarrow> initial_depth t \<le> local_depth (get_seg t i)"
    "\<And>i j. i < 2 ^ global_depth t \<Longrightarrow> j < 2 ^ global_depth t \<Longrightarrow>
       segment_dir t ! i = segment_dir t ! j \<longleftrightarrow> i div chunk t i = j div chunk t i"
  using assms by (auto simp: dir_ok_def)

lemma table_invD:
  assumes "table_inv P t"
  shows "dir_ok t" "segs_ok P t" "table_size t = size (tb_entries t)"
    "\<And>i. i < 2 ^ global_depth t \<Longrightarrow> seg_inv P (get_seg t i)"
    "\<And>i e. i < 2 ^ global_depth t \<Longrightarrow> e \<in># seg_entries (get_seg t i) \<Longrightarrow>
       prefix (local_depth (get_seg t i)) (khash P (fst e)) = i div chunk t i"
  using assms by (auto simp: table_inv_def segs_ok_def)

lemma same_dir: "segment_dir t ! i = segment_dir t ! j \<Longrightarrow> get_seg t i = get_seg t j \<and> chunk t i = chunk t j"
  by (simp add: get_seg_def chunk_def)

lemma SegmentId_lt: "dir_ok t \<Longrightarrow> SegmentId t h < 2 ^ global_depth t"
  using prefix_lt [of "global_depth t" h] dir_okD(1) [of t] by (simp add: SegmentId_prefix)

lemma SegmentId_chunk:
  assumes "dir_ok t" "i < 2 ^ global_depth t"
  shows "SegmentId t h div chunk t i = prefix (local_depth (get_seg t i)) h"
  using dir_okD(1,4) [OF assms(1)] assms(2) by (simp add: SegmentId_prefix chunk_def prefix_div)

text \<open>An entry is in the segment that its hash selects.\<close>

lemma entry_segment:
  assumes inv: "table_inv P t" and i: "i < 2 ^ global_depth t" and e: "e \<in># seg_entries (get_seg t i)"
  shows "segment_dir t ! SegmentId t (khash P (fst e)) = segment_dir t ! i"
proof -
  note d = table_invD(1) [OF inv]
  have "SegmentId t (khash P (fst e)) div chunk t i = i div chunk t i"
    using SegmentId_chunk [OF d i] table_invD(5) [OF inv i e] by simp
  then show ?thesis using dir_okD(6) [OF d i SegmentId_lt [OF d], of "khash P (fst e)"] by simp
qed

lemma in_tb_entries:
  assumes "dir_ok t"
  shows "e \<in># tb_entries t \<longleftrightarrow> (\<exists>i < 2 ^ global_depth t. e \<in># seg_entries (get_seg t i))"
proof -
  have "e \<in># tb_entries t \<longleftrightarrow> (\<exists>a \<in> set (segment_dir t). e \<in># seg_entries (store t ! a))"
    unfolding tb_entries_def by (simp add: set_mset_sum)
  also have "\<dots> \<longleftrightarrow> (\<exists>i < 2 ^ global_depth t. e \<in># seg_entries (get_seg t i))"
    unfolding get_seg_def using dir_okD(2) [OF assms] by (metis in_set_conv_nth)
  finally show ?thesis .
qed

lemma regular_seg:
  assumes "dir_ok t" "all_regular P t" "i < 2 ^ global_depth t"
  shows "seg_regular P (get_seg t i)"
  using assms by (auto simp: all_regular_def seg_regular_def in_tb_entries)

lemma entry_in_home:
  assumes inv: "table_inv P t" and e: "e \<in># tb_entries t"
  shows "e \<in># seg_entries (get_seg t (SegmentId t (khash P (fst e))))"
proof -
  obtain i where i: "i < 2 ^ global_depth t" "e \<in># seg_entries (get_seg t i)"
    using e in_tb_entries [OF table_invD(1) [OF inv]] by auto
  from entry_segment [OF inv i] i show ?thesis by (simp add: get_seg_def)
qed

definition tit_points :: "('k, 'v) DashTable \<Rightarrow> TableIterator \<Rightarrow> bool" where
  "tit_points t it \<longleftrightarrow> seg_id it < length (segment_dir t) \<and>
     it_points (get_seg t (seg_id it)) \<lparr>index = bucket_id it, slot = slot_id it\<rparr>"

definition tit_key :: "('k, 'v) DashTable \<Rightarrow> TableIterator \<Rightarrow> 'k" where
  "tit_key t it = it_key (get_seg t (seg_id it)) \<lparr>index = bucket_id it, slot = slot_id it\<rparr>"

definition tit_value :: "('k, 'v) DashTable \<Rightarrow> TableIterator \<Rightarrow> 'v" where
  "tit_value t it = it_value (get_seg t (seg_id it)) \<lparr>index = bucket_id it, slot = slot_id it\<rparr>"

lemma FindFirst_Some:
  assumes inv: "table_inv P t" and r: "FindFirst t h pred = Some it"
  shows "tit_points t it" "pred (tit_key t it)" "seg_id it = SegmentId t h"
proof -
  note d = table_invD(1) [OF inv]
  let ?s = "get_seg t (SegmentId t h)"
  have sh: "seg_shape P ?s" using table_invD(4) [OF inv SegmentId_lt [OF d]] by (rule seg_invD)
  have f: "found (FindIt ?s h pred)" and it: "it = \<lparr>seg_id = SegmentId t h, bucket_id = index (FindIt ?s h pred), slot_id = slot (FindIt ?s h pred)\<rparr>"
    using r by (auto simp: FindFirst_def Let_def split: if_splits)
  have eq: "\<lparr>index = bucket_id it, slot = slot_id it\<rparr> = FindIt ?s h pred" by (simp add: it)
  show "tit_points t it" "pred (tit_key t it)" "seg_id it = SegmentId t h"
    using FindIt_sound [OF sh f] SegmentId_lt [OF d, of h] dir_okD(2) [OF d] unfolding tit_points_def tit_key_def eq
    by (simp_all add: it)
qed

lemma FindFirst_None:
  assumes inv: "table_inv P t" and r: "FindFirst t h pred = None" and e: "(k, v) \<in># tb_entries t" "khash P k = h"
  shows "\<not> pred k"
proof
  assume "pred k"
  moreover have "(k, v) \<in># seg_entries (get_seg t (SegmentId t h))" using entry_in_home [OF inv e(1)] e(2) by simp
  ultimately have "found (FindIt (get_seg t (SegmentId t h)) h pred)"
    using FindIt_complete [OF table_invD(4) [OF inv SegmentId_lt [OF table_invD(1) [OF inv]]]] e(2) by blast
  then show False using r by (simp add: FindFirst_def Let_def)
qed

subsection \<open>Replacing a segment\<close>

lemma put_seg_simps [simp]:
  "segment_dir (put_seg t a s) = segment_dir t" "global_depth (put_seg t a s) = global_depth t"
  "initial_depth (put_seg t a s) = initial_depth t" "table_size (put_seg t a s) = table_size t"
  "length (store (put_seg t a s)) = length (store t)" "unique_segments (put_seg t a s) = unique_segments t"
  "bucket_count (put_seg t a s) = bucket_count t"
  by (simp_all add: put_seg_def)

lemma get_seg_put:
  "a < length (store t) \<Longrightarrow> get_seg (put_seg t a s) j = (if segment_dir t ! j = a then s else get_seg t j)"
  by (simp add: get_seg_def put_seg_def)

lemma tb_entries_put:
  assumes "a \<in> set (segment_dir t)" "a < length (store t)"
  shows "tb_entries (put_seg t a s) + seg_entries (store t ! a) = tb_entries t + seg_entries s"
proof -
  let ?D = "set (segment_dir t)"
  have split: "(\<Sum>b \<in> ?D. f b) = f a + (\<Sum>b \<in> ?D - {a}. f b)" for f :: "nat \<Rightarrow> ('a \<times> 'b) multiset"
    using assms(1) by (intro sum.remove) auto
  have "(\<Sum>b \<in> ?D - {a}. seg_entries (store (put_seg t a s) ! b)) = (\<Sum>b \<in> ?D - {a}. seg_entries (store t ! b))"
    by (intro sum.cong) (auto simp: put_seg_def)
  then show ?thesis
    unfolding tb_entries_def put_seg_simps split using assms(2) by (simp add: put_seg_def)
qed

lemma put_seg_ok:
  assumes d: "dir_ok t" and so: "segs_ok P t" and i: "i < 2 ^ global_depth t" and a: "a = segment_dir t ! i"
    and s: "seg_inv P s" "local_depth s = local_depth (get_seg t i)"
    and e: "\<And>e. e \<in># seg_entries s \<Longrightarrow> prefix (local_depth s) (khash P (fst e)) = i div chunk t i"
  shows "dir_ok (put_seg t a s)" "segs_ok P (put_seg t a s)"
proof -
  have al: "a < length (store t)" using dir_okD(3) [OF d i] a by simp
  note get = get_seg_put [OF al]
  have ld: "local_depth (get_seg (put_seg t a s) j) = local_depth (get_seg t j)" for j
  proof (cases "segment_dir t ! j = a")
    case True
    then have "get_seg (put_seg t a s) j = s" "get_seg t j = get_seg t i" using same_dir [of t j i] a get by auto
    then show ?thesis using s(2) by simp
  qed (simp add: get)
  have ch: "chunk (put_seg t a s) j = chunk t j" for j by (simp add: chunk_def ld)
  show "dir_ok (put_seg t a s)" using d by (simp add: dir_ok_def ld ch)
  show "segs_ok P (put_seg t a s)"
    unfolding segs_ok_def
  proof (intro allI impI)
    fix j :: nat assume j: "j < 2 ^ global_depth (put_seg t a s)"
    show "seg_inv P (get_seg (put_seg t a s) j) \<and>
      (\<forall>x \<in># seg_entries (get_seg (put_seg t a s) j).
         prefix (local_depth (get_seg (put_seg t a s) j)) (khash P (fst x)) = j div chunk (put_seg t a s) j)"
    proof (cases "segment_dir t ! j = a")
      case True
      then have "i div chunk t i = j div chunk t j"
        using dir_okD(6) [OF d i, of j] same_dir [of t i j] j a by simp
      then show ?thesis using True s e by (simp add: get ch)
    next
      case False
      then show ?thesis using so j by (simp add: segs_ok_def get ch)
    qed
  qed
qed

subsection \<open>Doubling the directory\<close>

lemma length_fill [simp]: "length (fill xs offs n x) = length xs"
  by (induction n arbitrary: xs offs) auto

lemma nth_fill: "i < length xs \<Longrightarrow> fill xs offs n x ! i = (if offs \<le> i \<and> i < offs + n then x else xs ! i)"
proof (induction n arbitrary: xs offs)
  case (Suc n)
  show ?case using Suc.IH [of "xs[offs := x]" "Suc offs"] Suc.prems by (auto simp: nth_list_update)
qed auto

definition same_segs :: "('k, 'v) DashTable \<Rightarrow> ('k, 'v) DashTable \<Rightarrow> bool" where
  "same_segs t t' \<longleftrightarrow> length (store t') = length (store t) \<and> global_depth t' = global_depth t \<and>
     initial_depth t' = initial_depth t \<and> table_size t' = table_size t \<and> unique_segments t' = unique_segments t \<and>
     (\<forall>a < length (store t). bucket_arr (store t' ! a) = bucket_arr (store t ! a) \<and>
        local_depth (store t' ! a) = local_depth (store t ! a))"

lemma same_segs_set_id:
  assumes "same_segs t0 t"
  shows "same_segs t0 (put_seg (t\<lparr>segment_dir := D\<rparr>) b ((store t ! b)\<lparr>segment_id := x\<rparr>))"
  using assms by (cases "b < length (store t)") (auto simp: same_segs_def put_seg_def nth_list_update)

lemma IncreaseDepth_loop:
  assumes r: "r > 1" and D: "length D0 = n"
    and J: "length (segment_dir t) = n * r" "\<And>j. j < n * r \<Longrightarrow> segment_dir t ! j = (if m * r \<le> j then D0 ! (j div r) else E ! j)"
      "\<And>j. j < n \<Longrightarrow> E ! j = D0 ! j" "same_segs t0 t" "m \<le> n"
  shows "let t' = foldl (IncreaseDepth_step r) t (rev [0..<m])
    in segment_dir t' = map (\<lambda>j. D0 ! (j div r)) [0..<n * r] \<and> same_segs t0 t'"
  using J
proof (induction m arbitrary: t)
  case 0
  then have "segment_dir t = map (\<lambda>j. D0 ! (j div r)) [0..<n * r]" by (intro nth_equalityI) auto
  with 0 show ?case by (simp add: Let_def)
next
  case (Suc m)
  define t1 where "t1 = IncreaseDepth_step r t m"
  have "Suc m * r \<le> n * r" using Suc.prems(5) by (rule mult_le_mono1)
  then have mr: "m < n" "m * r + r \<le> n * r" using Suc.prems(5) by auto
  have "Suc m * 1 \<le> Suc m * r" using r by (intro mult_le_mono2) simp
  then have "m < Suc m * r" by simp
  then have "segment_dir t ! m = D0 ! m"
    using Suc.prems(2) [of m] Suc.prems(3) [of m] mr by (auto simp: not_le)
  then have dir1: "segment_dir t1 = fill (segment_dir t) (m * r) r (D0 ! m)"
    by (simp add: t1_def IncreaseDepth_step_def Let_def)
  have step: "foldl (IncreaseDepth_step r) t (rev [0..<Suc m]) = foldl (IncreaseDepth_step r) t1 (rev [0..<m])"
    by (simp add: t1_def)
  show ?case
    unfolding step
  proof (rule Suc.IH)
    show "length (segment_dir t1) = n * r" using Suc.prems(1) by (simp add: dir1)
    show "segment_dir t1 ! j = (if m * r \<le> j then D0 ! (j div r) else E ! j)" if "j < n * r" for j
    proof -
      have "j div r = m" if "m * r \<le> j" "j < m * r + r"
        using that r by (intro div_nat_eqI) (auto simp: algebra_simps)
      then show ?thesis
        using that Suc.prems(1,2) by (auto simp: dir1 nth_fill not_less add.commute)
    qed
    show "same_segs t0 t1" using same_segs_set_id [OF Suc.prems(4)]
      by (simp add: t1_def IncreaseDepth_step_def Let_def)
    show "E ! j = D0 ! j" if "j < n" for j using Suc.prems(3) that .
    show "m \<le> n" using Suc.prems(5) by simp
  qed
qed

lemma same_arr:
  assumes "bucket_arr s' = bucket_arr s"
  shows "seg_inv P s' = seg_inv P s" "seg_entries s' = seg_entries s" "seg_regular P s' = seg_regular P s"
  using assms by (simp_all add: seg_inv_def seg_shape_def stash_ok_def stash_entries_def stash_ptrs_def
    seg_entries_def seg_slots_def seg_regular_def)

lemma IncreaseDepth_spec:
  assumes inv: "table_inv P t" and g: "global_depth t < 31"
  obtains t' where "IncreaseDepth t (global_depth t + 1) = Some t'" "table_inv P t'" "tb_entries t' = tb_entries t"
    "global_depth t' = global_depth t + 1" "initial_depth t' = initial_depth t"
    "\<And>j. j < 2 ^ (global_depth t + 1) \<Longrightarrow> segment_dir t' ! j = segment_dir t ! (j div 2)"
    "\<And>a. a < length (store t) \<Longrightarrow> bucket_arr (store t' ! a) = bucket_arr (store t ! a) \<and>
       local_depth (store t' ! a) = local_depth (store t ! a)"
proof -
  note d = table_invD(1) [OF inv] and so = table_invD(2) [OF inv]
  let ?n = "(2 :: nat) ^ global_depth t" and ?E = "segment_dir t @ replicate (2 ^ (global_depth t + 1) - length (segment_dir t)) 0"
  note len = dir_okD(2) [OF d]
  define t1 where "t1 = t\<lparr>segment_dir := ?E\<rparr>"
  define t2 where "t2 = foldl (IncreaseDepth_step 2) t1 (rev [0..<?n])"
  define t' where "t' = t2\<lparr>global_depth := global_depth t + 1\<rparr>"
  have ne: "segment_dir t \<noteq> []" using len by auto
  have res: "IncreaseDepth t (global_depth t + 1) = Some t'"
    using ne by (simp add: IncreaseDepth_def Let_def len t1_def t2_def t'_def)
  have "same_segs t t1" by (simp add: same_segs_def t1_def)
  moreover have "length ?E = ?n * 2" by (simp add: len)
  ultimately have J: "segment_dir t2 = map (\<lambda>j. segment_dir t ! (j div 2)) [0..<?n * 2]" "same_segs t t2"
    using IncreaseDepth_loop [of 2 "segment_dir t" ?n t1 ?n ?E t] len
    by (auto simp: t1_def t2_def Let_def nth_append)
  have dir: "segment_dir t' ! j = segment_dir t ! (j div 2)" if "j < 2 ^ (global_depth t + 1)" for j
    using that by (simp add: t'_def J(1) mult.commute)
  have sg: "bucket_arr (store t' ! a) = bucket_arr (store t ! a) \<and> local_depth (store t' ! a) = local_depth (store t ! a)"
    if "a < length (store t)" for a using J(2) that by (simp add: same_segs_def t'_def)
  have fields: "global_depth t' = global_depth t + 1" "initial_depth t' = initial_depth t" "length (store t') = length (store t)"
    "table_size t' = table_size t" "length (segment_dir t') = 2 ^ (global_depth t + 1)"
    using J by (simp_all add: t'_def same_segs_def mult.commute)
  have half: "j div 2 < ?n" if "j < 2 ^ (global_depth t + 1)" for j :: nat using that by (simp add: less_mult_imp_div_less mult.commute)
  have gs: "bucket_arr (get_seg t' j) = bucket_arr (get_seg t (j div 2))" "local_depth (get_seg t' j) = local_depth (get_seg t (j div 2))"
    if "j < 2 ^ (global_depth t + 1)" for j
    using sg dir_okD(3) [OF d half [OF that]] dir [OF that] by (simp_all add: get_seg_def)
  have ch: "chunk t' j = 2 * chunk t (j div 2)" if "j < 2 ^ (global_depth t + 1)" for j
    using gs(2) [OF that] dir_okD(4) [OF d half [OF that]] by (simp add: chunk_def fields Suc_diff_le)
  have cd: "k div chunk t' j = k div 2 div chunk t (j div 2)" if "j < 2 ^ (global_depth t + 1)" for k j
    using ch [OF that] by (simp add: div_mult2_eq)
  have "dir_ok t'"
    unfolding dir_ok_def fields
    using g dir_okD(3-6) [OF d half] half by (auto simp: dir gs cd intro: le_SucI)
  moreover have "segs_ok P t'"
    unfolding segs_ok_def fields
    using so half by (auto simp: segs_ok_def same_arr [OF gs(1)] gs(2) cd)
  moreover have "tb_entries t' = tb_entries t"
  proof -
    have "(\<lambda>j. j div 2) ` {0..<?n * 2} = {0..<?n}"
    proof
      show "{0..<?n} \<subseteq> (\<lambda>j. j div 2) ` {0..<?n * 2}"
      proof
        fix i assume "i \<in> {0..<?n}"
        then show "i \<in> (\<lambda>j. j div 2) ` {0..<?n * 2}" by (intro image_eqI [of _ _ "i * 2"]) auto
      qed
    qed auto
    then have "(\<lambda>j. segment_dir t ! j) ` {0..<?n} = (\<lambda>j. segment_dir t ! (j div 2)) ` {0..<?n * 2}"
      by (metis (no_types) image_image)
    moreover have "set (segment_dir t') = (\<lambda>j. segment_dir t ! (j div 2)) ` {0..<?n * 2}"
      by (simp add: t'_def J(1))
    ultimately have "set (segment_dir t') = (\<lambda>j. segment_dir t ! j) ` {0..<?n}" by simp
    also have "\<dots> = set (segment_dir t)" using len by (auto simp: set_conv_nth)
    finally have "set (segment_dir t') = set (segment_dir t)" .
    moreover have "a < length (store t)" if "a \<in> set (segment_dir t)" for a
      using that dir_okD(3) [OF d] len by (auto simp: in_set_conv_nth)
    ultimately have "seg_entries (store t' ! a) = seg_entries (store t ! a)" if "a \<in> set (segment_dir t)" for a
      using that sg same_arr(2) by blast
    then show ?thesis
      unfolding tb_entries_def \<open>set (segment_dir t') = set (segment_dir t)\<close> by (rule sum.cong [OF refl])
  qed
  ultimately show ?thesis
    using that [OF res _ _ fields(1,2) dir sg] fields(4) table_invD(3) [OF inv] by (simp add: table_inv_def)
qed

subsection \<open>Splitting a segment of the table\<close>

lemma chunk_start_eq:
  assumes "sid < 2 ^ 32" "k \<le> 31"
  shows "chunk_start sid (2 ^ k) = sid div 2 ^ k * 2 ^ k"
proof -
  have m: "of_nat (2 ^ k) - 1 = (mask k :: u32)" by (simp add: mask_eq_exp_minus_1)
  have "unat ((of_nat sid :: u32) AND NOT (mask k)) = push_bit k (drop_bit k sid)"
  proof (rule bit_eqI)
    fix n
    have "bit sid n \<Longrightarrow> n < 32"
      using assms(1) by (metis bit_take_bit_iff take_bit_nat_eq_self)
    then show "bit (unat ((of_nat sid :: u32) AND NOT (mask k))) n \<longleftrightarrow> bit (push_bit k (drop_bit k sid)) n"
      by (auto simp: bit_simps)
  qed
  then show ?thesis unfolding chunk_start_def m by (simp add: push_bit_eq_mult drop_bit_eq_div)
qed

text \<open>The directory arithmetic of a split: \<open>q\<close> is the number of the old chunk, \<open>2 q\<close> and \<open>2 q + 1\<close> those of
  its halves.\<close>

lemma half_range:
  assumes "0 < (half :: nat)"
  shows "(2 * q + 1) * half \<le> j \<and> j < (2 * q + 2) * half \<longleftrightarrow> j div half = 2 * q + 1"
proof
  assume "(2 * q + 1) * half \<le> j \<and> j < (2 * q + 2) * half"
  then show "j div half = 2 * q + 1" by (intro div_nat_eqI) (auto simp: algebra_simps)
next
  assume "j div half = 2 * q + 1"
  then have "j = (2 * q + 1) * half + j mod half" using div_mult_mod_eq [of j half] by simp
  then show "(2 * q + 1) * half \<le> j \<and> j < (2 * q + 2) * half"
    using mod_less_divisor [OF assms, of j] by (auto simp: algebra_simps)
qed

lemma Table_Split_spec:
  assumes inv: "table_inv P t" and reg: "all_regular P t" and sid: "sid < 2 ^ global_depth t"
    and ld: "local_depth (get_seg t sid) < global_depth t"
    and D: "D = local_depth (get_seg t sid) + 1"
  shows "(\<exists>t'. Table_Split P k0 v0 t sid = Some t' \<and> table_inv P t' \<and> tb_entries t' = tb_entries t \<and>
      global_depth t' = global_depth t \<and> initial_depth t' = initial_depth t \<and> local_depth (get_seg t' sid) = D) \<or>
    Table_Split P k0 v0 t sid = None \<and> too_many P D (seg_entries (get_seg t sid))"
proof -
  note d = table_invD(1) [OF inv] and so = table_invD(2) [OF inv]
  define a where "a = segment_dir t ! sid"
  define b where "b = length (store t)"
  define g where "g = global_depth t"
  define half where "half = (2 :: nat) ^ (g - D)"
  define q where "q = sid div chunk t sid"
  define src where "src = store t ! a"
  have src: "get_seg t sid = src" by (simp add: get_seg_def src_def a_def)
  have g31: "g \<le> 31" using dir_okD(1) [OF d] by (simp add: g_def)
  have Dg: "D \<le> g" "local_depth src = D - 1" "D > 0" "(local_depth src + 1) mod 256 = D"
    using ld D g31 by (simp_all add: g_def src)
  have ab: "a < b" "a \<in> set (segment_dir t)"
    using dir_okD(2,3) [OF d] sid by (auto simp: a_def b_def)
  have c: "chunk t sid = 2 * half"
    using Dg by (simp add: chunk_def src half_def g_def flip: power_Suc)
  have half0: "0 < half" by (simp add: half_def)
  have "(2 :: nat) ^ g \<le> 2 ^ 31" using g31 by (intro power_increasing) auto
  then have sid32: "sid < 2 ^ 32" using sid by (simp add: g_def)
  have start: "chunk_start sid (2 ^ (global_depth t - local_depth src)) = q * (2 * half)"
    using chunk_start_eq [OF sid32, of "global_depth t - local_depth src"] g31 c
    by (simp add: q_def chunk_def src g_def [symmetric])
  have c2: "2 ^ (global_depth t - local_depth src) = 2 * half" using c by (simp add: chunk_def src)
  let ?T = "q * (2 * half) + half"
  define new where "new = Segment_init k0 v0 D ?T"
  define t1 where "t1 = t\<lparr>store := store t @ [new], bucket_count := bucket_count t + num_buckets new\<rparr>"
  have con: "ConstructSegment k0 v0 t (local_depth src + 1) ?T = (b, t1)"
    using Dg by (simp add: ConstructSegment_def Let_def t1_def new_def b_def)
  have nb: "store t1 ! b = new" by (simp add: t1_def b_def)
  have srcinv: "seg_inv P src" "seg_regular P src"
    using table_invD(4) [OF inv sid] regular_seg [OF d reg sid] by (simp_all add: src)
  have newinv: "seg_inv P new" "seg_entries new = {#}" by (simp_all add: new_def Segment_init_inv)
  have split: "Table_Split P k0 v0 t sid = (do { (source, target) \<leftarrow> Segment_Split P src new;
      let t = put_seg (put_seg t1 a source) b target;
      Some (t\<lparr>unique_segments := unique_segments t + 1, segment_dir := fill (segment_dir t) ?T half b\<rparr>) })"
    unfolding Table_Split_def Let_def a_def [symmetric] src_def [symmetric] c2 start [unfolded c2]
    using con nb by simp
  from Segment_Split_spec [OF srcinv newinv refl, unfolded Dg(4)] show ?thesis
  proof (elim disjE exE conjE)
    assume "Segment_Split P src new = None" "too_many P D (seg_entries src)"
    then show ?thesis by (simp add: split src)
  next
    fix s' d' assume sp: "Segment_Split P src new = Some (s', d')" "seg_inv P s'" "seg_inv P d'"
      "seg_entries s' = filter_mset (mine P D) (seg_entries src)"
      "seg_entries d' = filter_mset (\<lambda>e. \<not> mine P D e) (seg_entries src)"
      "local_depth s' = D" "local_depth d' = D"
    let ?t2 = "put_seg (put_seg t1 a s') b d'"
    define t' where "t' = ?t2\<lparr>unique_segments := unique_segments ?t2 + 1, segment_dir := fill (segment_dir ?t2) ?T half b\<rparr>"
    have res: "Table_Split P k0 v0 t sid = Some t'" by (simp add: split sp(1) t'_def)
    have fields: "global_depth t' = g" "initial_depth t' = initial_depth t" "table_size t' = table_size t"
      "length (store t') = Suc b" "length (segment_dir t') = 2 ^ g"
      using dir_okD(2) [OF d] by (simp_all add: t'_def t1_def g_def b_def)
    have st: "store t' ! x = (if x = b then d' else if x = a then s' else store t ! x)" if "x \<le> b" for x
      using that ab by (auto simp: t'_def t1_def put_seg_def b_def nth_list_update nth_append)
    have dir: "segment_dir t' ! j = (if j div half = 2 * q + 1 then b else segment_dir t ! j)" if "j < 2 ^ g" for j
    proof -
      have "?T \<le> j \<and> j < ?T + half \<longleftrightarrow> j div half = 2 * q + 1"
        using half_range [OF half0, of q j] by (simp add: algebra_simps)
      then show ?thesis using that dir_okD(2) [OF d] by (simp add: t'_def t1_def g_def nth_fill)
    qed
    have lt: "segment_dir t ! j < b" if "j < 2 ^ g" for j using dir_okD(3) [OF d] that by (simp add: g_def b_def)
    have isa: "segment_dir t ! j = a \<longleftrightarrow> j div half = 2 * q \<or> j div half = 2 * q + 1" if "j < 2 ^ g" for j
    proof -
      have "segment_dir t ! j = a \<longleftrightarrow> j div (2 * half) = q"
        using dir_okD(6) [OF d sid, of j] that by (auto simp: a_def g_def q_def c)
      also have "j div (2 * half) = j div half div 2" by (simp add: div_mult2_eq mult.commute)
      also have "j div half div 2 = q \<longleftrightarrow> j div half = 2 * q \<or> j div half = 2 * q + 1" by linarith
      finally show ?thesis .
    qed
    have get: "get_seg t' j = (if j div half = 2 * q + 1 then d' else if j div half = 2 * q then s' else get_seg t j)"
      if "j < 2 ^ g" for j
      using dir [OF that] isa [OF that] lt [OF that] st [of "segment_dir t ! j"] st [of b]
      by (auto simp: get_seg_def)
    have ld': "local_depth (get_seg t' j) = (if j div half \<in> {2 * q, 2 * q + 1} then D else local_depth (get_seg t j))"
      if "j < 2 ^ g" for j using sp(6,7) by (simp add: get [OF that])
    have ch: "chunk t' j = (if j div half \<in> {2 * q, 2 * q + 1} then half else chunk t j)" if "j < 2 ^ g" for j
      unfolding chunk_def fields(1) ld' [OF that] by (simp add: half_def g_def)
    have dok: "dir_ok t'"
      unfolding dir_ok_def fields
    proof (intro conjI allI impI)
      fix i :: nat assume i: "i < 2 ^ g"
      show "segment_dir t' ! i < Suc b" using lt [OF i] by (simp add: dir [OF i] less_SucI)
      have "initial_depth t \<le> D" using dir_okD(5) [OF d sid] Dg by (simp add: src)
      then show "initial_depth t \<le> local_depth (get_seg t' i)" "local_depth (get_seg t' i) \<le> g"
        using dir_okD(4,5) [OF d, of i] i Dg(1) by (simp_all add: ld' [OF i] g_def)
      fix j :: nat assume j: "j < 2 ^ g"
      show "segment_dir t' ! i = segment_dir t' ! j \<longleftrightarrow> i div chunk t' i = j div chunk t' i"
      proof -
        consider (hi) "i div half = 2 * q + 1" | (lo) "i div half = 2 * q"
          | (out) "i div half \<noteq> 2 * q + 1" "i div half \<noteq> 2 * q" by blast
        then show ?thesis
        proof cases
          case hi
          then show ?thesis using lt [OF j] by (simp add: dir [OF i] dir [OF j] ch [OF i])
        next
          case lo
          then have a: "segment_dir t ! i = a" using isa [OF i] by simp
          show ?thesis
          proof (cases "j div half = 2 * q + 1")
            case True
            then show ?thesis using lo a ab(1) by (simp add: dir [OF i] dir [OF j] ch [OF i])
          next
            case False
            then show ?thesis using lo a isa [OF j] by (simp add: dir [OF i] dir [OF j] ch [OF i] eq_commute [of a] eq_commute [of "2 * q"])
          qed
        next
          case out
          then have na: "segment_dir t ! i \<noteq> a" using isa [OF i] by simp
          have eq: "segment_dir t ! i = segment_dir t ! j \<longleftrightarrow> i div chunk t i = j div chunk t i"
            using dir_okD(6) [OF d] i j by (simp add: g_def)
          show ?thesis
          proof (cases "j div half = 2 * q + 1")
            case True
            then have "segment_dir t ! j = a" using isa [OF j] by simp
            then have "i div chunk t i \<noteq> j div chunk t i" using eq na by simp
            then show ?thesis using out True lt [OF i] by (simp add: dir [OF i] dir [OF j] ch [OF i])
          next
            case False
            then show ?thesis using out eq by (simp add: dir [OF i] dir [OF j] ch [OF i])
          qed
        qed
      qed
    qed (use g31 in simp_all)
    have srcpre: "prefix (D - 1) (khash P (fst e)) = q" if "e \<in># seg_entries src" for e
      using table_invD(5) [OF inv sid] that Dg by (simp add: src q_def)
    have pre: "prefix D (khash P (fst e)) = (if mine P D e then 2 * q else 2 * q + 1)" if "e \<in># seg_entries src" for e
    proof -
      have "prefix D (khash P (fst e)) div 2 = q"
        using srcpre [OF that] prefix_Suc [of "D - 1" "khash P (fst e)"] Dg g31 by simp
      moreover have "mine P D e \<longleftrightarrow> even (prefix D (khash P (fst e)))"
        using is_mine_prefix [of D] Dg g31 by (simp add: mine_def)
      ultimately show ?thesis
        using even_two_times_div_two [of "prefix D (khash P (fst e))"] odd_two_times_div_two_succ [of "prefix D (khash P (fst e))"]
        by auto
    qed
    have sok: "segs_ok P t'"
      unfolding segs_ok_def fields
    proof (intro allI impI)
      fix j :: nat assume j: "j < 2 ^ g"
      then show "seg_inv P (get_seg t' j) \<and>
        (\<forall>e \<in># seg_entries (get_seg t' j). prefix (local_depth (get_seg t' j)) (khash P (fst e)) = j div chunk t' j)"
        using so sp pre by (auto simp: get [OF j] ch [OF j] segs_ok_def g_def)
    qed
    have ent: "tb_entries t' = tb_entries t"
    proof -
      have top: "(2 * q + 1) * half < 2 ^ g"
      proof -
        have le: "q * (2 * half) \<le> sid" by (simp add: q_def c [symmetric])
        have pg: "(2 :: nat) ^ g = 2 ^ D * half" using Dg(1) by (simp add: half_def flip: power_add)
        have pD: "(2 :: nat) ^ D = 2 * 2 ^ (D - 1)" using Dg(3) by (simp flip: power_Suc)
        have e: "(2 :: nat) ^ g = 2 ^ (D - 1) * (2 * half)" unfolding pg pD by simp
        have "q * (2 * half) < 2 ^ (D - 1) * (2 * half)"
          by (rule le_less_trans [OF le]) (unfold e [symmetric], use sid in \<open>simp add: g_def\<close>)
        then have "q < 2 ^ (D - 1)" by (metis mult_less_cancel2)
        then have "2 * q + 1 < 2 ^ D" unfolding pD by linarith
        then show ?thesis unfolding pg using half0 by (rule mult_strict_right_mono)
      qed
      have "set (segment_dir t') = insert b (set (segment_dir t))"
      proof
        show "set (segment_dir t') \<subseteq> insert b (set (segment_dir t))"
        proof
          fix x assume "x \<in> set (segment_dir t')"
          then obtain j where j: "j < 2 ^ g" "x = segment_dir t' ! j" using fields(5) by (metis in_set_conv_nth)
          have "segment_dir t ! j \<in> set (segment_dir t)" using j(1) dir_okD(2) [OF d] by (simp add: g_def)
          then show "x \<in> insert b (set (segment_dir t))" using j(2) dir [OF j(1)] by simp
        qed
        have "b \<in> set (segment_dir t')"
          unfolding in_set_conv_nth using dir [OF top] top half0 fields(5) by (intro exI [of _ "(2 * q + 1) * half"]) simp
        moreover have "x \<in> set (segment_dir t')" if x: "x \<in> set (segment_dir t)" for x
        proof -
          obtain j where j: "j < 2 ^ g" "x = segment_dir t ! j"
            using x dir_okD(2) [OF d] by (auto simp: in_set_conv_nth g_def)
          define j' where "j' = (if j div half = 2 * q + 1 then 2 * q * half else j)"
          have "j' < 2 ^ g" using j top half0 by (auto simp: j'_def)
          moreover have "segment_dir t' ! j' = x"
            using isa [OF j(1)] isa [OF \<open>j' < 2 ^ g\<close>] dir [OF \<open>j' < 2 ^ g\<close>] j half0 by (auto simp: j'_def split: if_splits)
          ultimately show ?thesis using fields(5) by (metis nth_mem)
        qed
        ultimately show "insert b (set (segment_dir t)) \<subseteq> set (segment_dir t')" by blast
      qed
      moreover have "b \<notin> set (segment_dir t)" using lt dir_okD(2) [OF d] by (auto simp: in_set_conv_nth g_def)
      ultimately have "tb_entries t' = seg_entries d' + (\<Sum>x \<in> set (segment_dir t). seg_entries (store t' ! x))"
        using st [of b] by (simp add: tb_entries_def)
      also have "(\<Sum>x \<in> set (segment_dir t). seg_entries (store t' ! x)) =
          seg_entries s' + (\<Sum>x \<in> set (segment_dir t) - {a}. seg_entries (store t ! x))"
      proof -
        have "(\<Sum>x \<in> set (segment_dir t) - {a}. seg_entries (store t' ! x)) = (\<Sum>x \<in> set (segment_dir t) - {a}. seg_entries (store t ! x))"
        proof (rule sum.cong [OF refl])
          fix x assume x: "x \<in> set (segment_dir t) - {a}"
          then have "x < b" using lt dir_okD(2) [OF d] by (auto simp: in_set_conv_nth g_def)
          then show "seg_entries (store t' ! x) = seg_entries (store t ! x)" using x by (simp add: st)
        qed
        then show ?thesis using ab st [of a] by (subst sum.remove [OF _ ab(2)]) auto
      qed
      also have "seg_entries d' + (seg_entries s' + (\<Sum>x \<in> set (segment_dir t) - {a}. seg_entries (store t ! x))) =
          seg_entries src + (\<Sum>x \<in> set (segment_dir t) - {a}. seg_entries (store t ! x))"
      proof -
        have "seg_entries src = seg_entries s' + seg_entries d'" unfolding sp(4,5) by (rule multiset_partition)
        then show ?thesis by (simp only: ac_simps)
      qed
      also have "\<dots> = tb_entries t"
        unfolding tb_entries_def src_def by (rule sum.remove [OF _ ab(2), symmetric]) simp
      finally show ?thesis .
    qed
    have "local_depth (get_seg t' sid) = D" using isa [of sid] sid ld' [of sid] by (simp add: a_def g_def)
    then show ?thesis
      using res dok sok ent fields table_invD(3) [OF inv] by (auto simp: table_inv_def g_def)
  qed
qed

end
