(* ===== verification/Dash_Insert.thy ===== *)
theory Dash_Insert
  imports Dash_Table_Correct
begin

text \<open>
  Insertion into the table: the loop of \<open>InsertInternal\<close> adds exactly one entry or finds the
  key, and it terminates when the entries that share a hash prefix with the key are few.
\<close>

subsection \<open>Definitions\<close>

text \<open>The entries of the table whose hash has the same top \<open>d\<close> bits as \<open>h\<close>.\<close>

definition pref :: "('k, 'v, 'u) Policy \<Rightarrow> ('k, 'v) DashTable \<Rightarrow> u64 \<Rightarrow> nat \<Rightarrow> ('k \<times> 'v) multiset" where
  "pref P t h d = filter_mset (\<lambda>e. prefix d (khash P (fst e)) = prefix d h) (tb_entries t)"

text \<open>There is room for a new entry at depth \<open>D\<close>: fewer than 84 entries share its top \<open>D\<close> bits, and the
  splits on the way there cannot overflow the new segment.\<close>

definition room :: "('k, 'v, 'u) Policy \<Rightarrow> ('k, 'v) DashTable \<Rightarrow> u64 \<Rightarrow> nat \<Rightarrow> bool" where
  "room P t h D \<longleftrightarrow> D \<le> 31 \<and> size (pref P t h D) < 84 \<and> (\<forall>d < D. \<not> too_many P (d + 1) (pref P t h d))"

text \<open>The key object that an insertion of \<open>u\<close> stores.\<close>

definition newkey :: "('k, 'v, 'u) Policy \<Rightarrow> 'u \<Rightarrow> 'k \<Rightarrow> bool" where
  "newkey P u k \<longleftrightarrow> (\<forall>d. AssignKey P d u = k) \<and> HashFn P k = Some (HashView P u)"

definition tb_inserted :: "('k, 'v, 'u) Policy \<Rightarrow> ('k, 'v) DashTable \<Rightarrow> TableIterator \<Rightarrow> 'k \<times> 'v
    \<Rightarrow> ('k, 'v) DashTable \<Rightarrow> bool" where
  "tb_inserted P t it e t' \<longleftrightarrow> table_inv P t' \<and> tb_entries t' = add_mset e (tb_entries t) \<and>
     tit_points t' it \<and> (tit_key t' it, tit_value t' it) = e"

text \<open>The part of the loop that makes room, and the loop in terms of it.\<close>

definition grow :: "('k, 'v, 'u) Policy \<Rightarrow> 'k \<Rightarrow> 'v \<Rightarrow> ('k, 'v) DashTable \<Rightarrow> u64 \<Rightarrow> nat \<Rightarrow> (('k, 'v) DashTable \<times> nat) option" where
  "grow P k0 v0 t h sid = do {
     (t, sid) \<leftarrow> (if local_depth (get_seg t sid) = global_depth t
        then do { t' \<leftarrow> IncreaseDepth t (global_depth t + 1);
                  let sid' = SegmentId t' h;
                  assert_opt (sid' < length (segment_dir t') \<and> segment_dir t' ! sid' = segment_dir t ! sid);
                  Some (t', sid') }
        else Some (t, sid));
     t \<leftarrow> Table_Split P k0 v0 t sid;
     Some (t, sid) }"

definition seg_ins :: "('k, 'v, 'u) Policy \<Rightarrow> InsertMode \<Rightarrow> ('k, 'v) Segment \<Rightarrow> 'u \<Rightarrow> ('v \<Rightarrow> 'v) \<Rightarrow> u64
    \<Rightarrow> (SegIterator \<times> bool \<times> ('k, 'v) Segment) option" where
  "seg_ins P mode s u v h = (case mode of
      kForceInsert \<Rightarrow> do { (it, s) \<leftarrow> InsertUniq P s (\<lambda>d. AssignKey P d u) v h True; Some (it, found it, s) }
    | kInsertIfNotFound \<Rightarrow> Segment_Insert P s (\<lambda>d. AssignKey P d u) v h (\<lambda>k. Equal P k u))"

subsection \<open>Entries of a segment\<close>

lemma filter_mset_sum: "finite A \<Longrightarrow> filter_mset Q (\<Sum>a \<in> A. f a) = (\<Sum>a \<in> A. filter_mset Q (f a))"
  by (induction A rule: finite_induct) auto

lemma seg_pref:
  assumes inv: "table_inv P t"
  shows "seg_entries (get_seg t (SegmentId t h)) = pref P t h (local_depth (get_seg t (SegmentId t h)))"
proof -
  note d = table_invD(1) [OF inv]
  let ?i = "SegmentId t h" let ?s = "get_seg t ?i" let ?a = "segment_dir t ! ?i"
  let ?Q = "\<lambda>e. prefix (local_depth ?s) (khash P (fst e)) = prefix (local_depth ?s) h"
  have i: "?i < 2 ^ global_depth t" by (rule SegmentId_lt [OF d])
  have a: "?a \<in> set (segment_dir t)" using i dir_okD(2) [OF d] by simp
  have pi: "prefix (local_depth ?s) h = ?i div chunk t ?i" using SegmentId_chunk [OF d i] by simp
  have own: "filter_mset ?Q (seg_entries (store t ! ?a)) = seg_entries (store t ! ?a)"
    using table_invD(5) [OF inv i] pi by (intro filter_mset_all) (simp add: get_seg_def)
  have other: "filter_mset ?Q (seg_entries (store t ! b)) = {#}" if b: "b \<in> set (segment_dir t) - {?a}" for b
  proof (rule filter_mset_none, rule ballI, rule notI)
    fix e assume e: "e \<in># seg_entries (store t ! b)" and q: "?Q e"
    obtain j where j: "j < 2 ^ global_depth t" "b = segment_dir t ! j"
      using b dir_okD(2) [OF d] by (auto simp: in_set_conv_nth)
    have "segment_dir t ! SegmentId t (khash P (fst e)) = b"
      using entry_segment [OF inv j(1), of e] e j(2) by (simp add: get_seg_def)
    moreover have "segment_dir t ! SegmentId t (khash P (fst e)) = ?a"
      using dir_okD(6) [OF d i SegmentId_lt [OF d]] SegmentId_chunk [OF d i] q by metis
    ultimately show False using b by simp
  qed
  have "pref P t h (local_depth ?s) = (\<Sum>b \<in> set (segment_dir t). filter_mset ?Q (seg_entries (store t ! b)))"
    by (simp add: pref_def tb_entries_def filter_mset_sum)
  also have "\<dots> = seg_entries (store t ! ?a)"
  proof -
    have "(\<Sum>b \<in> set (segment_dir t) - {?a}. filter_mset ?Q (seg_entries (store t ! b))) = {#}"
      by (rule sum.neutral, rule ballI, rule other)
    then show ?thesis unfolding sum.remove [OF finite_set a] own by simp
  qed
  finally show ?thesis by (simp add: get_seg_def)
qed

lemma filter_mset_mono_pred: "(\<And>x. Q x \<Longrightarrow> R x) \<Longrightarrow> filter_mset Q M \<subseteq># filter_mset R M"
  by (auto simp: subseteq_mset_def)

lemma pref_mono:
  assumes "D \<le> d" "d \<le> 64"
  shows "pref P t h d \<subseteq># pref P t h D"
proof -
  have "prefix D x = prefix D h" if "prefix d x = prefix d h" for x
    using prefix_div [OF assms, of x] prefix_div [OF assms, of h] that by simp
  then show ?thesis unfolding pref_def by (rule filter_mset_mono_pred)
qed

subsection \<open>Making room\<close>

lemma grow_spec:
  assumes inv: "table_inv P t" and reg: "all_regular P t" and sid: "sid = SegmentId t h"
    and depth: "local_depth (get_seg t sid) < global_depth t \<or> global_depth t < 31"
  shows "(\<exists>t'. grow P k0 v0 t h sid = Some (t', SegmentId t' h) \<and> table_inv P t' \<and> tb_entries t' = tb_entries t \<and>
      local_depth (get_seg t' (SegmentId t' h)) = local_depth (get_seg t sid) + 1) \<or>
    grow P k0 v0 t h sid = None \<and> too_many P (local_depth (get_seg t sid) + 1) (seg_entries (get_seg t sid))"
proof -
  note d = table_invD(1) [OF inv]
  let ?ld = "local_depth (get_seg t sid)"
  have lt: "sid < 2 ^ global_depth t" using SegmentId_lt [OF d] sid by simp
  have split: "(\<exists>t'. Table_Split P k0 v0 t1 (SegmentId t1 h) = Some t' \<and> table_inv P t' \<and> tb_entries t' = tb_entries t1 \<and>
      SegmentId t' h = SegmentId t1 h \<and> local_depth (get_seg t' (SegmentId t' h)) = local_depth (get_seg t1 (SegmentId t1 h)) + 1) \<or>
    Table_Split P k0 v0 t1 (SegmentId t1 h) = None \<and>
      too_many P (local_depth (get_seg t1 (SegmentId t1 h)) + 1) (seg_entries (get_seg t1 (SegmentId t1 h)))"
    if t1: "table_inv P t1" "all_regular P t1" "local_depth (get_seg t1 (SegmentId t1 h)) < global_depth t1" for t1
    using Table_Split_spec [OF t1(1,2) SegmentId_lt [OF table_invD(1) [OF t1(1)]] t1(3) refl, of k0 v0]
    by (elim disjE exE conjE) (auto simp: SegmentId_def)
  show ?thesis
  proof (cases "?ld < global_depth t")
    case True
    then show ?thesis using split [OF inv reg] sid by (auto simp: grow_def)
  next
    case False
    then have eq: "?ld = global_depth t" using dir_okD(4) [OF d lt] by simp
    have g: "global_depth t < 31" using False depth by simp
    obtain t1 where t1: "IncreaseDepth t (global_depth t + 1) = Some t1" "table_inv P t1" "tb_entries t1 = tb_entries t"
      "global_depth t1 = global_depth t + 1"
      "\<And>j. j < 2 ^ (global_depth t + 1) \<Longrightarrow> segment_dir t1 ! j = segment_dir t ! (j div 2)"
      "\<And>a. a < length (store t) \<Longrightarrow> bucket_arr (store t1 ! a) = bucket_arr (store t ! a) \<and>
         local_depth (store t1 ! a) = local_depth (store t ! a)"
      using IncreaseDepth_spec [OF inv g] by metis
    note d1 = table_invD(1) [OF t1(2)]
    let ?j = "SegmentId t1 h"
    have jl: "?j < 2 ^ (global_depth t + 1)" using SegmentId_lt [OF d1, of h] t1(4) by simp
    have "?j div 2 = sid"
      using prefix_Suc [of "global_depth t" h] g
      by (simp add: SegmentId_prefix dir_okD(1) [OF d] dir_okD(1) [OF d1] t1(4) sid)
    then have dir: "segment_dir t1 ! ?j = segment_dir t ! sid" using t1(5) [OF jl] by simp
    have seg: "bucket_arr (get_seg t1 ?j) = bucket_arr (get_seg t sid)" "local_depth (get_seg t1 ?j) = ?ld"
      using t1(6) dir_okD(3) [OF d lt] dir by (simp_all add: get_seg_def)
    have "all_regular P t1" using reg t1(3) by (simp add: all_regular_def)
    moreover have "local_depth (get_seg t1 ?j) < global_depth t1" using seg eq t1(4) by simp
    moreover have "?j < length (segment_dir t1)" using jl dir_okD(2) [OF d1] t1(4) by simp
    ultimately show ?thesis
      using split [OF t1(2)] t1(1,3) eq dir seg same_arr(2) [OF seg(1)] by (auto simp: grow_def Let_def)
  qed
qed

subsection \<open>The loop\<close>

lemma seg_ins_cases [consumes 4, case_names New Dup Full]:
  assumes inv: "seg_inv P s" and reg: "seg_regular P s" and k: "newkey P u k" and h: "h = HashView P u"
  obtains (New) it s' v0 where "seg_ins P mode s u v h = Some (it, True, s')" "inserted P s it (k, v v0) s'"
      "mode = kInsertIfNotFound \<Longrightarrow> \<not> found (FindIt s h (\<lambda>k. Equal P k u))"
    | (Dup) it where "mode = kInsertIfNotFound" "seg_ins P mode s u v h = Some (it, False, s)" "found it"
      "it_points s it" "Equal P (it_key s it) u"
    | (Full) "seg_ins P mode s u v h = Some (SegIterator_end, False, s)" "84 \<le> size (seg_entries s)"
proof -
  have u: "AssignKey P d u = k" "HashFn P k = Some h" for d using k h by (auto simp: newkey_def)
  let ?F = "FindIt s h (\<lambda>k. Equal P k u)"
  show ?thesis
  proof (cases "mode = kInsertIfNotFound \<and> found ?F")
    case True
    then show ?thesis
      using FindIt_sound [OF seg_invD(1) [OF inv], of h "\<lambda>k. Equal P k u"]
      by (intro Dup [of ?F]) (auto simp: seg_ins_def Segment_Insert_def Let_def)
  next
    case False
    have eq: "seg_ins P mode s u v h = (do { (it, s) \<leftarrow> InsertUniq P s (\<lambda>d. AssignKey P d u) v h True; Some (it, found it, s) })"
      using False by (cases mode) (auto simp: seg_ins_def Segment_Insert_def Let_def)
    show ?thesis
      using inv reg u(2,1)
    proof (cases rule: InsertUniq_spec [of P s k h "\<lambda>d. AssignKey P d u" v True, consumes 4, case_names F O])
      case F
      then show ?thesis
        using kSlots84 [OF seg_invD(1) [OF inv], of "HomeIndex h"] by (intro Full) (simp_all add: eq)
    next
      case (O it s' v0)
      then show ?thesis
        using False it_points_found [of s' it] by (intro New [of it s' v0]) (auto simp: eq inserted_def)
    qed
  qed
qed

lemma InsertLoop_Suc:
  assumes d: "dir_ok t" and sid: "sid = SegmentId t h"
  shows "InsertLoop P k0 v0 (Suc n) t u v h mode sid = (do {
     (it, res, s') \<leftarrow> seg_ins P mode (get_seg t sid) u v h;
     let t' = put_seg t (segment_dir t ! sid) s';
     let tit = \<lparr>seg_id = sid, bucket_id = index it, slot_id = slot it\<rparr>;
     if res then Some (tit, True, t'\<lparr>bucket_count := bucket_count t' + (num_buckets s' - num_buckets (get_seg t sid)),
                                     table_size := table_size t' + 1\<rparr>)
     else if found it then Some (tit, False, t')
     else do {
       (t'', sid) \<leftarrow> (if local_depth s' = global_depth t'
          then do { t'' \<leftarrow> IncreaseDepth t' (global_depth t' + 1);
                    let sid' = SegmentId t'' h;
                    assert_opt (sid' < length (segment_dir t'') \<and> segment_dir t'' ! sid' = segment_dir t ! sid);
                    Some (t'', sid') }
          else Some (t', sid));
       t'' \<leftarrow> Table_Split P k0 v0 t'' sid;
       InsertLoop P k0 v0 n t'' u v h mode sid } })"
  using SegmentId_lt [OF d, of h] dir_okD(2) [OF d] sid
  by (simp add: seg_ins_def get_seg_def Let_def cong: if_cong)

declare InsertLoop.simps [simp del]

lemma put_seg_same: "i < length (segment_dir t) \<Longrightarrow> put_seg t (segment_dir t ! i) (get_seg t i) = t"
  by (simp add: put_seg_def get_seg_def)

lemma InsertLoop_full:
  assumes d: "dir_ok t" and sid: "sid = SegmentId t h"
    and f: "seg_ins P mode (get_seg t sid) u v h = Some (SegIterator_end, False, get_seg t sid)"
  shows "InsertLoop P k0 v0 (Suc n) t u v h mode sid =
    (do { (t', sid') \<leftarrow> grow P k0 v0 t h sid; InsertLoop P k0 v0 n t' u v h mode sid' })"
proof -
  have "sid < length (segment_dir t)" using SegmentId_lt [OF d, of h] dir_okD(2) [OF d] sid by simp
  then show ?thesis
    unfolding InsertLoop_Suc [OF d sid] f grow_def
    by (auto simp: put_seg_same Let_def split: bind_splits)
qed

lemma SegIterator_eta [simp]: "\<lparr>index = index it, slot = slot it\<rparr> = (it :: SegIterator)"
  by simp

lemma counters_simps [simp]:
  "get_seg (t\<lparr>bucket_count := c\<rparr>) j = get_seg t j" "get_seg (t\<lparr>table_size := n\<rparr>) j = get_seg t j"
  "chunk (t\<lparr>bucket_count := c\<rparr>) j = chunk t j" "chunk (t\<lparr>table_size := n\<rparr>) j = chunk t j"
  "dir_ok (t\<lparr>bucket_count := c\<rparr>) = dir_ok t" "dir_ok (t\<lparr>table_size := n\<rparr>) = dir_ok t"
  "segs_ok P (t\<lparr>bucket_count := c\<rparr>) = segs_ok P t" "segs_ok P (t\<lparr>table_size := n\<rparr>) = segs_ok P t"
  "tb_entries (t\<lparr>bucket_count := c\<rparr>) = tb_entries t" "tb_entries (t\<lparr>table_size := n\<rparr>) = tb_entries t"
  by (simp_all add: get_seg_def chunk_def dir_ok_def segs_ok_def tb_entries_def)

lemma inserted_table:
  assumes inv: "table_inv P t" and sid: "sid = SegmentId t h" and h: "khash P k = h"
    and ins: "inserted P (get_seg t sid) it (k, w) s'"
  shows "tb_inserted P t \<lparr>seg_id = sid, bucket_id = index it, slot_id = slot it\<rparr> (k, w)
    ((put_seg t (segment_dir t ! sid) s')\<lparr>bucket_count := c, table_size := table_size t + 1\<rparr>)"
proof -
  note d = table_invD(1) [OF inv] and so = table_invD(2) [OF inv]
  let ?a = "segment_dir t ! sid" let ?t1 = "put_seg t ?a s'"
  have lt: "sid < 2 ^ global_depth t" using SegmentId_lt [OF d] sid by simp
  have a: "?a < length (store t)" "?a \<in> set (segment_dir t)" "sid < length (segment_dir t)"
    using dir_okD(2,3) [OF d] lt by auto
  have i: "seg_inv P s'" "seg_entries s' = add_mset (k, w) (seg_entries (get_seg t sid))"
    "local_depth s' = local_depth (get_seg t sid)" "it_points s' it" "it_key s' it = k" "it_value s' it = w"
    using ins by (auto simp: inserted_def)
  have "prefix (local_depth s') (khash P (fst e)) = sid div chunk t sid" if "e \<in># seg_entries s'" for e
    using that i(2,3) table_invD(5) [OF inv lt, of e] SegmentId_chunk [OF d lt, of h] h sid by auto
  note ok = put_seg_ok [OF d so lt refl i(1,3) this]
  have ent: "tb_entries ?t1 = add_mset (k, w) (tb_entries t)"
    using tb_entries_put [OF a(2,1), of s'] i(2) by (simp add: get_seg_def)
  let ?t2 = "?t1\<lparr>bucket_count := c, table_size := table_size t + 1\<rparr>"
  have "table_inv P ?t2" using ok table_invD(3) [OF inv] ent by (simp add: table_inv_def)
  moreover have "tb_entries ?t2 = add_mset (k, w) (tb_entries t)" using ent by simp
  moreover have "get_seg ?t2 sid = s'" using get_seg_put [OF a(1), of s' sid] by simp
  ultimately show ?thesis
    using i(4-6) a(3) by (simp add: tb_inserted_def tit_points_def tit_key_def tit_value_def)
qed

text \<open>What an insertion achieves: the new entry, or an iterator to a key that compares equal.\<close>

definition insert_ok :: "('k, 'v, 'u) Policy \<Rightarrow> ('k, 'v) DashTable \<Rightarrow> 'u \<Rightarrow> 'k \<Rightarrow> ('v \<Rightarrow> 'v) \<Rightarrow> InsertMode
    \<Rightarrow> TableIterator \<Rightarrow> bool \<Rightarrow> ('k, 'v) DashTable \<Rightarrow> bool" where
  "insert_ok P t u k v mode it b t' \<longleftrightarrow>
     (if b then (\<exists>v0. tb_inserted P t it (k, v v0) t') \<and>
        (mode = kInsertIfNotFound \<longrightarrow> (\<forall>e \<in># tb_entries t. khash P (fst e) = HashView P u \<longrightarrow> \<not> Equal P (fst e) u))
      else mode = kInsertIfNotFound \<and> table_inv P t' \<and> tb_entries t' = tb_entries t \<and>
        tit_points t' it \<and> Equal P (tit_key t' it) u)"

lemma insert_ok_entries: "tb_entries t1 = tb_entries t \<Longrightarrow> insert_ok P t1 u k v mode it b t' = insert_ok P t u k v mode it b t'"
  by (simp add: insert_ok_def tb_inserted_def)

lemma room_entries: "tb_entries t1 = tb_entries t \<Longrightarrow> room P t1 h D = room P t h D"
  by (simp add: room_def pref_def)

lemma room_full:
  assumes r: "room P t h D" and inv: "table_inv P t" and sid: "sid = SegmentId t h"
    and full: "84 \<le> size (seg_entries (get_seg t sid))"
  shows "local_depth (get_seg t sid) < D"
    "\<not> too_many P (local_depth (get_seg t sid) + 1) (seg_entries (get_seg t sid))"
proof -
  let ?ld = "local_depth (get_seg t sid)"
  have e: "seg_entries (get_seg t sid) = pref P t h ?ld" using seg_pref [OF inv, of h] sid by simp
  have ld: "?ld \<le> 31"
    using dir_okD(1,4) [OF table_invD(1) [OF inv]] SegmentId_lt [OF table_invD(1) [OF inv], of h] sid
    by (meson order_trans)
  show lt: "?ld < D"
  proof (rule ccontr)
    assume "\<not> ?ld < D"
    then have "pref P t h ?ld \<subseteq># pref P t h D" using ld by (intro pref_mono) auto
    then show False using full e r size_mset_mono [of "pref P t h ?ld" "pref P t h D"] by (simp add: room_def)
  qed
  show "\<not> too_many P (?ld + 1) (seg_entries (get_seg t sid))"
    using r lt unfolding e room_def by simp
qed

lemma InsertLoop_spec:
  assumes "table_inv P t" "all_regular P t" "newkey P u k" "h = HashView P u" "room P t h D" "sid = SegmentId t h"
    "D < local_depth (get_seg t sid) + n" "0 < n"
  shows "\<exists>it b t'. InsertLoop P k0 v0 n t u v h mode sid = Some (it, b, t') \<and> insert_ok P t u k v mode it b t'"
  using assms
proof (induction n arbitrary: t sid)
  case (Suc n)
  note inv = Suc.prems(1) and reg = Suc.prems(2) and nk = Suc.prems(3) and h = Suc.prems(4) and sid = Suc.prems(6)
  note d = table_invD(1) [OF inv]
  let ?s = "get_seg t sid"
  have lt: "sid < 2 ^ global_depth t" "sid < length (segment_dir t)"
    using SegmentId_lt [OF d, of h] sid dir_okD(2) [OF d] by auto
  have kh: "khash P k = h" using nk h by (simp add: newkey_def khash_def)
  have "seg_inv P ?s" "seg_regular P ?s" using table_invD(4) [OF inv lt(1)] regular_seg [OF d reg lt(1)] .
  then show ?case using nk h
  proof (cases rule: seg_ins_cases [of P ?s u k h mode v, consumes 4, case_names New Dup Full])
    case (New it s' v1)
    have "\<not> Equal P (fst e) u" if "mode = kInsertIfNotFound" "e \<in># tb_entries t" "khash P (fst e) = h" for e
      using FindFirst_None [OF inv, of h "\<lambda>k. Equal P k u" "fst e" "snd e"] that New(3) sid
      by (auto simp: FindFirst_def Let_def)
    then have "insert_ok P t u k v mode \<lparr>seg_id = sid, bucket_id = index it, slot_id = slot it\<rparr> True
      ((put_seg t (segment_dir t ! sid) s')\<lparr>bucket_count := c, table_size := table_size t + 1\<rparr>)" for c
      using inserted_table [OF inv sid kh New(2)] unfolding insert_ok_def h [symmetric] if_True by blast
    moreover have "InsertLoop P k0 v0 (Suc n) t u v h mode sid =
      Some (\<lparr>seg_id = sid, bucket_id = index it, slot_id = slot it\<rparr>, True, (put_seg t (segment_dir t ! sid) s')
        \<lparr>bucket_count := bucket_count t + (num_buckets s' - num_buckets ?s), table_size := table_size t + 1\<rparr>)"
      by (simp add: InsertLoop_Suc [OF d sid] New(1) Let_def)
    ultimately show ?thesis by blast
  next
    case (Dup it)
    have "InsertLoop P k0 v0 (Suc n) t u v h mode sid =
      Some (\<lparr>seg_id = sid, bucket_id = index it, slot_id = slot it\<rparr>, False, t)"
      using lt(2) Dup(3) by (simp add: InsertLoop_Suc [OF d sid] Dup(2) Let_def put_seg_same)
    then show ?thesis
      using inv lt(2) Dup by (auto simp: insert_ok_def tit_points_def tit_key_def)
  next
    case Full
    note rf = room_full [OF Suc.prems(5) inv sid Full(2)]
    have "D \<le> 31" using Suc.prems(5) by (simp add: room_def)
    then have "local_depth ?s < global_depth t \<or> global_depth t < 31" using rf(1) by linarith
    then obtain t' where t': "grow P k0 v0 t h sid = Some (t', SegmentId t' h)" "table_inv P t'"
      "tb_entries t' = tb_entries t" "local_depth (get_seg t' (SegmentId t' h)) = local_depth ?s + 1"
      using grow_spec [OF inv reg sid, of k0 v0] rf(2) by blast
    have "\<exists>it b t''. InsertLoop P k0 v0 n t' u v h mode (SegmentId t' h) = Some (it, b, t'') \<and> insert_ok P t' u k v mode it b t''"
      using t' reg nk h Suc.prems(5,7) rf(1) room_entries [OF t'(3), of P h D]
      by (intro Suc.IH) (auto simp: all_regular_def)
    then show ?thesis
      unfolding InsertLoop_full [OF d sid Full(1), of k0 v0 n] t'(1) insert_ok_entries [OF t'(3)] by simp
  qed
qed simp

lemma InsertInternal_spec:
  assumes "table_inv P t" "all_regular P t" "newkey P u k" "room P t (HashView P u) D" "D < fuel"
  shows "\<exists>it b t'. InsertInternal P k0 v0 fuel t u v mode = Some (it, b, t') \<and> insert_ok P t u k v mode it b t'"
  unfolding InsertInternal_def Let_def
  using assms by (intro InsertLoop_spec [OF assms(1-3) refl assms(4) refl]) auto

end
