(* ===== verification/Dash_Erase.thy ===== *)
theory Dash_Erase
  imports Dash_Insert
begin

text \<open>
  Deletion from the table. \<open>Erase\<close> destroys the key and the value in their slot before the segment
  releases the slot, so for a moment the segment holds a busy slot with destroyed contents. Since
  \<open>Segment::Delete\<close> reads neither keys nor values, the result is the one of a deletion followed
  by an overwrite of a free slot.
\<close>

subsection \<open>Overwriting the contents of a slot\<close>

definition wipe :: "('k, 'v) Bucket \<Rightarrow> nat \<Rightarrow> 'k \<Rightarrow> 'v \<Rightarrow> ('k, 'v) Bucket" where
  "wipe b i k v = b\<lparr>key := (key b)[i := k], value := (value b)[i := v]\<rparr>"

definition seg_wipe :: "('k, 'v) Segment \<Rightarrow> SegIterator \<Rightarrow> 'k \<Rightarrow> 'v \<Rightarrow> ('k, 'v) Segment" where
  "seg_wipe s it k v = upd s (index it) (wipe (GetBucket s (index it)) (slot it) k v)"

lemma wipe_base [simp]:
  "slotb (wipe b i k v) = slotb b" "finger_arr (wipe b i k v) = finger_arr b" "stash_arr (wipe b i k v) = stash_arr b"
  "stash_busy (wipe b i k v) = stash_busy b" "stash_pos (wipe b i k v) = stash_pos b"
  "stash_probe_mask (wipe b i k v) = stash_probe_mask b" "overflow_count (wipe b i k v) = overflow_count b"
  "key (wipe b i k v) = (key b)[i := k]" "value (wipe b i k v) = (value b)[i := v]"
  by (simp_all add: wipe_def)

lemma wipe_wf: "bucket_wf (wipe b i k v) = bucket_wf b"
  by (simp add: bucket_wf_def base_wf_def)

lemma wipe_ptrs: "ptrs (wipe b i k v) pr = ptrs b pr" "HasStash (wipe b i k v) = HasStash b"
  by (simp_all add: ptrs_def ptr_slots_def ptr_of_def [abs_def] stash_pos_at_def HasStash_def)

lemma wipe_slots:
  assumes "\<not> busy b i"
  shows "slots (wipe b i k v) = slots b"
proof -
  have eq: "busy_slots (wipe b i k v) = busy_slots b" by (simp add: busy_slots_def)
  have "slot_of (wipe b i k v) j = slot_of b j" if "j \<in># mset (busy_slots b)" for j
    using that assms by (cases "j = i") (auto simp: slot_of_def busy_slots_def)
  then show ?thesis unfolding slots_def eq by (rule image_mset_cong)
qed

lemma Delete_wipe: "Delete (wipe b i k v) j = map_option (\<lambda>b. wipe b i k v) (Delete b j)"
  by (cases "ClearSlot (slotb b) j") (simp_all add: Delete_def wipe_def)

lemma seg_wipe_simps [simp]:
  "length (bucket_arr (seg_wipe s it k v)) = length (bucket_arr s)" "local_depth (seg_wipe s it k v) = local_depth s"
  "segment_id (seg_wipe s it k v) = segment_id s"
  by (simp_all add: seg_wipe_def)

lemma GetBucket_wipe:
  "seg_len s \<Longrightarrow> index it < kTotalBuckets \<Longrightarrow> GetBucket (seg_wipe s it k v) i =
     (if i = index it then wipe (GetBucket s i) (slot it) k v else GetBucket s i)"
  by (auto simp: seg_wipe_def upd_def)

lemma upd_wipe_swap:
  "index it \<noteq> i \<Longrightarrow> upd (seg_wipe s it k v) i b = seg_wipe (upd s i b) it k v"
  by (auto simp: seg_wipe_def upd_def list_update_swap)

lemma RemoveStashReference_wipe:
  assumes "seg_len s" "index it < kTotalBuckets" "kBucketNum \<le> index it"
  shows "RemoveStashReference (seg_wipe s it k v) p h = map_option (\<lambda>s. seg_wipe s it k v) (RemoveStashReference s p h)"
proof -
  have ne: "index it \<noteq> HomeIndex h" "index it \<noteq> NextBid (HomeIndex h)"
    using assms(3) HomeIndex_lt [of h] NextBid_lt [of "HomeIndex h"] by linarith+
  show ?thesis
    unfolding RemoveStashReference_def Let_def GetBucket_wipe [OF assms(1,2)]
    using ne by (auto simp: upd_wipe_swap split: bind_splits option.splits)
qed

lemma Segment_Delete_wipe:
  assumes "seg_len s" "index it < kTotalBuckets"
  shows "Segment_Delete (seg_wipe s it k v) it h = map_option (\<lambda>s. seg_wipe s it k v) (Segment_Delete s it h)"
proof -
  have del: "(do { b \<leftarrow> Delete (GetBucket (seg_wipe s1 it k v) (index it)) (slot it); Some (upd (seg_wipe s1 it k v) (index it) b) }) =
    map_option (\<lambda>s. seg_wipe s it k v) (do { b \<leftarrow> Delete (GetBucket s1 (index it)) (slot it); Some (upd s1 (index it) b) })"
    if "seg_len s1" for s1 :: "('a, 'b) Segment"
    using that assms(2) unfolding GetBucket_wipe [OF that assms(2)]
    by (cases "Delete (GetBucket s1 (index it)) (slot it)") (simp_all add: Delete_wipe seg_wipe_def upd_def)
  show ?thesis
  proof (cases "kBucketNum \<le> index it")
    case True
    have len: "seg_len s1" if "RemoveStashReference s p h = Some s1" for s1 p
      using that assms(1) by (auto simp: RemoveStashReference_def Let_def split: bind_splits)
    show ?thesis
      using True del len
      by (cases "RemoveStashReference s (index it - kBucketNum) h"; cases "found it")
        (simp_all add: Segment_Delete_def RemoveStashReference_wipe [OF assms True])
  qed (cases "found it"; simp add: Segment_Delete_def del assms(1))
qed

lemma Segment_Delete_free:
  assumes "Segment_Delete s it h = Some s'" "seg_len s" "index it < kTotalBuckets"
  shows "\<not> busy (GetBucket s' (index it)) (slot it)" "seg_len s'"
proof -
  obtain s1 b where s1: "(if kBucketNum \<le> index it then RemoveStashReference s (index it - kBucketNum) h else Some s) = Some s1"
    "Delete (GetBucket s1 (index it)) (slot it) = Some b" "s' = upd s1 (index it) b"
    using assms(1) by (auto simp: Segment_Delete_def split: bind_splits)
  have len: "seg_len s1"
    using s1(1) assms(2) by (auto simp: RemoveStashReference_def Let_def split: if_splits bind_splits)
  have "\<not> busy b (slot it)"
    using s1(2) by (auto simp: Delete_def ClearSlot_def sb_ClearSlots_def bit_simps split: bind_splits)
  then show "\<not> busy (GetBucket s' (index it)) (slot it)" "seg_len s'"
    using len assms(3) by (simp_all add: s1(3) upd_def)
qed

lemma wipe_free:
  assumes len: "seg_len s" and i: "index it < kTotalBuckets" and free: "\<not> busy (GetBucket s (index it)) (slot it)"
  shows "seg_inv P (seg_wipe s it k v) = seg_inv P s" "seg_entries (seg_wipe s it k v) = seg_entries s"
proof -
  let ?s = "seg_wipe s it k v"
  note get = GetBucket_wipe [OF len i]
  have sl: "slots (GetBucket ?s j) = slots (GetBucket s j)" for j using free by (simp add: get wipe_slots)
  show "seg_entries ?s = seg_entries s"
    unfolding seg_entries_def by (rule arg_cong [where f = "image_mset entry_of"], rule seg_slots_cong) (simp_all add: len sl)
  have "bucket_wf (GetBucket ?s j) = bucket_wf (GetBucket s j)" for j by (simp add: get wipe_wf)
  then have sh: "seg_shape P ?s = seg_shape P s" by (simp add: seg_shape_def sl)
  have "ptrs (GetBucket ?s j) pr = ptrs (GetBucket s j) pr" "HasStash (GetBucket ?s j) = HasStash (GetBucket s j)"
    "overflow_count (GetBucket ?s j) = overflow_count (GetBucket s j)" for j pr
    by (simp_all add: get wipe_ptrs)
  moreover have "stash_entries P ?s c = stash_entries P s c" for c by (rule stash_entries_cong) (rule sl)
  ultimately have "stash_ok P ?s c = stash_ok P s c" for c by (simp add: stash_ok_def stash_ptrs_def)
  with sh show "seg_inv P ?s = seg_inv P s" by (simp add: seg_inv_def)
qed

lemma Segment_Delete_wiped:
  assumes inv: "seg_inv P s" and it: "it_points s it" and h: "HashFn P (it_key s it) = Some h"
  shows "\<exists>s'. Segment_Delete (seg_wipe s it k v) it h = Some s' \<and> deleted P s (it_key s it, it_value s it) s'"
proof -
  obtain s1 where s1: "Segment_Delete s it h = Some s1" "deleted P s (it_key s it, it_value s it) s1"
    using Segment_Delete_spec [OF assms] by blast
  have i: "seg_len s" "index it < kTotalBuckets" using seg_shapeD(1) [OF seg_invD(1) [OF inv]] it by (auto simp: it_points_def)
  note free = Segment_Delete_free [OF s1(1) i]
  have "deleted P s (it_key s it, it_value s it) (seg_wipe s1 it k v)"
    using s1(2) wipe_free(1) [OF free(2) i(2) free(1), where P = P] wipe_free(2) [OF free(2) i(2) free(1)]
    by (simp add: deleted_def)
  then show ?thesis by (simp add: Segment_Delete_wipe [OF i] s1(1))
qed

subsection \<open>Erasing an entry of the table\<close>

abbreviation seg_it :: "TableIterator \<Rightarrow> SegIterator" where
  "seg_it it \<equiv> \<lparr>index = bucket_id it, slot = slot_id it\<rparr>"

lemma set_first_second:
  assumes "dir_ok t" "seg_id it < length (segment_dir t)" "bucket_id it < length (bucket_arr (get_seg t (seg_id it)))"
  shows "set_second (set_first t it k) it v =
    put_seg t (segment_dir t ! seg_id it) (seg_wipe (get_seg t (seg_id it)) (seg_it it) k v)"
proof -
  have "segment_dir t ! seg_id it < length (store t)" using assms dir_okD(2,3) by metis
  then show ?thesis
    using assms(3) by (simp add: set_first_def set_second_def Let_def put_seg_def seg_wipe_def upd_def wipe_def get_seg_def)
qed

lemma tit_content:
  assumes "tit_points t it"
  shows "it_first t it = Some (tit_key t it)" "it_second t it = Some (tit_value t it)"
  using assms by (simp_all add: tit_points_def it_first_def it_second_def Segment_Key_def Segment_Value_def it_points_def
    Segment_IsBusy_def IsBusy_iff kSlotNum_def tit_key_def tit_value_def it_key_def it_value_def)

text \<open>The table after the segment of index \<open>sid\<close> lost an entry.\<close>

lemma deleted_table:
  assumes inv: "table_inv P t" and lt: "sid < length (segment_dir t)" and del: "deleted P (get_seg t sid) e s'"
    and a: "a = segment_dir t ! sid" and n: "n = table_size t - 1"
  shows "table_inv P ((put_seg t a s')\<lparr>table_size := n\<rparr>)"
    "tb_entries t = add_mset e (tb_entries ((put_seg t a s')\<lparr>table_size := n\<rparr>))"
proof -
  note d = table_invD(1) [OF inv] and so = table_invD(2) [OF inv]
  have sid: "sid < 2 ^ global_depth t" using lt dir_okD(2) [OF d] by simp
  have al: "a < length (store t)" "a \<in> set (segment_dir t)" using dir_okD(3) [OF d sid] lt a by auto
  have s': "seg_inv P s'" "seg_entries (get_seg t sid) = add_mset e (seg_entries s')" "local_depth s' = local_depth (get_seg t sid)"
    using del by (auto simp: deleted_def)
  have pre: "prefix (local_depth s') (khash P (fst x)) = sid div chunk t sid" if "x \<in># seg_entries s'" for x
    using table_invD(5) [OF inv sid, of x] that s'(2,3) by simp
  note ok = put_seg_ok [OF d so sid a s'(1,3) pre]
  have ent: "tb_entries t = add_mset e (tb_entries (put_seg t a s'))"
    using tb_entries_put [OF al(2,1), of s'] s'(2) a by (simp add: get_seg_def)
  then show "tb_entries t = add_mset e (tb_entries ((put_seg t a s')\<lparr>table_size := n\<rparr>))" by simp
  show "table_inv P ((put_seg t a s')\<lparr>table_size := n\<rparr>)"
    using ok table_invD(3) [OF inv] ent n by (simp add: table_inv_def)
qed

lemma Erase_step:
  assumes inv: "table_inv P t" and it: "tit_points t it" and h: "HashFn P (tit_key t it) = Some h"
    and t1: "t1 = set_second (set_first t it k) it v"
  shows "\<exists>s'. Segment_Delete (get_seg t1 (seg_id it)) (seg_it it) h = Some s' \<and>
    table_inv P ((put_seg t1 (segment_dir t ! seg_id it) s')\<lparr>table_size := table_size t - 1\<rparr>) \<and>
    tb_entries t = add_mset (tit_key t it, tit_value t it)
      (tb_entries ((put_seg t1 (segment_dir t ! seg_id it) s')\<lparr>table_size := table_size t - 1\<rparr>))"
proof -
  note d = table_invD(1) [OF inv]
  let ?a = "segment_dir t ! seg_id it" let ?s = "get_seg t (seg_id it)"
  have lt: "seg_id it < length (segment_dir t)" "it_points ?s (seg_it it)" using it by (auto simp: tit_points_def)
  have sid: "seg_id it < 2 ^ global_depth t" using lt(1) dir_okD(2) [OF d] by simp
  have "bucket_id it < length (bucket_arr ?s)"
    using lt(2) seg_shapeD(1) [OF seg_invD(1) [OF table_invD(4) [OF inv sid]]] by (simp add: it_points_def)
  then have eq: "t1 = put_seg t ?a (seg_wipe ?s (seg_it it) k v)"
    using set_first_second [OF d lt(1)] t1 by simp
  obtain s' where s': "Segment_Delete (seg_wipe ?s (seg_it it) k v) (seg_it it) h = Some s'" "deleted P ?s (tit_key t it, tit_value t it) s'"
    using Segment_Delete_wiped [OF table_invD(4) [OF inv sid] lt(2)] h unfolding tit_key_def tit_value_def by blast
  have "get_seg t1 (seg_id it) = seg_wipe ?s (seg_it it) k v"
    using dir_okD(3) [OF d sid] by (simp add: eq get_seg_put)
  moreover have "put_seg t1 ?a s' = put_seg t ?a s'" by (simp add: eq put_seg_def)
  ultimately show ?thesis using s' deleted_table [OF inv lt(1) s'(2) refl refl] by auto
qed

lemma HashFn_tit:
  assumes inv: "table_inv P t" and it: "tit_points t it"
  shows "HashFn P (tit_key t it) = Some (khash P (tit_key t it))"
proof -
  have "seg_id it < 2 ^ global_depth t" using it dir_okD(2) [OF table_invD(1) [OF inv]] by (simp add: tit_points_def)
  then show ?thesis
    using HashFn_it [OF seg_invD(1) [OF table_invD(4) [OF inv]]] it by (simp add: tit_points_def tit_key_def)
qed

lemma set_seg_simps [simp]:
  "segment_dir (set_first t it k) = segment_dir t" "segment_dir (set_second t it v) = segment_dir t"
  "table_size (set_first t it k) = table_size t" "table_size (set_second t it v) = table_size t"
  by (simp_all add: set_first_def set_second_def Let_def)

lemma Table_Erase_spec:
  assumes inv: "table_inv P t" and it: "tit_points t it"
  shows "\<exists>t'. Table_Erase P t it = Some t' \<and> table_inv P t' \<and>
    tb_entries t = add_mset (tit_key t it, tit_value t it) (tb_entries t')"
  using Erase_step [OF inv it HashFn_tit [OF inv it] refl, of "DestroyKey P (tit_key t it)" "DestroyValue P (tit_value t it)"]
  by (auto simp: Table_Erase_def tit_content [OF it] HashFn_tit [OF inv it] Let_def get_seg_def)

text \<open>Erasing by key: the key object found is erased under the hash of the key given.\<close>

lemma Table_Erase_key_spec:
  assumes inv: "table_inv P t" and hp: "\<forall>k v. (k, v) \<in># tb_entries t \<longrightarrow> pred k \<longrightarrow> khash P k = h"
  shows "\<exists>n t'. Table_Erase_key P t h pred = Some (n, t') \<and> table_inv P t' \<and>
    (if n = 1 then \<exists>e. pred (fst e) \<and> tb_entries t = add_mset e (tb_entries t')
     else n = 0 \<and> t' = t \<and> (\<forall>e \<in># tb_entries t. \<not> pred (fst e)))"
proof (cases "FindFirst t h pred")
  case None
  have "\<not> found (FindIt (get_seg t (SegmentId t h)) h pred)"
    using None by (auto simp: FindFirst_def Let_def split: if_splits)
  moreover have "\<not> pred k" if "(k, v) \<in># tb_entries t" for k v
    using FindFirst_None [OF inv None that] hp that by blast
  ultimately show ?thesis using inv by (auto simp: Table_Erase_key_def Let_def)
next
  case (Some it)
  let ?f = "FindIt (get_seg t (SegmentId t h)) h pred"
  have f: "found ?f" and it: "it = \<lparr>seg_id = SegmentId t h, bucket_id = index ?f, slot_id = slot ?f\<rparr>"
    using Some by (auto simp: FindFirst_def Let_def split: if_splits)
  note p = FindFirst_Some [OF inv Some]
  have "(tit_key t it, tit_value t it) \<in># tb_entries t"
    using Table_Erase_spec [OF inv p(1)] by auto
  then have h: "HashFn P (tit_key t it) = Some h" using HashFn_tit [OF inv p(1)] hp p(2) by auto
  obtain s' where s': "Segment_Delete (get_seg (set_second (set_first t it (DestroyKey P (tit_key t it))) it (DestroyValue P (tit_value t it))) (seg_id it)) (seg_it it) h = Some s'"
    "table_inv P ((put_seg (set_second (set_first t it (DestroyKey P (tit_key t it))) it (DestroyValue P (tit_value t it))) (segment_dir t ! seg_id it) s')\<lparr>table_size := table_size t - 1\<rparr>)"
    "tb_entries t = add_mset (tit_key t it, tit_value t it) (tb_entries ((put_seg (set_second (set_first t it (DestroyKey P (tit_key t it))) it (DestroyValue P (tit_value t it))) (segment_dir t ! seg_id it) s')\<lparr>table_size := table_size t - 1\<rparr>))"
    using Erase_step [OF inv p(1) h refl] by blast
  have "Table_Erase_key P t h pred = Some (1, (put_seg (set_second (set_first t it (DestroyKey P (tit_key t it))) it (DestroyValue P (tit_value t it))) (segment_dir t ! seg_id it) s')\<lparr>table_size := table_size t - 1\<rparr>)"
    using f s'(1) tit_content [OF p(1)] unfolding Table_Erase_key_def Let_def it [symmetric]
    by (simp add: it)
  then show ?thesis using s'(2,3) p(2) by fastforce
qed

end
