(* ===== verification/Dash_Walk.thy ===== *)
theory Dash_Walk
  imports Dash_Erase
begin

text \<open>
  Walks over the table: the distinct segments in directory order (\<open>NextSeg\<close>, \<open>IterateDistinct\<close>),
  construction and clearing, the iterator and the cursor traversal.
\<close>

subsection \<open>The distinct segments\<close>

definition aligned :: "('k, 'v) DashTable \<Rightarrow> nat \<Rightarrow> bool" where
  "aligned t i \<longleftrightarrow> i < 2 ^ global_depth t \<longrightarrow> chunk t i dvd i"

definition seg_addrs :: "('k, 'v) DashTable \<Rightarrow> nat \<Rightarrow> nat list" where
  "seg_addrs t i = map (\<lambda>j. segment_dir t ! j) (seg_walk t i)"

lemma NextSeg_chunk: "NextSeg t i = i + chunk t i"
  by (simp add: NextSeg_def chunk_def)

lemma chunk_pos [simp]: "0 < chunk t i"
  by (simp add: chunk_def)

lemma aligned_0 [simp]: "aligned t 0"
  by (simp add: aligned_def)

lemma div_same_block: "(c :: nat) dvd i \<Longrightarrow> i \<le> j \<Longrightarrow> j < i + c \<Longrightarrow> j div c = i div c"
  by (elim dvdE) (auto intro!: div_nat_eqI simp: algebra_simps)

lemma div_next_block: "(c :: nat) dvd i \<Longrightarrow> 0 < c \<Longrightarrow> i + c \<le> j \<Longrightarrow> j div c \<noteq> i div c"
  by (elim dvdE) (auto simp: div_eq_dividend_iff less_mult_imp_div_less dest: div_le_mono [of _ j c])

lemma aligned_block:
  assumes d: "dir_ok t" and a: "aligned t i" "i < 2 ^ global_depth t" and j: "i \<le> j" "j < 2 ^ global_depth t"
  shows "segment_dir t ! j = segment_dir t ! i \<longleftrightarrow> j < NextSeg t i"
proof -
  have dv: "chunk t i dvd i" using a by (simp add: aligned_def)
  have "segment_dir t ! i = segment_dir t ! j \<longleftrightarrow> i div chunk t i = j div chunk t i"
    using dir_okD(6) [OF d a(2) j(2)] .
  also have "\<dots> \<longleftrightarrow> j < i + chunk t i"
    using div_same_block [OF dv j(1)] div_next_block [OF dv chunk_pos, of j] by (metis not_less)
  finally show ?thesis by (auto simp: NextSeg_chunk)
qed

lemma aligned_Next:
  assumes d: "dir_ok t" and a: "aligned t i" "i < 2 ^ global_depth t"
  shows "aligned t (NextSeg t i)"
  unfolding aligned_def
proof (intro impI)
  let ?j = "NextSeg t i"
  assume j: "?j < 2 ^ global_depth t"
  let ?c = "chunk t ?j" let ?s = "?j div ?c * ?c"
  have sle: "?s \<le> ?j" by simp
  have own: "segment_dir t ! ?j = segment_dir t ! x" if "?s \<le> x" "x \<le> ?j" for x
  proof -
    have "?c dvd ?s" by simp
    moreover have "x < ?s + ?c" using that(2) dividend_less_div_times [of ?c ?j] by (simp add: add.commute)
    ultimately have "x div ?c = ?s div ?c" using that(1) by (intro div_same_block)
    then show ?thesis using dir_okD(6) [OF d j, of x] that(2) j by simp
  qed
  have ne: "segment_dir t ! ?j \<noteq> segment_dir t ! i"
    using aligned_block [OF d a(1,2) less_imp_le [OF NextSeg_gt] j] by simp
  have "?s = ?j"
  proof (rule ccontr)
    assume "?s \<noteq> ?j"
    then have lt: "?s < ?j" using sle le_neq_implies_less by blast
    show False
    proof (cases "i \<le> ?s")
      case True
      have "segment_dir t ! ?s = segment_dir t ! i"
        using aligned_block [OF d a True] lt j by simp
      then show False using own [of ?s] sle ne by simp
    next
      case False
      then show False using own [of i] less_imp_le [OF NextSeg_gt [of i t]] ne by simp
    qed
  qed
  then show "?c dvd ?j" by (metis dvd_triv_right)
qed

lemma seg_walk_Cons: "i < length (segment_dir t) \<Longrightarrow> seg_walk t i = i # seg_walk t (NextSeg t i)"
  by (subst seg_walk.simps) simp

lemma seg_walk_Nil: "length (segment_dir t) \<le> i \<Longrightarrow> seg_walk t i = []"
  by (subst seg_walk.simps) simp

lemma seg_walk_props:
  assumes "dir_ok t" "aligned t i"
  shows "(\<forall>j \<in> set (seg_walk t i). i \<le> j \<and> j < 2 ^ global_depth t \<and> aligned t j) \<and>
    distinct (seg_addrs t i) \<and> set (seg_addrs t i) = (\<lambda>j. segment_dir t ! j) ` {i..<2 ^ global_depth t}"
  using assms
proof (induction t i rule: seg_walk.induct)
  case (1 t i)
  note d = "1.prems"(1) and a = "1.prems"(2)
  note len = dir_okD(2) [OF d]
  let ?n = "2 ^ global_depth t" let ?f = "\<lambda>j. segment_dir t ! j"
  show ?case
  proof (cases "i < ?n")
    case False
    then show ?thesis using seg_walk_Nil [of t i] len by (auto simp: seg_addrs_def)
  next
    case True
    have IH: "(\<forall>j \<in> set (seg_walk t (NextSeg t i)). NextSeg t i \<le> j \<and> j < ?n \<and> aligned t j) \<and>
      distinct (seg_addrs t (NextSeg t i)) \<and> set (seg_addrs t (NextSeg t i)) = ?f ` {NextSeg t i..<?n}"
      using "1.IH" True len d aligned_Next [OF d a True] by simp
    have w: "seg_walk t i = i # seg_walk t (NextSeg t i)" "seg_addrs t i = ?f i # seg_addrs t (NextSeg t i)"
      using seg_walk_Cons [of i t] True len by (simp_all add: seg_addrs_def)
    note block = aligned_block [OF d a True]
    have "?f j \<noteq> ?f i" if "NextSeg t i \<le> j" "j < ?n" for j
      using block [of j] NextSeg_gt [of i t] that by simp
    then have "?f i \<notin> ?f ` {NextSeg t i..<?n}" by force
    moreover have "?f ` {i..<?n} = insert (?f i) (?f ` {NextSeg t i..<?n})"
    proof
      show "?f ` {i..<?n} \<subseteq> insert (?f i) (?f ` {NextSeg t i..<?n})"
      proof (rule image_subsetI)
        fix j assume "j \<in> {i..<?n}"
        then show "?f j \<in> insert (?f i) (?f ` {NextSeg t i..<?n})" using block [of j] by (cases "j < NextSeg t i") auto
      qed
      show "insert (?f i) (?f ` {NextSeg t i..<?n}) \<subseteq> ?f ` {i..<?n}" using True NextSeg_gt [of i t] by auto
    qed
    ultimately show ?thesis using IH a True NextSeg_gt [of i t] unfolding w by auto
  qed
qed

lemma seg_addrs_0:
  assumes "dir_ok t"
  shows "distinct (seg_addrs t 0)" "set (seg_addrs t 0) = set (segment_dir t)"
proof -
  have "(\<lambda>j. segment_dir t ! j) ` {0..<2 ^ global_depth t} = set (segment_dir t)"
    using dir_okD(2) [OF assms] by (metis map_nth set_map set_upt)
  then show "distinct (seg_addrs t 0)" "set (seg_addrs t 0) = set (segment_dir t)"
    using seg_walk_props [OF assms aligned_0] by auto
qed

lemma tb_entries_walk:
  assumes "dir_ok t"
  shows "tb_entries t = (\<Sum>i \<leftarrow> seg_walk t 0. seg_entries (get_seg t i))"
proof -
  have "tb_entries t = (\<Sum>a \<leftarrow> seg_addrs t 0. seg_entries (store t ! a))"
    unfolding tb_entries_def seg_addrs_0(2) [OF assms, symmetric]
    by (rule sum.distinct_set_conv_list [OF seg_addrs_0(1) [OF assms]])
  then show ?thesis by (simp add: seg_addrs_def comp_def get_seg_def)
qed

subsection \<open>Construction\<close>

lemma DashTable_init_eq:
  "DashTable_init k0 v0 c = \<lparr>store = map (Segment_init k0 v0 c) [0..<2 ^ c], segment_dir = [0..<2 ^ c], table_size = 0,
     unique_segments = 2 ^ c, bucket_count = 2 ^ c * 60, initial_depth = c, global_depth = c\<rparr>"
proof -
  let ?n = "2 ^ c :: nat"
  let ?t0 = "\<lparr>store = [], segment_dir = replicate ?n 0, table_size = 0, unique_segments = ?n, bucket_count = 0,
     initial_depth = c, global_depth = c\<rparr> :: ('a, 'b) DashTable"
  let ?f = "\<lambda>t i. let (a, t) = ConstructSegment k0 v0 t (global_depth t) i in t\<lparr>segment_dir := (segment_dir t)[i := a]\<rparr>"
  have "foldl ?f ?t0 [0..<m] = ?t0\<lparr>store := map (Segment_init k0 v0 c) [0..<m], segment_dir := [0..<m] @ replicate (?n - m) 0,
      bucket_count := m * 60\<rparr>" if "m \<le> ?n" for m
    using that
  proof (induction m)
    case (Suc m)
    have "replicate (?n - m) (0 :: nat) = 0 # replicate (?n - Suc m) 0"
      using Suc.prems by (metis Suc_diff_Suc Suc_le_lessD replicate_Suc)
    then have "([0..<m] @ replicate (?n - m) 0)[m := m] = [0..<Suc m] @ replicate (?n - Suc m) 0"
      by (simp add: list_update_append)
    then show ?case using Suc
      by (simp add: ConstructSegment_def Let_def num_buckets_def kBucketNum_def kStashBucketNum_def)
  qed simp
  from this [of ?n] show ?thesis by (simp add: DashTable_init_def Let_def)
qed

lemma DashTable_init_spec:
  assumes "c \<le> 31"
  shows "table_inv P (DashTable_init k0 v0 c)" "tb_entries (DashTable_init k0 v0 c) = {#}"
    "global_depth (DashTable_init k0 v0 c) = c" "initial_depth (DashTable_init k0 v0 c) = c"
proof -
  let ?t = "DashTable_init k0 v0 c"
  have get: "get_seg ?t i = Segment_init k0 v0 c i" if "i < 2 ^ c" for i
    using that by (simp add: DashTable_init_eq get_seg_def)
  have ld: "local_depth (Segment_init k0 v0 c i) = c" for i by (simp add: Segment_init_def)
  show d: "global_depth ?t = c" "initial_depth ?t = c" by (simp_all add: DashTable_init_eq)
  have "dir_ok ?t"
    unfolding dir_ok_def using assms by (auto simp: d get ld chunk_def) (simp_all add: DashTable_init_eq)
  moreover have "segs_ok P ?t"
    unfolding segs_ok_def by (auto simp: d get Segment_init_inv)
  moreover show e: "tb_entries ?t = {#}"
    unfolding tb_entries_def by (rule sum.neutral) (auto simp: DashTable_init_eq Segment_init_inv)
  ultimately show "table_inv P ?t" by (simp add: table_inv_def e) (simp add: DashTable_init_eq)
qed

subsection \<open>Clearing\<close>

definition same_base :: "('k, 'v) Segment \<Rightarrow> ('k, 'v) Segment \<Rightarrow> bool" where
  "same_base s s' \<longleftrightarrow> length (bucket_arr s') = length (bucket_arr s) \<and> local_depth s' = local_depth s \<and>
     (\<forall>i < length (bucket_arr s). BucketBase.truncate (GetBucket s' i) = BucketBase.truncate (GetBucket s i) \<and>
        length (key (GetBucket s' i)) = length (key (GetBucket s i)) \<and>
        length (value (GetBucket s' i)) = length (value (GetBucket s i)))"

lemma same_base_busy:
  assumes "same_base s s'" "i < length (bucket_arr s)"
  shows "slotb (GetBucket s' i) = slotb (GetBucket s i)" "bucket_wf (GetBucket s' i) = bucket_wf (GetBucket s i)"
proof -
  have "BucketBase.truncate (GetBucket s' i) = BucketBase.truncate (GetBucket s i)"
    and l: "length (key (GetBucket s' i)) = length (key (GetBucket s i))" "length (value (GetBucket s' i)) = length (value (GetBucket s i))"
    using assms by (auto simp: same_base_def)
  then show "slotb (GetBucket s' i) = slotb (GetBucket s i)" "bucket_wf (GetBucket s' i) = bucket_wf (GetBucket s i)"
    unfolding bucket_wf_def base_wf_def l by (simp_all add: BucketBase.truncate_def)
qed

lemma same_base_wipe:
  assumes "same_base s s'" shows "same_base s (seg_wipe s' it k v)"
proof (cases "index it < length (bucket_arr s')")
  case True
  then show ?thesis using assms
    by (auto simp: same_base_def seg_wipe_def upd_def nth_list_update wipe_def BucketBase.truncate_def)
next
  case False
  then have "seg_wipe s' it k v = s'" by (simp add: seg_wipe_def upd_def list_update_beyond)
  with assms show ?thesis by simp
qed

lemma Destroy_cb_eq:
  assumes "same_base s s'" "seg_len s" "it_points s it"
  shows "Destroy_cb P it s' = Some (seg_wipe s' it (DestroyKey P (it_key s' it)) (DestroyValue P (it_value s' it)))"
proof -
  have l: "index it < length (bucket_arr s')" "index it < length (bucket_arr s)"
    using assms by (auto simp: same_base_def it_points_def)
  then have b: "busy (GetBucket s' (index it)) (slot it)"
    using same_base_busy(1) [OF assms(1) l(2)] assms(3) by (simp add: it_points_def)
  have s: "slot it < 32" using assms(3) by (simp add: it_points_def kSlotNum_def)
  show ?thesis
    using b l(1) by (simp add: Destroy_cb_def Segment_Key_def Segment_Value_def Segment_IsBusy_def Let_def IsBusy_iff [OF s]
      seg_wipe_def wipe_def upd_def it_key_def it_value_def)
qed

lemma Destroy_all:
  assumes "seg_shape P s"
  shows "\<exists>s'. TraverseAll s (Destroy_cb Q) s = Some s' \<and> same_base s s'"
  unfolding TraverseAll_its [OF assms]
proof (rule foldM_rule [where I = "\<lambda>_. same_base s"])
  show "same_base s s" by (simp add: same_base_def)
  fix ys x s' assume s': "same_base s s'" and "\<exists>zs. ys @ x # zs = seg_its s"
  then have "it_points s x" using in_seg_its [OF assms] by (metis in_set_conv_decomp)
  then show "\<exists>s1. Destroy_cb Q x s' = Some s1 \<and> same_base s s1"
    using Destroy_cb_eq [OF s' seg_shapeD(1) [OF assms], of x Q] same_base_wipe [OF s', of x] by auto
qed

lemma Segment_Clear_base:
  assumes "same_base s s'" "seg_shape P s"
  shows "seg_inv Q (Segment_Clear s')" "seg_entries (Segment_Clear s') = {#}" "local_depth (Segment_Clear s') = local_depth s"
proof -
  have wf: "bucket_wf (ClearStashPtrs (Clear b))" if "bucket_wf b" for b :: "('a, 'b) Bucket"
    using that by (simp add: bucket_wf_def base_wf_def ClearStashPtrs_def Clear_def sb_Clear_def sb_wf_def)
  have l: "length (bucket_arr s) = kTotalBuckets" "length (bucket_arr s') = kTotalBuckets"
    using assms(1) seg_shapeD(1) [OF assms(2)] by (auto simp: same_base_def)
  have "bucket_wf (GetBucket s' i)" if "i < kTotalBuckets" for i
    using same_base_busy(2) [OF assms(1)] l that seg_shapeD(2) [OF assms(2)] by simp
  then show "seg_inv Q (Segment_Clear s')" "seg_entries (Segment_Clear s') = {#}"
    using l by (intro empty_segment_inv; auto simp: Segment_Clear_def wf; simp add: Clear_def ClearStashPtrs_def sb_Clear_def)+
  show "local_depth (Segment_Clear s') = local_depth s" using assms(1) by (simp add: same_base_def Segment_Clear_def)
qed

text \<open>After the clearing of the segments \<open>A\<close> of \<open>t0\<close>.\<close>

definition cleared_segs :: "('k, 'v, 'u) Policy \<Rightarrow> ('k, 'v) DashTable \<Rightarrow> nat set \<Rightarrow> ('k, 'v) DashTable \<Rightarrow> bool" where
  "cleared_segs P t0 A t \<longleftrightarrow> segment_dir t = segment_dir t0 \<and> global_depth t = global_depth t0 \<and>
     initial_depth t = initial_depth t0 \<and> length (store t) = length (store t0) \<and>
     (\<forall>a < length (store t0). local_depth (store t ! a) = local_depth (store t0 ! a)) \<and>
     (\<forall>a. a \<notin> A \<longrightarrow> store t ! a = store t0 ! a) \<and>
     (\<forall>a \<in> A. seg_inv P (store t ! a) \<and> seg_entries (store t ! a) = {#})"

lemma IterateDistinct_Clear:
  assumes inv: "table_inv P t0"
  shows "\<exists>t. IterateDistinct (Clear_cb P) t0 = Some t \<and> cleared_segs P t0 (set (segment_dir t0)) t"
proof -
  note d = table_invD(1) [OF inv]
  have "\<exists>t. foldM (Clear_cb P) (seg_addrs t0 0) t0 = Some t \<and> cleared_segs P t0 (set (seg_addrs t0 0)) t"
  proof (rule foldM_rule [where I = "\<lambda>ys. cleared_segs P t0 (set ys)"])
    show "cleared_segs P t0 (set []) t0" by (simp add: cleared_segs_def)
    fix ys a t assume t: "cleared_segs P t0 (set ys) t" and "\<exists>zs. ys @ a # zs = seg_addrs t0 0"
    then obtain zs where zs: "seg_addrs t0 0 = ys @ a # zs" by metis
    have a: "a \<notin> set ys" "a \<in> set (segment_dir t0)"
      using seg_addrs_0(1) [OF d] unfolding seg_addrs_0(2) [OF d, symmetric] zs by auto
    then obtain i where i: "i < 2 ^ global_depth t0" "a = segment_dir t0 ! i"
      using dir_okD(2) [OF d] by (auto simp: in_set_conv_nth)
    have same: "store t ! a = store t0 ! a" "a < length (store t)" using t a(1) dir_okD(3) [OF d i(1)] i(2) by (auto simp: cleared_segs_def)
    have sh: "seg_shape P (store t0 ! a)" using seg_invD(1) [OF table_invD(4) [OF inv i(1)]] i(2) by (simp add: get_seg_def)
    obtain s where s: "TraverseAll (store t ! a) (Destroy_cb P) (store t ! a) = Some s" "same_base (store t0 ! a) s"
      using Destroy_all [OF sh, of P] same by auto
    note c = Segment_Clear_base [OF s(2) sh]
    have "cleared_segs P t0 (set (ys @ [a])) (put_seg t a (Segment_Clear s))"
      using t same c by (auto simp: cleared_segs_def put_seg_def nth_list_update)
    then show "\<exists>t'. Clear_cb P a t = Some t' \<and> cleared_segs P t0 (set (ys @ [a])) t'"
      using s(1) by (simp add: Clear_cb_def)
  qed
  then show ?thesis unfolding IterateDistinct_def seg_addrs_def [symmetric] seg_addrs_0(2) [OF d] .
qed

text \<open>The shrinking loop keeps the first \<open>new_size\<close> segments. It writes the directory while it reads
  it, but never at a place that is still to be read.\<close>

definition clear_post :: "nat \<Rightarrow> ('k, 'v) DashTable \<Rightarrow> ('k, 'v) DashTable \<Rightarrow> nat list \<Rightarrow> nat \<Rightarrow> ('k, 'v) DashTable \<Rightarrow> bool" where
  "clear_post new_size t0 t addrs dest t' \<longleftrightarrow> (let A = take (new_size - dest) addrs in
     take dest (segment_dir t') = take dest (segment_dir t) \<and> length (segment_dir t') = length (segment_dir t0) \<and>
     (\<forall>j < length A. segment_dir t' ! (dest + j) = A ! j) \<and>
     (\<forall>a. store t' ! a = (if a \<in> set A then (store t0 ! a)\<lparr>local_depth := initial_depth t0\<rparr> else store t ! a)) \<and>
     global_depth t' = global_depth t0 \<and> initial_depth t' = initial_depth t0 \<and> table_size t' = table_size t \<and>
     length (store t') = length (store t0))"

lemma clear_post_step:
  assumes "dest < new_size" "dest < length (segment_dir t)" "a < length (store t)" "a \<notin> set addrs"
    and "store t ! a = store t0 ! a" "initial_depth t = initial_depth t0"
    and p: "clear_post new_size t0 ((put_seg t a ((store t ! a)\<lparr>local_depth := initial_depth t\<rparr>))
        \<lparr>bucket_count := c, segment_dir := (segment_dir t)[dest := a]\<rparr>) addrs (Suc dest) t'" (is "clear_post _ _ ?t _ _ _")
  shows "clear_post new_size t0 t (a # addrs) dest t'"
proof -
  let ?A = "take (new_size - Suc dest) addrs"
  have A: "take (new_size - dest) (a # addrs) = a # ?A" using assms(1) by (metis Suc_diff_Suc take_Suc_Cons)
  have td: "take (Suc dest) (segment_dir t') = take (Suc dest) ((segment_dir t)[dest := a])"
    using p by (simp add: clear_post_def Let_def)
  have "take dest (take (Suc dest) (segment_dir t')) = take dest (segment_dir t)" unfolding td by simp
  then have 1: "take dest (segment_dir t') = take dest (segment_dir t)" by simp
  have "take (Suc dest) (segment_dir t') ! dest = a" unfolding td using assms(2) by simp
  then have d: "segment_dir t' ! dest = a" by simp
  have 2: "segment_dir t' ! (dest + j) = (a # ?A) ! j" if "j < length (a # ?A)" for j
    using that p d by (cases j) (auto simp: clear_post_def Let_def)
  have 3: "store t' ! b = (if b \<in> set (a # ?A) then (store t0 ! b)\<lparr>local_depth := initial_depth t0\<rparr> else store t ! b)" for b
  proof -
    have "a \<notin> set ?A" using assms(4) by (meson in_set_takeD)
    moreover have "store t' ! b = (if b \<in> set ?A then (store t0 ! b)\<lparr>local_depth := initial_depth t0\<rparr> else store ?t ! b)"
      using p by (simp add: clear_post_def Let_def)
    ultimately show ?thesis using assms(3,5,6) by (cases "b = a") (simp_all add: put_seg_def)
  qed
  from p 1 2 3 show ?thesis unfolding clear_post_def A Let_def by simp
qed

lemma Clear_loop_spec:
  assumes "dir_ok t0" "aligned t0 src" "length (segment_dir t) = length (segment_dir t0)"
    "\<forall>i \<ge> src. segment_dir t ! i = segment_dir t0 ! i"
    "\<forall>i \<ge> src. i < 2 ^ global_depth t0 \<longrightarrow> store t ! (segment_dir t0 ! i) = store t0 ! (segment_dir t0 ! i)"
    "dest \<le> src" "global_depth t = global_depth t0" "initial_depth t = initial_depth t0" "length (store t) = length (store t0)"
  shows "clear_post new_size t0 t (seg_addrs t0 src) dest (Clear_loop new_size t src dest)"
  using assms
proof (induction new_size t src dest rule: Clear_loop.induct)
  case (1 new_size t src dest)
  note d = "1.prems"(1) and al = "1.prems"(2)
  note len = dir_okD(2) [OF d]
  show ?case
  proof (cases "src < 2 ^ global_depth t0")
    case False
    then have "seg_addrs t0 src = []" using seg_walk_Nil [of t0 src] len by (simp add: seg_addrs_def)
    moreover have "Clear_loop new_size t src dest = t"
      using False "1.prems"(3) len by (subst Clear_loop.simps) simp
    ultimately show ?thesis using "1.prems" by (simp add: clear_post_def Let_def)
  next
    case True
    let ?a = "segment_dir t0 ! src" let ?n = "NextSeg t0 src"
    have a: "segment_dir t ! src = ?a" "store t ! ?a = store t0 ! ?a" using "1.prems"(4,5) True by auto
    have n: "NextSeg t src = ?n" using a "1.prems"(7) by (simp add: NextSeg_def get_seg_def)
    have w: "seg_addrs t0 src = ?a # seg_addrs t0 ?n" using seg_walk_Cons [of src t0] True len by (simp add: seg_addrs_def)
    have lt: "src < length (segment_dir t)" using True "1.prems"(3) len by simp
    have al': "aligned t0 ?n" by (rule aligned_Next [OF d al True])
    have gt: "src < ?n" by (rule NextSeg_gt)
    have tail: "?a \<notin> set (seg_addrs t0 ?n)" using seg_walk_props [OF d al] unfolding w by simp
    have later: "segment_dir t0 ! i \<noteq> ?a" if "?n \<le> i" "i < 2 ^ global_depth t0" for i
      using aligned_block [OF d al True _ that(2)] that(1) gt by simp
    have keep: "(store t)[?a := x] ! (segment_dir t0 ! i) = store t0 ! (segment_dir t0 ! i)"
      if "?n \<le> i" "i < 2 ^ global_depth t0" for i x
      using later [OF that] "1.prems"(5) that gt by (simp add: nth_list_update)
    have an: "?a < length (store t)" using dir_okD(3) [OF d True] "1.prems"(9) by simp
    show ?thesis
    proof (cases "dest < new_size")
      case False
      have "clear_post new_size t0 t (seg_addrs t0 (NextSeg t src)) dest (Clear_loop new_size t (NextSeg t src) dest)"
        by (rule "1.IH"(2) [OF lt refl refl False])
          (use "1.prems" gt al' n in \<open>simp_all\<close>)
      moreover have "Clear_loop new_size t src dest = Clear_loop new_size t (NextSeg t src) dest"
        using lt False by (subst Clear_loop.simps) (simp add: Let_def)
      ultimately show ?thesis using False unfolding w by (simp add: clear_post_def n)
    next
      case True
      let ?t = "(put_seg t ?a ((store t ! ?a)\<lparr>local_depth := initial_depth t\<rparr>))
        \<lparr>bucket_count := bucket_count t + num_buckets (store t ! ?a), segment_dir := (segment_dir t)[dest := ?a]\<rparr>"
      have "Clear_loop new_size t src dest = Clear_loop new_size ?t ?n (Suc dest)"
        using lt n True a by (subst Clear_loop.simps) (simp add: Let_def)
      moreover have "clear_post new_size t0 ?t (seg_addrs t0 (NextSeg t src)) (Suc dest) (Clear_loop new_size ?t (NextSeg t src) (Suc dest))"
        unfolding a(1) [symmetric]
        by (rule "1.IH"(1) [OF lt refl refl True, unfolded Let_def])
          (use "1.prems" gt al' n a keep an in \<open>simp_all add: put_seg_def\<close>)
      ultimately show ?thesis
        unfolding w n using clear_post_step [OF True _ an tail a(2) "1.prems"(8)] "1.prems"(6) lt by auto
    qed
  qed
qed

lemma seg_walk_length:
  assumes "dir_ok t" "aligned t i"
  shows "2 ^ global_depth t - i \<le> length (seg_walk t i) * 2 ^ (global_depth t - initial_depth t)"
  using assms
proof (induction t i rule: seg_walk.induct)
  case (1 t i)
  note d = "1.prems"(1) and len = dir_okD(2) [OF "1.prems"(1)]
  let ?c = "2 ^ (global_depth t - initial_depth t) :: nat"
  show ?case
  proof (cases "i < 2 ^ global_depth t")
    case True
    have "2 ^ global_depth t - NextSeg t i \<le> length (seg_walk t (NextSeg t i)) * ?c"
      using "1.IH" True len d aligned_Next [OF d "1.prems"(2) True] by simp
    moreover have "chunk t i \<le> ?c"
      unfolding chunk_def using dir_okD(5) [OF d True] by (intro power_increasing) auto
    ultimately show ?thesis using seg_walk_Cons [of i t] True len by (simp add: NextSeg_chunk)
  qed simp
qed

lemma cleared_segs_table:
  assumes inv: "table_inv P t0" and c: "cleared_segs P t0 (set (segment_dir t0)) t"
  shows "dir_ok t" "segs_ok P t" "tb_entries t = {#}"
proof -
  note d = table_invD(1) [OF inv]
  have same: "segment_dir t = segment_dir t0" "global_depth t = global_depth t0" "initial_depth t = initial_depth t0"
    "length (store t) = length (store t0)" using c by (auto simp: cleared_segs_def)
  have ld: "local_depth (get_seg t i) = local_depth (get_seg t0 i)" if "i < 2 ^ global_depth t0" for i
    using c dir_okD(3) [OF d that] by (simp add: cleared_segs_def get_seg_def)
  have ch: "chunk t i = chunk t0 i" if "i < 2 ^ global_depth t0" for i using ld [OF that] by (simp add: chunk_def same)
  show "dir_ok t" unfolding dir_ok_def same using d by (simp add: dir_ok_def ld ch)
  have e: "seg_inv P (get_seg t i)" "seg_entries (get_seg t i) = {#}" if "i < 2 ^ global_depth t" for i
    using c that dir_okD(2) [OF d] by (simp_all add: cleared_segs_def get_seg_def)
  then show "segs_ok P t" by (simp add: segs_ok_def)
  show "tb_entries t = {#}" unfolding tb_entries_def by (rule sum.neutral) (use c in \<open>simp add: cleared_segs_def same\<close>)
qed

lemma dir_ok_addr: "dir_ok t \<Longrightarrow> a \<in> set (segment_dir t) \<Longrightarrow> a < length (store t)"
  using dir_okD(2,3) [of t] by (auto simp: in_set_conv_nth)

lemma seg_addrs_enough:
  assumes d: "dir_ok t" and le: "initial_depth t \<le> global_depth t"
  shows "2 ^ initial_depth t \<le> length (seg_addrs t 0)"
proof -
  let ?c = "2 ^ (global_depth t - initial_depth t) :: nat"
  have "2 ^ initial_depth t * ?c = 2 ^ global_depth t" using le by (simp flip: power_add)
  also have "\<dots> \<le> length (seg_addrs t 0) * ?c"
    using seg_walk_length [OF d aligned_0] by (simp add: seg_addrs_def)
  finally show ?thesis by simp
qed

text \<open>The table of the first \<open>2 ^ initial_depth\<close> segments of a table of empty segments.\<close>

lemma shrunk_table:
  assumes d: "dir_ok t" and lt: "initial_depth t < global_depth t"
    and e: "\<forall>a \<in> set (segment_dir t). seg_inv P (store t ! a) \<and> seg_entries (store t ! a) = {#}"
    and p: "clear_post (2 ^ initial_depth t) t t (seg_addrs t 0) 0 t2"
    and t': "t' = t2\<lparr>global_depth := initial_depth t2, unique_segments := u, segment_dir := take (2 ^ initial_depth t) (segment_dir t2)\<rparr>"
  shows "dir_ok t' \<and> segs_ok P t' \<and> tb_entries t' = {#} \<and> global_depth t' = initial_depth t \<and>
    initial_depth t' = initial_depth t \<and> table_size t' = table_size t"
proof -
  let ?i = "initial_depth t" let ?n = "2 ^ ?i :: nat" let ?A = "take ?n (seg_addrs t 0)"
  have lenA: "length ?A = ?n" using seg_addrs_enough [OF d] lt by simp
  have len: "length (segment_dir t') = ?n"
    using p t' dir_okD(2) [OF d] lt by (simp add: clear_post_def Let_def min_def)
  have g: "global_depth t' = ?i" "initial_depth t' = ?i" "table_size t' = table_size t" "length (store t') = length (store t)"
    using p t' by (simp_all add: clear_post_def Let_def)
  have dir: "segment_dir t' ! j = ?A ! j" if "j < ?n" for j
    using p t' that lenA by (simp add: clear_post_def Let_def)
  have distA: "distinct ?A" "set ?A \<subseteq> set (segment_dir t)"
    using seg_addrs_0 [OF d] set_take_subset [of ?n "seg_addrs t 0"] by auto
  have mem: "?A ! j \<in> set ?A" if "j < ?n" for j using that lenA by (metis nth_mem)
  have get: "get_seg t' j = (store t ! (?A ! j))\<lparr>local_depth := ?i\<rparr>" if "j < ?n" for j
    using p t' mem [OF that] dir [OF that] by (simp add: get_seg_def clear_post_def Let_def)
  have seg: "seg_inv P (get_seg t' j) \<and> seg_entries (get_seg t' j) = {#}" if "j < ?n" for j
  proof -
    have "?A ! j \<in> set (segment_dir t)" using mem [OF that] distA(2) by blast
    then show ?thesis
      using e same_arr(1,2) [of "(store t ! (?A ! j))\<lparr>local_depth := ?i\<rparr>" "store t ! (?A ! j)"] get [OF that] by simp
  qed
  have ch: "chunk t' j = 1" if "j < ?n" for j using get [OF that] g by (simp add: chunk_def)
  have ok: "dir_ok t'"
    unfolding dir_ok_def g
  proof (intro conjI allI impI)
    show "?i \<le> 31" using lt dir_okD(1) [OF d] by simp
    show "length (segment_dir t') = 2 ^ ?i" by (rule len)
    fix i :: nat assume i: "i < 2 ^ ?i"
    show "segment_dir t' ! i < length (store t)" using dir_ok_addr [OF d] mem [OF i] distA(2) dir [OF i] by auto
    show "?i \<le> local_depth (get_seg t' i)" "local_depth (get_seg t' i) \<le> ?i" using get [OF i] by simp_all
    fix j :: nat assume j: "j < 2 ^ ?i"
    show "(segment_dir t' ! i = segment_dir t' ! j) = (i div chunk t' i = j div chunk t' i)"
      unfolding dir [OF i] dir [OF j] ch [OF i] using nth_eq_iff_index_eq [OF distA(1)] i j lenA by simp
  qed
  have "segs_ok P t'" using seg by (simp add: segs_ok_def g)
  moreover have "x \<notin># tb_entries t'" for x using in_tb_entries [OF ok, of x] seg g by auto
  then have "tb_entries t' = {#}" by (metis multiset_nonemptyE)
  ultimately show ?thesis using ok g by simp
qed

lemma Table_Clear_spec:
  assumes inv: "table_inv P t0"
  shows "\<exists>t'. Table_Clear P t0 = Some t' \<and> table_inv P t' \<and> tb_entries t' = {#} \<and>
    global_depth t' = initial_depth t0 \<and> initial_depth t' = initial_depth t0"
proof -
  obtain t1 where t1: "IterateDistinct (Clear_cb P) t0 = Some t1" "cleared_segs P t0 (set (segment_dir t0)) t1"
    using IterateDistinct_Clear [OF inv] by blast
  note c = cleared_segs_table [OF inv t1(2)]
  have same: "global_depth t1 = global_depth t0" "initial_depth t1 = initial_depth t0" "segment_dir t1 = segment_dir t0"
    using t1(2) by (auto simp: cleared_segs_def)
  have le: "initial_depth t0 \<le> global_depth t0" using dir_okD(4,5) [OF table_invD(1) [OF inv], of 0] by simp
  show ?thesis
  proof (cases "initial_depth t0 < global_depth t0")
    case False
    then show ?thesis using t1(1) c le same by (simp add: Table_Clear_def Let_def table_inv_def)
  next
    case True
    let ?t = "t1\<lparr>table_size := 0, bucket_count := 0\<rparr>" let ?n = "2 ^ initial_depth t0 :: nat"
    define t2 where "t2 = Clear_loop ?n ?t 0 0"
    define t' where "t' = t2\<lparr>global_depth := initial_depth t2, unique_segments := ?n, segment_dir := take ?n (segment_dir t2)\<rparr>"
    have d: "dir_ok ?t" using c(1) by simp
    have "clear_post ?n ?t ?t (seg_addrs ?t 0) 0 t2" unfolding t2_def using d by (intro Clear_loop_spec) simp_all
    moreover have "\<forall>a \<in> set (segment_dir ?t). seg_inv P (store ?t ! a) \<and> seg_entries (store ?t ! a) = {#}"
      using t1(2) same by (simp add: cleared_segs_def)
    ultimately have "dir_ok t' \<and> segs_ok P t' \<and> tb_entries t' = {#} \<and> global_depth t' = initial_depth ?t \<and>
      initial_depth t' = initial_depth ?t \<and> table_size t' = table_size ?t"
      using True same by (intro shrunk_table [OF d, where u = ?n and ?t2.0 = t2]) (simp_all add: t'_def)
    moreover have "Table_Clear P t0 = Some t'" using t1(1) True same by (simp add: Table_Clear_def Let_def t2_def t'_def)
    ultimately show ?thesis using same by (simp add: table_inv_def)
  qed
qed

end
