(* ===== verification/Dash_Iter.thy ===== *)
theory Dash_Iter
  imports Dash_Walk
begin

text \<open>
  Iteration over the table. The iterator visits every entry once, in directory order. The cursor
  traversal visits every entry once too, also when the callback erases the entry it is called on:
  it walks the logical buckets, and a callback leaves the slots that are still to come as they are.
\<close>

subsection \<open>The iterator\<close>

definition tit :: "nat \<Rightarrow> SegIterator \<Rightarrow> TableIterator" where
  "tit sid it = \<lparr>seg_id = sid, bucket_id = index it, slot_id = slot it\<rparr>"

definition tit_entry :: "('k, 'v) DashTable \<Rightarrow> TableIterator \<Rightarrow> 'k \<times> 'v" where
  "tit_entry t it = (tit_key t it, tit_value t it)"

text \<open>The loop \<open>for (it = begin(); !it.is_done(); ++it)\<close>, as the list of its iterators.\<close>

fun run_its :: "('k, 'v) DashTable \<Rightarrow> nat \<Rightarrow> TableIterator option \<Rightarrow> TableIterator list option" where
  "run_its t n None = Some []"
| "run_its t 0 (Some it) = None"
| "run_its t (Suc n) (Some it) = do { nx \<leftarrow> it_next t it; its \<leftarrow> run_its t n nx; Some (it # its) }"

definition walk_its :: "('k, 'v) DashTable \<Rightarrow> nat \<Rightarrow> TableIterator list" where
  "walk_its t sid = concat (map (\<lambda>i. map (tit i) (seg_its (get_seg t i))) (seg_walk t sid))"

definition its_from :: "('k, 'v) DashTable \<Rightarrow> nat \<Rightarrow> SegIterator \<Rightarrow> TableIterator list" where
  "its_from t sid p = map (tit sid) (filter (it_le p) (seg_its (get_seg t sid))) @ walk_its t (NextSeg t sid)"

definition it_lt :: "SegIterator \<Rightarrow> SegIterator \<Rightarrow> bool" where
  "it_lt a b \<longleftrightarrow> index a < index b \<or> index a = index b \<and> slot a < slot b"

lemma it_le_Suc: "it_le \<lparr>index = index r, slot = Suc (slot r)\<rparr> = it_lt r"
  by (rule ext) (auto simp: it_le_def it_lt_def)

lemma sorted_bucket_its: "sorted_wrt it_lt (bucket_its s i)"
proof -
  have "sorted_wrt (<) (busy_slots (GetBucket s i))" unfolding busy_slots_def by (rule sorted_wrt_filter) simp
  then show ?thesis by (simp add: bucket_its_def sorted_wrt_map it_lt_def)
qed

lemma sorted_seg_its: "sorted_wrt it_lt (seg_its s)"
proof -
  have "sorted_wrt it_lt (concat (map (bucket_its s) xs))" if "sorted_wrt (<) xs" for xs
    using that
  proof (induction xs)
    case (Cons x xs)
    have "it_lt a b" if "a \<in> set (bucket_its s x)" "b \<in> set (bucket_its s y)" "y \<in> set xs" for a b y
      using Cons.prems that by (auto simp: it_lt_def dest!: bucket_its_index)
    then show ?case using Cons by (auto simp: sorted_wrt_append sorted_bucket_its)
  qed simp
  then show ?thesis unfolding seg_its_def by simp
qed

lemma filter_sorted_step:
  assumes "sorted_wrt it_lt xs" "r \<in> set xs" "it_le p r" "\<And>x. x \<in> set xs \<Longrightarrow> it_le p x \<Longrightarrow> it_le r x"
  shows "filter (it_le p) xs = r # filter (it_lt r) xs"
  using assms
proof (induction xs)
  case (Cons x xs)
  have asym: "it_lt a b \<Longrightarrow> \<not> it_le b a" "\<not> it_lt a a" "it_lt a b \<Longrightarrow> it_le a b" for a b by (auto simp: it_lt_def it_le_def)
  show ?case
  proof (cases "x = r")
    case True
    then have gt: "\<forall>y \<in> set xs. it_lt r y" using Cons.prems(1) by simp
    moreover have "it_le p y" if "it_lt r y" for y using that Cons.prems(3) by (auto simp: it_lt_def it_le_def)
    ultimately have "filter (it_le p) xs = xs" "filter (it_lt r) xs = xs" by (simp_all add: filter_id_conv)
    then show ?thesis using True Cons.prems(3) asym(2) by simp
  next
    case False
    then have r: "r \<in> set xs" "it_lt x r" using Cons.prems(1,2) by auto
    then have "\<not> it_le p x" using Cons.prems(4) [of x] asym(1) by auto
    moreover have "\<not> it_lt r x" using r(2) asym(1,3) by blast
    ultimately show ?thesis using Cons r by simp
  qed
qed simp

lemma FindValid_filter:
  assumes sh: "seg_shape P s" and b: "index p \<le> kTotalBuckets"
  shows "(let r = FindValidStartingFrom s (index p) (slot p) in
    if found r then filter (it_le p) (seg_its s) = r # filter (it_lt r) (seg_its s) else filter (it_le p) (seg_its s) = [])"
proof -
  let ?r = "FindValidStartingFrom s (index p) (slot p)"
  have spec: "if found ?r then it_points s ?r \<and> it_le p ?r \<and> (\<forall>it. it_points s it \<and> it_le p it \<longrightarrow> it_le ?r it)
      else (\<forall>it. it_points s it \<longrightarrow> \<not> it_le p it)"
    using FindValidStartingFrom_spec [OF sh b, of "slot p"] unfolding Let_def SegIterator_eta .
  show ?thesis
  proof (cases "found ?r")
    case True
    then show ?thesis
      using spec in_seg_its [OF sh] filter_sorted_step [OF sorted_seg_its, of ?r s p] by (simp add: Let_def)
  next
    case False
    then show ?thesis using spec in_seg_its [OF sh] by (auto simp: Let_def filter_empty_conv)
  qed
qed

lemma Seek_loop_spec:
  assumes "table_inv P t" "aligned t sid" "bid \<le> kTotalBuckets" "sid < 2 ^ global_depth t"
  shows "Seek_loop t sid bid sl = (case its_from t sid \<lparr>index = bid, slot = sl\<rparr> of [] \<Rightarrow> None | x # _ \<Rightarrow> Some x)"
  using assms
proof (induction t sid bid sl rule: Seek_loop.induct)
  case (1 t sid bid sl)
  note d = table_invD(1) [OF "1.prems"(1)]
  have lt: "sid < length (segment_dir t)" using "1.prems"(4) dir_okD(2) [OF d] by simp
  let ?s = "get_seg t sid" let ?r = "FindValidStartingFrom ?s bid sl" let ?p = "\<lparr>index = bid, slot = sl\<rparr>"
  have sh: "seg_shape P ?s" using seg_invD(1) [OF table_invD(4) [OF "1.prems"(1,4)]] .
  have f: "if found ?r then filter (it_le ?p) (seg_its ?s) = ?r # filter (it_lt ?r) (seg_its ?s) else filter (it_le ?p) (seg_its ?s) = []"
    using FindValid_filter [OF sh, of ?p] "1.prems"(3) by (simp add: Let_def)
  show ?case
  proof (cases "found ?r")
    case True
    then show ?thesis using f lt by (subst Seek_loop.simps) (simp add: Let_def its_from_def tit_def)
  next
    case False
    let ?n = "NextSeg t sid"
    have step: "Seek_loop t sid bid sl = Seek_loop t ?n 0 0" using False lt by (subst Seek_loop.simps) (simp add: Let_def)
    have fr: "its_from t sid ?p = walk_its t ?n" using f False by (simp add: its_from_def)
    show ?thesis
    proof (cases "?n < 2 ^ global_depth t")
      case True
      have all: "filter (it_le \<lparr>index = 0, slot = 0\<rparr>) xs = xs" for xs by (auto simp: it_le_def filter_id_conv)
      have "walk_its t ?n = its_from t ?n \<lparr>index = 0, slot = 0\<rparr>"
        using seg_walk_Cons [of ?n t] True dir_okD(2) [OF d] by (simp add: walk_its_def its_from_def all)
      then show ?thesis
        unfolding step fr using "1.IH" [OF lt refl False "1.prems"(1) aligned_Next [OF d "1.prems"(2,4)]] True by simp
    next
      case n: False
      then have "walk_its t ?n = []" using seg_walk_Nil [of t ?n] dir_okD(2) [OF d] by (simp add: walk_its_def)
      moreover have "Seek_loop t ?n 0 0 = None" using n dir_okD(2) [OF d] by (subst Seek_loop.simps) simp
      ultimately show ?thesis unfolding step fr by simp
    qed
  qed
qed

text \<open>The rest of the iteration after its first element.\<close>

lemma its_from_step:
  assumes inv: "table_inv P t" and a: "aligned t sid" "sid < 2 ^ global_depth t" and b: "index p \<le> kTotalBuckets"
    and x: "its_from t sid p = x # xs"
  shows "tit_points t x \<and> aligned t (seg_id x) \<and> xs = its_from t (seg_id x) \<lparr>index = bucket_id x, slot = Suc (slot_id x)\<rparr>"
proof -
  note d = table_invD(1) [OF inv]
  have le0: "filter (it_le \<lparr>index = 0, slot = 0\<rparr>) ys = ys" for ys by (auto simp: it_le_def filter_id_conv)
  have head: "tit_points t x \<and> aligned t (seg_id x) \<and> xs = its_from t (seg_id x) \<lparr>index = bucket_id x, slot = Suc (slot_id x)\<rparr>"
    if sid: "aligned t i" "i < 2 ^ global_depth t" and p: "index p \<le> kTotalBuckets"
      and f: "filter (it_le p) (seg_its (get_seg t i)) = y # ys" and x: "its_from t i p = x # xs" for i p y ys
  proof -
    note sh = seg_invD(1) [OF table_invD(4) [OF inv sid(2)]]
    have "y # ys = y # filter (it_lt y) (seg_its (get_seg t i))"
      using FindValid_filter [OF sh p] f by (auto simp: Let_def split: if_splits)
    moreover have "it_points (get_seg t i) y"
      using f in_seg_its [OF sh] by (metis filter_eq_ConsD in_set_conv_decomp)
    ultimately show ?thesis
      using f x sid dir_okD(2) [OF d] by (auto simp: its_from_def tit_def tit_points_def it_le_Suc)
  qed
  show ?thesis
    using a b x
  proof (induction "2 ^ global_depth t - sid" arbitrary: sid p rule: less_induct)
    case less
    show ?case
    proof (cases "filter (it_le p) (seg_its (get_seg t sid))")
      case (Cons y ys)
      then show ?thesis using head less.prems by blast
    next
      case Nil
      let ?n = "NextSeg t sid"
      have w: "walk_its t ?n = x # xs" using Nil less.prems(4) by (simp add: its_from_def)
      have n: "?n < 2 ^ global_depth t"
      proof (rule ccontr)
        assume "\<not> ?n < 2 ^ global_depth t"
        then have "walk_its t ?n = []" using seg_walk_Nil [of t ?n] dir_okD(2) [OF d] by (simp add: walk_its_def)
        then show False using w by simp
      qed
      then have "its_from t ?n \<lparr>index = 0, slot = 0\<rparr> = x # xs"
        using w seg_walk_Cons [of ?n t] dir_okD(2) [OF d] by (simp add: walk_its_def its_from_def le0)
      moreover have "2 ^ global_depth t - ?n < 2 ^ global_depth t - sid"
        using NextSeg_gt [of sid t] less.prems(2) by linarith
      ultimately show ?thesis
        using less.hyps [OF _ aligned_Next [OF d less.prems(1,2)] n, of "\<lparr>index = 0, slot = 0\<rparr>"] by simp
    qed
  qed
qed

lemma run_its_spec:
  assumes inv: "table_inv P t"
  shows "aligned t sid \<Longrightarrow> sid < 2 ^ global_depth t \<Longrightarrow> bid \<le> kTotalBuckets \<Longrightarrow>
    length (its_from t sid \<lparr>index = bid, slot = sl\<rparr>) \<le> n \<Longrightarrow>
    run_its t n (Seek_loop t sid bid sl) = Some (its_from t sid \<lparr>index = bid, slot = sl\<rparr>)"
proof (induction n arbitrary: sid bid sl)
  case 0
  then show ?case using Seek_loop_spec [OF inv 0(1,3,2), of sl] by simp
next
  case (Suc n)
  note seek = Seek_loop_spec [OF inv Suc.prems(1,3,2), of sl]
  show ?case
  proof (cases "its_from t sid \<lparr>index = bid, slot = sl\<rparr>")
    case Nil
    then show ?thesis using seek by simp
  next
    case (Cons x xs)
    have st: "tit_points t x" "aligned t (seg_id x)" "xs = its_from t (seg_id x) \<lparr>index = bucket_id x, slot = Suc (slot_id x)\<rparr>"
      using its_from_step [OF inv Suc.prems(1,2) _ Cons] Suc.prems(3) by simp_all
    have lt: "seg_id x < length (segment_dir t)" "bucket_id x \<le> kTotalBuckets"
      using st(1) by (auto simp: tit_points_def it_points_def)
    then have "run_its t n (Seek_loop t (seg_id x) (bucket_id x) (Suc (slot_id x))) = Some xs"
      using Suc.IH [OF st(2) _ lt(2), of "Suc (slot_id x)"] st(3) Cons Suc.prems(4) dir_okD(2) [OF table_invD(1) [OF inv]] by simp
    then show ?thesis
      using seek Cons lt(1) by (simp add: it_next_def it_plus_def Seek2Occupied_def)
  qed
qed

lemma tit_entry_tit: "tit_entry t (tit i it) = it_entry (get_seg t i) it"
  by (simp add: tit_entry_def tit_def tit_key_def tit_value_def it_entry_def it_key_def it_value_def)

lemma walk_its_entries:
  assumes inv: "table_inv P t"
  shows "image_mset (tit_entry t) (mset (walk_its t 0)) = tb_entries t"
proof -
  note d = table_invD(1) [OF inv]
  have "image_mset (tit_entry t) (mset (map (tit i) (seg_its (get_seg t i)))) = seg_entries (get_seg t i)"
    if "i \<in> set (seg_walk t 0)" for i
  proof -
    have "i < 2 ^ global_depth t" using seg_walk_props [OF d aligned_0] that by blast
    then have "seg_len (get_seg t i)" using seg_shapeD(1) [OF seg_invD(1) [OF table_invD(4) [OF inv]]] by simp
    then show ?thesis unfolding mset_map multiset.map_comp comp_def tit_entry_tit by (rule seg_its_entries)
  qed
  then show ?thesis
    unfolding tb_entries_walk [OF d] walk_its_def mset_concat_map image_entry_sum
    by (intro arg_cong [where f = sum_list] map_cong) auto
qed

lemma iteration_spec:
  assumes inv: "table_inv P t"
  shows "\<exists>b. Table_begin t = Some b \<and> run_its t (table_size t) b = Some (walk_its t 0)"
proof -
  have all: "filter (it_le \<lparr>index = 0, slot = 0\<rparr>) xs = xs" for xs by (auto simp: it_le_def filter_id_conv)
  have len: "0 < length (segment_dir t)" using dir_okD(2) [OF table_invD(1) [OF inv]] by simp
  then have fr: "its_from t 0 \<lparr>index = 0, slot = 0\<rparr> = walk_its t 0"
    using seg_walk_Cons [of 0 t] by (simp add: its_from_def walk_its_def all)
  have "length (walk_its t 0) = table_size t"
    using arg_cong [OF walk_its_entries [OF inv], of size] table_invD(3) [OF inv] by simp
  then have "run_its t (table_size t) (Seek_loop t 0 0 0) = Some (walk_its t 0)"
    using run_its_spec [OF inv aligned_0, of 0 0 "table_size t"] fr by simp
  then show ?thesis using len by (simp add: Table_begin_def Seek2Occupied_def)
qed

subsection \<open>The cursor\<close>

lemma or_nat_add: "b < 2 ^ n \<Longrightarrow> (s * 2 ^ n) OR b = s * 2 ^ n + (b :: nat)"
proof (induction n arbitrary: b)
  case (Suc n)
  have "b div 2 < 2 ^ n" using Suc.prems by simp
  then have "s * 2 ^ n OR b div 2 = s * 2 ^ n + b div 2" by (rule Suc.IH)
  moreover have "s * 2 ^ Suc n div 2 = s * 2 ^ n" by simp
  moreover have "of_bool (odd b) + 2 * (b div 2) = b" by (simp add: mod_2_eq_odd [symmetric])
  ultimately show ?case by (subst or_nat_rec) simp
qed simp

lemma unat_push_or:
  assumes "n + m \<le> 64" "s < 2 ^ m" "b < 2 ^ n"
  shows "unat ((push_bit n (of_nat s) :: u64) OR of_nat b) = s * 2 ^ n + b"
proof -
  have s64: "s * 2 ^ n < 2 ^ 64"
  proof -
    have "s * 2 ^ n < 2 ^ m * 2 ^ n" using assms(2) by simp
    also have "(2 :: nat) ^ m * 2 ^ n \<le> 2 ^ 64" unfolding power_add [symmetric] using assms(1) by (intro power_increasing) auto
    finally show ?thesis .
  qed
  have eq: "(push_bit n (of_nat s) :: u64) = of_nat (s * 2 ^ n)" by (simp add: push_bit_eq_mult)
  have b64: "b < 2 ^ 64" using assms(1,3) by (meson le_add1 le_trans less_le_trans one_le_numeral power_increasing)
  have u: "unat (of_nat x :: u64) = x" if "x < 2 ^ 64" for x using that by (simp add: unsigned_of_nat take_bit_nat_eq_self)
  have "unat ((push_bit n (of_nat s) :: u64) OR of_nat b) = (s * 2 ^ n) OR b"
    unfolding eq unsigned_or_eq u [OF s64] u [OF b64] ..
  also have "\<dots> = s * 2 ^ n + b" by (rule or_nat_add [OF assms(3)])
  finally show ?thesis .
qed

lemma cursor_roundtrip:
  assumes "d \<le> 31" "sid < 2 ^ d" "bid < kBucketNum"
  shows "cursor_segment_id (DashCursor d sid bid) d = sid" "cursor_bucket_id (DashCursor d sid bid) = bid"
    "DashCursor d sid bid = 0 \<longleftrightarrow> sid = 0 \<and> bid = 0"
proof -
  have b: "bid < 256" "bid < 2 ^ (40 - d)"
  proof -
    show "bid < 256" using assms(3) by (simp add: kBucketNum_def)
    have "(2 :: nat) ^ 9 \<le> 2 ^ (40 - d)" using assms(1) by (intro power_increasing) auto
    then show "bid < 2 ^ (40 - d)" using assms(3) by (simp add: kBucketNum_def)
  qed
  have u: "unat (DashCursor d sid bid) = sid * 2 ^ (40 - d) + bid"
    unfolding DashCursor_def using assms b by (intro unat_push_or [where m = d]) auto
  have "(2 :: nat) ^ d \<le> 2 ^ 31" using assms(1) by (intro power_increasing) auto
  then have s32: "sid < 2 ^ 32" using assms(2) by simp
  show "cursor_segment_id (DashCursor d sid bid) d = sid"
    unfolding cursor_segment_id_def unat_drop_bit_div u using b(2) s32 by simp
  have "unat (DashCursor d sid bid AND 0xFF) = take_bit 8 (unat (DashCursor d sid bid))"
    by (simp add: take_bit_eq_mask unsigned_and_eq mask_eq_exp_minus_1)
  also have "\<dots> = (sid * 2 ^ (40 - d) + bid) mod 256" by (simp add: take_bit_eq_mod u)
  also have "\<dots> = bid"
  proof -
    have "40 - d = 8 + (32 - d)" using assms(1) by simp
    then have "sid * 2 ^ (40 - d) = sid * 2 ^ (32 - d) * 256" by (simp only: power_add) simp
    then show ?thesis using b(1) by (simp only: mod_mult_self3 mod_less)
  qed
  finally show "cursor_bucket_id (DashCursor d sid bid) = bid" by (simp add: cursor_bucket_id_def)
  show "DashCursor d sid bid = 0 \<longleftrightarrow> sid = 0 \<and> bid = 0"
    using u by (metis add_is_0 mult_eq_0_iff power_eq_0_iff unat_eq_zero zero_neq_numeral unsigned_0)
qed

subsection \<open>The traversal\<close>

text \<open>What a callback may do to the table: erase the entry it is called on, or nothing.\<close>

definition touch :: "('k, 'v, 'u) Policy \<Rightarrow> TableIterator \<Rightarrow> ('k, 'v) DashTable \<Rightarrow> ('k, 'v) DashTable \<Rightarrow> bool" where
  "touch P it t t' \<longleftrightarrow> table_inv P t' \<and> segment_dir t' = segment_dir t \<and> global_depth t' = global_depth t \<and>
     (\<forall>i < 2 ^ global_depth t. local_depth (get_seg t' i) = local_depth (get_seg t i)) \<and>
     (\<forall>i \<in> set (seg_walk t 0). \<forall>x. same_slot (get_seg t i) (get_seg t' i) x \<or>
        tit i x = it \<and> \<not> busy (GetBucket (get_seg t' i) (index x)) (slot x))"

text \<open>The table after callbacks on the iterators \<open>V\<close>.\<close>

definition tlive :: "('k, 'v, 'u) Policy \<Rightarrow> ('k, 'v) DashTable \<Rightarrow> TableIterator list \<Rightarrow> ('k, 'v) DashTable \<Rightarrow> bool" where
  "tlive P t0 V t \<longleftrightarrow> table_inv P t \<and> segment_dir t = segment_dir t0 \<and> global_depth t = global_depth t0 \<and>
     (\<forall>i < 2 ^ global_depth t0. local_depth (get_seg t i) = local_depth (get_seg t0 i)) \<and>
     (\<forall>i \<in> set (seg_walk t0 0). \<forall>x. same_slot (get_seg t0 i) (get_seg t i) x \<or>
        tit i x \<in> set V \<and> \<not> busy (GetBucket (get_seg t i) (index x)) (slot x))"

definition tvisiting :: "('k, 'v, 'u) Policy \<Rightarrow> ('k, 'v) DashTable \<Rightarrow> (TableIterator \<Rightarrow> ('k, 'v) DashTable \<times> 's \<Rightarrow> (('k, 'v) DashTable \<times> 's) option)
    \<Rightarrow> (TableIterator list \<Rightarrow> ('k, 'v) DashTable \<times> 's \<Rightarrow> bool) \<Rightarrow> bool" where
  "tvisiting P t0 cb R \<longleftrightarrow> (\<forall>V it u. R V u \<longrightarrow> tlive P t0 V (fst u) \<longrightarrow> it \<in> set (walk_its t0 0) \<longrightarrow> it \<notin> set V \<longrightarrow>
     (\<exists>u'. cb it u = Some u' \<and> R (V @ [it]) u' \<and> touch P it (fst u) (fst u')))"

lemma tit_inj: "tit i x = tit j y \<longleftrightarrow> i = j \<and> x = y"
  by (cases x; cases y) (auto simp: tit_def)

lemma same_slot_trans: "same_slot a b x \<Longrightarrow> same_slot b c x \<Longrightarrow> same_slot a c x"
  by (auto simp: same_slot_def)

lemma seg_walk_cong:
  assumes "segment_dir t' = segment_dir t" "global_depth t' = global_depth t" "dir_ok t"
    "\<forall>i < 2 ^ global_depth t. local_depth (get_seg t' i) = local_depth (get_seg t i)"
  shows "seg_walk t' i = seg_walk t i"
  using assms
proof (induction t i rule: seg_walk.induct)
  case (1 t i)
  have "NextSeg t' i = NextSeg t i" if "i < length (segment_dir t)"
    using that "1.prems" dir_okD(2) [OF "1.prems"(3)] by (simp add: NextSeg_def)
  then show ?case using 1 by (subst (1 2) seg_walk.simps) auto
qed

lemma tlive_walk: "dir_ok t0 \<Longrightarrow> tlive P t0 V t \<Longrightarrow> seg_walk t i = seg_walk t0 i"
  by (rule seg_walk_cong) (auto simp: tlive_def)

lemma tlive_Next:
  assumes "dir_ok t0" "tlive P t0 V t" "i < 2 ^ global_depth t0"
  shows "NextSeg t i = NextSeg t0 i"
  using assms by (simp add: tlive_def NextSeg_def)

lemma tlive_step:
  assumes d: "dir_ok t0" and l: "tlive P t0 V t" and t: "touch P it t t'"
  shows "tlive P t0 (V @ [it]) t'"
proof -
  have w: "seg_walk t 0 = seg_walk t0 0" by (rule tlive_walk [OF d l])
  have "same_slot (get_seg t0 i) (get_seg t' i) x \<or> tit i x \<in> set (V @ [it]) \<and> \<not> busy (GetBucket (get_seg t' i) (index x)) (slot x)"
    if i: "i \<in> set (seg_walk t0 0)" for i x
  proof -
    have 1: "same_slot (get_seg t0 i) (get_seg t i) x \<or> tit i x \<in> set V \<and> \<not> busy (GetBucket (get_seg t i) (index x)) (slot x)"
      using l i unfolding tlive_def by blast
    have 2: "same_slot (get_seg t i) (get_seg t' i) x \<or> tit i x = it \<and> \<not> busy (GetBucket (get_seg t' i) (index x)) (slot x)"
      using t i unfolding touch_def w by blast
    from 1 2 show ?thesis using same_slot_trans [of _ "get_seg t i" x] by (auto simp: same_slot_def)
  qed
  then show ?thesis using l t by (simp add: tlive_def touch_def)
qed

lemma logical_its_same:
  assumes "\<And>x. same_slot s s' x \<or> home P (it_key s x) \<noteq> bid \<and> \<not> busy (GetBucket s' (index x)) (slot x)"
  shows "logical_its P s' bid = logical_its P s bid"
proof -
  let ?m = "\<lambda>j sl. \<lparr>index = j, slot = sl\<rparr>"
  have "filter (\<lambda>it. home P (it_key s' it) = bid) (bucket_its s' j) = filter (\<lambda>it. home P (it_key s it) = bid) (bucket_its s j)" for j
  proof -
    have "busy (GetBucket s' j) i \<and> home P (it_key s' (?m j i)) = bid \<longleftrightarrow> busy (GetBucket s j) i \<and> home P (it_key s (?m j i)) = bid" for i
      using assms [of "?m j i"] by (auto simp: same_slot_def)
    then show ?thesis by (simp add: bucket_its_def busy_slots_def filter_map comp_def conj_commute)
  qed
  then show ?thesis by (simp add: logical_its_def filter_concat comp_def)
qed

text \<open>The positions of the traversal, the iterators of a position, and the positions from one on.\<close>

definition vis :: "('k, 'v, 'u) Policy \<Rightarrow> ('k, 'v) DashTable \<Rightarrow> nat \<times> nat \<Rightarrow> TableIterator list" where
  "vis P t0 p = map (tit (fst p)) (logical_its P (get_seg t0 (fst p)) (snd p))"

definition posn :: "('k, 'v, 'u) Policy \<Rightarrow> ('k, 'v) DashTable \<Rightarrow> TableIterator \<Rightarrow> nat \<times> nat" where
  "posn P t0 x = (seg_id x, home P (tit_key t0 x))"

definition rest :: "('k, 'v) DashTable \<Rightarrow> nat \<Rightarrow> nat \<Rightarrow> (nat \<times> nat) list" where
  "rest t0 sid bid = map (\<lambda>s. (s, bid)) (seg_walk t0 sid) @
     concat (map (\<lambda>b. map (\<lambda>s. (s, b)) (seg_walk t0 0)) [Suc bid..<kBucketNum])"

definition next_pos :: "('k, 'v) DashTable \<Rightarrow> nat \<Rightarrow> nat \<Rightarrow> nat \<times> nat" where
  "next_pos t sid bid = (if NextSeg t sid \<ge> length (segment_dir t) then (0, bid + 1) else (NextSeg t sid, bid))"

lemma rest_Cons:
  assumes "dir_ok t0" "sid < 2 ^ global_depth t0" "bid < kBucketNum"
  shows "rest t0 sid bid = (sid, bid) # (if snd (next_pos t0 sid bid) < kBucketNum
    then rest t0 (fst (next_pos t0 sid bid)) (snd (next_pos t0 sid bid)) else [])"
proof -
  have l: "length (segment_dir t0) = 2 ^ global_depth t0" using dir_okD(2) [OF assms(1)] .
  have w: "seg_walk t0 sid = sid # seg_walk t0 (NextSeg t0 sid)" using seg_walk_Cons [of sid t0] assms(2) l by simp
  show ?thesis
  proof (cases "NextSeg t0 sid \<ge> length (segment_dir t0)")
    case True
    have "[Suc bid..<kBucketNum] = (if Suc bid < kBucketNum then Suc bid # [Suc (Suc bid)..<kBucketNum] else [])"
      by (simp add: upt_rec)
    then show ?thesis using True seg_walk_Nil [OF True] w by (simp add: rest_def next_pos_def)
  next
    case False
    then show ?thesis using w assms(3) by (simp add: rest_def next_pos_def)
  qed
qed

lemma distinct_rest:
  assumes "dir_ok t0" "aligned t0 sid"
  shows "distinct (rest t0 sid bid)"
proof -
  have dw: "distinct (seg_walk t0 i)" if "aligned t0 i" for i
    using seg_walk_props [OF assms(1) that] by (simp add: seg_addrs_def distinct_map)
  have d1: "distinct (map (\<lambda>s. (s, b)) (seg_walk t0 i))" if "aligned t0 i" for b :: nat and i
    using dw [OF that] by (simp add: distinct_map inj_on_def)
  have "distinct (concat (map (\<lambda>b. map (\<lambda>s. (s, b)) (seg_walk t0 0)) bs))" if "distinct bs" for bs :: "nat list"
    using that by (induction bs) (auto simp: d1 [OF aligned_0])
  then show ?thesis unfolding rest_def using d1 [OF assms(2)] by auto
qed

lemma vis_posn:
  assumes inv: "table_inv P t0" and p: "fst p < 2 ^ global_depth t0" "snd p < kBucketNum" and x: "x \<in> set (vis P t0 p)"
  shows "posn P t0 x = p"
proof -
  obtain it where it: "it \<in> set (logical_its P (get_seg t0 (fst p)) (snd p))" "x = tit (fst p) it" using x by (auto simp: vis_def)
  have "home P (it_key (get_seg t0 (fst p)) it) = snd p"
    using it(1) set_logical_its [OF seg_invD(1) [OF table_invD(4) [OF inv p(1)]] p(2)] by simp
  then show ?thesis using it(2) by (cases p) (simp add: posn_def tit_def tit_key_def)
qed

lemma vis_walk:
  assumes inv: "table_inv P t0" and p: "fst p \<in> set (seg_walk t0 0)" "snd p < kBucketNum"
  shows "set (vis P t0 p) \<subseteq> set (walk_its t0 0)"
proof -
  note d = table_invD(1) [OF inv]
  have lt: "fst p < 2 ^ global_depth t0" using seg_walk_props [OF d aligned_0] p(1) by blast
  note sh = seg_invD(1) [OF table_invD(4) [OF inv lt]]
  show ?thesis using p(1) set_logical_its [OF sh p(2)] in_seg_its [OF sh] by (auto simp: vis_def walk_its_def)
qed

lemma Traverse_position:
  fixes st :: "('k, 'v) DashTable \<times> 's"
  assumes inv: "table_inv P t0" and tv: "tvisiting P t0 cb R" and R: "R V st" and l: "tlive P t0 V (fst st)"
    and p: "sid \<in> set (seg_walk t0 0)" "bid < kBucketNum" and V: "\<forall>x \<in> set V. posn P t0 x \<noteq> (sid, bid)"
  shows "\<exists>st'. TraverseLogicalBucket (HashFn P) (\<lambda>st. get_seg (fst st) sid) bid
      (\<lambda>it. cb \<lparr>seg_id = sid, bucket_id = index it, slot_id = slot it\<rparr>) st = Some (vis P t0 (sid, bid) \<noteq> [], st') \<and>
    R (V @ vis P t0 (sid, bid)) st' \<and> tlive P t0 (V @ vis P t0 (sid, bid)) (fst st')"
proof -
  note d = table_invD(1) [OF inv]
  have lt: "sid < 2 ^ global_depth t0" using seg_walk_props [OF d aligned_0] p(1) by blast
  let ?t = "fst st" let ?s = "get_seg ?t sid" let ?g = "\<lambda>st. get_seg (fst st) sid" let ?cb = "\<lambda>it. cb (tit sid it)"
  let ?L = "logical_its P (get_seg t0 sid) bid"
  have slot: "same_slot (get_seg t0 sid) ?s x \<or> tit sid x \<in> set V \<and> \<not> busy (GetBucket ?s (index x)) (slot x)" for x
    using l p(1) unfolding tlive_def by blast
  have L: "logical_its P ?s bid = ?L"
  proof (rule logical_its_same)
    fix x
    have "home P (it_key (get_seg t0 sid) x) \<noteq> bid" if "tit sid x \<in> set V"
      using V that by (auto simp: posn_def tit_def tit_key_def)
    then show "same_slot (get_seg t0 sid) ?s x \<or> home P (it_key (get_seg t0 sid) x) \<noteq> bid \<and> \<not> busy (GetBucket ?s (index x)) (slot x)"
      using slot [of x] by blast
  qed
  have invs: "seg_inv P ?s" using l lt table_invD(4) [of P ?t sid] by (simp add: tlive_def)
  define RR where "RR V' u \<longleftrightarrow> R (V @ map (tit sid) V') u \<and> tlive P t0 (V @ map (tit sid) V') (fst u) \<and> live P ?s V' (?g u)"
    for V' and u :: "('k, 'v) DashTable \<times> 's"
  have step: "\<exists>u'. ?cb it u = Some u' \<and> RR (V' @ [it]) u'" if u: "RR V' u" "it \<in> set ?L" "it \<notin> set V'" for V' it u
  proof -
    have "tit sid it \<in> set (walk_its t0 0)"
      using vis_walk [OF inv, of "(sid, bid)"] p u(2) by (auto simp: vis_def)
    moreover have new: "tit sid it \<notin> set V"
    proof
      assume "tit sid it \<in> set V"
      then have "posn P t0 (tit sid it) \<noteq> (sid, bid)" using V by blast
      moreover have "posn P t0 (tit sid it) = (sid, bid)" using vis_posn [OF inv, of "(sid, bid)"] lt p(2) u(2) by (simp add: vis_def)
      ultimately show False by simp
    qed
    have "tit sid it \<notin> set (V @ map (tit sid) V')" using new u(3) by (auto simp: tit_inj)
    ultimately obtain u' where u': "cb (tit sid it) u = Some u'" "R ((V @ map (tit sid) V') @ [tit sid it]) u'" "touch P (tit sid it) (fst u) (fst u')"
      using tv [unfolded tvisiting_def, rule_format, of "V @ map (tit sid) V'" u "tit sid it"] u(1) unfolding RR_def by blast
    have tl: "tlive P t0 ((V @ map (tit sid) V') @ [tit sid it]) (fst u')"
      using u(1) unfolding RR_def by (intro tlive_step [OF d _ u'(3)]) blast
    have "seg_walk (fst u) 0 = seg_walk t0 0"
      using u(1) unfolding RR_def by (intro tlive_walk [OF d, where P = P and V = "V @ map (tit sid) V'"]) blast
    then have same: "same_slot (?g u) (?g u') x" if "x \<noteq> it" for x
      using u'(3) p(1) that unfolding touch_def by (metis tit_inj)
    have "seg_inv P (?g u')" using tl lt table_invD(4) [of P "fst u'" sid] by (simp add: tlive_def)
    then have "live P ?s (V' @ [it]) (?g u')"
      using u(1) same same_slot_trans [of ?s "?g u"] unfolding RR_def live_def by auto
    then show ?thesis using u' tl by (simp add: RR_def)
  qed
  have v: "visiting P ?g ?s bid ?cb RR"
    unfolding visiting_def L
  proof (intro conjI allI impI)
    show "live P ?s V' (?g u)" if "RR V' u" for V' u using that by (simp add: RR_def)
    show "RR (V' @ [it]) u'" if "RR V' u" "it \<in> set ?L" "it \<notin> set V'" "?cb it u = Some u'" for V' it u u'
      using step [OF that(1-3)] that(4) by auto
  qed
  have R0: "RR [] st" using R l invs by (simp add: RR_def live_def)
  have "\<exists>u. foldM ?cb ?L st = Some u \<and> RR ?L u"
  proof (rule foldM_rule [where I = RR, OF R0])
    fix ys it u assume u: "RR ys u" and "\<exists>zs. ys @ it # zs = ?L"
    then obtain zs where "?L = ys @ it # zs" by metis
    moreover have "distinct ?L" by (rule distinct_logical_its [OF p(2)])
    ultimately show "\<exists>u'. ?cb it u = Some u' \<and> RR (ys @ [it]) u'" using step [OF u, of it] by auto
  qed
  then obtain u where u: "foldM ?cb ?L st = Some u" "RR ?L u" by blast
  have "TraverseLogicalBucket (HashFn P) ?g bid ?cb st = Some (?L \<noteq> [], u)"
    using TraverseLogicalBucket_live [where R = RR, OF invs p(2) v R0 refl] u(1) by (simp add: part_ok_def L)
  then show ?thesis using u(2) by (auto simp: RR_def vis_def tit_def [abs_def])
qed

text \<open>A call of \<open>Traverse\<close> that had the positions \<open>todo\<close> before it: it visits a first part of them, and
  its cursor is zero or stands at the rest.\<close>

definition traversed :: "('k, 'v, 'u) Policy \<Rightarrow> ('k, 'v) DashTable \<Rightarrow> (TableIterator list \<Rightarrow> ('k, 'v) DashTable \<times> 's \<Rightarrow> bool)
    \<Rightarrow> TableIterator list \<Rightarrow> (nat \<times> nat) list \<Rightarrow> (u64 \<times> ('k, 'v) DashTable \<times> 's) option \<Rightarrow> bool" where
  "traversed P t0 R V todo r \<longleftrightarrow> (\<exists>c st' pre. r = Some (c, st') \<and> pre \<noteq> [] \<and>
      R (V @ concat (map (vis P t0) pre)) st' \<and> tlive P t0 (V @ concat (map (vis P t0) pre)) (fst st') \<and>
      (c = 0 \<and> todo = pre \<or> (\<exists>s b. c = DashCursor (global_depth t0) s b \<and> c \<noteq> 0 \<and> s \<in> set (seg_walk t0 0) \<and>
         b < kBucketNum \<and> todo = pre @ rest t0 s b)))"

lemma traversed_Cons:
  assumes "vis P t0 p = []" "traversed P t0 R V todo r"
  shows "traversed P t0 R V (p # todo) r"
proof -
  obtain c st' pre where r: "r = Some (c, st')" "pre \<noteq> []" "R (V @ concat (map (vis P t0) pre)) st'"
    "tlive P t0 (V @ concat (map (vis P t0) pre)) (fst st')"
    "c = 0 \<and> todo = pre \<or> (\<exists>s b. c = DashCursor (global_depth t0) s b \<and> c \<noteq> 0 \<and> s \<in> set (seg_walk t0 0) \<and>
         b < kBucketNum \<and> todo = pre @ rest t0 s b)"
    using assms(2) unfolding traversed_def by (elim exE conjE) (rule that)
  then show ?thesis
    unfolding traversed_def using assms(1)
    by (intro exI [of _ c] exI [of _ st'] exI [of _ "p # pre"]) auto
qed

lemma NextSeg_walk: "i \<in> set (seg_walk t j) \<Longrightarrow> NextSeg t i < length (segment_dir t) \<Longrightarrow> NextSeg t i \<in> set (seg_walk t j)"
proof (induction t j rule: seg_walk.induct)
  case (1 t j)
  then show ?case by (cases "j < length (segment_dir t)") (auto simp: seg_walk_Cons seg_walk_Nil)
qed

lemma next_pos_props:
  assumes d: "dir_ok t0" and s: "sid \<in> set (seg_walk t0 0)"
  shows "fst (next_pos t0 sid bid) \<in> set (seg_walk t0 0)" "0 < fst (next_pos t0 sid bid) \<or> 0 < snd (next_pos t0 sid bid)"
proof -
  have "0 \<in> set (seg_walk t0 0)" using seg_walk_Cons [of 0 t0] dir_okD(2) [OF d] by simp
  then show "fst (next_pos t0 sid bid) \<in> set (seg_walk t0 0)" using NextSeg_walk [OF s] by (auto simp: next_pos_def)
  show "0 < fst (next_pos t0 sid bid) \<or> 0 < snd (next_pos t0 sid bid)" using NextSeg_gt [of sid t0] by (auto simp: next_pos_def)
qed

lemma Traverse_loop_spec:
  assumes inv: "table_inv P t0" and tv: "tvisiting P t0 cb R"
  shows "R V st \<Longrightarrow> tlive P t0 V (fst st) \<Longrightarrow> sid \<in> set (seg_walk t0 0) \<Longrightarrow> bid < kBucketNum \<Longrightarrow>
    \<forall>x \<in> set V. posn P t0 x \<notin> set (rest t0 sid bid) \<Longrightarrow> length (rest t0 sid bid) \<le> n \<Longrightarrow>
    traversed P t0 R V (rest t0 sid bid) (Traverse_loop P cb n sid bid st)"
proof (induction n arbitrary: V st sid bid)
  case 0
  have "sid < 2 ^ global_depth t0" using seg_walk_props [OF table_invD(1) [OF inv] aligned_0] 0(3) by blast
  then show ?case using 0(6) rest_Cons [OF table_invD(1) [OF inv], of sid bid] 0(4) by simp
next
  case (Suc n)
  note d = table_invD(1) [OF inv]
  have lt: "sid < 2 ^ global_depth t0" "aligned t0 sid" using seg_walk_props [OF d aligned_0] Suc.prems(3) by blast+
  let ?v = "vis P t0 (sid, bid)" let ?s = "fst (next_pos t0 sid bid)" and ?b = "snd (next_pos t0 sid bid)"
  have rc: "rest t0 sid bid = (sid, bid) # (if ?b < kBucketNum then rest t0 ?s ?b else [])" by (rule rest_Cons [OF d lt(1) Suc.prems(4)])
  obtain st1 where st1: "TraverseLogicalBucket (HashFn P) (\<lambda>st. get_seg (fst st) sid) bid
      (\<lambda>it. cb \<lparr>seg_id = sid, bucket_id = index it, slot_id = slot it\<rparr>) st = Some (?v \<noteq> [], st1)"
    "R (V @ ?v) st1" "tlive P t0 (V @ ?v) (fst st1)"
    using Traverse_position [OF inv tv Suc.prems(1-4)] Suc.prems(5) rc by auto
  have np: "next_pos (fst st1) sid bid = next_pos t0 sid bid" "global_depth (fst st1) = global_depth t0"
    using tlive_Next [OF d st1(3) lt(1)] st1(3) by (simp_all add: next_pos_def tlive_def)
  have step: "Traverse_loop P cb (Suc n) sid bid st =
    (if ?b \<ge> kBucketNum then Some (0, st1)
     else if ?v \<noteq> [] then Some (DashCursor (global_depth t0) ?s ?b, st1) else Traverse_loop P cb n ?s ?b st1)"
    using np by (simp add: st1(1) Let_def next_pos_def split: if_splits)
  note sw = next_pos_props [OF d Suc.prems(3), of bid]
  have sl: "?s < 2 ^ global_depth t0" using sw(1) seg_walk_props [OF d aligned_0] by blast
  show ?case
  proof (cases "?b < kBucketNum")
    case False
    then have "Traverse_loop P cb (Suc n) sid bid st = Some (0, st1)" "rest t0 sid bid = [(sid, bid)]" using step rc by simp_all
    then show ?thesis
      unfolding traversed_def using st1(2,3) by (intro exI [of _ "0 :: u64"] exI [of _ st1] exI [of _ "[(sid, bid)]"]) simp
  next
    case b: True
    have rc': "rest t0 sid bid = (sid, bid) # rest t0 ?s ?b" using rc b by simp
    show ?thesis
    proof (cases "?v = []")
      case False
      let ?c = "DashCursor (global_depth t0) ?s ?b"
      have "?c \<noteq> 0" using cursor_roundtrip(3) [OF dir_okD(1) [OF d] sl b] sw(2) by simp
      moreover have "Traverse_loop P cb (Suc n) sid bid st = Some (?c, st1)" using step b False by simp
      ultimately show ?thesis
        unfolding traversed_def rc' using st1(2,3) sw(1) b
        by (intro exI [of _ ?c] exI [of _ st1] exI [of _ "[(sid, bid)]"]) auto
    next
      case True
      have "\<forall>x \<in> set V. posn P t0 x \<notin> set (rest t0 ?s ?b)" "length (rest t0 ?s ?b) \<le> n" using Suc.prems(5,6) rc' by simp_all
      moreover have "R V st1" "tlive P t0 V (fst st1)" using st1(2,3) True by simp_all
      ultimately have "traversed P t0 R V (rest t0 ?s ?b) (Traverse_loop P cb n ?s ?b st1)"
        using sw(1) b by (intro Suc.IH)
      then show ?thesis unfolding rc' using traversed_Cons [OF True] step b True by simp
    qed
  qed
qed

text \<open>The loop \<open>do { cursor = Traverse(cursor, cb); } while (cursor)\<close>.\<close>

fun Traverse_all :: "('k, 'v, 'u) Policy \<Rightarrow> (TableIterator \<Rightarrow> ('k, 'v) DashTable \<times> 's \<Rightarrow> (('k, 'v) DashTable \<times> 's) option)
    \<Rightarrow> nat \<Rightarrow> nat \<Rightarrow> u64 \<Rightarrow> ('k, 'v) DashTable \<times> 's \<Rightarrow> (('k, 'v) DashTable \<times> 's) option" where
  "Traverse_all P cb fuel 0 curs st = None"
| "Traverse_all P cb fuel (Suc n) curs st = do {
     (curs, st) \<leftarrow> Traverse P cb fuel curs st;
     if curs \<noteq> 0 then Traverse_all P cb fuel n curs st else Some st }"

definition all_its :: "('k, 'v, 'u) Policy \<Rightarrow> ('k, 'v) DashTable \<Rightarrow> TableIterator list" where
  "all_its P t = concat (map (vis P t) (rest t 0 0))"

lemma Traverse_cursor:
  assumes "tlive P t0 V (fst st)" "dir_ok t0" "s \<in> set (seg_walk t0 0)" "b < kBucketNum"
  shows "Traverse P cb fuel (DashCursor (global_depth t0) s b) st = Traverse_loop P cb fuel s b st"
proof -
  have s: "s < 2 ^ global_depth t0" using seg_walk_props [OF assms(2) aligned_0] assms(3) by blast
  have g: "global_depth (fst st) = global_depth t0" "segment_dir (fst st) = segment_dir t0" using assms(1) by (auto simp: tlive_def)
  show ?thesis
    using cursor_roundtrip(1,2) [OF dir_okD(1) [OF assms(2)] s assms(4)] s assms(4) dir_okD(2) [OF assms(2)]
    by (simp add: Traverse_def Let_def g)
qed

lemma posn_disjoint:
  assumes inv: "table_inv P t0" and d: "distinct (pre @ post)" and p: "\<forall>p \<in> set pre. fst p < 2 ^ global_depth t0 \<and> snd p < kBucketNum"
    and x: "x \<in> set (concat (map (vis P t0) pre))"
  shows "posn P t0 x \<notin> set post"
proof -
  obtain q where "q \<in> set pre" "x \<in> set (vis P t0 q)" using x by auto
  then show ?thesis using vis_posn [OF inv] p d by (metis disjoint_iff distinct_append)
qed

lemma rest_mem:
  assumes d: "dir_ok t0" and a: "s \<in> set (seg_walk t0 0)" and b: "b < kBucketNum" and p: "p \<in> set (rest t0 s b)"
  shows "fst p < 2 ^ global_depth t0" "snd p < kBucketNum"
proof -
  have "aligned t0 s" using seg_walk_props [OF d aligned_0] a by blast
  then show "fst p < 2 ^ global_depth t0" "snd p < kBucketNum"
    using p b seg_walk_props [OF d aligned_0] seg_walk_props [OF d, of s] by (auto simp: rest_def)
qed

lemma Traverse_all_from:
  assumes inv: "table_inv P t0" and tv: "tvisiting P t0 cb R"
  shows "R V st \<Longrightarrow> tlive P t0 V (fst st) \<Longrightarrow> s \<in> set (seg_walk t0 0) \<Longrightarrow> b < kBucketNum \<Longrightarrow>
    \<forall>x \<in> set V. posn P t0 x \<notin> set (rest t0 s b) \<Longrightarrow> length (rest t0 s b) \<le> n \<Longrightarrow> length (rest t0 s b) \<le> fuel \<Longrightarrow>
    \<exists>st'. Traverse_all P cb fuel n (DashCursor (global_depth t0) s b) st = Some st' \<and>
      R (V @ concat (map (vis P t0) (rest t0 s b))) st' \<and> tlive P t0 (V @ concat (map (vis P t0) (rest t0 s b))) (fst st')"
proof (induction n arbitrary: V st s b)
  case 0
  then show ?case using Traverse_loop_spec [OF inv tv 0(1-5), of 0] by (auto simp: traversed_def)
next
  case (Suc n)
  note d = table_invD(1) [OF inv]
  obtain c st1 pre where r: "Traverse_loop P cb fuel s b st = Some (c, st1)" "pre \<noteq> []" "R (V @ concat (map (vis P t0) pre)) st1"
    "tlive P t0 (V @ concat (map (vis P t0) pre)) (fst st1)"
    "c = 0 \<and> rest t0 s b = pre \<or> (\<exists>s' b'. c = DashCursor (global_depth t0) s' b' \<and> c \<noteq> 0 \<and> s' \<in> set (seg_walk t0 0) \<and>
         b' < kBucketNum \<and> rest t0 s b = pre @ rest t0 s' b')"
    using Traverse_loop_spec [OF inv tv Suc.prems(1-5,7)] unfolding traversed_def by blast
  have step: "Traverse_all P cb fuel (Suc n) (DashCursor (global_depth t0) s b) st =
    (if c \<noteq> 0 then Traverse_all P cb fuel n c st1 else Some st1)"
    by (simp add: Traverse_cursor [OF Suc.prems(2) d Suc.prems(3,4)] r(1))
  from r(5) show ?case
  proof (elim disjE exE conjE)
    assume "c = 0" "rest t0 s b = pre"
    then show ?thesis using step r(3,4) by simp
  next
    fix s' b' assume c: "c = DashCursor (global_depth t0) s' b'" "c \<noteq> 0" "s' \<in> set (seg_walk t0 0)" "b' < kBucketNum"
      and e: "rest t0 s b = pre @ rest t0 s' b'"
    have al: "aligned t0 s" using seg_walk_props [OF d aligned_0] Suc.prems(3) by blast
    have "\<forall>x \<in> set (V @ concat (map (vis P t0) pre)). posn P t0 x \<notin> set (rest t0 s' b')"
    proof
      fix x assume "x \<in> set (V @ concat (map (vis P t0) pre))"
      then show "posn P t0 x \<notin> set (rest t0 s' b')"
        using Suc.prems(5) e posn_disjoint [OF inv, of pre "rest t0 s' b'" x] distinct_rest [OF d al, of b]
          rest_mem [OF d Suc.prems(3,4)] by (metis Un_iff set_append)
    qed
    moreover have "length (rest t0 s' b') \<le> n" "length (rest t0 s' b') \<le> fuel" using Suc.prems(6,7) e r(2) by (cases pre; simp)+
    ultimately obtain st' where "Traverse_all P cb fuel n c st1 = Some st'"
      "R ((V @ concat (map (vis P t0) pre)) @ concat (map (vis P t0) (rest t0 s' b'))) st'"
      "tlive P t0 ((V @ concat (map (vis P t0) pre)) @ concat (map (vis P t0) (rest t0 s' b'))) (fst st')"
      using Suc.IH [OF r(3,4) c(3,4)] c(1) by blast
    then show ?thesis using step c(2) e by simp
  qed
qed

lemma sum_filter_mset: "(\<Sum>b \<leftarrow> [0..<n]. filter_mset (\<lambda>e. f e = b) M) = filter_mset (\<lambda>e. f e < n) M"
proof (induction n)
  case (Suc n)
  have "filter_mset (\<lambda>e. f e < Suc n) M = filter_mset (\<lambda>e. f e < n) M + filter_mset (\<lambda>e. f e = n) M"
    by (simp add: filter_union_mset [symmetric] multiset_eq_iff)
  then show ?case using Suc by simp
qed simp

lemma sum_list_map_concat: "sum_list (map f (concat xss)) = (\<Sum>xs \<leftarrow> xss. sum_list (map f xs))"
  by (induction xss) simp_all

lemma sum_list_swap:
  fixes f :: "'a \<Rightarrow> 'b \<Rightarrow> 'c :: comm_monoid_add"
  shows "(\<Sum>b \<leftarrow> bs. \<Sum>s \<leftarrow> ss. f b s) = (\<Sum>s \<leftarrow> ss. \<Sum>b \<leftarrow> bs. f b s)"
  by (induction bs) (simp_all add: sum_list_addf)

lemma all_its_entries:
  assumes inv: "table_inv P t"
  shows "image_mset (tit_entry t) (mset (all_its P t)) = tb_entries t"
proof -
  note d = table_invD(1) [OF inv]
  have sh: "seg_shape P (get_seg t s)" if "s \<in> set (seg_walk t 0)" for s
    using seg_walk_props [OF d aligned_0] that seg_invD(1) [OF table_invD(4) [OF inv]] by blast
  have r: "rest t 0 0 = concat (map (\<lambda>b. map (\<lambda>s. (s, b)) (seg_walk t 0)) [0..<kBucketNum])"
    using upt_conv_Cons [of 0 kBucketNum] by (simp add: rest_def kBucketNum_def)
  have one: "image_mset (tit_entry t) (mset (vis P t (s, b))) = filter_mset (\<lambda>e. home P (fst e) = b) (seg_entries (get_seg t s))"
    if "s \<in> set (seg_walk t 0)" "b < kBucketNum" for s b
    using logical_its_entries [OF sh [OF that(1)] that(2)]
    by (simp add: vis_def multiset.map_comp comp_def tit_entry_tit)
  have "image_mset (tit_entry t) (mset (all_its P t)) = (\<Sum>p \<leftarrow> rest t 0 0. image_mset (tit_entry t) (mset (vis P t p)))"
    by (simp add: all_its_def mset_concat_map image_entry_sum)
  also have "\<dots> = (\<Sum>b \<leftarrow> [0..<kBucketNum]. \<Sum>s \<leftarrow> seg_walk t 0. image_mset (tit_entry t) (mset (vis P t (s, b))))"
    unfolding r sum_list_map_concat by (simp add: comp_def)
  also have "\<dots> = (\<Sum>b \<leftarrow> [0..<kBucketNum]. \<Sum>s \<leftarrow> seg_walk t 0. filter_mset (\<lambda>e. home P (fst e) = b) (seg_entries (get_seg t s)))"
    using one by (intro arg_cong [where f = sum_list] map_cong) auto
  also have "\<dots> = (\<Sum>s \<leftarrow> seg_walk t 0. \<Sum>b \<leftarrow> [0..<kBucketNum]. filter_mset (\<lambda>e. home P (fst e) = b) (seg_entries (get_seg t s)))"
    by (rule sum_list_swap)
  also have "\<dots> = tb_entries t" unfolding tb_entries_walk [OF d] sum_filter_mset by simp
  finally show ?thesis .
qed

lemma length_rest: "dir_ok t \<Longrightarrow> length (rest t 0 0) \<le> 56 * 2 ^ global_depth t"
proof -
  assume d: "dir_ok t"
  have "length (seg_walk t 0) \<le> 2 ^ global_depth t"
  proof -
    have "distinct (seg_walk t 0)" using seg_addrs_0(1) [OF d] by (simp add: seg_addrs_def distinct_map)
    moreover have "set (seg_walk t 0) \<subseteq> {0..<2 ^ global_depth t}" using seg_walk_props [OF d aligned_0] by auto
    ultimately show ?thesis using card_mono [of "{0..<2 ^ global_depth t}" "set (seg_walk t 0)"] by (simp add: distinct_card)
  qed
  then show ?thesis by (simp add: rest_def length_concat comp_def sum_list_triv kBucketNum_def)
qed

lemma tlive_refl: "table_inv P t \<Longrightarrow> tlive P t [] t"
  by (simp add: tlive_def)

lemma Traverse_all_spec:
  assumes inv: "table_inv P t0" and tv: "tvisiting P t0 cb R" and R: "R [] (t0, x)"
    and f: "56 * 2 ^ global_depth t0 \<le> n" "56 * 2 ^ global_depth t0 \<le> fuel"
  shows "\<exists>t' x'. Traverse_all P cb fuel n 0 (t0, x) = Some (t', x') \<and> R (all_its P t0) (t', x') \<and> tlive P t0 (all_its P t0) t'"
proof -
  note d = table_invD(1) [OF inv]
  have "DashCursor (global_depth t0) 0 0 = 0" using cursor_roundtrip(3) [OF dir_okD(1) [OF d]] by (simp add: kBucketNum_def)
  moreover have "0 \<in> set (seg_walk t0 0)" using seg_walk_Cons [of 0 t0] dir_okD(2) [OF d] by simp
  ultimately show ?thesis
    using Traverse_all_from [OF inv tv R, of 0 0 n fuel] tlive_refl [OF inv] length_rest [OF d] f
    by (auto simp: all_its_def kBucketNum_def)
qed

end
