(* ===== verification/Dash_Map.thy ===== *)
theory Dash_Map
  imports Dash_Iter
begin

text \<open>
  The contract of the table. The first part states what each operation does to the multiset of the
  entries, for any policy. The second part is the interface that \<open>DbSlice\<close> relies on: a policy
  whose comparison and hashes only look at a view of the key makes the table a finite map from
  views to values.
\<close>

subsection \<open>A table with one entry\<close>

definition one_table :: "(u64, nat) DashTable" where
  "one_table = (put_seg (DashTable_init 0 0 1) 0 one_entry)\<lparr>bucket_count := 120, table_size := 1\<rparr>"

lemma one_table_inserted:
  "tb_inserted u64_policy (DashTable_init 0 0 1) \<lparr>seg_id = 0, bucket_id = 0, slot_id = 0\<rparr> (0, 7) one_table"
proof -
  have sid: "SegmentId (DashTable_init 0 0 1 :: (u64, nat) DashTable) 0 = 0" by (simp add: SegmentId_def)
  have seg: "get_seg (DashTable_init 0 0 1) 0 = Segment_init (0 :: u64) (0 :: nat) 1 0"
    and dir: "segment_dir (DashTable_init (0 :: u64) (0 :: nat) 1) ! 0 = 0" "table_size (DashTable_init (0 :: u64) (0 :: nat) 1) = 0"
    by (simp_all add: DashTable_init_eq get_seg_def)
  have kh: "khash u64_policy 0 = 0" by (simp add: khash_def u64_policy_def)
  have ins: "inserted u64_policy (get_seg (DashTable_init 0 0 1) 0) \<lparr>index = 0, slot = 0\<rparr> (0, 7) one_entry"
    using one_entry_inserted seg by simp
  have "table_inv u64_policy (DashTable_init 0 0 1 :: (u64, nat) DashTable)" by (rule DashTable_init_spec(1)) simp
  from inserted_table [OF this sid [symmetric] kh ins, of 120] show ?thesis unfolding one_table_def dir by simp
qed

lemma one_table_facts:
  "table_inv u64_policy one_table" "tb_entries one_table = {#(0, 7)#}" "tit_points one_table \<lparr>seg_id = 0, bucket_id = 0, slot_id = 0\<rparr>"
  "tit_key one_table \<lparr>seg_id = 0, bucket_id = 0, slot_id = 0\<rparr> = 0" "tit_value one_table \<lparr>seg_id = 0, bucket_id = 0, slot_id = 0\<rparr> = 7"
  "initial_depth one_table = 1"
  using one_table_inserted DashTable_init_spec(2,4) [of 1 "0 :: u64" "0 :: nat"] by (auto simp: tb_inserted_def one_table_def)

subsection \<open>The operations on the entries\<close>

text \<open>A fresh table of depth at most 31 satisfies the invariant and is empty.\<close>

theorem DashTable_init_correct:
  assumes "capacity_log \<le> 31"
  shows "table_inv P (DashTable_init k0 v0 capacity_log) \<and> tb_entries (DashTable_init k0 v0 capacity_log) = {#} \<and>
    length (segment_dir (DashTable_init k0 v0 capacity_log)) = 2 ^ capacity_log"
  using DashTable_init_spec(1) [OF assms, of P k0 v0] DashTable_init_spec(2) [OF assms, of k0 v0] by (simp add: DashTable_init_eq)

theorem DashTable_init_correct_witness:
  "table_inv u64_policy (DashTable_init 0 (0 :: nat) 3) \<and> tb_entries (DashTable_init (0 :: u64) (0 :: nat) 3) = {#}"
  using DashTable_init_correct [of 3 u64_policy "0 :: u64" "0 :: nat"] by simp

text \<open>(C12) Lookup is sound and complete: the iterator it returns points to a stored key that compares
  equal, and when it returns none, no stored key with the hash of the search key compares equal.\<close>

theorem Table_Find_correct:
  assumes "table_inv P t"
  shows "case Table_Find P t u of
      Some it \<Rightarrow> tit_points t it \<and> Equal P (tit_key t it) u
    | None \<Rightarrow> \<forall>(k, v) \<in># tb_entries t. HashFn P k = Some (HashView P u) \<longrightarrow> \<not> Equal P k u"
proof (cases "Table_Find P t u")
  case None
  then have "\<not> Equal P k u" if "(k, v) \<in># tb_entries t" "HashFn P k = Some (HashView P u)" for k v
    using FindFirst_None [OF assms, of "HashView P u" "\<lambda>k. Equal P k u" k v] that by (simp add: Table_Find_def khash_def)
  then show ?thesis using None by auto
next
  case (Some it)
  then show ?thesis using FindFirst_Some [OF assms, of "HashView P u"] by (auto simp: Table_Find_def)
qed

theorem Table_Find_correct_witness: "\<exists>it. Table_Find u64_policy one_table 0 = Some it \<and> tit_points one_table it"
  using Table_Find_correct [OF one_table_facts(1), of 0] one_table_facts(2)
  by (cases "Table_Find u64_policy one_table 0") (auto simp: u64_policy_def)


lemma u64_table_regular: "all_regular u64_policy t"
  by (simp add: all_regular_def regular_def u64_policy_def)

lemma room_init: "c \<le> 31 \<Longrightarrow> room P (DashTable_init k0 v0 c) h 0"
  by (simp add: room_def pref_def DashTable_init_spec(2))


text \<open>(C13) Erasing through an iterator removes exactly the entry under it.\<close>

theorem Table_Erase_correct:
  assumes "table_inv P t" "tit_points t it"
  shows "\<exists>t'. Table_Erase P t it = Some t' \<and> table_inv P t' \<and>
    tb_entries t = add_mset (tit_key t it, tit_value t it) (tb_entries t')"
  by (rule Table_Erase_spec [OF assms])

theorem Table_Erase_correct_witness:
  "\<exists>t'. Table_Erase u64_policy one_table \<lparr>seg_id = 0, bucket_id = 0, slot_id = 0\<rparr> = Some t' \<and> tb_entries t' = {#}"
  using Table_Erase_correct [OF one_table_facts(1,3)] one_table_facts by auto

text \<open>Clearing empties the table and brings the directory back to its initial depth.\<close>

theorem Table_Clear_correct:
  assumes "table_inv P t"
  shows "\<exists>t'. Table_Clear P t = Some t' \<and> table_inv P t' \<and> tb_entries t' = {#} \<and> table_size t' = 0 \<and>
    length (segment_dir t') = 2 ^ initial_depth t"
  using Table_Clear_spec [OF assms] table_invD(3) dir_okD(2) table_invD(1) by (metis size_empty)

theorem Table_Clear_correct_witness: "\<exists>t'. Table_Clear u64_policy one_table = Some t' \<and> tb_entries t' = {#} \<and> length (segment_dir t') = 2"
  using Table_Clear_correct [OF one_table_facts(1)] one_table_facts(6) by auto

text \<open>(C14) The loop \<open>for (it = begin(); !it.is_done(); ++it)\<close> ends after \<open>size()\<close> steps and visits every
  entry exactly once.\<close>

theorem iteration_correct:
  assumes "table_inv P t"
  shows "\<exists>b its. Table_begin t = Some b \<and> run_its t (table_size t) b = Some its \<and>
    image_mset (tit_entry t) (mset its) = tb_entries t"
  using iteration_spec [OF assms] walk_its_entries [OF assms] by blast

theorem iteration_correct_witness:
  "\<exists>b its. Table_begin one_table = Some b \<and> run_its one_table 1 b = Some its \<and> image_mset (tit_entry one_table) (mset its) = {#(0, 7)#}"
  using iteration_correct [OF one_table_facts(1)] one_table_facts(2) by (simp add: one_table_def)

subsection \<open>The table as a map\<close>

text \<open>Every key of \<open>M\<close> is good, and no two entries have the same view; the value that a lookup finds.\<close>

definition keyed :: "('k \<Rightarrow> 'u) \<Rightarrow> ('k \<Rightarrow> bool) \<Rightarrow> ('k \<times> 'v) multiset \<Rightarrow> bool" where
  "keyed view good M \<longleftrightarrow> (\<forall>e \<in># M. good (fst e)) \<and> (\<forall>u. size (filter_mset (\<lambda>e. view (fst e) = u) M) \<le> 1)"

definition map_inv :: "('k, 'v, 'u) Policy \<Rightarrow> ('k \<Rightarrow> 'u) \<Rightarrow> ('k \<Rightarrow> bool) \<Rightarrow> ('k, 'v) DashTable \<Rightarrow> bool" where
  "map_inv P view good t \<longleftrightarrow> table_inv P t \<and> keyed view good (tb_entries t)"

definition lookup :: "('k, 'v, 'u) Policy \<Rightarrow> ('k, 'v) DashTable \<Rightarrow> 'u \<Rightarrow> 'v option" where
  "lookup P t u = map_option (tit_value t) (Table_Find P t u)"

text \<open>What the table needs of a policy to be a map: stored keys are \<open>good\<close>, a good key has a view, the
  comparison is equality of views, and its hash is the hash of its view.\<close>

locale dash_policy =
  fixes P :: "('k, 'v, 'u) Policy" and view :: "'k \<Rightarrow> 'u" and good :: "'k \<Rightarrow> bool" and fresh :: "'u \<Rightarrow> 'k"
  assumes equal_view: "good k \<Longrightarrow> Equal P k u \<longleftrightarrow> view k = u"
    and hash_view: "good k \<Longrightarrow> HashFn P k = Some (HashView P (view k))"
    and assign_fresh: "AssignKey P d u = fresh u"
    and good_fresh: "good (fresh u)"
    and view_fresh: "view (fresh u) = u"
begin

lemma newkey_fresh: "newkey P u (fresh u)"
  by (simp add: newkey_def assign_fresh hash_view [OF good_fresh] view_fresh)

lemma khash_view: "good k \<Longrightarrow> khash P k = HashView P (view k)"
  by (simp add: khash_def hash_view)

lemma keyed_unique:
  assumes "keyed view good M" "e \<in># M" "f \<in># M" "view (fst e) = view (fst f)"
  shows "e = f"
proof -
  let ?F = "filter_mset (\<lambda>x. view (fst x) = view (fst f)) M"
  have F: "e \<in># ?F" "f \<in># ?F" "size ?F \<le> 1" using assms by (simp_all add: keyed_def)
  then have "?F \<noteq> {#}" by (metis empty_iff set_mset_empty)
  then have "size ?F = 1" using F(3) by (metis One_nat_def le_SucE le_zero_eq size_eq_0_iff_empty)
  then obtain x where "?F = {#x#}" using size_1_singleton_mset by metis
  then show ?thesis using F(1,2) by simp
qed

lemma keyed_good: "keyed view good M \<Longrightarrow> (k, v) \<in># M \<Longrightarrow> good k"
  by (auto simp: keyed_def)

lemma tit_in_entries:
  assumes "table_inv P t" "tit_points t it"
  shows "(tit_key t it, tit_value t it) \<in># tb_entries t"
  using Table_Erase_spec [OF assms] by auto

lemma Find_iff:
  assumes inv: "map_inv P view good t"
  shows "Table_Find P t u = None \<longleftrightarrow> (\<forall>k v. (k, v) \<in># tb_entries t \<longrightarrow> view k \<noteq> u)"
    and "Table_Find P t u = Some it \<Longrightarrow> tit_points t it \<and> view (tit_key t it) = u \<and> good (tit_key t it)"
proof -
  have t: "table_inv P t" "keyed view good (tb_entries t)" using inv by (auto simp: map_inv_def)
  show some: "tit_points t it \<and> view (tit_key t it) = u \<and> good (tit_key t it)" if "Table_Find P t u = Some it" for it
  proof -
    have p: "tit_points t it" "Equal P (tit_key t it) u"
      using FindFirst_Some [OF t(1)] that by (auto simp: Table_Find_def)
    moreover have "good (tit_key t it)" by (rule keyed_good [OF t(2) tit_in_entries [OF t(1) p(1)]])
    ultimately show ?thesis using equal_view by simp
  qed
  show "Table_Find P t u = None \<longleftrightarrow> (\<forall>k v. (k, v) \<in># tb_entries t \<longrightarrow> view k \<noteq> u)"
  proof
    assume n: "Table_Find P t u = None"
    show "\<forall>k v. (k, v) \<in># tb_entries t \<longrightarrow> view k \<noteq> u"
    proof (intro allI impI notI)
      fix k v assume kv: "(k, v) \<in># tb_entries t" "view k = u"
      have g: "good k" by (rule keyed_good [OF t(2) kv(1)])
      then have "\<not> Equal P k u"
        using FindFirst_None [OF t(1) _ kv(1), of "HashView P u" "\<lambda>k. Equal P k u"] n khash_view kv(2) by (simp add: Table_Find_def)
      then show False using equal_view [OF g] kv(2) by simp
    qed
  next
    assume "\<forall>k v. (k, v) \<in># tb_entries t \<longrightarrow> view k \<noteq> u"
    then show "Table_Find P t u = None" using some tit_in_entries [OF t(1)] by (metis not_None_eq)
  qed
qed

lemma lookup_iff:
  assumes inv: "map_inv P view good t"
  shows "lookup P t u = Some v \<longleftrightarrow> (\<exists>k. (k, v) \<in># tb_entries t \<and> view k = u)"
proof (cases "Table_Find P t u")
  case None
  then show ?thesis using Find_iff(1) [OF inv, of u] by (auto simp: lookup_def)
next
  case (Some it)
  have t: "table_inv P t" "keyed view good (tb_entries t)" using inv by (auto simp: map_inv_def)
  note f = Find_iff(2) [OF inv Some]
  have e: "(tit_key t it, tit_value t it) \<in># tb_entries t" using tit_in_entries [OF t(1)] f by simp
  have "v = tit_value t it" if "(k, v) \<in># tb_entries t" "view k = u" for k
    using keyed_unique [OF t(2) that(1) e] that(2) f by simp
  then show ?thesis using Some e f by (auto simp: lookup_def)
qed

lemma lookup_cong: "map_inv P view good t \<Longrightarrow> map_inv P view good t' \<Longrightarrow> tb_entries t' = tb_entries t \<Longrightarrow> lookup P t' = lookup P t"
  using lookup_iff by (metis ext not_Some_eq)

lemma lookup_add:
  assumes inv: "map_inv P view good t" and t': "table_inv P t'" "tb_entries t' = add_mset (fresh u, v) (tb_entries t)" and new: "lookup P t u = None"
  shows "map_inv P view good t'" "lookup P t' = (lookup P t)(u \<mapsto> v)"
proof -
  have none: "view k \<noteq> u" if "(k, w) \<in># tb_entries t" for k w using lookup_iff [OF inv, of u w] new that by auto
  have "filter_mset (\<lambda>e. view (fst e) = u) (tb_entries t) = {#}"
  proof (rule filter_mset_none, rule ballI)
    show "view (fst e) \<noteq> u" if "e \<in># tb_entries t" for e using none [of "fst e" "snd e"] that by simp
  qed
  then show inv': "map_inv P view good t'"
    using inv t' good_fresh view_fresh by (auto simp: map_inv_def keyed_def)
  have "lookup P t' x = Some w \<longleftrightarrow> ((lookup P t)(u \<mapsto> v)) x = Some w" for x w
    using lookup_iff [OF inv', of x w] lookup_iff [OF inv, of x w] none view_fresh t'(2) by auto
  then show "lookup P t' = (lookup P t)(u \<mapsto> v)" by (metis ext not_Some_eq)
qed

lemma lookup_remove:
  assumes inv: "map_inv P view good t" and t': "table_inv P t'" "tb_entries t = add_mset (k, v) (tb_entries t')"
  shows "map_inv P view good t'" "lookup P t' = (lookup P t)(view k := None)"
proof -
  have K: "keyed view good (tb_entries t)" using inv by (simp add: map_inv_def)
  have "size (filter_mset (\<lambda>e. view (fst e) = u) (tb_entries t')) \<le> size (filter_mset (\<lambda>e. view (fst e) = u) (tb_entries t))" for u
    using t'(2) by simp
  then have "size (filter_mset (\<lambda>e. view (fst e) = u) (tb_entries t')) \<le> 1" for u
    using K unfolding keyed_def by (meson le_trans)
  moreover have "\<forall>e \<in># tb_entries t'. good (fst e)" using K t'(2) by (simp add: keyed_def)
  ultimately have "keyed view good (tb_entries t')" by (simp add: keyed_def)
  then show inv': "map_inv P view good t'" using t'(1) by (simp add: map_inv_def)
  have one: "view k' \<noteq> view k" if "(k', w) \<in># tb_entries t'" for k' w
  proof
    let ?F = "filter_mset (\<lambda>e. view (fst e) = view k) (tb_entries t')"
    assume "view k' = view k"
    then have "(k', w) \<in># ?F" using that by simp
    then have "?F \<noteq> {#}" by (metis empty_iff set_mset_empty)
    then have "size ?F \<noteq> 0" by (simp only: size_eq_0_iff_empty not_False_eq_True)
    moreover have "filter_mset (\<lambda>e. view (fst e) = view k) (tb_entries t) = add_mset (k, v) ?F" by (simp add: t'(2))
    then have "size (add_mset (k, v) ?F) \<le> 1" using K unfolding keyed_def by metis
    ultimately show False by auto
  qed
  have "lookup P t' x = Some w \<longleftrightarrow> ((lookup P t)(view k := None)) x = Some w" for x w
    using lookup_iff [OF inv', of x w] lookup_iff [OF inv, of x w] one t'(2) by auto
  then show "lookup P t' = (lookup P t)(view k := None)" by (metis ext not_Some_eq)
qed

lemma map_insert:
  assumes inv: "map_inv P view good t" and reg: "all_regular P t" and r: "room P t (HashView P u) D" "D < fuel"
  shows "\<exists>it b t'. Table_Insert P k0 v0 fuel t u v = Some (it, b, t') \<and> map_inv P view good t' \<and> tit_points t' it \<and> view (tit_key t' it) = u \<and>
    (if b then lookup P t u = None \<and> tit_key t' it = fresh u \<and> (\<exists>w. tit_value t' it = v w \<and> lookup P t' = (lookup P t)(u \<mapsto> v w))
     else lookup P t u = Some (tit_value t' it) \<and> lookup P t' = lookup P t) \<and>
    tb_entries t' = (if b then add_mset (fresh u, tit_value t' it) (tb_entries t) else tb_entries t)"
proof -
  have t: "table_inv P t" "keyed view good (tb_entries t)" using inv by (auto simp: map_inv_def)
  obtain it b t' where r: "Table_Insert P k0 v0 fuel t u v = Some (it, b, t')" "insert_ok P t u (fresh u) v kInsertIfNotFound it b t'"
    using InsertInternal_spec [OF t(1) reg newkey_fresh r] unfolding Table_Insert_def by blast
  show ?thesis
  proof (cases b)
    case True
    then obtain w where w: "table_inv P t'" "tb_entries t' = add_mset (fresh u, v w) (tb_entries t)" "tit_points t' it"
      "tit_key t' it = fresh u" "tit_value t' it = v w"
      "\<forall>e \<in># tb_entries t. khash P (fst e) = HashView P u \<longrightarrow> \<not> Equal P (fst e) u"
      using r(2) by (auto simp: insert_ok_def tb_inserted_def)
    have "view k \<noteq> u" if "(k, x) \<in># tb_entries t" for k x
      using w(6) that keyed_good [OF t(2) that] khash_view equal_view by fastforce
    then have new: "lookup P t u = None" using Find_iff(1) [OF inv, of u] by (simp add: lookup_def)
    note a = lookup_add [OF inv w(1,2) new]
    have "\<exists>x. tit_value t' it = v x \<and> lookup P t' = (lookup P t)(u \<mapsto> v x)" using a(2) w(5) by blast
    then show ?thesis using r(1) True w a(1) new view_fresh by (intro exI [of _ it] exI [of _ b] exI [of _ t']) simp
  next
    case False
    then have w: "table_inv P t'" "tb_entries t' = tb_entries t" "tit_points t' it" "Equal P (tit_key t' it) u"
      using r(2) by (auto simp: insert_ok_def)
    have inv': "map_inv P view good t'" using w t by (simp add: map_inv_def)
    have e: "(tit_key t' it, tit_value t' it) \<in># tb_entries t" using tit_in_entries [OF w(1,3)] w(2) by simp
    then have v: "view (tit_key t' it) = u" using keyed_good [OF t(2)] equal_view w(4) by blast
    then have "lookup P t u = Some (tit_value t' it)" using lookup_iff [OF inv] e by blast
    then show ?thesis using r(1) False inv' w v lookup_cong [OF inv inv' w(2)]
      by (intro exI [of _ it] exI [of _ b] exI [of _ t']) simp
  qed
qed

lemma map_erase:
  assumes inv: "map_inv P view good t" and it: "tit_points t it"
  shows "\<exists>t'. Table_Erase P t it = Some t' \<and> map_inv P view good t' \<and> lookup P t' = (lookup P t)(view (tit_key t it) := None) \<and>
    tb_entries t = add_mset (tit_key t it, tit_value t it) (tb_entries t')"
proof -
  have t: "table_inv P t" using inv by (simp add: map_inv_def)
  obtain t' where "Table_Erase P t it = Some t'" "table_inv P t'" "tb_entries t = add_mset (tit_key t it, tit_value t it) (tb_entries t')"
    using Table_Erase_spec [OF t it] by blast
  then show ?thesis using lookup_remove [OF inv] by blast
qed

lemma map_empty: "table_inv P t \<Longrightarrow> tb_entries t = {#} \<Longrightarrow> map_inv P view good t \<and> lookup P t = Map.empty"
proof -
  assume t: "table_inv P t" "tb_entries t = {#}"
  then have inv: "map_inv P view good t" by (simp add: map_inv_def keyed_def)
  then have "lookup P t u = None" for u using lookup_iff [OF inv, of u] t(2) by (cases "lookup P t u") auto
  then show ?thesis using inv by auto
qed

end

end
