(* ===== verification/Dash_Assign.thy ===== *)
theory Dash_Assign
  imports Dash_Map
begin

text \<open>
  Assignments through an iterator: \<open>it->first\<close> and \<open>it->second\<close> are references into a slot, and
  \<open>DbSlice\<close> writes through them. A write that keeps the hash of the key keeps the invariant and
  replaces one entry.
\<close>

lemma wipe_busy:
  assumes "bucket_wf b" "busy b i"
  obtains M where "slots b = add_mset (key b ! i, value b ! i, finger_arr b ! i, probing b i) M"
    "slots (wipe b i k v) = add_mset (k, v, finger_arr b ! i, probing b i) M"
proof -
  let ?C = "\<lambda>b :: ('a, 'b) Bucket. ClearSlots b (push_bit i 1)"
  have wf: "bucket_wf (wipe b i k v)" using assms(1) by (simp add: wipe_wf)
  have i: "i < kSlotNum" using busy_lt [of b i] assms by simp
  have "?C (wipe b i k v) = wipe (?C b) i k v" by (simp add: ClearSlots_def wipe_def)
  moreover have "\<not> busy (?C b) i" using i by (simp add: bit_simps kSlotNum_def)
  ultimately have same: "slots (?C (wipe b i k v)) = slots (?C b)" by (simp add: wipe_slots)
  have "slots b = add_mset (slot_of b i) (slots (?C b))" using slots_delete [of b i] assms by simp
  moreover have "slots (wipe b i k v) = add_mset (slot_of (wipe b i k v) i) (slots (?C b))"
    using slots_delete [of "wipe b i k v" i] wf assms same by simp
  ultimately show ?thesis
    using that i bucket_wf_len [OF assms(1)] by (simp add: slot_of_def)
qed

lemma seg_wipe_inv:
  assumes inv: "seg_inv P s" and it: "it_points s it" and h: "HashFn P k = HashFn P (it_key s it)"
  shows "seg_inv P (seg_wipe s it k v)"
    "\<exists>M. seg_entries s = add_mset (it_key s it, it_value s it) M \<and> seg_entries (seg_wipe s it k v) = add_mset (k, v) M"
proof -
  note sh = seg_invD(1) [OF inv]
  let ?b = "GetBucket s (index it)" let ?s = "seg_wipe s it k v"
  have i: "index it < kTotalBuckets" "busy ?b (slot it)" "seg_len s" "bucket_wf ?b"
    using it seg_shapeD(1,2) [OF sh] by (auto simp: it_points_def)
  note get = GetBucket_wipe [OF i(3,1), of k v]
  let ?x = "(it_key s it, it_value s it, finger_arr ?b ! slot it, probing ?b (slot it))"
  let ?y = "(k, v, finger_arr ?b ! slot it, probing ?b (slot it))"
  obtain M where M: "slots ?b = add_mset ?x M" "slots (wipe ?b (slot it) k v) = add_mset ?y M"
    using wipe_busy [OF i(4,2)] unfolding it_key_def it_value_def by metis
  have hh: "khash P k = khash P (it_key s it)" "home P k = home P (it_key s it)" using h by (simp_all add: khash_def home_def)
  have ok: "slot_ok P j ?y = slot_ok P j ?x" "stash_slot_ok P ?y = stash_slot_ok P ?x" for j
    using h hh by (simp_all add: slot_ok_def stash_slot_ok_def)
  have all: "(\<forall>z \<in># slots (GetBucket ?s j). slot_ok P n z) = (\<forall>z \<in># slots (GetBucket s j). slot_ok P n z)"
    "(\<forall>z \<in># slots (GetBucket ?s j). stash_slot_ok P z) = (\<forall>z \<in># slots (GetBucket s j). stash_slot_ok P z)" for j n
    unfolding get using M ok by (simp_all del: split_paired_All)
  have "bucket_wf (GetBucket ?s j) = bucket_wf (GetBucket s j)" for j by (simp add: get wipe_wf)
  then have shape: "seg_shape P ?s" using sh by (simp add: seg_shape_def all)
  have "stash_at P c n (GetBucket ?s j) = stash_at P c n (GetBucket s j)" for c n j
    unfolding get using M hh by (simp add: stash_at_def)
  then have st: "stash_entries P ?s c = stash_entries P s c" for c by (simp add: stash_entries_def)
  have "ptrs (GetBucket ?s j) pr = ptrs (GetBucket s j) pr" "HasStash (GetBucket ?s j) = HasStash (GetBucket s j)"
    "overflow_count (GetBucket ?s j) = overflow_count (GetBucket s j)" for j pr
    by (simp_all add: get wipe_ptrs)
  then have "stash_ok P ?s c = stash_ok P s c" for c by (simp add: stash_ok_def stash_ptrs_def st)
  then show "seg_inv P ?s" using shape inv by (simp add: seg_inv_def)
  have il: "index it < length (bucket_arr s)" using i by simp
  have "seg_slots ?s + add_mset ?x M = seg_slots s + add_mset ?y M"
    using sum_list_map_update [OF il, of slots "wipe ?b (slot it) k v"] M
    by (simp add: seg_slots_def seg_wipe_def upd_def)
  then have eq: "seg_slots ?s + {#?x#} = seg_slots s + {#?y#}" by simp
  have "?x \<in># seg_slots s" using in_seg_slots [OF i(3), of ?x] i(1) M(1) by auto
  then obtain N where N: "seg_slots s = add_mset ?x N" by (metis mset_add)
  then have "seg_slots ?s = add_mset ?y N" using eq by simp
  then show "\<exists>M. seg_entries s = add_mset (it_key s it, it_value s it) M \<and> seg_entries ?s = add_mset (k, v) M"
    using N by (auto simp: seg_entries_def entry_of_def)
qed

text \<open>Writing a key with the same hash and a value through a table iterator.\<close>

lemma table_wipe:
  assumes inv: "table_inv P t" and it: "tit_points t it" and h: "HashFn P k = HashFn P (tit_key t it)"
    and t': "t' = put_seg t (segment_dir t ! seg_id it) (seg_wipe (get_seg t (seg_id it)) (seg_it it) k v)"
  shows "table_inv P t'" "tit_points t' it" "tit_key t' it = k" "tit_value t' it = v"
    "\<exists>M. tb_entries t = add_mset (tit_key t it, tit_value t it) M \<and> tb_entries t' = add_mset (k, v) M"
proof -
  note d = table_invD(1) [OF inv] and so = table_invD(2) [OF inv]
  let ?a = "segment_dir t ! seg_id it" let ?s = "get_seg t (seg_id it)" let ?s' = "seg_wipe ?s (seg_it it) k v"
  have lt: "seg_id it < length (segment_dir t)" "it_points ?s (seg_it it)" using it by (auto simp: tit_points_def)
  have sid: "seg_id it < 2 ^ global_depth t" using lt(1) dir_okD(2) [OF d] by simp
  have a: "?a < length (store t)" "?a \<in> set (segment_dir t)" using dir_okD(3) [OF d sid] lt(1) by auto
  note sinv = table_invD(4) [OF inv sid]
  have h': "HashFn P k = HashFn P (it_key ?s (seg_it it))" using h by (simp add: tit_key_def)
  obtain M where M: "seg_entries ?s = add_mset (tit_key t it, tit_value t it) M" "seg_entries ?s' = add_mset (k, v) M"
    using seg_wipe_inv(2) [OF sinv lt(2) h'] unfolding tit_key_def tit_value_def by blast
  have "prefix (local_depth ?s') (khash P (fst e)) = seg_id it div chunk t (seg_id it)" if "e \<in># seg_entries ?s'" for e
    using table_invD(5) [OF inv sid, of e] table_invD(5) [OF inv sid, of "(tit_key t it, tit_value t it)"] that M h
    by (auto simp: khash_def)
  note ok = put_seg_ok [OF d so sid refl seg_wipe_inv(1) [OF sinv lt(2) h'] _ this]
  have eq: "tb_entries t' + add_mset (tit_key t it, tit_value t it) M = tb_entries t + add_mset (k, v) M"
    using tb_entries_put [OF a(2,1), of ?s'] M t' by (simp add: get_seg_def)
  then have eq': "tb_entries t' + {#(tit_key t it, tit_value t it)#} = tb_entries t + {#(k, v)#}" by simp
  have "(tit_key t it, tit_value t it) \<in># tb_entries t" using Table_Erase_spec [OF inv it] by auto
  then obtain N where N: "tb_entries t = add_mset (tit_key t it, tit_value t it) N" by (metis mset_add)
  then have N': "tb_entries t' = add_mset (k, v) N" using eq' by simp
  then show "\<exists>M. tb_entries t = add_mset (tit_key t it, tit_value t it) M \<and> tb_entries t' = add_mset (k, v) M" using N by blast
  show "table_inv P t'" using ok table_invD(3) [OF inv] N N' t' by (simp add: table_inv_def)
  have g: "get_seg t' (seg_id it) = ?s'" using a(1) t' by (simp add: get_seg_put)
  have wf: "bucket_wf (GetBucket ?s (bucket_id it))" "seg_len ?s" "bucket_id it < kTotalBuckets" "slot_id it < kSlotNum"
    using lt(2) seg_shapeD(1,2) [OF seg_invD(1) [OF sinv]] by (auto simp: it_points_def)
  show "tit_points t' it" "tit_key t' it = k" "tit_value t' it = v"
    using lt wf t' bucket_wf_len [OF wf(1)] unfolding tit_points_def tit_key_def tit_value_def g it_points_def it_key_def it_value_def
    by (simp_all add: GetBucket_wipe [OF wf(2)])
qed

lemma set_first_eq:
  assumes inv: "table_inv P t" and it: "tit_points t it"
  shows "set_first t it k = put_seg t (segment_dir t ! seg_id it) (seg_wipe (get_seg t (seg_id it)) (seg_it it) k (tit_value t it))"
    "set_second t it v = put_seg t (segment_dir t ! seg_id it) (seg_wipe (get_seg t (seg_id it)) (seg_it it) (tit_key t it) v)"
  by (simp_all add: set_first_def set_second_def Let_def seg_wipe_def wipe_def tit_key_def tit_value_def it_key_def it_value_def get_seg_def)

lemma set_first_spec:
  assumes inv: "table_inv P t" and it: "tit_points t it" and h: "HashFn P k = HashFn P (tit_key t it)"
  shows "table_inv P (set_first t it k)" "tit_points (set_first t it k) it" "tit_key (set_first t it k) it = k"
    "tit_value (set_first t it k) it = tit_value t it"
    "\<exists>M. tb_entries t = add_mset (tit_key t it, tit_value t it) M \<and> tb_entries (set_first t it k) = add_mset (k, tit_value t it) M"
  using table_wipe [OF inv it h set_first_eq(1) [OF inv it]] by simp_all

lemma set_second_spec:
  assumes inv: "table_inv P t" and it: "tit_points t it"
  shows "table_inv P (set_second t it v)" "tit_points (set_second t it v) it" "tit_key (set_second t it v) it = tit_key t it"
    "tit_value (set_second t it v) it = v"
    "\<exists>M. tb_entries t = add_mset (tit_key t it, tit_value t it) M \<and> tb_entries (set_second t it v) = add_mset (tit_key t it, v) M"
  using table_wipe [OF inv it refl set_first_eq(2) [OF inv it]] by simp_all

subsection \<open>Assignments that keep the view of the key\<close>

context dash_policy
begin

lemma map_replace:
  assumes inv: "map_inv P view good t" and t': "table_inv P t'" "tb_entries t = add_mset (k, v) M" "tb_entries t' = add_mset (k', v') M"
    and k': "good k'" "view k' = view k"
  shows "map_inv P view good t'" "lookup P t' = (lookup P t)(view k \<mapsto> v')"
proof -
  have K: "keyed view good (tb_entries t)" using inv by (simp add: map_inv_def)
  have "size (filter_mset (\<lambda>e. view (fst e) = u) (tb_entries t')) = size (filter_mset (\<lambda>e. view (fst e) = u) (tb_entries t))" for u
    using t'(2,3) k' by simp
  then have "keyed view good (tb_entries t')" using K k' t'(2,3) by (simp add: keyed_def)
  then show inv': "map_inv P view good t'" using t'(1) by (simp add: map_inv_def)
  have one: "view x \<noteq> view k" if "(x, w) \<in># M" for x w
  proof
    let ?F = "filter_mset (\<lambda>e. view (fst e) = view k) M"
    assume "view x = view k"
    then have "(x, w) \<in># ?F" using that by simp
    then have "?F \<noteq> {#}" by (metis empty_iff set_mset_empty)
    then have "size ?F \<noteq> 0" by (simp only: size_eq_0_iff_empty not_False_eq_True)
    moreover have "filter_mset (\<lambda>e. view (fst e) = view k) (tb_entries t) = add_mset (k, v) ?F" by (simp add: t'(2))
    then have "size (add_mset (k, v) ?F) \<le> 1" using K unfolding keyed_def by metis
    ultimately show False by auto
  qed
  have "lookup P t' x = Some w \<longleftrightarrow> ((lookup P t)(view k \<mapsto> v')) x = Some w" for x w
    using lookup_iff [OF inv', of x w] lookup_iff [OF inv, of x w] one t'(2,3) k' by auto
  then show "lookup P t' = (lookup P t)(view k \<mapsto> v')" by (metis ext not_Some_eq)
qed

lemma tit_good:
  assumes "map_inv P view good t" "tit_points t it"
  shows "good (tit_key t it)"
proof -
  have t: "table_inv P t" "keyed view good (tb_entries t)" using assms(1) by (auto simp: map_inv_def)
  show ?thesis by (rule keyed_good [OF t(2) tit_in_entries [OF t(1) assms(2)]])
qed

lemma tit_lookup:
  assumes "map_inv P view good t" "tit_points t it"
  shows "lookup P t (view (tit_key t it)) = Some (tit_value t it)"
proof -
  have "table_inv P t" using assms(1) by (simp add: map_inv_def)
  from tit_in_entries [OF this assms(2)] show ?thesis using lookup_iff [OF assms(1)] by blast
qed

lemma map_set_first:
  assumes inv: "map_inv P view good t" and it: "tit_points t it" and k': "good k'" "view k' = view (tit_key t it)"
  shows "map_inv P view good (set_first t it k')" "lookup P (set_first t it k') = lookup P t" "tit_points (set_first t it k') it"
    "tit_key (set_first t it k') it = k'" "tit_value (set_first t it k') it = tit_value t it"
    "\<exists>M. tb_entries t = add_mset (tit_key t it, tit_value t it) M \<and> tb_entries (set_first t it k') = add_mset (k', tit_value t it) M"
proof -
  have ti: "table_inv P t" using inv by (simp add: map_inv_def)
  have h: "HashFn P k' = HashFn P (tit_key t it)" using hash_view [OF k'(1)] hash_view [OF tit_good [OF inv it]] k'(2) by simp
  note s = set_first_spec [OF ti it h]
  show "tit_points (set_first t it k') it" "tit_key (set_first t it k') it = k'" "tit_value (set_first t it k') it = tit_value t it"
    by (rule s)+
  show M: "\<exists>M. tb_entries t = add_mset (tit_key t it, tit_value t it) M \<and> tb_entries (set_first t it k') = add_mset (k', tit_value t it) M"
    by (rule s)
  show "map_inv P view good (set_first t it k')" using M map_replace(1) [OF inv s(1) _ _ k'] by blast
  have "lookup P (set_first t it k') = (lookup P t)(view (tit_key t it) \<mapsto> tit_value t it)"
    using M map_replace(2) [OF inv s(1) _ _ k'] by blast
  then show "lookup P (set_first t it k') = lookup P t" using tit_lookup [OF inv it] by (simp add: fun_upd_idem)
qed

lemma map_set_second:
  assumes inv: "map_inv P view good t" and it: "tit_points t it"
  shows "map_inv P view good (set_second t it v)" "lookup P (set_second t it v) = (lookup P t)(view (tit_key t it) \<mapsto> v)"
    "tit_points (set_second t it v) it" "tit_key (set_second t it v) it = tit_key t it" "tit_value (set_second t it v) it = v"
    "\<exists>M. tb_entries t = add_mset (tit_key t it, tit_value t it) M \<and> tb_entries (set_second t it v) = add_mset (tit_key t it, v) M"
proof -
  have ti: "table_inv P t" using inv by (simp add: map_inv_def)
  note s = set_second_spec [OF ti it, where v = v]
  show "tit_points (set_second t it v) it" "tit_key (set_second t it v) it = tit_key t it" "tit_value (set_second t it v) it = v"
    by (rule s)+
  show M: "\<exists>M. tb_entries t = add_mset (tit_key t it, tit_value t it) M \<and> tb_entries (set_second t it v) = add_mset (tit_key t it, v) M"
    by (rule s)
  show "map_inv P view good (set_second t it v)" "lookup P (set_second t it v) = (lookup P t)(view (tit_key t it) \<mapsto> v)"
    using M map_replace [OF inv s(1) _ _ tit_good [OF inv it] refl] by blast+
qed

end

end
