(* ===== verification/Dash_Touch.thy ===== *)
theory Dash_Touch
  imports Dash_Assign
begin

text \<open>
  Erasing an entry leaves every other slot of the table where it is, so that a callback of
  \<open>Traverse\<close> may erase the entry it is called on.
\<close>

lemma ClearStash_loop_same: "same_slots b (snd (ClearStash_loop b fp sp n ob om i))"
  by (induction n arbitrary: ob om i) auto

lemma ClearStash_same: "ClearStash b fp sp pr = (ok, b') \<Longrightarrow> same_slots b b'"
  using ClearStash_loop_same [of b fp sp] by (metis ClearStash_def snd_conv)

lemma UnsetStashPtr_same:
  assumes "UnsetStashPtr b fp sp nx = Some (r, b', nx')"
  shows "same_slots b b'" "same_slots nx nx'"
proof -
  obtain ok b1 where 1: "ClearStash b fp sp False = (ok, b1)" by (cases "ClearStash b fp sp False")
  obtain ok2 n1 where 2: "ClearStash nx fp sp True = (ok2, n1)" by (cases "ClearStash nx fp sp True")
  note s = ClearStash_same [OF 1] ClearStash_same [OF 2]
  show "same_slots b b'" "same_slots nx nx'"
    using assms s unfolding UnsetStashPtr_def 1 2 Let_def
    by (auto simp: same_slots_def split: if_splits bind_splits)
qed

lemma same_slots_slot:
  assumes "\<forall>j. same_slots (GetBucket s j) (GetBucket s' j)"
  shows "same_slot s s' x"
proof -
  have "same_slots (GetBucket s (index x)) (GetBucket s' (index x))" using assms by blast
  then show ?thesis
    by (cases "GetBucket s (index x)"; cases "GetBucket s' (index x)")
      (simp add: same_slot_def same_slots_def it_key_def it_value_def)
qed

lemma same_slots_sym: "same_slots a b \<Longrightarrow> same_slots b a"
  by (simp add: same_slots_def)

lemma upd_same: "same_slots (GetBucket s y) b \<Longrightarrow> same_slots (GetBucket s j) (GetBucket (upd s y b) j)"
  by (cases "y < length (bucket_arr s)"; cases "j = y") (simp_all add: upd_def list_update_beyond)

lemma RemoveStashReference_same:
  assumes "RemoveStashReference s p h = Some s'"
  shows "same_slots (GetBucket s j) (GetBucket s' j)" "length (bucket_arr s') = length (bucket_arr s)"
proof -
  let ?y = "HomeIndex h"
  obtain r b n where u: "UnsetStashPtr (GetBucket s ?y) (meta h) p (GetBucket s (NextBid ?y)) = Some (r, b, n)"
    and s': "s' = upd (upd s ?y b) (NextBid ?y) n"
    using assms by (auto simp: RemoveStashReference_def Let_def split: bind_splits)
  show "same_slots (GetBucket s j) (GetBucket s' j)"
  proof -
    note us = UnsetStashPtr_same [OF u]
    have "same_slots (GetBucket (upd s ?y b) (NextBid ?y)) n"
      by (rule same_slots_trans [OF same_slots_sym [OF upd_same [OF us(1)]] us(2)])
    from same_slots_trans [OF upd_same [OF us(1)] upd_same [OF this]] show ?thesis by (simp add: s')
  qed
  show "length (bucket_arr s') = length (bucket_arr s)" by (simp add: s' upd_def)
qed

lemma Segment_Delete_same:
  assumes "Segment_Delete s it h = Some s'" and x: "x \<noteq> it"
  shows "same_slot s s' x"
proof -
  obtain s1 b where s1: "(if kBucketNum \<le> index it then RemoveStashReference s (index it - kBucketNum) h else Some s) = Some s1"
    "Delete (GetBucket s1 (index it)) (slot it) = Some b" "s' = upd s1 (index it) b"
    using assms(1) by (auto simp: Segment_Delete_def split: bind_splits)
  have "same_slot s s1 x" using s1(1) RemoveStashReference_same(1) [THEN same_slots_slot [OF allI]] by (auto split: if_splits)
  moreover have "same_slot s1 s' x"
  proof (cases "index x = index it \<and> index it < length (bucket_arr s1)")
    case True
    then have ne: "slot x \<noteq> slot it" using x by (cases x; cases it) auto
    have b: "b = (GetBucket s1 (index it))\<lparr>slotb := sb_ClearSlots (slotb (GetBucket s1 (index it))) (push_bit (slot it) 1)\<rparr>"
      using s1(2) by (auto simp: Delete_def ClearSlot_def split: bind_splits)
    show ?thesis
      using True ne by (auto simp: same_slot_def s1(3) upd_def b it_key_def it_value_def sb_ClearSlots_def bit_simps dest: bit_imp_le_length)
  next
    case False
    then have "GetBucket s' (index x) = GetBucket s1 (index x)"
      by (cases "index x = index it") (auto simp: s1(3) upd_def list_update_beyond)
    then show ?thesis by (simp add: same_slot_def it_key_def it_value_def)
  qed
  ultimately show ?thesis by (rule same_slot_trans)
qed

lemma seg_wipe_same: "x \<noteq> it \<Longrightarrow> same_slot s (seg_wipe s it k v) x"
  by (cases x; cases it; cases "index it < length (bucket_arr s)")
    (auto simp: same_slot_def seg_wipe_def upd_def wipe_def it_key_def it_value_def nth_list_update list_update_beyond)

lemma seg_walk_addr:
  assumes "dir_ok t" "i \<in> set (seg_walk t 0)" "j \<in> set (seg_walk t 0)" "segment_dir t ! i = segment_dir t ! j"
  shows "i = j"
  using seg_addrs_0(1) [OF assms(1)] assms(2-4) by (auto simp: seg_addrs_def distinct_map inj_on_def)

lemma touch_refl: "table_inv P t \<Longrightarrow> touch P it t t"
  by (simp add: touch_def)

lemma Table_Erase_touch:
  assumes inv: "table_inv P t" and it: "tit_points t it" and w: "seg_id it \<in> set (seg_walk t 0)" and e: "Table_Erase P t it = Some t'"
  shows "touch P it t t'"
proof -
  note d = table_invD(1) [OF inv]
  let ?a = "segment_dir t ! seg_id it" and ?s = "get_seg t (seg_id it)" and ?h = "khash P (tit_key t it)"
  let ?k = "DestroyKey P (tit_key t it)" and ?v = "DestroyValue P (tit_value t it)"
  have lt: "seg_id it < length (segment_dir t)" "it_points ?s (seg_it it)" using it by (auto simp: tit_points_def)
  have sid: "seg_id it < 2 ^ global_depth t" using lt(1) dir_okD(2) [OF d] by simp
  have al: "?a < length (store t)" using dir_okD(3) [OF d sid] .
  have len: "seg_len ?s" using seg_shapeD(1) [OF seg_invD(1) [OF table_invD(4) [OF inv sid]]] .
  have bl: "bucket_id it < kTotalBuckets" using lt(2) by (simp add: it_points_def)
  define t1 where "t1 = put_seg t ?a (seg_wipe ?s (seg_it it) ?k ?v)"
  have t1: "set_second (set_first t it ?k) it ?v = t1" unfolding t1_def using set_first_second [OF d lt(1)] len bl by simp
  have g1: "get_seg t1 (seg_id it) = seg_wipe ?s (seg_it it) ?k ?v" using al by (simp add: t1_def get_seg_put)
  have dir1: "segment_dir t1 = segment_dir t" "table_size t1 = table_size t" by (simp_all add: t1_def)
  obtain s' where s': "Segment_Delete (get_seg t1 (seg_id it)) (seg_it it) ?h = Some s'"
    and t': "t' = (put_seg t1 ?a s')\<lparr>table_size := table_size t - 1\<rparr>"
    using e HashFn_tit [OF inv it] unfolding Table_Erase_def tit_content [OF it]
    by (auto simp: t1 get_seg_def dir1 Let_def split: bind_splits)
  have t'_eq: "t' = (put_seg t ?a s')\<lparr>table_size := table_size t - 1\<rparr>" by (simp add: t' t1_def put_seg_def)
  have get: "get_seg t' i = (if segment_dir t ! i = ?a then s' else get_seg t i)" for i
    using get_seg_put [OF al] by (simp add: t'_eq get_seg_def put_seg_def)
  have inv': "table_inv P t'" using Table_Erase_spec [OF inv it] e by auto
  have dl: "deleted P ?s (tit_key t it, tit_value t it) s'"
    using Segment_Delete_wiped [OF table_invD(4) [OF inv sid] lt(2), of ?h ?k ?v] HashFn_tit [OF inv it] s' g1
    by (auto simp: tit_key_def tit_value_def)
  have same: "same_slot ?s s' x" if "x \<noteq> seg_it it" for x
    using seg_wipe_same [OF that] Segment_Delete_same [OF s' that] g1 same_slot_trans by metis
  have free: "\<not> busy (GetBucket s' (bucket_id it)) (slot_id it)"
    using Segment_Delete_free(1) [OF s'] len bl g1 by (simp add: seg_wipe_def upd_def)
  have "same_slot (get_seg t i) (get_seg t' i) x \<or> tit i x = it \<and> \<not> busy (GetBucket (get_seg t' i) (index x)) (slot x)"
    if i: "i \<in> set (seg_walk t 0)" for i x
  proof (cases "i = seg_id it")
    case True
    then show ?thesis using same [of x] free by (cases "x = seg_it it") (auto simp: get tit_def)
  next
    case False
    then show ?thesis using seg_walk_addr [OF d i w] by (auto simp: get)
  qed
  moreover have "local_depth (get_seg t' i) = local_depth (get_seg t i)" for i
    using dl same_dir [of t i "seg_id it"] by (auto simp: get deleted_def)
  ultimately show ?thesis using inv' by (simp add: touch_def t'_eq)
qed

end
