(* ===== verification/Decimal.thy ===== *)
theory Decimal
  imports Prelude
begin

text \<open>
  Decimal numbers: \<open>std::to_string\<close>, the digit tests of \<open><cctype>\<close> and the value of a string of digits,
  with the lemma that reading what was printed gives the number back.
\<close>

definition digit :: "nat \<Rightarrow> char" where
  "digit n = char_of (48 + n)"

function nat_string :: "nat \<Rightarrow> string" where
  "nat_string n = (if n < 10 then [digit n] else nat_string (n div 10) @ [digit (n mod 10)])"
  by auto

termination
  by (relation "measure (\<lambda>n. n)") auto

declare nat_string.simps [simp del]

definition to_string :: "int \<Rightarrow> string" where
  "to_string i = (if i < 0 then CHR ''-'' # nat_string (nat (- i)) else nat_string (nat i))"

text \<open>\<open>std::isdigit\<close>, and the value \<open>c - '0'\<close>.\<close>

definition is_digit :: "char \<Rightarrow> bool" where
  "is_digit c \<longleftrightarrow> 48 \<le> (of_char c :: nat) \<and> (of_char c :: nat) \<le> 57"

definition digit_val :: "char \<Rightarrow> nat" where
  "digit_val c = of_char c - 48"

definition dec_step :: "nat \<Rightarrow> char \<Rightarrow> nat" where
  "dec_step n c = n * 10 + digit_val c"

lemma digit_simps [simp]: "n < 10 \<Longrightarrow> is_digit (digit n)" "n < 10 \<Longrightarrow> digit_val (digit n) = n"
  by (simp_all add: is_digit_def digit_val_def digit_def)

lemma nat_string_digits: "\<forall>c \<in> set (nat_string n). is_digit c" "nat_string n \<noteq> []"
proof -
  show "\<forall>c \<in> set (nat_string n). is_digit c"
  proof (induction n rule: nat_string.induct)
    case (1 n)
    then show ?case by (subst nat_string.simps) auto
  qed
  show "nat_string n \<noteq> []" by (subst nat_string.simps) simp
qed

lemma dec_nat_string: "foldl dec_step 0 (nat_string n) = n"
proof (induction n rule: nat_string.induct)
  case (1 n)
  then show ?case by (subst nat_string.simps) (cases "n < 10"; simp add: dec_step_def [of _ "digit _"])
qed

lemma dec_mono: "n \<le> foldl dec_step n cs"
proof (induction cs arbitrary: n)
  case (Cons c cs)
  have "n \<le> dec_step n c" by (simp add: dec_step_def)
  also have "\<dots> \<le> foldl dec_step (dec_step n c) cs" by (rule Cons.IH)
  finally show ?case by simp
qed simp

end
