(* ===== verification/Compact_Obj.thy ===== *)
theory Compact_Obj
  imports Dash_Touch Decimal
begin

text \<open>
  The key and value objects of the table (\<open>compact_obj.hpp\<close>, \<open>compact_obj.cpp\<close>) and the policy of
  the production table (\<open>table_policy.hpp\<close>).

  The union of a \<open>CompactObj\<close> holds a string, a string with an expiry time, or an integer. The
  members \<open>str_\<close> and \<open>ttl_str_.str_\<close> lie at the same address, so a read of one after a write of the
  other gives the string; a read of the string after a write of the integer has no defined value
  and gives \<open>None\<close>. The model assigns to the union member whatever its state is: the lifetime of
  the string objects, which \<open>Reset\<close> ends without starting a new one, is left out. \<open>is_key_\<close> is
  never read.

  Code outside the sources: \<open>hs\<close> is \<open>std::hash\<close> on strings and string views, \<open>hi\<close> is
  \<open>std::hash<int64_t>\<close>, and \<open>sm\<close> is the contents of a \<open>std::string\<close> after a move assignment to
  itself, which the standard leaves unspecified.
\<close>

subsection \<open>Objects\<close>

datatype TagEnum = NO_TAG | INT_TAG | STR_TAG | ROBJ_TAG | TTL_STR_TAG

record TtlString =
  ttl_str :: string
  ttl_exp :: u64

datatype U = U_str string | U_ttl TtlString | U_int int

record CompactObj =
  obj_tag :: TagEnum
  obj_u :: U

definition u_str :: "U \<Rightarrow> string option" where
  "u_str u = (case u of U_str s \<Rightarrow> Some s | U_ttl t \<Rightarrow> Some (ttl_str t) | U_int i \<Rightarrow> None)"

definition SetString :: "CompactObj \<Rightarrow> string \<Rightarrow> CompactObj" where
  "SetString c str = c\<lparr>obj_u := U_str str, obj_tag := STR_TAG\<rparr>"

definition SetInt :: "CompactObj \<Rightarrow> int \<Rightarrow> CompactObj" where
  "SetInt c val = c\<lparr>obj_u := U_int val, obj_tag := INT_TAG\<rparr>"

text \<open>\<open>SetTtlStr\<close> does not set the tag.\<close>

definition SetTtlStr :: "CompactObj \<Rightarrow> TtlString \<Rightarrow> CompactObj" where
  "SetTtlStr c s = c\<lparr>obj_u := U_ttl s\<rparr>"

text \<open>The constructors, and the default-constructed \<open>CompactKey\<close> and \<open>CompactValue\<close>.\<close>

definition CompactObj_init :: CompactObj where
  "CompactObj_init = \<lparr>obj_tag = NO_TAG, obj_u = U_str ''''\<rparr>"

definition CompactObj_str :: "string \<Rightarrow> CompactObj" where
  "CompactObj_str str = SetString CompactObj_init str"

definition CompactObj_int :: "int \<Rightarrow> CompactObj" where
  "CompactObj_int val = SetInt CompactObj_init val"

definition CompactObj_ttl :: "TtlString \<Rightarrow> CompactObj" where
  "CompactObj_ttl s = SetTtlStr CompactObj_init s"

text \<open>The move assignment \<open>d = std::move(o)\<close>; \<open>None\<close> is \<open>LOG(FATAL)\<close>.\<close>

definition move_assign :: "CompactObj \<Rightarrow> CompactObj \<Rightarrow> CompactObj option" where
  "move_assign d ob = (case (obj_tag ob, obj_u ob) of
      (NO_TAG, _) \<Rightarrow> Some d
    | (INT_TAG, U_int i) \<Rightarrow> Some (SetInt d i)
    | (STR_TAG, U_str s) \<Rightarrow> Some (SetString d s)
    | (STR_TAG, U_ttl s) \<Rightarrow> Some (SetString d (ttl_str s))
    | (TTL_STR_TAG, U_ttl s) \<Rightarrow> Some (SetTtlStr d s)
    | _ \<Rightarrow> None)"

definition CompactObj_eq :: "CompactObj \<Rightarrow> CompactObj \<Rightarrow> bool option" where
  "CompactObj_eq a b = (if obj_tag a \<noteq> obj_tag b then Some False else case obj_tag a of
      NO_TAG \<Rightarrow> Some True
    | INT_TAG \<Rightarrow> (case (obj_u a, obj_u b) of (U_int i, U_int j) \<Rightarrow> Some (i = j) | _ \<Rightarrow> None)
    | STR_TAG \<Rightarrow> (case (u_str (obj_u a), u_str (obj_u b)) of (Some s, Some t) \<Rightarrow> Some (s = t) | _ \<Rightarrow> None)
    | TTL_STR_TAG \<Rightarrow> (case (obj_u a, obj_u b) of (U_ttl s, U_ttl t) \<Rightarrow> Some (s = t) | _ \<Rightarrow> None)
    | ROBJ_TAG \<Rightarrow> None)"

definition HashCode :: "(string \<Rightarrow> u64) \<Rightarrow> (int \<Rightarrow> u64) \<Rightarrow> CompactObj \<Rightarrow> u64 option" where
  "HashCode hs hi c = (case obj_tag c of
      INT_TAG \<Rightarrow> (case obj_u c of U_int i \<Rightarrow> Some (hi i) | _ \<Rightarrow> None)
    | STR_TAG \<Rightarrow> map_option hs (u_str (obj_u c))
    | TTL_STR_TAG \<Rightarrow> map_option hs (u_str (obj_u c))
    | _ \<Rightarrow> None)"

definition Reset :: "CompactObj \<Rightarrow> CompactObj option" where
  "Reset c = (if obj_tag c = ROBJ_TAG then None else Some (c\<lparr>obj_tag := NO_TAG\<rparr>))"

definition ToString :: "CompactObj \<Rightarrow> string option" where
  "ToString c = (case obj_tag c of
      INT_TAG \<Rightarrow> (case obj_u c of U_int i \<Rightarrow> Some (to_string i) | _ \<Rightarrow> None)
    | STR_TAG \<Rightarrow> u_str (obj_u c)
    | TTL_STR_TAG \<Rightarrow> u_str (obj_u c)
    | _ \<Rightarrow> None)"

text \<open>\<open>GetSlice\<close> returns a view of the string, or of the scratch string that it fills.\<close>

definition GetSlice :: "CompactObj \<Rightarrow> string \<Rightarrow> (string \<times> string) option" where
  "GetSlice c scratch = (case obj_tag c of
      INT_TAG \<Rightarrow> (case obj_u c of U_int i \<Rightarrow> Some (to_string i, to_string i) | _ \<Rightarrow> None)
    | STR_TAG \<Rightarrow> map_option (\<lambda>s. (s, scratch)) (u_str (obj_u c))
    | TTL_STR_TAG \<Rightarrow> map_option (\<lambda>s. (s, scratch)) (u_str (obj_u c))
    | _ \<Rightarrow> None)"

definition OBJ_STRING :: nat where "OBJ_STRING = 0"

definition ObjType :: "CompactObj \<Rightarrow> nat" where
  "ObjType c = OBJ_STRING"

subsection \<open>Keys\<close>

definition HasExpire :: "CompactObj \<Rightarrow> bool" where
  "HasExpire c \<longleftrightarrow> obj_tag c = TTL_STR_TAG"

text \<open>The assignment of the string to itself goes through \<open>sm\<close>.\<close>

definition SetExpireTime :: "(string \<Rightarrow> string) \<Rightarrow> CompactObj \<Rightarrow> u64 \<Rightarrow> CompactObj option" where
  "SetExpireTime sm c abs_ms = (if obj_tag c = TTL_STR_TAG
     then (case obj_u c of U_ttl t \<Rightarrow> Some (c\<lparr>obj_u := U_ttl (t\<lparr>ttl_exp := abs_ms\<rparr>)\<rparr>) | _ \<Rightarrow> None)
     else do { s \<leftarrow> u_str (obj_u c);
               Some (c\<lparr>obj_u := U_ttl \<lparr>ttl_str = sm s, ttl_exp = abs_ms\<rparr>, obj_tag := TTL_STR_TAG\<rparr>) })"

definition ClearExpireTime :: "CompactObj \<Rightarrow> (bool \<times> CompactObj) option" where
  "ClearExpireTime c = (if obj_tag c \<noteq> TTL_STR_TAG then Some (False, c)
     else do { s \<leftarrow> u_str (obj_u c); Some (True, SetString c s) })"

definition GetExpireTime :: "CompactObj \<Rightarrow> u64 option" where
  "GetExpireTime c = (if obj_tag c \<noteq> TTL_STR_TAG then Some 0 else case obj_u c of U_ttl t \<Rightarrow> Some (ttl_exp t) | _ \<Rightarrow> None)"

text \<open>\<open>CompactKey::operator==\<close> compares the string member, whatever the tag is.\<close>

definition key_eq :: "CompactObj \<Rightarrow> string \<Rightarrow> bool" where
  "key_eq c sl \<longleftrightarrow> u_str (obj_u c) = Some sl"

subsection \<open>The policy of the table\<close>

text \<open>An assignment or reset that ends in \<open>LOG(FATAL)\<close> stops the process; here it leaves the object.\<close>

definition PrimeTablePolicy :: "(string \<Rightarrow> u64) \<Rightarrow> (int \<Rightarrow> u64) \<Rightarrow> (CompactObj, CompactObj, string) Policy" where
  "PrimeTablePolicy hs hi = \<lparr>HashFn = HashCode hs hi, HashView = hs, Equal = key_eq,
     MoveKey = (\<lambda>d c. case move_assign d c of Some r \<Rightarrow> r | None \<Rightarrow> d),
     MoveValue = (\<lambda>d c. case move_assign d c of Some r \<Rightarrow> r | None \<Rightarrow> d),
     AssignKey = SetString,
     DestroyKey = (\<lambda>c. case Reset c of Some r \<Rightarrow> r | None \<Rightarrow> c),
     DestroyValue = (\<lambda>c. case Reset c of Some r \<Rightarrow> r | None \<Rightarrow> c)\<rparr>"

subsection \<open>Keys of the table\<close>

text \<open>A stored key is a string, with or without an expiry time.\<close>

definition good_key :: "CompactObj \<Rightarrow> bool" where
  "good_key c \<longleftrightarrow> (case (obj_tag c, obj_u c) of (STR_TAG, U_str s) \<Rightarrow> True | (TTL_STR_TAG, U_ttl t) \<Rightarrow> True | _ \<Rightarrow> False)"

definition key_view :: "CompactObj \<Rightarrow> string" where
  "key_view c = (case u_str (obj_u c) of Some s \<Rightarrow> s | None \<Rightarrow> '''')"

lemma good_key_cases [consumes 1, case_names Str Ttl]:
  assumes "good_key c"
  obtains (Str) s where "c = \<lparr>obj_tag = STR_TAG, obj_u = U_str s\<rparr>"
    | (Ttl) t where "c = \<lparr>obj_tag = TTL_STR_TAG, obj_u = U_ttl t\<rparr>"
  using assms by (cases c) (auto simp: good_key_def split: TagEnum.splits U.splits)

lemma CompactObj_str_eq: "CompactObj_str s = \<lparr>obj_tag = STR_TAG, obj_u = U_str s\<rparr>"
  by (simp add: CompactObj_str_def SetString_def CompactObj_init_def)

interpretation prime: dash_policy "PrimeTablePolicy hs hi" key_view good_key CompactObj_str for hs hi
proof
  fix c u d assume "good_key c"
  then show "Equal (PrimeTablePolicy hs hi) c u = (key_view c = u)" "HashFn (PrimeTablePolicy hs hi) c = Some (HashView (PrimeTablePolicy hs hi) (key_view c))"
    by (cases rule: good_key_cases; simp add: PrimeTablePolicy_def key_eq_def key_view_def u_str_def HashCode_def)+
next
  show "AssignKey (PrimeTablePolicy hs hi) d u = CompactObj_str u" "good_key (CompactObj_str u)" "key_view (CompactObj_str u) = u" for d u
    by (simp_all add: PrimeTablePolicy_def SetString_def CompactObj_str_eq good_key_def key_view_def u_str_def)
qed

text \<open>The objects that a move into another slot copies: strings, and integers as values.\<close>

definition plain :: "CompactObj \<Rightarrow> bool" where
  "plain c \<longleftrightarrow> (case (obj_tag c, obj_u c) of (STR_TAG, U_str s) \<Rightarrow> True | (INT_TAG, U_int i) \<Rightarrow> True | _ \<Rightarrow> False)"

lemma plain_move: "plain c \<Longrightarrow> move_assign d c = Some c"
  by (cases c; cases d) (auto simp: plain_def move_assign_def SetString_def SetInt_def split: TagEnum.splits U.splits)

lemma plain_regular: "plain k \<Longrightarrow> plain v \<Longrightarrow> regular (PrimeTablePolicy hs hi) (k, v)"
  by (simp add: regular_def PrimeTablePolicy_def plain_move)

lemma plain_table:
  "\<forall>e \<in># tb_entries t. plain (fst e) \<and> plain (snd e) \<Longrightarrow> all_regular (PrimeTablePolicy hs hi) t"
  using plain_regular by (fastforce simp: all_regular_def)

lemma plain_str [simp]: "plain (CompactObj_str s)"
  by (simp add: plain_def CompactObj_str_eq)

end
