(* ===== verification/Op_Status.thy ===== *)
theory Op_Status
  imports Prelude
begin

text \<open>
  Small value types: the status of an operation with its result (\<open>op_status.hpp\<close>) and a string
  that is owned or viewed (\<open>string_or_view.hpp\<close>).
\<close>

subsection \<open>Status and result\<close>

datatype OpStatus = OK | KEY_NOTFOUND | WRONG_TYPE | SKIPPED

text \<open>An \<open>OpResult\<close> always holds a value; built from a status alone it holds the default value, which
  is passed here.\<close>

record 'v OpResult =
  op_st :: OpStatus
  op_v :: 'v

definition OpResult_value :: "'v \<Rightarrow> 'v OpResult" where
  "OpResult_value v = \<lparr>op_st = OK, op_v = v\<rparr>"

definition OpResult_status :: "'v \<Rightarrow> OpStatus \<Rightarrow> 'v OpResult" where
  "OpResult_status dflt st = \<lparr>op_st = st, op_v = dflt\<rparr>"

definition op_ok :: "'v OpResult \<Rightarrow> bool" where
  "op_ok r \<longleftrightarrow> op_st r = OK"

definition value_or :: "'v OpResult \<Rightarrow> 'v \<Rightarrow> 'v" where
  "value_or r v = (if op_st r = OK then op_v r else v)"

lemma OpResult_simps [simp]:
  "op_st (OpResult_value v) = OK" "op_v (OpResult_value v) = v" "op_ok (OpResult_value v)"
  "op_st (OpResult_status d st) = st" "op_v (OpResult_status d st) = d" "op_ok (OpResult_status d st) \<longleftrightarrow> st = OK"
  "value_or (OpResult_value v) w = v" "st \<noteq> OK \<Longrightarrow> value_or (OpResult_status d st) w = w"
  by (simp_all add: OpResult_value_def OpResult_status_def op_ok_def value_or_def)

subsection \<open>Strings and views\<close>

datatype StringOrView = View string | Owned string

definition FromString :: "string \<Rightarrow> StringOrView" where
  "FromString s = Owned s"

definition FromView :: "string \<Rightarrow> StringOrView" where
  "FromView sv = View sv"

definition StringOrView_init :: StringOrView where
  "StringOrView_init = View ''''"

definition sov_view :: "StringOrView \<Rightarrow> string" where
  "sov_view v = (case v of View s \<Rightarrow> s | Owned s \<Rightarrow> s)"

definition sov_eq :: "StringOrView \<Rightarrow> StringOrView \<Rightarrow> bool" where
  "sov_eq a b \<longleftrightarrow> sov_view a = sov_view b"

definition MakeOwned :: "StringOrView \<Rightarrow> StringOrView" where
  "MakeOwned v = (case v of View s \<Rightarrow> Owned s | Owned s \<Rightarrow> Owned s)"

text \<open>\<open>Take\<close> returns the string; the object is left with a moved-from string, here the empty one.\<close>

definition Take :: "StringOrView \<Rightarrow> string \<times> StringOrView" where
  "Take v = (case MakeOwned v of Owned s \<Rightarrow> (s, Owned '''') | View s \<Rightarrow> (s, View s))"

definition sov_empty :: "StringOrView \<Rightarrow> bool" where
  "sov_empty v = (case v of View s \<Rightarrow> s = '''' | Owned s \<Rightarrow> s = '''')"

lemma sov_simps [simp]:
  "sov_view (FromString s) = s" "sov_view (FromView s) = s" "sov_view (MakeOwned v) = sov_view v" "fst (Take v) = sov_view v"
  "sov_empty v \<longleftrightarrow> sov_view v = ''''" "sov_eq a b \<longleftrightarrow> sov_view a = sov_view b"
  by (cases v; simp add: FromString_def FromView_def sov_view_def MakeOwned_def Take_def sov_empty_def sov_eq_def)+

end
