(* ===== verification/Db_Slice.thy ===== *)
theory Db_Slice
  imports Compact_Obj Op_Status
begin

text \<open>
  \<open>DbSlice\<close> (\<open>db_slice.hpp\<close>, \<open>db_slice.cpp\<close>) and \<open>DbTable\<close> (\<open>db_table.hpp\<close>): the databases of a
  shard, lookups, insertion with an expiry time, deletion and expiry. The iterators it hands out
  remember the key they were made for and look it up again when the slot no longer holds it.

  \<open>None\<close> is an abort: a failed assertion, a fatal log or the use of a null iterator. \<open>hs\<close>, \<open>hi\<close> and
  \<open>sm\<close> are the library functions of \<open>Compact_Obj\<close>. Allocation does not fail.
\<close>

subsection \<open>State\<close>

type_synonym PrimeTable = "(CompactObj, CompactObj) DashTable"

record DbTable =
  prime :: PrimeTable
  tbl_index :: nat

record DbSlice =
  shard_id :: nat
  db_arr :: "DbTable option list"

record DbContext =
  db_index :: nat
  time_now_ms :: u64

record DbIterator =
  inner :: "TableIterator option"
  it_skey :: StringOrView

record ItAndUpdater =
  upd_it :: DbIterator
  is_new :: bool

definition DbIterator_init :: DbIterator where
  "DbIterator_init = \<lparr>inner = None, it_skey = StringOrView_init\<rparr>"

definition ItAndUpdater_init :: ItAndUpdater where
  "ItAndUpdater_init = \<lparr>upd_it = DbIterator_init, is_new = False\<rparr>"

definition kInitSegmentLog :: nat where "kInitSegmentLog = 3"

definition DbTable_init :: "nat \<Rightarrow> DbTable" where
  "DbTable_init ind = \<lparr>prime = DashTable_init CompactObj_init CompactObj_init kInitSegmentLog, tbl_index = ind\<rparr>"

definition CreateDb :: "DbSlice \<Rightarrow> nat \<Rightarrow> DbSlice option" where
  "CreateDb sl ind = do {
     assert_opt (ind < length (db_arr sl));
     Some (case db_arr sl ! ind of None \<Rightarrow> sl\<lparr>db_arr := (db_arr sl)[ind := Some (DbTable_init ind)]\<rparr> | Some _ \<Rightarrow> sl) }"

definition DbSlice_init :: "nat \<Rightarrow> DbSlice option" where
  "DbSlice_init ind = CreateDb \<lparr>shard_id = ind, db_arr = [None]\<rparr> 0"

definition IsDbValid :: "DbSlice \<Rightarrow> nat \<Rightarrow> bool" where
  "IsDbValid sl i \<longleftrightarrow> i < length (db_arr sl) \<and> db_arr sl ! i \<noteq> None"

text \<open>\<open>*db_arr_[i]\<close>, and the assignment of the table of a database.\<close>

definition get_db :: "DbSlice \<Rightarrow> nat \<Rightarrow> PrimeTable option" where
  "get_db sl i = (if i < length (db_arr sl) then map_option prime (db_arr sl ! i) else None)"

definition put_db :: "DbSlice \<Rightarrow> nat \<Rightarrow> PrimeTable \<Rightarrow> DbSlice" where
  "put_db sl i t = sl\<lparr>db_arr := (db_arr sl)[i := map_option (\<lambda>d. d\<lparr>prime := t\<rparr>) (db_arr sl ! i)]\<rparr>"

definition IsValid :: "TableIterator option \<Rightarrow> bool" where
  "IsValid it \<longleftrightarrow> it \<noteq> None"

subsection \<open>Iterators\<close>

text \<open>\<open>LaunderIfNeeded\<close>: the iterator is looked up again when its slot is free or holds another key.\<close>

definition LaunderIfNeeded :: "(string \<Rightarrow> u64) \<Rightarrow> (int \<Rightarrow> u64) \<Rightarrow> PrimeTable \<Rightarrow> DbIterator \<Rightarrow> DbIterator option" where
  "LaunderIfNeeded hs hi t it = (case inner it of
      None \<Rightarrow> Some it
    | Some i \<Rightarrow>
        if \<not> IsOccupied t i then Some (it\<lparr>inner := Table_Find (PrimeTablePolicy hs hi) t (sov_view (it_skey it))\<rparr>)
        else do { k \<leftarrow> it_first t i;
                  Some (if \<not> key_eq k (sov_view (it_skey it))
                        then it\<lparr>inner := Table_Find (PrimeTablePolicy hs hi) t (sov_view (it_skey it))\<rparr>
                        else it) })"

definition GetInnerIt :: "(string \<Rightarrow> u64) \<Rightarrow> (int \<Rightarrow> u64) \<Rightarrow> PrimeTable \<Rightarrow> DbIterator \<Rightarrow> TableIterator option option" where
  "GetInnerIt hs hi t it = map_option inner (LaunderIfNeeded hs hi t it)"

text \<open>\<open>operator->\<close>: the slot under the iterator; a null iterator aborts.\<close>

definition deref :: "(string \<Rightarrow> u64) \<Rightarrow> (int \<Rightarrow> u64) \<Rightarrow> PrimeTable \<Rightarrow> DbIterator \<Rightarrow> TableIterator option" where
  "deref hs hi t it = do { i \<leftarrow> GetInnerIt hs hi t it; i }"

definition is_done :: "(string \<Rightarrow> u64) \<Rightarrow> (int \<Rightarrow> u64) \<Rightarrow> PrimeTable \<Rightarrow> DbIterator \<Rightarrow> bool option" where
  "is_done hs hi t it = map_option (\<lambda>i. i = None) (GetInnerIt hs hi t it)"

text \<open>\<open>FromPrime\<close> builds the iterator with an empty key.\<close>

definition FromPrime :: "TableIterator option \<Rightarrow> DbIterator" where
  "FromPrime it = (if \<not> IsValid it then DbIterator_init else \<lparr>inner = it, it_skey = FromString ''''\<rparr>)"

subsection \<open>Lookup\<close>

definition FindInternal :: "(string \<Rightarrow> u64) \<Rightarrow> (int \<Rightarrow> u64) \<Rightarrow> DbSlice \<Rightarrow> DbContext \<Rightarrow> string \<Rightarrow> nat option
    \<Rightarrow> TableIterator option OpResult option" where
  "FindInternal hs hi sl cntx ky req_obj_type =
     (if \<not> IsDbValid sl (db_index cntx) then Some (OpResult_status None KEY_NOTFOUND)
      else do {
        t \<leftarrow> get_db sl (db_index cntx);
        case Table_Find (PrimeTablePolicy hs hi) t ky of
          None \<Rightarrow> Some (OpResult_status None KEY_NOTFOUND)
        | Some i \<Rightarrow> do {
            v \<leftarrow> it_second t i;
            Some (if req_obj_type \<noteq> None \<and> Some (ObjType v) \<noteq> req_obj_type then OpResult_status None WRONG_TYPE
                  else OpResult_value (Some i)) } })"

definition FindMutableInternal :: "(string \<Rightarrow> u64) \<Rightarrow> (int \<Rightarrow> u64) \<Rightarrow> DbSlice \<Rightarrow> DbContext \<Rightarrow> string \<Rightarrow> nat option
    \<Rightarrow> ItAndUpdater OpResult option" where
  "FindMutableInternal hs hi sl cntx ky req = do {
     res \<leftarrow> FindInternal hs hi sl cntx ky req;
     if \<not> op_ok res then Some (OpResult_status ItAndUpdater_init (op_st res))
     else do {
       i \<leftarrow> op_v res;
       t \<leftarrow> get_db sl (db_index cntx);
       Some (if IsOccupied t i then OpResult_value \<lparr>upd_it = \<lparr>inner = Some i, it_skey = FromView ky\<rparr>, is_new = False\<rparr>
             else OpResult_status ItAndUpdater_init KEY_NOTFOUND) } }"

definition FindMutable :: "(string \<Rightarrow> u64) \<Rightarrow> (int \<Rightarrow> u64) \<Rightarrow> DbSlice \<Rightarrow> DbContext \<Rightarrow> string \<Rightarrow> ItAndUpdater option" where
  "FindMutable hs hi sl cntx ky = map_option op_v (FindMutableInternal hs hi sl cntx ky None)"

definition FindReadOnly :: "(string \<Rightarrow> u64) \<Rightarrow> (int \<Rightarrow> u64) \<Rightarrow> DbSlice \<Rightarrow> DbContext \<Rightarrow> string \<Rightarrow> DbIterator option" where
  "FindReadOnly hs hi sl cntx ky = do {
     res \<leftarrow> FindInternal hs hi sl cntx ky None;
     Some \<lparr>inner = op_v res, it_skey = FromView ky\<rparr> }"

subsection \<open>Expiry times\<close>

definition AddExpire :: "(string \<Rightarrow> string) \<Rightarrow> (string \<Rightarrow> u64) \<Rightarrow> (int \<Rightarrow> u64) \<Rightarrow> PrimeTable \<Rightarrow> DbIterator \<Rightarrow> u64 \<Rightarrow> PrimeTable option" where
  "AddExpire sm hs hi t main_it at = do {
     i \<leftarrow> deref hs hi t main_it;
     k \<leftarrow> it_first t i;
     k' \<leftarrow> SetExpireTime sm k at;
     Some (set_first t i k') }"

definition RemoveExpire :: "(string \<Rightarrow> u64) \<Rightarrow> (int \<Rightarrow> u64) \<Rightarrow> PrimeTable \<Rightarrow> DbIterator \<Rightarrow> (bool \<times> PrimeTable) option" where
  "RemoveExpire hs hi t main_it = do {
     i \<leftarrow> deref hs hi t main_it;
     k \<leftarrow> it_first t i;
     if \<not> HasExpire k then Some (False, t)
     else do { (_, k') \<leftarrow> ClearExpireTime k; Some (True, set_first t i k') } }"

text \<open>\<open>UpdateExpire\<close> stores its argument, which is in seconds, as the expiry time.\<close>

definition UpdateExpire :: "(string \<Rightarrow> string) \<Rightarrow> (string \<Rightarrow> u64) \<Rightarrow> (int \<Rightarrow> u64) \<Rightarrow> PrimeTable \<Rightarrow> DbIterator \<Rightarrow> int
    \<Rightarrow> (unit OpResult \<times> PrimeTable) option" where
  "UpdateExpire sm hs hi t main_it sec = do {
     i \<leftarrow> deref hs hi t main_it;
     k \<leftarrow> it_first t i;
     k' \<leftarrow> SetExpireTime sm k (word_of_int sec);
     Some (OpResult_value (), set_first t i k') }"

subsection \<open>Insertion\<close>

text \<open>Rounds of the insertion loop: each but the last deepens the segment of the key, and no depth
  exceeds the 64 bits of a hash.\<close>

definition kRounds :: nat where "kRounds = 64"

definition AddOrFindInternal :: "(string \<Rightarrow> u64) \<Rightarrow> (int \<Rightarrow> u64) \<Rightarrow> DbSlice \<Rightarrow> DbContext \<Rightarrow> string \<Rightarrow> nat option
    \<Rightarrow> (ItAndUpdater OpResult \<times> DbSlice) option" where
  "AddOrFindInternal hs hi sl cntx ky req = do {
     t \<leftarrow> get_db sl (db_index cntx);
     res \<leftarrow> FindInternal hs hi sl cntx ky req;
     let insert = do {
       (i, t') \<leftarrow> InsertNew (PrimeTablePolicy hs hi) CompactObj_init CompactObj_init kRounds t ky
          (\<lambda>d. MoveValue (PrimeTablePolicy hs hi) d CompactObj_init);
       Some (OpResult_value \<lparr>upd_it = \<lparr>inner = Some i, it_skey = FromView ky\<rparr>, is_new = True\<rparr>, put_db sl (db_index cntx) t') };
     if op_ok res
     then do { i \<leftarrow> op_v res;
               if IsOccupied t i
               then Some (OpResult_value \<lparr>upd_it = \<lparr>inner = Some i, it_skey = FromView ky\<rparr>, is_new = False\<rparr>, sl)
               else insert }
     else if op_st res = WRONG_TYPE then Some (OpResult_status ItAndUpdater_init WRONG_TYPE, sl)
     else insert }"

definition AddOrFind :: "(string \<Rightarrow> u64) \<Rightarrow> (int \<Rightarrow> u64) \<Rightarrow> DbSlice \<Rightarrow> DbContext \<Rightarrow> string \<Rightarrow> nat option
    \<Rightarrow> (ItAndUpdater OpResult \<times> DbSlice) option" where
  "AddOrFind hs hi sl cntx ky req = AddOrFindInternal hs hi sl cntx ky req"

definition AddOrUpdateInternal :: "(string \<Rightarrow> string) \<Rightarrow> (string \<Rightarrow> u64) \<Rightarrow> (int \<Rightarrow> u64) \<Rightarrow> DbSlice \<Rightarrow> DbContext \<Rightarrow> string
    \<Rightarrow> CompactObj \<Rightarrow> u64 \<Rightarrow> (ItAndUpdater OpResult \<times> DbSlice) option" where
  "AddOrUpdateInternal sm hs hi sl cntx ky ob expire_at_ms = do {
     (r, sl) \<leftarrow> AddOrFind hs hi sl cntx ky None;
     if op_st r \<noteq> OK then Some (OpResult_status ItAndUpdater_init (op_st r), sl)
     else if \<not> is_new (op_v r) then Some (r, sl)
     else do {
       t \<leftarrow> get_db sl (db_index cntx);
       i \<leftarrow> deref hs hi t (upd_it (op_v r));
       v \<leftarrow> it_second t i;
       let t = set_second t i (MoveValue (PrimeTablePolicy hs hi) v ob);
       t \<leftarrow> (if expire_at_ms \<noteq> 0 then AddExpire sm hs hi t (upd_it (op_v r)) expire_at_ms
             else map_option snd (RemoveExpire hs hi t (upd_it (op_v r))));
       Some (r, put_db sl (db_index cntx) t) } }"

definition AddOrUpdate :: "(string \<Rightarrow> string) \<Rightarrow> (string \<Rightarrow> u64) \<Rightarrow> (int \<Rightarrow> u64) \<Rightarrow> DbSlice \<Rightarrow> DbContext \<Rightarrow> string
    \<Rightarrow> CompactObj \<Rightarrow> u64 \<Rightarrow> (ItAndUpdater OpResult \<times> DbSlice) option" where
  "AddOrUpdate sm hs hi sl cntx ky ob expire_at_ms = AddOrUpdateInternal sm hs hi sl cntx ky ob expire_at_ms"

definition AddNew :: "(string \<Rightarrow> string) \<Rightarrow> (string \<Rightarrow> u64) \<Rightarrow> (int \<Rightarrow> u64) \<Rightarrow> DbSlice \<Rightarrow> DbContext \<Rightarrow> string
    \<Rightarrow> CompactObj \<Rightarrow> u64 \<Rightarrow> (ItAndUpdater OpResult \<times> DbSlice) option" where
  "AddNew sm hs hi sl cntx ky ob expire_at_ms = do {
     (r, sl) \<leftarrow> AddOrUpdateInternal sm hs hi sl cntx ky ob expire_at_ms;
     Some (OpResult_value \<lparr>upd_it = upd_it (op_v r), is_new = False\<rparr>, sl) }"

subsection \<open>Deletion and expiry\<close>

text \<open>Erasing through a null iterator aborts.\<close>

definition PerformDeletionAtomic :: "(string \<Rightarrow> u64) \<Rightarrow> (int \<Rightarrow> u64) \<Rightarrow> PrimeTable \<Rightarrow> DbIterator \<Rightarrow> PrimeTable option" where
  "PerformDeletionAtomic hs hi t del_it = do {
     i \<leftarrow> deref hs hi t del_it;
     Table_Erase (PrimeTablePolicy hs hi) t i }"

definition Del :: "(string \<Rightarrow> u64) \<Rightarrow> (int \<Rightarrow> u64) \<Rightarrow> DbSlice \<Rightarrow> DbContext \<Rightarrow> DbIterator \<Rightarrow> DbSlice option" where
  "Del hs hi sl cntx it = do {
     t \<leftarrow> get_db sl (db_index cntx);
     t \<leftarrow> PerformDeletionAtomic hs hi t it;
     Some (put_db sl (db_index cntx) t) }"

definition DelMutable :: "(string \<Rightarrow> u64) \<Rightarrow> (int \<Rightarrow> u64) \<Rightarrow> DbSlice \<Rightarrow> DbContext \<Rightarrow> ItAndUpdater \<Rightarrow> DbSlice option" where
  "DelMutable hs hi sl cntx it_updater = Del hs hi sl cntx (upd_it it_updater)"

text \<open>\<open>ExpireIfNeeded\<close> on the iterator of the table; the times are compared as signed integers.\<close>

definition ExpireIfNeeded_prime :: "(string \<Rightarrow> u64) \<Rightarrow> (int \<Rightarrow> u64) \<Rightarrow> PrimeTable \<Rightarrow> u64 \<Rightarrow> TableIterator
    \<Rightarrow> (TableIterator option \<times> PrimeTable) option" where
  "ExpireIfNeeded_prime hs hi t now it = do {
     k \<leftarrow> it_first t it;
     if \<not> HasExpire k then Some (Some it, t)
     else do {
       expire_time \<leftarrow> GetExpireTime k;
       if sint now < sint expire_time then Some (Some it, t)
       else do {
         (ky, _) \<leftarrow> GetSlice k '''';
         t \<leftarrow> PerformDeletionAtomic hs hi t \<lparr>inner = Some it, it_skey = FromView ky\<rparr>;
         Some (None, t) } } }"

definition ExpireIfNeeded :: "(string \<Rightarrow> u64) \<Rightarrow> (int \<Rightarrow> u64) \<Rightarrow> PrimeTable \<Rightarrow> u64 \<Rightarrow> DbIterator \<Rightarrow> (DbIterator \<times> PrimeTable) option" where
  "ExpireIfNeeded hs hi t now it = do {
     i \<leftarrow> deref hs hi t it;
     (r, t) \<leftarrow> ExpireIfNeeded_prime hs hi t now i;
     Some (FromPrime r, t) }"

text \<open>\<open>ExpireAllIfNeeded\<close>: the callback reads the clock on every call; the state of the traversal is the
  list of the readings to come.\<close>

definition expire_cb :: "(string \<Rightarrow> u64) \<Rightarrow> (int \<Rightarrow> u64) \<Rightarrow> TableIterator \<Rightarrow> PrimeTable \<times> u64 list \<Rightarrow> (PrimeTable \<times> u64 list) option" where
  "expire_cb hs hi it st = (case st of (t, clock) \<Rightarrow> do {
     k \<leftarrow> it_first t it;
     if HasExpire k
     then (case clock of [] \<Rightarrow> None | now # clock \<Rightarrow> do { (_, t) \<leftarrow> ExpireIfNeeded_prime hs hi t now it; Some (t, clock) })
     else Some (t, clock) })"

definition ExpireTable :: "(string \<Rightarrow> u64) \<Rightarrow> (int \<Rightarrow> u64) \<Rightarrow> nat \<Rightarrow> PrimeTable \<Rightarrow> u64 list \<Rightarrow> (PrimeTable \<times> u64 list) option" where
  "ExpireTable hs hi fuel t clock = Traverse_all (PrimeTablePolicy hs hi) (expire_cb hs hi) fuel fuel 0 (t, clock)"

fun ExpireAll_loop :: "(string \<Rightarrow> u64) \<Rightarrow> (int \<Rightarrow> u64) \<Rightarrow> nat \<Rightarrow> nat list \<Rightarrow> DbSlice \<times> u64 list \<Rightarrow> (DbSlice \<times> u64 list) option" where
  "ExpireAll_loop hs hi fuel [] st = Some st"
| "ExpireAll_loop hs hi fuel (i # is) (sl, clock) =
     (case get_db sl i of
        None \<Rightarrow> ExpireAll_loop hs hi fuel is (sl, clock)
      | Some t \<Rightarrow> do { (t, clock) \<leftarrow> ExpireTable hs hi fuel t clock;
                        ExpireAll_loop hs hi fuel is (put_db sl i t, clock) })"

definition ExpireAllIfNeeded :: "(string \<Rightarrow> u64) \<Rightarrow> (int \<Rightarrow> u64) \<Rightarrow> nat \<Rightarrow> DbSlice \<Rightarrow> u64 list \<Rightarrow> (DbSlice \<times> u64 list) option" where
  "ExpireAllIfNeeded hs hi fuel sl clock = ExpireAll_loop hs hi fuel [0..<length (db_arr sl)] (sl, clock)"

end
