(* ===== verification/Db_Slice_Correct.thy ===== *)
theory Db_Slice_Correct
  imports Db_Slice
begin

text \<open>
  What the operations of \<open>DbSlice\<close> do to the database they work on: the database is a finite map
  from keys to values, given by the interpretation of the table with the policy of the store.
\<close>

abbreviation db_inv :: "(string \<Rightarrow> u64) \<Rightarrow> (int \<Rightarrow> u64) \<Rightarrow> PrimeTable \<Rightarrow> bool" where
  "db_inv hs hi t \<equiv> map_inv (PrimeTablePolicy hs hi) key_view good_key t"

abbreviation db_map :: "(string \<Rightarrow> u64) \<Rightarrow> (int \<Rightarrow> u64) \<Rightarrow> PrimeTable \<Rightarrow> string \<Rightarrow> CompactObj option" where
  "db_map hs hi t \<equiv> lookup (PrimeTablePolicy hs hi) t"

lemma db_invD: "db_inv hs hi t \<Longrightarrow> table_inv (PrimeTablePolicy hs hi) t"
  by (simp add: map_inv_def)

lemma key_eq_view: "good_key k \<Longrightarrow> key_eq k s \<longleftrightarrow> key_view k = s"
  by (cases k rule: good_key_cases) (auto simp: key_eq_def key_view_def u_str_def)

lemma get_put_db [simp]: "get_db sl i = Some t \<Longrightarrow> get_db (put_db sl i t') j = (if j = i then Some t' else get_db sl j)"
  by (auto simp: get_db_def put_db_def nth_list_update split: if_splits)

lemma get_db_valid: "get_db sl i = Some t \<Longrightarrow> IsDbValid sl i"
  by (auto simp: get_db_def IsDbValid_def split: if_splits)

lemma get_db_invalid: "get_db sl i = None \<longleftrightarrow> \<not> IsDbValid sl i"
  by (auto simp: get_db_def IsDbValid_def)

lemma put_db_same: "get_db sl i = Some t \<Longrightarrow> put_db sl i t = sl"
proof -
  assume "get_db sl i = Some t"
  then have "(db_arr sl)[i := map_option (\<lambda>d. d\<lparr>prime := t\<rparr>) (db_arr sl ! i)] = db_arr sl"
    by (auto simp: get_db_def list_update_same_conv split: if_splits)
  then show ?thesis by (simp add: put_db_def)
qed

lemma put_put_db: "put_db (put_db sl i t) i t' = put_db sl i t'"
  by (cases "i < length (db_arr sl)") (auto simp: put_db_def list_update_beyond option.map_comp comp_def)

subsection \<open>Iterators\<close>

lemma IsOccupied_points: "tit_points t i \<Longrightarrow> IsOccupied t i"
  by (simp add: tit_points_def IsOccupied_def it_points_def Segment_IsBusy_def IsBusy_iff kSlotNum_def)

lemma points_IsOccupied:
  assumes "table_inv P t" "bucket_id i < kTotalBuckets" "slot_id i < 32" "IsOccupied t i"
  shows "tit_points t i"
proof -
  have lt: "seg_id i < length (segment_dir t)" and b: "busy (GetBucket (get_seg t (seg_id i)) (bucket_id i)) (slot_id i)"
    using assms(3,4) by (auto simp: IsOccupied_def Segment_IsBusy_def IsBusy_iff)
  have "seg_inv P (get_seg t (seg_id i))" using table_invD(4) [OF assms(1)] dir_okD(2) [OF table_invD(1) [OF assms(1)]] lt by simp
  then have "bucket_wf (GetBucket (get_seg t (seg_id i)) (bucket_id i))"
    using assms(2) by (rule seg_shapeD(2) [OF seg_invD(1)])
  then have "slot_id i < kSlotNum" using b busy_lt by (auto simp: bucket_wf_def)
  then show ?thesis using lt b assms(2) by (simp add: tit_points_def it_points_def)
qed

lemma GetInnerIt_hit:
  assumes "db_inv hs hi t" "inner it = Some i" "tit_points t i" "key_view (tit_key t i) = sov_view (it_skey it)"
  shows "GetInnerIt hs hi t it = Some (Some i)" "deref hs hi t it = Some i"
  using assms key_eq_view [OF prime.tit_good [OF assms(1,3)]] tit_content(1) [OF assms(3)] IsOccupied_points [OF assms(3)]
  by (simp_all add: GetInnerIt_def LaunderIfNeeded_def deref_def)

lemma GetInnerIt_spec:
  assumes inv: "db_inv hs hi t" and it: "inner it = Some i" "bucket_id i < kTotalBuckets" "slot_id i < 32"
  shows "\<exists>r. GetInnerIt hs hi t it = Some r \<and> (case r of
      None \<Rightarrow> db_map hs hi t (sov_view (it_skey it)) = None
    | Some j \<Rightarrow> tit_points t j \<and> key_view (tit_key t j) = sov_view (it_skey it) \<and>
        db_map hs hi t (sov_view (it_skey it)) = Some (tit_value t j))"
proof -
  let ?F = "Table_Find (PrimeTablePolicy hs hi) t (sov_view (it_skey it))"
  have find: "case ?F of None \<Rightarrow> db_map hs hi t (sov_view (it_skey it)) = None
    | Some j \<Rightarrow> tit_points t j \<and> key_view (tit_key t j) = sov_view (it_skey it) \<and>
        db_map hs hi t (sov_view (it_skey it)) = Some (tit_value t j)"
    using prime.Find_iff(2) [OF inv] by (auto simp: lookup_def split: option.split)
  show ?thesis
  proof (cases "IsOccupied t i \<and> key_view (tit_key t i) = sov_view (it_skey it)")
    case True
    then have p: "tit_points t i" using points_IsOccupied [OF db_invD [OF inv] it(2,3)] by simp
    then show ?thesis using GetInnerIt_hit(1) [OF inv it(1) p] prime.tit_lookup [OF inv p] True by auto
  next
    case False
    have "GetInnerIt hs hi t it = Some ?F"
    proof (cases "IsOccupied t i")
      case True
      note p = points_IsOccupied [OF db_invD [OF inv] it(2,3) True]
      show ?thesis using False True key_eq_view [OF prime.tit_good [OF inv p]] tit_content(1) [OF p] it(1)
        by (simp add: GetInnerIt_def LaunderIfNeeded_def)
    qed (simp add: GetInnerIt_def LaunderIfNeeded_def it(1))
    then show ?thesis using find by auto
  qed
qed

subsection \<open>Lookup\<close>

lemma FindInternal_eq:
  assumes "get_db sl (db_index c) = Some t" "db_inv hs hi t"
  shows "FindInternal hs hi sl c ky req = Some (case Table_Find (PrimeTablePolicy hs hi) t ky of
      None \<Rightarrow> OpResult_status None KEY_NOTFOUND
    | Some i \<Rightarrow> if req \<noteq> None \<and> req \<noteq> Some OBJ_STRING then OpResult_status None WRONG_TYPE else OpResult_value (Some i))"
proof (cases "Table_Find (PrimeTablePolicy hs hi) t ky")
  case (Some i)
  then have "it_second t i = Some (tit_value t i)" using prime.Find_iff(2) [OF assms(2)] tit_content(2) by blast
  then show ?thesis using Some assms(1) get_db_valid [OF assms(1)] by (auto simp: FindInternal_def ObjType_def)
qed (use assms(1) get_db_valid [OF assms(1)] in \<open>simp add: FindInternal_def\<close>)

lemma FindMutable_eq:
  assumes "get_db sl (db_index c) = Some t" "db_inv hs hi t"
  shows "FindMutable hs hi sl c ky = Some (case Table_Find (PrimeTablePolicy hs hi) t ky of
      None \<Rightarrow> ItAndUpdater_init
    | Some i \<Rightarrow> \<lparr>upd_it = \<lparr>inner = Some i, it_skey = FromView ky\<rparr>, is_new = False\<rparr>)"
  using FindInternal_eq [OF assms, of ky None] prime.Find_iff(2) [OF assms(2), of ky] IsOccupied_points assms(1)
  by (auto simp: FindMutable_def FindMutableInternal_def split: option.splits)

lemma FindReadOnly_eq:
  assumes "get_db sl (db_index c) = Some t" "db_inv hs hi t"
  shows "FindReadOnly hs hi sl c ky = Some \<lparr>inner = Table_Find (PrimeTablePolicy hs hi) t ky, it_skey = FromView ky\<rparr>"
  using FindInternal_eq [OF assms, of ky None] by (auto simp: FindReadOnly_def split: option.splits)

subsection \<open>Expiry times\<close>

text \<open>The key \<open>s\<close> with expiry time \<open>at\<close>; zero is none.\<close>

definition ttl_key :: "string \<Rightarrow> u64 \<Rightarrow> CompactObj" where
  "ttl_key s at = \<lparr>obj_tag = TTL_STR_TAG, obj_u = U_ttl \<lparr>ttl_str = s, ttl_exp = at\<rparr>\<rparr>"

lemma ttl_key_simps [simp]:
  "good_key (ttl_key s at)" "key_view (ttl_key s at) = s" "HasExpire (ttl_key s at)" "GetExpireTime (ttl_key s at) = Some at"
  by (simp_all add: ttl_key_def good_key_def key_view_def u_str_def HasExpire_def GetExpireTime_def)

lemma SetExpireTime_good:
  assumes "good_key k" "sm (key_view k) = key_view k"
  shows "SetExpireTime sm k at = Some (ttl_key (key_view k) at)"
  using assms by (cases k rule: good_key_cases) (auto simp: SetExpireTime_def ttl_key_def key_view_def u_str_def)

lemma ClearExpireTime_good: "good_key k \<Longrightarrow> ClearExpireTime k = Some (HasExpire k, CompactObj_str (key_view k))"
  by (cases k rule: good_key_cases) (auto simp: ClearExpireTime_def key_view_def u_str_def CompactObj_str_eq HasExpire_def SetString_def)

lemma good_key_no_expire: "good_key k \<Longrightarrow> \<not> HasExpire k \<Longrightarrow> k = CompactObj_str (key_view k)"
  by (cases k rule: good_key_cases) (auto simp: key_view_def u_str_def CompactObj_str_eq HasExpire_def)

lemma good_key_expire:
  assumes "good_key k" "HasExpire k"
  shows "\<exists>at. k = ttl_key (key_view k) at"
  using assms
proof (cases k rule: good_key_cases)
  case (Ttl t)
  then have "k = ttl_key (key_view k) (ttl_exp t)" by (cases t) (simp add: key_view_def u_str_def ttl_key_def)
  then show ?thesis by blast
qed (auto simp: HasExpire_def)

text \<open>What an assignment to the key under the iterator does.\<close>

definition rekeyed :: "(string \<Rightarrow> u64) \<Rightarrow> (int \<Rightarrow> u64) \<Rightarrow> PrimeTable \<Rightarrow> TableIterator \<Rightarrow> CompactObj \<Rightarrow> PrimeTable \<Rightarrow> bool" where
  "rekeyed hs hi t i k' t' \<longleftrightarrow> db_inv hs hi t' \<and> db_map hs hi t' = db_map hs hi t \<and> tit_points t' i \<and> tit_key t' i = k' \<and>
     (\<exists>M. tb_entries t = add_mset (tit_key t i, tit_value t i) M \<and> tb_entries t' = add_mset (k', tit_value t i) M)"

lemma set_first_rekeyed:
  "db_inv hs hi t \<Longrightarrow> tit_points t i \<Longrightarrow> good_key k' \<Longrightarrow> key_view k' = key_view (tit_key t i) \<Longrightarrow> rekeyed hs hi t i k' (set_first t i k')"
  using prime.map_set_first [of hs hi t i k'] by (simp add: rekeyed_def)

lemma AddExpire_spec:
  assumes inv: "db_inv hs hi t" and i: "tit_points t i" and d: "deref hs hi t it = Some i" and sm: "sm (key_view (tit_key t i)) = key_view (tit_key t i)"
  shows "\<exists>t'. AddExpire sm hs hi t it at = Some t' \<and> rekeyed hs hi t i (ttl_key (key_view (tit_key t i)) at) t'"
    "\<exists>t'. UpdateExpire sm hs hi t it sec = Some (OpResult_value (), t') \<and>
       rekeyed hs hi t i (ttl_key (key_view (tit_key t i)) (word_of_int sec)) t'"
  using set_first_rekeyed [OF inv i] SetExpireTime_good [where sm = sm, OF prime.tit_good [OF inv i] sm] tit_content(1) [OF i] d
  by (simp_all add: AddExpire_def UpdateExpire_def)

lemma RemoveExpire_spec:
  assumes inv: "db_inv hs hi t" and i: "tit_points t i" and d: "deref hs hi t it = Some i"
  shows "\<exists>t'. RemoveExpire hs hi t it = Some (HasExpire (tit_key t i), t') \<and> rekeyed hs hi t i (CompactObj_str (key_view (tit_key t i))) t'"
proof (cases "HasExpire (tit_key t i)")
  case True
  then show ?thesis
    using set_first_rekeyed [OF inv i, of "CompactObj_str (key_view (tit_key t i))"] ClearExpireTime_good [OF prime.tit_good [OF inv i]]
      tit_content(1) [OF i] d prime.good_fresh prime.view_fresh
    by (simp add: RemoveExpire_def)
next
  case False
  have e: "CompactObj_str (key_view (tit_key t i)) = tit_key t i" using good_key_no_expire [OF prime.tit_good [OF inv i] False] by simp
  have "(tit_key t i, tit_value t i) \<in># tb_entries t" by (rule prime.tit_in_entries [OF db_invD [OF inv] i])
  then obtain M where "tb_entries t = add_mset (tit_key t i, tit_value t i) M" by (metis mset_add)
  then have "rekeyed hs hi t i (tit_key t i) t" unfolding rekeyed_def using inv i by blast
  then show ?thesis using False tit_content(1) [OF i] d unfolding e by (simp add: RemoveExpire_def)
qed

subsection \<open>Insertion\<close>

text \<open>The key object stored for a key and an expiry time, zero for none.\<close>

definition stored_key :: "string \<Rightarrow> u64 \<Rightarrow> CompactObj" where
  "stored_key ky at = (if at = 0 then CompactObj_str ky else ttl_key ky at)"

lemma stored_key_simps [simp]: "good_key (stored_key ky at)" "key_view (stored_key ky at) = ky"
  "GetExpireTime (stored_key ky at) = Some at"
proof -
  have "GetExpireTime (CompactObj_str ky) = Some 0" by (simp add: GetExpireTime_def CompactObj_str_eq)
  then show "GetExpireTime (stored_key ky at) = Some at" by (simp add: stored_key_def)
qed (use prime.good_fresh prime.view_fresh in \<open>simp_all add: stored_key_def\<close>)

lemma AddOrFind_old:
  assumes "get_db sl (db_index c) = Some t" "db_inv hs hi t" "Table_Find (PrimeTablePolicy hs hi) t ky = Some i"
  shows "AddOrFind hs hi sl c ky None =
    Some (OpResult_value \<lparr>upd_it = \<lparr>inner = Some i, it_skey = FromView ky\<rparr>, is_new = False\<rparr>, sl)"
proof -
  have "IsOccupied t i" using prime.Find_iff(2) [OF assms(2,3)] IsOccupied_points by blast
  then show ?thesis using FindInternal_eq [OF assms(1,2), of ky None] assms by (simp add: AddOrFind_def AddOrFindInternal_def)
qed

lemma AddOrFind_new:
  assumes db: "get_db sl (db_index c) = Some t" and inv: "db_inv hs hi t" and new: "db_map hs hi t ky = None"
    and reg: "all_regular (PrimeTablePolicy hs hi) t" and rm: "room (PrimeTablePolicy hs hi) t (hs ky) D"
  obtains i t' w where
    "AddOrFind hs hi sl c ky None =
       Some (OpResult_value \<lparr>upd_it = \<lparr>inner = Some i, it_skey = FromView ky\<rparr>, is_new = True\<rparr>, put_db sl (db_index c) t')"
    "db_inv hs hi t'" "tit_points t' i" "tit_key t' i = CompactObj_str ky" "tit_value t' i = w"
    "tb_entries t' = add_mset (CompactObj_str ky, w) (tb_entries t)" "db_map hs hi t' = (db_map hs hi t)(ky \<mapsto> w)"
proof -
  let ?P = "PrimeTablePolicy hs hi" and ?v = "\<lambda>d. MoveValue (PrimeTablePolicy hs hi) d CompactObj_init"
  have none: "Table_Find ?P t ky = None" using new by (simp add: lookup_def)
  have hv: "HashView ?P ky = hs ky" by (simp add: PrimeTablePolicy_def)
  have D: "D < kRounds" using rm by (simp add: room_def kRounds_def)
  obtain i b t' where r: "InsertInternal ?P CompactObj_init CompactObj_init kRounds t ky ?v kForceInsert = Some (i, b, t')"
    "insert_ok ?P t ky (CompactObj_str ky) ?v kForceInsert i b t'"
    using InsertInternal_spec [OF db_invD [OF inv] reg prime.newkey_fresh rm [folded hv] D] by blast
  then obtain w where w: "tb_inserted ?P t i (CompactObj_str ky, ?v w) t'" by (auto simp: insert_ok_def split: if_splits)
  then have t': "table_inv ?P t'" "tb_entries t' = add_mset (CompactObj_str ky, ?v w) (tb_entries t)"
    and i: "tit_points t' i" "tit_key t' i = CompactObj_str ky" "tit_value t' i = ?v w"
    unfolding tb_inserted_def by blast+
  show ?thesis
  proof (rule that [OF _ _ i t'(2)])
    show "AddOrFind hs hi sl c ky None =
       Some (OpResult_value \<lparr>upd_it = \<lparr>inner = Some i, it_skey = FromView ky\<rparr>, is_new = True\<rparr>, put_db sl (db_index c) t')"
      using r(1) FindInternal_eq [OF db inv, of ky None] none db by (simp add: AddOrFind_def AddOrFindInternal_def InsertNew_def)
  qed (use prime.lookup_add [OF inv t' new] in auto)
qed

text \<open>The tables an insertion may reorganise: no key has an expiry time, and every value is a string
  or a number. A key with an expiry time does not survive a move to another slot.\<close>

definition plain_db :: "PrimeTable \<Rightarrow> bool" where
  "plain_db t \<longleftrightarrow> (\<forall>e \<in># tb_entries t. plain (fst e) \<and> plain (snd e))"

definition updated :: "(string \<Rightarrow> u64) \<Rightarrow> (int \<Rightarrow> u64) \<Rightarrow> PrimeTable \<Rightarrow> string \<Rightarrow> CompactObj \<Rightarrow> u64 \<Rightarrow> PrimeTable \<Rightarrow> bool" where
  "updated hs hi t ky ob at t' \<longleftrightarrow> db_inv hs hi t' \<and> tb_entries t' = add_mset (stored_key ky at, ob) (tb_entries t) \<and>
     db_map hs hi t' = (db_map hs hi t)(ky \<mapsto> ob)"

lemma AddOrUpdate_new:
  assumes db: "get_db sl (db_index c) = Some t" and inv: "db_inv hs hi t" and new: "db_map hs hi t ky = None"
    and pl: "plain_db t" "plain ob" and rm: "room (PrimeTablePolicy hs hi) t (hs ky) D" and sm: "at \<noteq> 0 \<longrightarrow> sm ky = ky"
  shows "\<exists>i t'. AddOrUpdate sm hs hi sl c ky ob at =
      Some (OpResult_value \<lparr>upd_it = \<lparr>inner = Some i, it_skey = FromView ky\<rparr>, is_new = True\<rparr>, put_db sl (db_index c) t') \<and>
    updated hs hi t ky ob at t' \<and> tit_points t' i \<and> key_view (tit_key t' i) = ky"
proof -
  let ?P = "PrimeTablePolicy hs hi"
  have reg: "all_regular ?P t" using plain_table pl(1) by (simp add: plain_db_def)
  obtain i t1 w where a: "AddOrFind hs hi sl c ky None =
       Some (OpResult_value \<lparr>upd_it = \<lparr>inner = Some i, it_skey = FromView ky\<rparr>, is_new = True\<rparr>, put_db sl (db_index c) t1)"
    "db_inv hs hi t1" "tit_points t1 i" "tit_key t1 i = CompactObj_str ky" "tit_value t1 i = w"
    "tb_entries t1 = add_mset (CompactObj_str ky, w) (tb_entries t)" "db_map hs hi t1 = (db_map hs hi t)(ky \<mapsto> w)"
    by (rule AddOrFind_new [OF db inv new reg rm])
  let ?it = "\<lparr>inner = Some i, it_skey = FromView ky\<rparr>"
  have vk: "key_view (CompactObj_str ky) = ky" by (rule prime.view_fresh)
  define t2 where "t2 = set_second t1 i ob"
  note s2 = prime.map_set_second [OF a(2,3), of ob, folded t2_def]
  have d1: "deref hs hi t1 ?it = Some i" using GetInnerIt_hit(2) [OF a(2) _ a(3), of ?it] a(4) vk by simp
  have k2: "key_view (tit_key t2 i) = ky" using s2(4) a(4) vk by simp
  have d2: "deref hs hi t2 ?it = Some i" using GetInnerIt_hit(2) [OF s2(1) _ s2(3), of ?it] k2 by simp
  have mv: "MoveValue ?P w ob = ob" using pl(2) by (simp add: PrimeTablePolicy_def plain_move)
  have "\<exists>t3. (if at \<noteq> 0 then AddExpire sm hs hi t2 ?it at else map_option snd (RemoveExpire hs hi t2 ?it)) = Some t3 \<and>
      rekeyed hs hi t2 i (stored_key ky at) t3"
    using AddExpire_spec(1) [OF s2(1,3) d2, of sm at] RemoveExpire_spec [OF s2(1,3) d2] sm k2 by (auto simp: stored_key_def)
  then obtain t3 where t3: "(if at \<noteq> 0 then AddExpire sm hs hi t2 ?it at else map_option snd (RemoveExpire hs hi t2 ?it)) = Some t3"
    "rekeyed hs hi t2 i (stored_key ky at) t3" by blast
  have "AddOrUpdate sm hs hi sl c ky ob at = Some (OpResult_value \<lparr>upd_it = ?it, is_new = True\<rparr>, put_db sl (db_index c) t3)"
    using a(1) d1 tit_content(2) [OF a(3)] a(5) mv t3(1) [unfolded t2_def] db
    by (cases "at = 0") (auto simp: AddOrUpdate_def AddOrUpdateInternal_def put_put_db Let_def)
  moreover have "updated hs hi t ky ob at t3"
  proof -
    have e2: "tb_entries t2 = add_mset (CompactObj_str ky, ob) (tb_entries t)" using s2(6) a(4,5,6) by auto
    have "tb_entries t3 = add_mset (stored_key ky at, ob) (tb_entries t)"
      using t3(2) e2 s2(4,5) a(4) by (auto simp: rekeyed_def)
    then show ?thesis using t3(2) s2(2) a(4,7) vk by (simp add: rekeyed_def updated_def)
  qed
  moreover have "tit_points t3 i" "key_view (tit_key t3 i) = ky" using t3(2) by (auto simp: rekeyed_def)
  ultimately show ?thesis by blast
qed

subsection \<open>Deletion and expiry\<close>

lemma PerformDeletionAtomic_spec:
  assumes inv: "db_inv hs hi t" and i: "tit_points t i" and d: "deref hs hi t it = Some i"
  shows "\<exists>t'. PerformDeletionAtomic hs hi t it = Some t' \<and> Table_Erase (PrimeTablePolicy hs hi) t i = Some t' \<and> db_inv hs hi t' \<and>
    db_map hs hi t' = (db_map hs hi t)(key_view (tit_key t i) := None) \<and>
    tb_entries t = add_mset (tit_key t i, tit_value t i) (tb_entries t')"
  using prime.map_erase [OF inv i] d by (auto simp: PerformDeletionAtomic_def)

text \<open>A key is expired at \<open>now\<close> when it has an expiry time that is not later, as signed numbers.\<close>

definition expired :: "u64 \<Rightarrow> CompactObj \<Rightarrow> bool" where
  "expired now k \<longleftrightarrow> HasExpire k \<and> (\<exists>at. GetExpireTime k = Some at \<and> sint at \<le> sint now)"

lemma ExpireIfNeeded_prime_spec:
  assumes inv: "db_inv hs hi t" and i: "tit_points t i"
  shows "if expired now (tit_key t i)
    then \<exists>t'. ExpireIfNeeded_prime hs hi t now i = Some (None, t') \<and> Table_Erase (PrimeTablePolicy hs hi) t i = Some t' \<and> db_inv hs hi t' \<and>
      db_map hs hi t' = (db_map hs hi t)(key_view (tit_key t i) := None) \<and>
      tb_entries t = add_mset (tit_key t i, tit_value t i) (tb_entries t')
    else ExpireIfNeeded_prime hs hi t now i = Some (Some i, t)"
proof (cases "HasExpire (tit_key t i)")
  case True
  obtain s at where k: "tit_key t i = ttl_key s at" using good_key_expire [OF prime.tit_good [OF inv i] True] by blast
  have g: "GetExpireTime (tit_key t i) = Some at" "GetSlice (tit_key t i) '''' = Some (key_view (tit_key t i), '''')"
    by (simp_all add: k) (simp add: GetSlice_def ttl_key_def u_str_def)
  have d: "deref hs hi t \<lparr>inner = Some i, it_skey = FromView (key_view (tit_key t i))\<rparr> = Some i"
    using GetInnerIt_hit(2) [OF inv _ i] by simp
  show ?thesis
  proof (cases "sint now < sint at")
    case True
    then show ?thesis using g tit_content(1) [OF i] by (simp add: ExpireIfNeeded_prime_def expired_def)
  next
    case False
    then have "expired now (tit_key t i)" using True g by (auto simp: expired_def)
    then show ?thesis
      using PerformDeletionAtomic_spec [OF inv i d] g False True tit_content(1) [OF i]
      by (auto simp: ExpireIfNeeded_prime_def)
  qed
next
  case False
  then show ?thesis using tit_content(1) [OF i] by (simp add: ExpireIfNeeded_prime_def expired_def)
qed

end
