(* ===== verification/Db_Expire.thy ===== *)
theory Db_Expire
  imports Db_Slice_Correct
begin

text \<open>
  \<open>ExpireAllIfNeeded\<close>: the cursor traversal of a database whose callback erases the expired keys.
  Every entry is visited exactly once, the entries whose time has come are erased and the others
  stay, and no iterator goes stale on the way.
\<close>

lemma walk_its_slot:
  assumes inv: "table_inv P t0" and it: "it \<in> set (walk_its t0 0)"
  obtains i x where "it = tit i x" "i \<in> set (seg_walk t0 0)" "i < 2 ^ global_depth t0" "it_points (get_seg t0 i) x"
proof -
  note d = table_invD(1) [OF inv]
  obtain i x where i: "it = tit i x" "i \<in> set (seg_walk t0 0)" "x \<in> set (seg_its (get_seg t0 i))"
    using it by (auto simp: walk_its_def)
  have lt: "i < 2 ^ global_depth t0" using seg_walk_props [OF d aligned_0] i(2) by blast
  then show ?thesis using that i in_seg_its [OF seg_invD(1) [OF table_invD(4) [OF inv lt]]] by blast
qed

lemma tlive_unvisited:
  assumes inv: "table_inv P t0" and l: "tlive P t0 V t" and it: "it \<in> set (walk_its t0 0)" "it \<notin> set V"
  shows "tit_points t it" "tit_entry t it = tit_entry t0 it" "seg_id it \<in> set (seg_walk t 0)"
proof -
  note d = table_invD(1) [OF inv]
  obtain i x where i: "it = tit i x" "i \<in> set (seg_walk t0 0)" "i < 2 ^ global_depth t0" "it_points (get_seg t0 i) x"
    by (rule walk_its_slot [OF inv it(1)])
  have s: "same_slot (get_seg t0 i) (get_seg t i) x" using l i(1,2) it(2) unfolding tlive_def by blast
  have dir: "segment_dir t = segment_dir t0" using l by (simp add: tlive_def)
  have "i < length (segment_dir t)" using i(3) dir dir_okD(2) [OF d] by simp
  then show "tit_points t it" using s i by (simp add: tit_points_def it_points_def same_slot_def tit_def)
  show "tit_entry t it = tit_entry t0 it" using s i(1) by (simp add: tit_entry_tit it_entry_def same_slot_def it_key_def it_value_def)
  show "seg_id it \<in> set (seg_walk t 0)" using i(1,2) tlive_walk [OF d l] by (simp add: tit_def)
qed

text \<open>The state of the traversal after the callbacks on \<open>V\<close>, when the clock stands still at \<open>now\<close>;
  \<open>m\<close> readings of the clock stay for what comes after.\<close>

definition swept :: "(string \<Rightarrow> u64) \<Rightarrow> (int \<Rightarrow> u64) \<Rightarrow> u64 \<Rightarrow> PrimeTable \<Rightarrow> nat \<Rightarrow> TableIterator list \<Rightarrow> PrimeTable \<times> u64 list \<Rightarrow> bool" where
  "swept hs hi now t0 m V st \<longleftrightarrow> db_inv hs hi (fst st) \<and> set (snd st) \<subseteq> {now} \<and>
     card (set (walk_its t0 0) - set V) + m \<le> length (snd st) \<and>
     tb_entries t0 = tb_entries (fst st) + filter_mset (\<lambda>e. expired now (fst e)) (image_mset (tit_entry t0) (mset V))"

lemma expire_cb_spec:
  assumes inv: "db_inv hs hi t" and i: "tit_points t i" and w: "seg_id i \<in> set (seg_walk t 0)" and cl: "clock = now # clock'"
  shows "\<exists>t' n. expire_cb hs hi i (t, clock) = Some (t', drop n clock) \<and> n \<le> 1 \<and> db_inv hs hi t' \<and> touch (PrimeTablePolicy hs hi) i t t' \<and>
    tb_entries t = tb_entries t' + filter_mset (\<lambda>e. expired now (fst e)) {#tit_entry t i#}"
proof (cases "HasExpire (tit_key t i)")
  case False
  then have "expire_cb hs hi i (t, clock) = Some (t, drop 0 clock)" using tit_content(1) [OF i] by (simp add: expire_cb_def)
  moreover have "\<not> expired now (fst (tit_entry t i))" using False by (simp add: expired_def tit_entry_def)
  ultimately show ?thesis using inv touch_refl [OF db_invD [OF inv]] by (intro exI [of _ t] exI [of _ 0]) simp
next
  case True
  have cb: "expire_cb hs hi i (t, clock) = map_option (\<lambda>r. (snd r, drop 1 clock)) (ExpireIfNeeded_prime hs hi t now i)"
    using True tit_content(1) [OF i] by (cases "ExpireIfNeeded_prime hs hi t now i") (auto simp: expire_cb_def cl)
  note e = ExpireIfNeeded_prime_spec [OF inv i, of now]
  show ?thesis
  proof (cases "expired now (tit_key t i)")
    case True
    then obtain t' where t': "ExpireIfNeeded_prime hs hi t now i = Some (None, t')" "Table_Erase (PrimeTablePolicy hs hi) t i = Some t'"
      "db_inv hs hi t'" "tb_entries t = add_mset (tit_key t i, tit_value t i) (tb_entries t')"
      using e by auto
    note touch = Table_Erase_touch [OF db_invD [OF inv] i w t'(2)]
    show ?thesis using cb t' True touch by (intro exI [of _ t'] exI [of _ 1]) (simp add: tit_entry_def)
  next
    case False
    then show ?thesis using cb e inv touch_refl [OF db_invD [OF inv]] by (intro exI [of _ t] exI [of _ 1]) (simp add: tit_entry_def)
  qed
qed

lemma expire_visiting:
  assumes inv: "db_inv hs hi t0"
  shows "tvisiting (PrimeTablePolicy hs hi) t0 (expire_cb hs hi) (swept hs hi now t0 m)"
  unfolding tvisiting_def
proof (intro allI impI)
  let ?P = "PrimeTablePolicy hs hi"
  fix V it u assume R: "swept hs hi now t0 m V u" and l: "tlive ?P t0 V (fst u)" and it: "it \<in> set (walk_its t0 0)" "it \<notin> set V"
  obtain t clock where u: "u = (t, clock)" by (cases u)
  have r: "db_inv hs hi t" "set clock \<subseteq> {now}" "card (set (walk_its t0 0) - set V) + m \<le> length clock"
    "tb_entries t0 = tb_entries t + filter_mset (\<lambda>e. expired now (fst e)) (image_mset (tit_entry t0) (mset V))"
    using R by (simp_all add: swept_def u)
  note un = tlive_unvisited [OF db_invD [OF inv] l [unfolded u fst_conv] it]
  have fin: "finite (set (walk_its t0 0) - set V)" by simp
  have mem: "it \<in> set (walk_its t0 0) - set V" using it by simp
  have c: "card (set (walk_its t0 0) - set (V @ [it])) = card (set (walk_its t0 0) - set V) - 1"
  proof -
    have "set (walk_its t0 0) - set (V @ [it]) = set (walk_its t0 0) - set V - {it}" by auto
    then show ?thesis by (simp only: card_Diff_singleton [OF mem])
  qed
  have cp: "0 < card (set (walk_its t0 0) - set V)" using fin mem card_gt_0_iff by blast
  then have "0 < length clock" using r(3) by linarith
  then obtain clock' where cl: "clock = now # clock'" using r(2) by (cases clock) auto
  obtain t' n where e: "expire_cb hs hi it (t, clock) = Some (t', drop n clock)" "n \<le> 1" "db_inv hs hi t'" "touch ?P it t t'"
    "tb_entries t = tb_entries t' + filter_mset (\<lambda>e. expired now (fst e)) {#tit_entry t it#}"
    using expire_cb_spec [OF r(1) un(1,3) cl] by blast
  have "card (set (walk_its t0 0) - set (V @ [it])) + m \<le> length (drop n clock)" using c cp r(3) e(2) by simp
  then have "swept hs hi now t0 m (V @ [it]) (t', drop n clock)"
    using e(3) r set_drop_subset [of n clock] unfolding swept_def
    by (simp add: e(5) [unfolded un(2)] add.assoc)
  then show "\<exists>u'. expire_cb hs hi it u = Some u' \<and> swept hs hi now t0 m (V @ [it]) u' \<and> touch ?P it (fst u) (fst u')"
    using e(1,4) u by (intro exI [of _ "(t', drop n clock)"]) simp
qed

lemma ExpireTable_spec:
  assumes inv: "db_inv hs hi t" and cl: "set clock \<subseteq> {now}" "table_size t + m \<le> length clock" and f: "56 * 2 ^ global_depth t \<le> fuel"
  shows "\<exists>t' clock'. ExpireTable hs hi fuel t clock = Some (t', clock') \<and> db_inv hs hi t' \<and>
    tb_entries t' = filter_mset (\<lambda>e. \<not> expired now (fst e)) (tb_entries t) \<and> set clock' \<subseteq> {now} \<and> m \<le> length clock' \<and>
    global_depth t' = global_depth t"
proof -
  let ?P = "PrimeTablePolicy hs hi"
  note ti = db_invD [OF inv]
  have "size (image_mset (tit_entry t) (mset (walk_its t 0))) = table_size t" using walk_its_entries [OF ti] table_invD(3) [OF ti] by simp
  then have "card (set (walk_its t 0)) \<le> table_size t" using card_length [of "walk_its t 0"] by simp
  then have "swept hs hi now t m [] (t, clock)" using inv cl by (simp add: swept_def)
  from Traverse_all_spec [OF ti expire_visiting [OF inv] this f f] obtain t' clock' where
    r: "Traverse_all ?P (expire_cb hs hi) fuel fuel 0 (t, clock) = Some (t', clock')" "swept hs hi now t m (all_its ?P t) (t', clock')"
      "tlive ?P t (all_its ?P t) t'" by blast
  have e: "tb_entries t = tb_entries t' + filter_mset (\<lambda>e. expired now (fst e)) (tb_entries t)"
    using r(2) all_its_entries [OF ti] by (simp add: swept_def)
  have "tb_entries t' = filter_mset (\<lambda>e. \<not> expired now (fst e)) (tb_entries t)"
    using e multiset_partition [of "tb_entries t" "\<lambda>e. expired now (fst e)"] by (metis add.commute add_left_cancel)
  then show ?thesis using r by (auto simp: ExpireTable_def swept_def tlive_def)
qed

subsection \<open>All databases\<close>

definition slice_ok :: "(string \<Rightarrow> u64) \<Rightarrow> (int \<Rightarrow> u64) \<Rightarrow> DbSlice \<Rightarrow> bool" where
  "slice_ok hs hi sl \<longleftrightarrow> (\<forall>i t. get_db sl i = Some t \<longrightarrow> db_inv hs hi t)"

definition db_entries :: "DbSlice \<Rightarrow> nat \<Rightarrow> (CompactObj \<times> CompactObj) multiset" where
  "db_entries sl i = (case get_db sl i of Some t \<Rightarrow> tb_entries t | None \<Rightarrow> {#})"

lemma slice_ok_put: "slice_ok hs hi sl \<Longrightarrow> get_db sl i = Some t \<Longrightarrow> db_inv hs hi t' \<Longrightarrow> slice_ok hs hi (put_db sl i t')"
  by (simp add: slice_ok_def)

lemma get_db_put_none: "get_db sl i = Some t \<Longrightarrow> (get_db (put_db sl i t') j = None) = (get_db sl j = None)"
  by simp

lemma db_entries_put: "get_db sl i = Some t \<Longrightarrow> db_entries (put_db sl i t') j = (if j = i then tb_entries t' else db_entries sl j)"
  by (simp add: db_entries_def)

lemma length_put_db [simp]: "length (db_arr (put_db sl i t)) = length (db_arr sl)"
  by (simp add: put_db_def)

lemma ExpireAll_loop_spec:
  assumes "slice_ok hs hi sl" "distinct is" "set clock \<subseteq> {now}" "(\<Sum>i \<leftarrow> is. size (db_entries sl i)) \<le> length clock"
    "\<forall>i t. get_db sl i = Some t \<longrightarrow> 56 * 2 ^ global_depth t \<le> fuel"
  shows "\<exists>sl' clock'. ExpireAll_loop hs hi fuel is (sl, clock) = Some (sl', clock') \<and> slice_ok hs hi sl' \<and>
    length (db_arr sl') = length (db_arr sl) \<and> (\<forall>j. (get_db sl' j = None) = (get_db sl j = None)) \<and>
    (\<forall>j. db_entries sl' j = (if j \<in> set is then filter_mset (\<lambda>e. \<not> expired now (fst e)) (db_entries sl j) else db_entries sl j))"
  using assms
proof (induction "is" arbitrary: sl clock)
  case (Cons i "is")
  show ?case
  proof (cases "get_db sl i")
    case None
    then have e: "db_entries sl i = {#}" by (simp add: db_entries_def)
    then have "(\<Sum>i \<leftarrow> is. size (db_entries sl i)) \<le> length clock" using Cons.prems(4) by simp
    with Cons.IH [OF Cons.prems(1) _ Cons.prems(3) this Cons.prems(5)] Cons.prems(2) obtain sl' clock' where
      r: "ExpireAll_loop hs hi fuel is (sl, clock) = Some (sl', clock')" "slice_ok hs hi sl'" "length (db_arr sl') = length (db_arr sl)"
        "\<forall>j. (get_db sl' j = None) = (get_db sl j = None)"
        "\<forall>j. db_entries sl' j = (if j \<in> set is then filter_mset (\<lambda>e. \<not> expired now (fst e)) (db_entries sl j) else db_entries sl j)" by auto
    show ?thesis using r e None by (intro exI [of _ sl'] exI [of _ clock']) auto
  next
    case (Some t)
    let ?m = "\<Sum>i \<leftarrow> is. size (db_entries sl i)"
    have inv: "db_inv hs hi t" and e: "db_entries sl i = tb_entries t" using Cons.prems(1) Some by (auto simp: slice_ok_def db_entries_def)
    have m: "table_size t + ?m \<le> length clock" using Cons.prems(4) e table_invD(3) [OF db_invD [OF inv]] by simp
    obtain t' clock1 where t': "ExpireTable hs hi fuel t clock = Some (t', clock1)" "db_inv hs hi t'"
      "tb_entries t' = filter_mset (\<lambda>e. \<not> expired now (fst e)) (tb_entries t)" "set clock1 \<subseteq> {now}" "?m \<le> length clock1"
      "global_depth t' = global_depth t"
      using ExpireTable_spec [OF inv Cons.prems(3) m] Cons.prems(5) Some by blast
    let ?sl = "put_db sl i t'"
    have same: "db_entries ?sl j = db_entries sl j" if "j \<in> set is" for j
      using that Cons.prems(2) by (auto simp: db_entries_put [OF Some])
    then have s: "(\<Sum>i \<leftarrow> is. size (db_entries ?sl i)) = ?m" by (metis (no_types, lifting) map_eq_conv)
    have g: "\<forall>j u. get_db ?sl j = Some u \<longrightarrow> 56 * 2 ^ global_depth u \<le> fuel"
      using Cons.prems(5) Some t'(6) by auto
    from Cons.IH [OF slice_ok_put [OF Cons.prems(1) Some t'(2)] _ t'(4) _ g] Cons.prems(2) t'(5) s obtain sl' clock' where
      r: "ExpireAll_loop hs hi fuel is (?sl, clock1) = Some (sl', clock')" "slice_ok hs hi sl'" "length (db_arr sl') = length (db_arr sl)"
        "\<forall>j. (get_db sl' j = None) = (get_db ?sl j = None)"
        "\<forall>j. db_entries sl' j = (if j \<in> set is then filter_mset (\<lambda>e. \<not> expired now (fst e)) (db_entries ?sl j) else db_entries ?sl j)" by auto
    have "db_entries sl' j = (if j \<in> set (i # is) then filter_mset (\<lambda>e. \<not> expired now (fst e)) (db_entries sl j) else db_entries sl j)" for j
      using r(5) [rule_format, of j] Cons.prems(2) t'(3) e by (auto simp: db_entries_put [OF Some])
    moreover have "ExpireAll_loop hs hi fuel (i # is) (sl, clock) = Some (sl', clock')" using Some t'(1) r(1) by simp
    ultimately show ?thesis using r(2-4) get_db_put_none [OF Some] by (intro exI [of _ sl'] exI [of _ clock']) auto
  qed
qed simp

end
