(* ===== verification/Db_Props.thy ===== *)
theory Db_Props
  imports Db_Expire
begin

text \<open>
  The properties of \<open>CompactObj\<close>, of the traversal and of \<open>DbSlice\<close>. The witnesses run on the slice
  that the constructor of \<open>DbSlice\<close> makes.
\<close>

subsection \<open>A fresh slice\<close>

definition fresh_slice :: DbSlice where
  "fresh_slice = \<lparr>shard_id = 0, db_arr = [Some (DbTable_init 0)]\<rparr>"

definition fresh_prime :: PrimeTable where
  "fresh_prime = DashTable_init CompactObj_init CompactObj_init kInitSegmentLog"

abbreviation cntx0 :: DbContext where "cntx0 \<equiv> \<lparr>db_index = 0, time_now_ms = 0\<rparr>"

lemma fresh_slice_db: "get_db fresh_slice i = (if i = 0 then Some fresh_prime else None)"
  by (simp add: get_db_def fresh_slice_def DbTable_init_def fresh_prime_def)

lemma fresh_prime_facts:
  "table_inv P fresh_prime" "tb_entries fresh_prime = {#}" "plain_db fresh_prime" "room P fresh_prime h 0" "global_depth fresh_prime = 3"
  "db_inv hs hi fresh_prime" "db_map hs hi fresh_prime = Map.empty"
proof -
  show t: "table_inv P fresh_prime" for P :: "(CompactObj, CompactObj, 'w) Policy"
    unfolding fresh_prime_def by (rule DashTable_init_spec(1)) (simp add: kInitSegmentLog_def)
  show e: "tb_entries fresh_prime = {#}" unfolding fresh_prime_def by (rule DashTable_init_spec(2)) (simp add: kInitSegmentLog_def)
  then show "plain_db fresh_prime" by (simp add: plain_db_def)
  show "room P fresh_prime h 0" unfolding fresh_prime_def by (rule room_init) (simp add: kInitSegmentLog_def)
  show "global_depth fresh_prime = 3" by (simp add: fresh_prime_def DashTable_init_eq kInitSegmentLog_def)
  show "db_inv hs hi fresh_prime" "db_map hs hi fresh_prime = Map.empty" using prime.map_empty [OF t e] by blast+
qed

text \<open>A slice with one key that has an expiry time.\<close>

lemma one_key_slice:
  obtains i t where
    "AddOrUpdate id hs hi fresh_slice cntx0 ''k'' (CompactObj_int 5) at =
       Some (OpResult_value \<lparr>upd_it = \<lparr>inner = Some i, it_skey = FromView ''k''\<rparr>, is_new = True\<rparr>, put_db fresh_slice 0 t)"
    "get_db (put_db fresh_slice 0 t) 0 = Some t" "db_inv hs hi t" "tb_entries t = {#(stored_key ''k'' at, CompactObj_int 5)#}"
    "db_map hs hi t = [''k'' \<mapsto> CompactObj_int 5]" "tit_points t i" "key_view (tit_key t i) = ''k''"
proof -
  have db: "get_db fresh_slice (db_index cntx0) = Some fresh_prime" by (simp add: fresh_slice_db)
  have "plain (CompactObj_int 5)" by (simp add: plain_def CompactObj_int_def SetInt_def)
  from AddOrUpdate_new [OF db fresh_prime_facts(6) _ fresh_prime_facts(3) this fresh_prime_facts(4), of hs hi "''k''" at id]
  obtain i t where
    a: "AddOrUpdate id hs hi fresh_slice cntx0 ''k'' (CompactObj_int 5) at =
       Some (OpResult_value \<lparr>upd_it = \<lparr>inner = Some i, it_skey = FromView ''k''\<rparr>, is_new = True\<rparr>, put_db fresh_slice 0 t)"
    "updated hs hi fresh_prime ''k'' (CompactObj_int 5) at t" "tit_points t i" "key_view (tit_key t i) = ''k''"
    by (auto simp: fresh_prime_facts(7))
  show ?thesis
  proof (rule that [OF a(1) _ _ _ _ a(3,4)])
    show "get_db (put_db fresh_slice 0 t) 0 = Some t" using fresh_slice_db [of 0] by simp
  qed (use a(2) in \<open>auto simp: updated_def fresh_prime_facts\<close>)
qed

subsection \<open>Objects\<close>

lemma good_key_text:
  "good_key k \<Longrightarrow> ToString k = Some (key_view k) \<and> HashCode hs hi k = Some (hs (key_view k)) \<and> key_eq k = (\<lambda>s. key_view k = s)"
  by (cases k rule: good_key_cases) (auto simp: ToString_def HashCode_def key_eq_def key_view_def u_str_def)

text \<open>Expiry times round trip on a stored key, when moving a string to itself keeps it: after
  \<open>SetExpireTime\<close> the key has an expiry time, \<open>GetExpireTime\<close> returns it, \<open>ClearExpireTime\<close> takes it
  away again, and the text, the hash and the comparison of the key are those it had.\<close>

theorem ExpireTime_roundtrip:
  assumes "good_key k" "sm (key_view k) = key_view k"
  shows "\<exists>k'. SetExpireTime sm k at = Some k' \<and> HasExpire k' \<and> GetExpireTime k' = Some at \<and>
    ToString k' = ToString k \<and> HashCode hs hi k' = HashCode hs hi k \<and> key_eq k' = key_eq k \<and>
    ClearExpireTime k' = Some (True, CompactObj_str (key_view k))"
  using SetExpireTime_good [where sm = sm, OF assms, of at] ClearExpireTime_good [of "ttl_key (key_view k) at"]
    good_key_text [OF assms(1)] good_key_text [of "ttl_key (key_view k) at"] by simp

theorem ExpireTime_roundtrip_witness:
  "\<exists>k'. SetExpireTime id (CompactObj_str ''a'') 9 = Some k' \<and> HasExpire k' \<and> GetExpireTime k' = Some 9 \<and>
     ClearExpireTime k' = Some (True, CompactObj_str ''a'')"
proof -
  have "good_key (CompactObj_str ''a'')" "key_view (CompactObj_str ''a'') = ''a''" by (rule prime.good_fresh, rule prime.view_fresh)
  then show ?thesis using ExpireTime_roundtrip [of "CompactObj_str ''a''" id 9] by auto
qed

text \<open>A key with an expiry time does not survive a move into a slot that holds no key: the tag
  of the destination stays, so the moved key has no hash and the next split or deletion aborts.\<close>

theorem move_ttl_key:
  "\<exists>d. move_assign CompactObj_init (ttl_key s at) = Some d \<and> HashCode hs hi d = None \<and> HashCode hs hi (ttl_key s at) = Some (hs s) \<and>
     \<not> HasExpire d \<and> key_eq d s"
  by (simp add: move_assign_def ttl_key_def CompactObj_init_def SetTtlStr_def HashCode_def u_str_def HasExpire_def key_eq_def)

text \<open>Moving a string or an integer copies it, whatever the destination held, and moving an object
  without a tag leaves the destination.\<close>

theorem move_assign_plain:
  "move_assign d (CompactObj_str s) = Some (CompactObj_str s) \<and> move_assign d (CompactObj_int i) = Some (CompactObj_int i) \<and>
   move_assign d CompactObj_init = Some d"
proof -
  have "plain (CompactObj_int i)" by (simp add: plain_def CompactObj_int_def SetInt_def)
  then show ?thesis using plain_move [of "CompactObj_str s" d] plain_move [of "CompactObj_int i" d]
    by (simp add: move_assign_def CompactObj_init_def)
qed

subsection \<open>Traversal\<close>

text \<open>(C16) The cursor traversal ends and visits every entry exactly once, for a callback that records
  the entries it is called on; at most \<open>56 * 2 ^ depth\<close> calls of \<open>Traverse\<close> are made.\<close>

theorem Traverse_correct:
  assumes "table_inv P t" "56 * 2 ^ global_depth t \<le> fuel"
  shows "\<exists>es. Traverse_all P (\<lambda>it (t, es). do { k \<leftarrow> it_first t it; v \<leftarrow> it_second t it; Some (t, es @ [(k, v)]) }) fuel fuel 0 (t, []) =
      Some (t, es) \<and> mset es = tb_entries t"
proof -
  let ?cb = "\<lambda>it (u, es). do { k \<leftarrow> it_first u it; v \<leftarrow> it_second u it; Some (u, es @ [(k, v)]) }"
  let ?R = "\<lambda>V st. fst st = t \<and> snd st = map (tit_entry t) V"
  have "tvisiting P t ?cb ?R"
    unfolding tvisiting_def
  proof (intro allI impI)
    fix V it u assume R: "?R V u" and it: "it \<in> set (walk_its t 0)" "it \<notin> set V"
    have p: "tit_points t it"
      using tlive_unvisited(1) [OF assms(1) tlive_refl [OF assms(1)] it(1)] by simp
    have "?cb it u = Some (t, map (tit_entry t) (V @ [it]))"
      using R tit_content [OF p] by (cases u) (simp add: tit_entry_def)
    then show "\<exists>u'. ?cb it u = Some u' \<and> ?R (V @ [it]) u' \<and> touch P it (fst u) (fst u')"
      using R touch_refl [OF assms(1)] by auto
  qed
  from Traverse_all_spec [OF assms(1) this _ assms(2,2), of "[]"] show ?thesis
    using all_its_entries [OF assms(1)] by fastforce
qed

theorem Traverse_correct_witness:
  "\<exists>es. Traverse_all u64_policy (\<lambda>it (t, es). do { k \<leftarrow> it_first t it; v \<leftarrow> it_second t it; Some (t, es @ [(k, v)]) }) 112 112 0 (one_table, []) =
      Some (one_table, es) \<and> mset es = {#(0, 7)#}"
  using Traverse_correct [OF one_table_facts(1), of 112] one_table_facts(2)
  by (simp add: one_table_def DashTable_init_eq put_seg_def)

subsection \<open>Lookups\<close>

text \<open>\<open>FindMutable\<close> and \<open>FindReadOnly\<close> return the entry of the key: an iterator to it when the
  key is in the database, a null iterator when it is not. They do not change the database.\<close>

theorem Find_correct:
  assumes "get_db sl (db_index c) = Some t" "db_inv hs hi t"
  shows "\<exists>u it. FindMutable hs hi sl c ky = Some u \<and> FindReadOnly hs hi sl c ky = Some it \<and> inner it = inner (upd_it u) \<and> \<not> is_new u \<and>
    (case db_map hs hi t ky of
       None \<Rightarrow> inner it = None
     | Some v \<Rightarrow> \<exists>i. inner it = Some i \<and> tit_points t i \<and> key_view (tit_key t i) = ky \<and> tit_value t i = v)"
  using FindMutable_eq [OF assms, of ky] FindReadOnly_eq [OF assms, of ky] prime.Find_iff(2) [OF assms(2), of ky]
  by (auto simp: lookup_def ItAndUpdater_init_def DbIterator_init_def split: option.splits)

theorem Find_correct_witness:
  "\<exists>u. FindMutable (\<lambda>_. 0) (\<lambda>_. 0) fresh_slice cntx0 ''k'' = Some u \<and> inner (upd_it u) = None"
  using Find_correct [of fresh_slice cntx0 fresh_prime "\<lambda>_. 0" "\<lambda>_. 0" "''k''"] fresh_slice_db [of 0] fresh_prime_facts(6,7) by auto

text \<open>An iterator of \<open>DbSlice\<close> stays usable after any change of the table: at every access it
  leads to the entry of its key, or it is null when the key is gone.\<close>

theorem GetInnerIt_correct:
  assumes "db_inv hs hi t" "inner it = Some i" "bucket_id i < kTotalBuckets" "slot_id i < 32"
  shows "\<exists>r. GetInnerIt hs hi t it = Some r \<and> (case r of
      None \<Rightarrow> db_map hs hi t (sov_view (it_skey it)) = None
    | Some j \<Rightarrow> tit_points t j \<and> key_view (tit_key t j) = sov_view (it_skey it) \<and>
        db_map hs hi t (sov_view (it_skey it)) = Some (tit_value t j))"
  by (rule GetInnerIt_spec [OF assms])

theorem GetInnerIt_correct_witness:
  "GetInnerIt (\<lambda>_. 0) (\<lambda>_. 0) fresh_prime \<lparr>inner = Some \<lparr>seg_id = 1, bucket_id = 2, slot_id = 3\<rparr>, it_skey = View ''k''\<rparr> = Some None"
  using GetInnerIt_correct [OF fresh_prime_facts(6), of "\<lparr>inner = Some \<lparr>seg_id = 1, bucket_id = 2, slot_id = 3\<rparr>, it_skey = View ''k''\<rparr>"
      "\<lparr>seg_id = 1, bucket_id = 2, slot_id = 3\<rparr>" "\<lambda>_. 0" "\<lambda>_. 0"] fresh_prime_facts(7) [of "\<lambda>_. 0" "\<lambda>_. 0"]
  by (auto simp: kTotalBuckets_def kBucketNum_def split: option.splits)

subsection \<open>Changes\<close>



text \<open>(C18) Deleting a key that was found removes exactly its entry.\<close>

theorem DelMutable_correct:
  assumes "get_db sl (db_index c) = Some t" "db_inv hs hi t" "db_map hs hi t ky \<noteq> None"
  shows "\<exists>u sl' t' k v. FindMutable hs hi sl c ky = Some u \<and> DelMutable hs hi sl c u = Some sl' \<and> sl' = put_db sl (db_index c) t' \<and>
    db_inv hs hi t' \<and> db_map hs hi t' = (db_map hs hi t)(ky := None) \<and> key_view k = ky \<and> tb_entries t = add_mset (k, v) (tb_entries t')"
proof -
  obtain i where i: "Table_Find (PrimeTablePolicy hs hi) t ky = Some i" using assms(3) by (auto simp: lookup_def)
  note p = prime.Find_iff(2) [OF assms(2) i]
  define u where "u = \<lparr>upd_it = \<lparr>inner = Some i, it_skey = FromView ky\<rparr>, is_new = False\<rparr>"
  have f: "FindMutable hs hi sl c ky = Some u" using FindMutable_eq [OF assms(1,2), of ky] i by (simp add: u_def)
  have "deref hs hi t (upd_it u) = Some i" using GetInnerIt_hit(2) [OF assms(2), of "upd_it u" i] p by (simp add: u_def)
  from PerformDeletionAtomic_spec [OF assms(2) _ this] p obtain t' where
    t': "PerformDeletionAtomic hs hi t (upd_it u) = Some t'" "db_inv hs hi t'" "db_map hs hi t' = (db_map hs hi t)(ky := None)"
      "tb_entries t = add_mset (tit_key t i, tit_value t i) (tb_entries t')" by auto
  have "DelMutable hs hi sl c u = Some (put_db sl (db_index c) t')" using t'(1) assms(1) by (simp add: DelMutable_def Del_def)
  then show ?thesis using f t' p by blast
qed

theorem DelMutable_correct_witness:
  "\<exists>sl u sl' t'. FindMutable (\<lambda>_. 0) (\<lambda>_. 0) sl cntx0 ''k'' = Some u \<and> DelMutable (\<lambda>_. 0) (\<lambda>_. 0) sl cntx0 u = Some sl' \<and>
     get_db sl' 0 = Some t' \<and> tb_entries t' = {#}"
proof -
  obtain t where t: "get_db (put_db fresh_slice 0 t) (db_index cntx0) = Some t" "db_inv (\<lambda>_. 0) (\<lambda>_. 0) t"
    "tb_entries t = {#(stored_key ''k'' 0, CompactObj_int 5)#}" "db_map (\<lambda>_. 0) (\<lambda>_. 0) t = [''k'' \<mapsto> CompactObj_int 5]"
    using one_key_slice [of "\<lambda>_. 0" "\<lambda>_. 0" 0] by (metis DbContext.select_convs(1))
  then show ?thesis using DelMutable_correct [OF t(1,2), of "''k''"] by fastforce
qed

text \<open>\<open>UpdateExpire\<close> gives the key under the iterator the expiry time \<open>sec\<close>, taken as it is, and
  keeps every value; the key compares and hashes as before.\<close>

theorem UpdateExpire_correct:
  assumes "db_inv hs hi t" "deref hs hi t it = Some i" "tit_points t i" "sm (key_view (tit_key t i)) = key_view (tit_key t i)"
  shows "\<exists>t'. UpdateExpire sm hs hi t it sec = Some (OpResult_value (), t') \<and> db_inv hs hi t' \<and> db_map hs hi t' = db_map hs hi t \<and>
    it_first t' i = Some (ttl_key (key_view (tit_key t i)) (word_of_int sec))"
  using AddExpire_spec(2) [where sm = sm, OF assms(1,3,2,4), of sec] tit_content(1) unfolding rekeyed_def by fastforce

theorem UpdateExpire_correct_witness:
  "\<exists>t it t'. UpdateExpire id (\<lambda>_. 0) (\<lambda>_. 0) t it 60 = Some (OpResult_value (), t') \<and>
     db_map (\<lambda>_. 0) (\<lambda>_. 0) t' = [''k'' \<mapsto> CompactObj_int 5]"
proof -
  obtain i t where t: "db_inv (\<lambda>_. 0) (\<lambda>_. 0) t" "db_map (\<lambda>_. 0) (\<lambda>_. 0) t = [''k'' \<mapsto> CompactObj_int 5]" "tit_points t i"
    "key_view (tit_key t i) = ''k''" by (rule one_key_slice [of "\<lambda>_. 0" "\<lambda>_. 0" 0])
  have d: "deref (\<lambda>_. 0) (\<lambda>_. 0) t \<lparr>inner = Some i, it_skey = View ''k''\<rparr> = Some i"
    using GetInnerIt_hit(2) [OF t(1) _ t(3), of "\<lparr>inner = Some i, it_skey = View ''k''\<rparr>"] t(4) by (simp add: sov_view_def)
  show ?thesis using UpdateExpire_correct [where sm = id, OF t(1) d t(3), of 60] t(2) by fastforce
qed

text \<open>\<open>ExpireIfNeeded\<close> deletes the entry under the iterator when its time has come and returns the
  null iterator; otherwise it returns the iterator and leaves the table.\<close>

theorem ExpireIfNeeded_correct:
  assumes "db_inv hs hi t" "tit_points t i"
  shows "if expired now (tit_key t i)
    then \<exists>t'. ExpireIfNeeded_prime hs hi t now i = Some (None, t') \<and> db_inv hs hi t' \<and>
      db_map hs hi t' = (db_map hs hi t)(key_view (tit_key t i) := None)
    else ExpireIfNeeded_prime hs hi t now i = Some (Some i, t)"
  using ExpireIfNeeded_prime_spec [OF assms, of now] by (auto split: if_splits)

theorem ExpireIfNeeded_correct_witness:
  "\<exists>t i. ExpireIfNeeded_prime (\<lambda>_. 0) (\<lambda>_. 0) t 8 i = Some (Some i, t) \<and> db_map (\<lambda>_. 0) (\<lambda>_. 0) t = [''k'' \<mapsto> CompactObj_int 5]"
proof -
  obtain i t where t: "db_inv (\<lambda>_. 0) (\<lambda>_. 0) t" "db_map (\<lambda>_. 0) (\<lambda>_. 0) t = [''k'' \<mapsto> CompactObj_int 5]" "tit_points t i"
    "tb_entries t = {#(stored_key ''k'' 9, CompactObj_int 5)#}" by (rule one_key_slice [of "\<lambda>_. 0" "\<lambda>_. 0" 9])
  have "tit_key t i = stored_key ''k'' 9" using prime.tit_in_entries [OF db_invD [OF t(1)] t(3)] t(4) by auto
  then have "\<not> expired 8 (tit_key t i)" by (simp add: expired_def)
  then show ?thesis using ExpireIfNeeded_correct [OF t(1,3), of 8] t(2) by auto
qed



end
