(* ===== verification/Engine.thy ===== *)
theory Engine
  imports Db_Props
begin

text \<open>
  The shards: the choice of the shard of a key (\<open>engine_shard_set.cpp\<close>, \<open>cluster_support.hpp\<close>,
  \<open>maths.hpp\<close>), the namespaces with one \<open>DbSlice\<close> per shard (\<open>namespaces.cpp\<close>), the arguments of a
  command on a shard (\<open>tx_base.hpp\<close>) and the transaction (\<open>transaction.cpp\<close>).

  \<open>hs\<close> is \<open>std::hash\<close> on string views. A job that \<open>RunBlockingInParallel\<close> gives to all shards runs once on
  the thread of every shard; the order in which the shards get to it is an argument.
\<close>

subsection \<open>The shard of a key\<close>

definition isPowerOfTwo :: "u32 \<Rightarrow> bool" where
  "isPowerOfTwo n \<longleftrightarrow> n > 0 \<and> n AND (n - 1) = 0"

definition Shard :: "(string \<Rightarrow> u64) \<Rightarrow> u32 \<Rightarrow> string \<Rightarrow> u16" where
  "Shard hs n ky =
     (let hash = hs ky
      in if isPowerOfTwo n then ucast (hash AND ucast (n - 1)) else ucast (hash mod ucast n))"

text \<open>\<open>hash ^= c\<close> extends the sign of \<open>c\<close>, a \<open>char\<close>.\<close>

definition char_u64 :: "char \<Rightarrow> u64" where
  "char_u64 c = scast (of_char c :: u8)"

definition KeySlot :: "u32 \<Rightarrow> string \<Rightarrow> u16" where
  "KeySlot n ky = ucast (foldl (\<lambda>hash c. (hash XOR char_u64 c) * 0x01000193) (0x811c9dc5 :: u64) ky mod ucast n)"

subsection \<open>The arguments of a command on a shard\<close>

record ShardArgs =
  sa_slice :: "string list"
  sa_index :: "u32 list"

record SaIterator =
  index_it :: nat
  delta :: u32

definition sa_at :: "ShardArgs \<Rightarrow> SaIterator \<Rightarrow> u32 option" where
  "sa_at s it = (if index_it it < length (sa_index s) then Some (sa_index s ! index_it it) else None)"

definition sa_ind :: "ShardArgs \<Rightarrow> SaIterator \<Rightarrow> nat option" where
  "sa_ind s it = do { i \<leftarrow> sa_at s it; Some (unat (i + delta it)) }"

definition sa_deref :: "ShardArgs \<Rightarrow> SaIterator \<Rightarrow> string option" where
  "sa_deref s it = do { i \<leftarrow> sa_ind s it; if i < length (sa_slice s) then Some (sa_slice s ! i) else None }"

definition sa_incr :: "ShardArgs \<Rightarrow> SaIterator \<Rightarrow> SaIterator option" where
  "sa_incr s it = do {
     let it = it\<lparr>delta := delta it + 1\<rparr>;
     ind \<leftarrow> sa_ind s it;
     i \<leftarrow> sa_at s it;
     Some (if ind \<ge> unat i then it\<lparr>index_it := index_it it + 1, delta := 0\<rparr> else it) }"

definition sa_begin :: SaIterator where "sa_begin = \<lparr>index_it = 0, delta = 0\<rparr>"

definition sa_end :: "ShardArgs \<Rightarrow> SaIterator" where "sa_end s = \<lparr>index_it = length (sa_index s), delta = 0\<rparr>"

definition sa_Empty :: "ShardArgs \<Rightarrow> bool" where "sa_Empty s \<longleftrightarrow> sa_index s = []"

definition sa_Front :: "ShardArgs \<Rightarrow> string option" where "sa_Front s = sa_deref s sa_begin"

text \<open>The loop \<open>for (std::string_view key : keys)\<close>, as the list of the keys; \<open>None\<close> also when the fuel ends.\<close>

fun sa_loop :: "nat \<Rightarrow> ShardArgs \<Rightarrow> SaIterator \<Rightarrow> string list option" where
  "sa_loop 0 s it = None"
| "sa_loop (Suc fuel) s it = (if it = sa_end s then Some []
     else do { k \<leftarrow> sa_deref s it; it \<leftarrow> sa_incr s it; ks \<leftarrow> sa_loop fuel s it; Some (k # ks) })"

subsection \<open>Namespaces\<close>

type_synonym Namespace = "DbSlice option list"

text \<open>\<open>RunBlockingInParallel\<close> with a job that may change \<open>st\<close>.\<close>

definition RunBlockingInParallel :: "nat list \<Rightarrow> (nat \<Rightarrow> 's \<Rightarrow> 's option) \<Rightarrow> 's \<Rightarrow> 's option" where
  "RunBlockingInParallel order f st = foldM f order st"

definition Namespace_init :: "nat list \<Rightarrow> nat \<Rightarrow> Namespace option" where
  "Namespace_init order n = RunBlockingInParallel order
     (\<lambda>sid ns. do { assert_opt (sid < length ns); d \<leftarrow> DbSlice_init sid; Some (ns[sid := Some d]) }) (replicate n None)"

definition GetDbSlice :: "Namespace \<Rightarrow> nat \<Rightarrow> DbSlice option" where
  "GetDbSlice ns sid = (if sid < length ns then ns ! sid else None)"

record Namespaces =
  namespaces :: "(string \<times> Namespace) list"
  default_namespace :: "string option"

text \<open>\<open>unordered_map::operator[]\<close> makes the namespace when it is not there.\<close>

definition GetOrInsert :: "nat list \<Rightarrow> nat \<Rightarrow> Namespaces \<Rightarrow> string \<Rightarrow> (Namespace \<times> Namespaces) option" where
  "GetOrInsert order n nss name = (case map_of (namespaces nss) name of
      Some ns \<Rightarrow> Some (ns, nss)
    | None \<Rightarrow> do { ns \<leftarrow> Namespace_init order n; Some (ns, nss\<lparr>namespaces := (name, ns) # namespaces nss\<rparr>) })"

definition Namespaces_init :: "nat list \<Rightarrow> nat \<Rightarrow> Namespaces option" where
  "Namespaces_init order n = do {
     (_, nss) \<leftarrow> GetOrInsert order n \<lparr>namespaces = [], default_namespace = None\<rparr> '''';
     Some (nss\<lparr>default_namespace := Some ''''\<rparr>) }"

definition GetDefaultNamespace :: "Namespaces \<Rightarrow> Namespace option" where
  "GetDefaultNamespace nss = do { name \<leftarrow> default_namespace nss; map_of (namespaces nss) name }"

definition Namespaces_Clear :: "nat list \<Rightarrow> Namespaces \<Rightarrow> Namespaces option" where
  "Namespaces_Clear order nss = do {
     let nss = nss\<lparr>default_namespace := None\<rparr>;
     if namespaces nss = [] then Some nss
     else do {
       nss \<leftarrow> RunBlockingInParallel order
         (\<lambda>sid nss. Some (nss\<lparr>namespaces := map (\<lambda>(name, ns). (name, ns[sid := None])) (namespaces nss)\<rparr>)) nss;
       Some (nss\<lparr>namespaces := []\<rparr>) } }"

subsection \<open>Transactions\<close>

record Transaction =
  full_args :: "string list"
  unique_shard_id :: nat
  db_cntx :: DbContext

text \<open>\<open>now\<close> is the reading of the clock.\<close>

definition InitByArgs :: "(string \<Rightarrow> u64) \<Rightarrow> nat \<Rightarrow> u64 \<Rightarrow> nat \<Rightarrow> string list \<Rightarrow> Transaction" where
  "InitByArgs hs n now ind args =
     (let ky = (if length args > 1 then args ! 1 else '''')
      in \<lparr>full_args = args, unique_shard_id = unat (Shard hs (of_nat n) ky), db_cntx = \<lparr>db_index = ind, time_now_ms = now\<rparr>\<rparr>)"

definition GetShardArgs :: "Transaction \<Rightarrow> ShardArgs" where
  "GetShardArgs tx = \<lparr>sa_slice = full_args tx, sa_index = [1]\<rparr>"

text \<open>\<open>Scheduling\<close>: the callback runs on the slice of the shard of the transaction; the engine asserts
  that the shard exists.\<close>

definition Scheduling :: "Namespace \<Rightarrow> Transaction \<Rightarrow> (DbSlice \<Rightarrow> ('r \<times> DbSlice) option) \<Rightarrow> ('r \<times> Namespace) option" where
  "Scheduling ns tx cb = do {
     assert_opt (unique_shard_id tx < length ns);
     sl \<leftarrow> GetDbSlice ns (unique_shard_id tx);
     (r, sl) \<leftarrow> cb sl;
     Some (r, ns[unique_shard_id tx := Some sl]) }"

subsection \<open>Facts\<close>

lemma pred_div: "(n :: nat) mod m \<noteq> 0 \<Longrightarrow> (n - 1) div m = n div m"
proof (cases "m = 0")
  case False
  assume r: "n mod m \<noteq> 0"
  have "n mod m - 1 < m" using False mod_less_divisor [of m n] by linarith
  moreover have "n - 1 = (n mod m - 1) + m * (n div m)" using r by (simp add: mult.commute)
  ultimately show ?thesis using False by simp
qed simp

lemma unat_drop: "unat (drop_bit m (w :: 'a::len word)) = unat w div 2 ^ m"
  by (simp add: unsigned_drop_bit_eq take_bit_nat_eq_self) (simp add: drop_bit_eq_div)

lemma isPowerOfTwo_iff: "isPowerOfTwo n \<longleftrightarrow> (\<exists>k < 32. n = 2 ^ k)"
proof
  assume n: "isPowerOfTwo n"
  then have pos: "n \<noteq> 0" and z: "n AND (n - 1) = 0" by (auto simp: isPowerOfTwo_def)
  let ?k = "ctz n"
  have k: "?k < 32" "bit n ?k" "\<And>j. j < ?k \<Longrightarrow> \<not> bit n j" using ctz_props [OF pos] by blast+
  have "bit (unat n) ?k" using k(2) by (simp add: bit_unsigned_iff)
  then have "bit (take_bit (Suc ?k) (unat n)) ?k" by (simp add: bit_take_bit_iff)
  then have "take_bit (Suc ?k) (unat n) \<noteq> 0" by (metis bit_0_eq bot_apply bot_bool_def)
  then have "unat n mod 2 ^ Suc ?k \<noteq> 0" by (simp only: take_bit_eq_mod not_False_eq_True)
  then have "unat (n - 1) div 2 ^ Suc ?k = unat n div 2 ^ Suc ?k" using pred_div unat_minus_one [OF pos] by simp
  then have "unat (drop_bit (Suc ?k) (n - 1)) = unat (drop_bit (Suc ?k) n)" by (simp only: unat_drop)
  then have "drop_bit (Suc ?k) (n - 1) = drop_bit (Suc ?k) n" by (simp only: word_unat_eq_iff)
  moreover have "drop_bit (Suc ?k) n AND drop_bit (Suc ?k) (n - 1) = 0" using z by (metis drop_bit_and drop_bit_of_0)
  ultimately have d: "drop_bit (Suc ?k) n = 0" by simp
  have "\<not> bit n j" if "j > ?k" for j
  proof -
    have "bit n j = bit (drop_bit (Suc ?k) n) (j - Suc ?k)" using that by (simp only: bit_drop_bit_eq comp_apply) simp
    then show ?thesis by (simp add: d)
  qed
  then have "bit n j = (j = ?k)" for j using k(2,3) by (metis linorder_neqE_nat)
  then have "n = 2 ^ ?k" using k(1) by (auto simp: bit_eq_iff)
  then show "\<exists>k < 32. n = 2 ^ k" using k(1) by blast
next
  assume "\<exists>k < 32. n = 2 ^ k"
  then obtain k where k: "k < 32" "n = 2 ^ k" by blast
  have m: "n - 1 = mask k" using k by (simp add: mask_eq_exp_minus_1)
  have "n AND (n - 1) = 0" unfolding m unfolding k(2) using k(1) by (intro bit_word_eqI) (auto simp: bit_simps)
  moreover have "n > 0" using k by (simp add: word_gt_0)
  ultimately show "isPowerOfTwo n" by (simp add: isPowerOfTwo_def)
qed

lemma Shard_eq:
  assumes "0 < n" "n \<le> 65536"
  shows "unat (Shard hs n ky) < unat n \<and> unat (Shard hs n ky) = unat (hs ky) mod unat n"
proof -
  have n: "0 < unat n" "unat n \<le> 65536" using assms by (simp_all add: word_less_nat_alt word_le_nat_alt unat_gt_0)
  have u: "unat (ucast n :: u64) = unat n" using unsigned_less [of n, where 'a = nat] by (simp add: unsigned_ucast_eq take_bit_nat_eq_self)
  have lt: "unat (hs ky) mod unat n < unat n" using n(1) by simp
  have md: "unat (hs ky mod ucast n) = unat (hs ky) mod unat n" by (simp add: unat_mod u)
  have "(if isPowerOfTwo n then hs ky AND ucast (n - 1) else hs ky mod ucast n) = hs ky mod ucast n"
  proof (cases "isPowerOfTwo n")
    case True
    then obtain k where k: "k < 32" "n = 2 ^ k" using isPowerOfTwo_iff by blast
    have m: "n - 1 = mask k" using k by (simp add: mask_eq_exp_minus_1)
    have "(ucast (n - 1) :: u64) = mask k" unfolding m using k(1) by (auto simp: bit_eq_iff bit_simps)
    moreover have "(ucast n :: u64) = 2 ^ k" unfolding k(2) using k(1) by (intro bit_word_eqI) (auto simp: bit_simps)
    ultimately show ?thesis using True by (simp add: take_bit_eq_mod flip: take_bit_eq_mask)
  qed simp
  then have "Shard hs n ky = ucast (hs ky mod ucast n)" unfolding Shard_def Let_def by (cases "isPowerOfTwo n") simp_all
  moreover have "unat (hs ky mod ucast n) < 2 ^ 16" using md lt n(2) by simp
  ultimately have "unat (Shard hs n ky) = unat (hs ky) mod unat n"
    using md by (simp add: unsigned_ucast_eq take_bit_nat_eq_self)
  then show ?thesis using lt by simp
qed

text \<open>The shard of a key is below the number of shards, and the masking that replaces the division
  for a power of two gives the same shard as the division.\<close>

theorem Shard_correct:
  assumes "0 < n" "n \<le> 65536"
  shows "unat (Shard hs n ky) < unat n \<and> unat (Shard hs n ky) = unat (hs ky) mod unat n"
  by (rule Shard_eq [OF assms])

theorem Shard_correct_witness: "unat (Shard (\<lambda>_. 13) 4 ''k'') = 1 \<and> unat (Shard (\<lambda>_. 13) 6 ''k'') = 1"
  using Shard_correct [of 4 "\<lambda>_. 13" "''k''"] Shard_correct [of 6 "\<lambda>_. 13" "''k''"] by simp

lemma sa_incr_eq: "index_it it < length (sa_index s) \<Longrightarrow> delta it = 0 \<Longrightarrow> unat (sa_index s ! index_it it) < 2 ^ 32 - 1 \<Longrightarrow>
    sa_incr s it = Some \<lparr>index_it = Suc (index_it it), delta = 0\<rparr>"
  by (auto simp: sa_incr_def sa_ind_def sa_at_def Let_def unat_word_ariths)

lemma sa_loop_from:
  assumes "\<forall>i \<in> set (sa_index s). unat i < length (sa_slice s) \<and> unat i < 2 ^ 32 - 1" "k \<le> length (sa_index s)" "length (sa_index s) - k < fuel"
  shows "sa_loop fuel s \<lparr>index_it = k, delta = 0\<rparr> = Some (map (\<lambda>i. sa_slice s ! unat i) (drop k (sa_index s)))"
  using assms(2,3)
proof (induction fuel arbitrary: k)
  case (Suc fuel)
  show ?case
  proof (cases "k = length (sa_index s)")
    case False
    then have lt: "k < length (sa_index s)" using Suc.prems by simp
    have i: "unat (sa_index s ! k) < length (sa_slice s)" "unat (sa_index s ! k) < 2 ^ 32 - 1" using assms(1) lt nth_mem by blast+
    have d: "sa_deref s \<lparr>index_it = k, delta = 0\<rparr> = Some (sa_slice s ! unat (sa_index s ! k))"
      using lt i by (simp add: sa_deref_def sa_ind_def sa_at_def)
    have n: "sa_incr s \<lparr>index_it = k, delta = 0\<rparr> = Some \<lparr>index_it = Suc k, delta = 0\<rparr>"
      using sa_incr_eq [of "\<lparr>index_it = k, delta = 0\<rparr>" s] lt i by simp
    have ne: "\<lparr>index_it = k, delta = 0\<rparr> \<noteq> sa_end s" using False by (simp add: sa_end_def)
    have "sa_loop fuel s \<lparr>index_it = Suc k, delta = 0\<rparr> = Some (map (\<lambda>i. sa_slice s ! unat i) (drop (Suc k) (sa_index s)))"
      using Suc.IH [of "Suc k"] Suc.prems lt by simp
    then show ?thesis using d n ne Cons_nth_drop_Suc [OF lt, symmetric] by simp
  qed (simp add: sa_end_def)
qed simp

text \<open>The loop over the arguments of a shard visits exactly the arguments at the indices of the shard,
  in order, and ends; a transaction gives its shard one argument, the first after the command.\<close>

theorem ShardArgs_correct:
  assumes "\<forall>i \<in> set (sa_index s). unat i < length (sa_slice s) \<and> unat i < 2 ^ 32 - 1" "length (sa_index s) < fuel"
  shows "sa_loop fuel s sa_begin = Some (map (\<lambda>i. sa_slice s ! unat i) (sa_index s))"
  using sa_loop_from [OF assms(1), of 0 fuel] assms(2) by (simp add: sa_begin_def)

theorem ShardArgs_correct_witness:
  "sa_loop 2 (GetShardArgs (InitByArgs (\<lambda>_. 0) 4 0 0 [''DEL'', ''a'', ''b''])) sa_begin = Some [''a'']"
  using ShardArgs_correct [of "GetShardArgs (InitByArgs (\<lambda>_. 0) 4 0 0 [''DEL'', ''a'', ''b''])" 2]
  by (simp add: GetShardArgs_def InitByArgs_def Let_def)

lemma DbSlice_init_eq: "DbSlice_init i = Some \<lparr>shard_id = i, db_arr = [Some (DbTable_init 0)]\<rparr>"
  by (simp add: DbSlice_init_def CreateDb_def)

definition fresh_ns :: "nat \<Rightarrow> Namespace" where
  "fresh_ns n = map (\<lambda>i. Some \<lparr>shard_id = i, db_arr = [Some (DbTable_init 0)]\<rparr>) [0..<n]"

text \<open>A job that fills one entry of an array on every shard, in whatever order the shards run.\<close>

lemma fill_all:
  assumes "mset order = mset [0..<n]" "\<And>i. i < n \<Longrightarrow> mk i = Some (d i)"
  shows "foldM (\<lambda>i xs. do { assert_opt (i < length xs); x \<leftarrow> mk i; Some (xs[i := Some x]) }) order (replicate n None) =
    Some (map (\<lambda>i. Some (d i)) [0..<n])"
proof -
  let ?f = "\<lambda>i xs. do { assert_opt (i < length xs); x \<leftarrow> mk i; Some (xs[i := Some x]) }"
  let ?st = "\<lambda>X. map (\<lambda>i. if i \<in> X then Some (d i) else None) [0..<n]"
  have set: "set order = {0..<n}" using assms(1) by (metis set_mset_mset set_upt)
  have step: "foldM ?f ys (?st X) = Some (?st (X \<union> set ys))" if "set ys \<subseteq> {0..<n}" for ys X
    using that
  proof (induction ys arbitrary: X)
    case (Cons y ys)
    have y: "y < n" using Cons.prems by simp
    have "(?st X)[y := Some (d y)] = ?st (insert y X)" using y by (intro nth_equalityI) (auto simp: nth_list_update)
    then have f: "?f y (?st X) = Some (?st (insert y X))" using y assms(2) by simp
    have "foldM ?f (y # ys) (?st X) = foldM ?f ys (?st (insert y X))" by (simp only: foldM.simps f Option.bind.simps)
    also have "\<dots> = Some (?st (insert y X \<union> set ys))" by (rule Cons.IH) (use Cons.prems in simp)
    finally show ?case by (simp only: list.set(2) Un_insert_left Un_insert_right)
  qed simp
  have "replicate n None = ?st {}" by (simp add: map_replicate_const)
  moreover have "?st (set order) = map (\<lambda>i. Some (d i)) [0..<n]" using set by simp
  ultimately show ?thesis using step [of order "{}"] set by (simp only: Un_empty_left order_refl)
qed

text \<open>A new namespace has a fresh slice on every shard, in whatever order the shards run the job that
  makes them.\<close>

theorem Namespace_init_correct:
  assumes "mset order = mset [0..<n]"
  shows "Namespace_init order n = Some (fresh_ns n)"
  unfolding Namespace_init_def RunBlockingInParallel_def fresh_ns_def
  by (rule fill_all [OF assms]) (simp add: DbSlice_init_eq)

theorem Namespace_init_correct_witness: "Namespace_init [2, 0, 1] 3 = Some (fresh_ns 3)"
proof -
  have "mset [2, 0, 1] = mset [0..<3]" by (simp add: upt_rec)
  then show ?thesis using Namespace_init_correct by blast
qed

end
