(* ===== verification/Mpmc_Queue.thy ===== *)
theory Mpmc_Queue
  imports Prelude
begin

text \<open>
  The bounded queue for many producers and consumers (\<open>util/lock_free_queues/mpmc_bounded_queue.h\<close>), which
  carries the tasks of a shard. Every thread runs \<open>try_enqueue\<close> or \<open>try_dequeue\<close> cut at its accesses to shared
  memory; \<open>mp_step\<close> is one access of one thread, and a schedule is any sequence of them. The accesses are
  sequentially consistent, positions and sequence numbers are 64-bit words, and
  \<open>compare_exchange_weak\<close> may fail although the values agree. \<open>claimed\<close> and \<open>delivered\<close> record, for the
  theorems only, which value was put at each position and which was taken from it.
\<close>

subsection \<open>The queue\<close>

record 'a cell_t =
  sequence :: u64
  storage :: "'a option"

record 'a mpmc_bounded_queue =
  mp_buffer :: "'a cell_t list"
  buffer_mask :: u64
  enqueue_pos :: u64
  dequeue_pos :: u64

text \<open>The constructor throws unless the size is a power of two.\<close>

definition mpmc_init :: "u64 \<Rightarrow> 'a mpmc_bounded_queue option" where
  "mpmc_init buffer_size = (if buffer_size < 2 \<or> buffer_size AND (buffer_size - 1) \<noteq> 0 then None
     else Some \<lparr>mp_buffer = map (\<lambda>i. \<lparr>sequence = of_nat i, storage = None\<rparr>) [0..<unat buffer_size],
       buffer_mask = buffer_size - 1, enqueue_pos = 0, dequeue_pos = 0\<rparr>)"

definition cell_of :: "'a mpmc_bounded_queue \<Rightarrow> u64 \<Rightarrow> nat" where
  "cell_of q pos = unat (pos AND buffer_mask q)"

text \<open>\<open>intptr_t(seq) - intptr_t(pos)\<close>.\<close>

definition seq_dif :: "'a mpmc_bounded_queue \<Rightarrow> u64 \<Rightarrow> u64 \<Rightarrow> int" where
  "seq_dif q pos x = sint (sequence (mp_buffer q ! cell_of q pos)) - sint x"

definition mp_is_full :: "'a mpmc_bounded_queue \<Rightarrow> bool" where
  "mp_is_full q \<longleftrightarrow> (let pos = enqueue_pos q in seq_dif q pos pos < 0)"

definition mp_empty :: "'a mpmc_bounded_queue \<Rightarrow> bool" where
  "mp_empty q \<longleftrightarrow> (let pos = dequeue_pos q in seq_dif q pos (pos + 1) < 0)"

definition mp_capacity :: "'a mpmc_bounded_queue \<Rightarrow> u64" where
  "mp_capacity q = buffer_mask q + 1"

definition set_storage :: "'a mpmc_bounded_queue \<Rightarrow> nat \<Rightarrow> 'a option \<Rightarrow> 'a mpmc_bounded_queue" where
  "set_storage q i v = q\<lparr>mp_buffer := (mp_buffer q)[i := (mp_buffer q ! i)\<lparr>storage := v\<rparr>]\<rparr>"

definition set_sequence :: "'a mpmc_bounded_queue \<Rightarrow> nat \<Rightarrow> u64 \<Rightarrow> 'a mpmc_bounded_queue" where
  "set_sequence q i s = q\<lparr>mp_buffer := (mp_buffer q)[i := (mp_buffer q ! i)\<lparr>sequence := s\<rparr>]\<rparr>"

text \<open>The destructor: the objects that are left are destroyed; \<open>None\<close> when the fuel ends or a dead
  object is destroyed.\<close>

fun mp_destroy :: "nat \<Rightarrow> 'a mpmc_bounded_queue \<Rightarrow> 'a mpmc_bounded_queue option" where
  "mp_destroy 0 q = None"
| "mp_destroy (Suc fuel) q =
     (let pos = dequeue_pos q; q = q\<lparr>dequeue_pos := pos + 1\<rparr>; i = cell_of q pos
      in if seq_dif q pos (pos + 1) < 0 then Some q
         else do { v \<leftarrow> storage (mp_buffer q ! i); mp_destroy fuel (set_storage q i None) })"

subsection \<open>Threads\<close>

datatype 'a mp_pc = Idle
  | E1 'a | E2 'a u64 | E3 'a u64 | E4 'a u64 | E5 'a u64
  | D1 | D2 u64 | D3 u64 | D4 u64 | D5 u64 'a

datatype 'a mp_call = Enqueue 'a | Dequeue

record 'a mp_state =
  mpq :: "'a mpmc_bounded_queue"
  pcs :: "nat \<Rightarrow> 'a mp_pc"
  claimed :: "'a list"
  delivered :: "(nat \<times> 'a) list"

definition goto :: "'a mp_state \<Rightarrow> nat \<Rightarrow> 'a mp_pc \<Rightarrow> 'a mp_state" where
  "goto st t pc = st\<lparr>pcs := (pcs st)(t := pc)\<rparr>"

text \<open>One access of \<open>try_enqueue\<close>: load the position; load the sequence number and compare; advance the
  position; construct the object; publish the cell.\<close>

definition try_enqueue_step :: "nat \<Rightarrow> bool \<Rightarrow> 'a mp_state \<Rightarrow> 'a mp_state option" where
  "try_enqueue_step t spurious st = (let q = mpq st in case pcs st t of
       E1 v \<Rightarrow> Some (goto st t (E2 v (enqueue_pos q)))
     | E2 v pos \<Rightarrow> (let dif = seq_dif q pos pos in
         Some (goto st t (if dif = 0 then E3 v pos else if dif < 0 then Idle else E1 v)))
     | E3 v pos \<Rightarrow> if enqueue_pos q = pos \<and> \<not> spurious
         then Some (goto (st\<lparr>mpq := q\<lparr>enqueue_pos := pos + 1\<rparr>, claimed := claimed st @ [v]\<rparr>) t (E4 v pos))
         else Some (goto st t (E1 v))
     | E4 v pos \<Rightarrow> do {
         assert_opt (storage (mp_buffer q ! cell_of q pos) = None);
         Some (goto (st\<lparr>mpq := set_storage q (cell_of q pos) (Some v)\<rparr>) t (E5 v pos)) }
     | E5 v pos \<Rightarrow> Some (goto (st\<lparr>mpq := set_sequence q (cell_of q pos) (pos + 1)\<rparr>) t Idle)
     | _ \<Rightarrow> None)"

definition try_dequeue_step :: "nat \<Rightarrow> bool \<Rightarrow> 'a mp_state \<Rightarrow> 'a mp_state option" where
  "try_dequeue_step t spurious st = (let q = mpq st in case pcs st t of
       D1 \<Rightarrow> Some (goto st t (D2 (dequeue_pos q)))
     | D2 pos \<Rightarrow> (let dif = seq_dif q pos (pos + 1) in
         Some (goto st t (if dif = 0 then D3 pos else if dif < 0 then Idle else D1)))
     | D3 pos \<Rightarrow> if dequeue_pos q = pos \<and> \<not> spurious
         then Some (goto (st\<lparr>mpq := q\<lparr>dequeue_pos := pos + 1\<rparr>\<rparr>) t (D4 pos))
         else Some (goto st t D1)
     | D4 pos \<Rightarrow> do {
         v \<leftarrow> storage (mp_buffer q ! cell_of q pos);
         Some (goto (st\<lparr>mpq := set_storage q (cell_of q pos) None, delivered := delivered st @ [(unat pos, v)]\<rparr>) t (D5 pos v)) }
     | D5 pos v \<Rightarrow> Some (goto (st\<lparr>mpq := set_sequence q (cell_of q pos) (pos + buffer_mask q + 1)\<rparr>) t Idle)
     | _ \<Rightarrow> None)"

text \<open>A thread that is idle starts the call of its action; otherwise it goes on with its own.\<close>

type_synonym 'a mp_action = "nat \<times> 'a mp_call \<times> bool"

definition is_deq :: "'a mp_pc \<Rightarrow> bool" where
  "is_deq pc = (case pc of D1 \<Rightarrow> True | D2 _ \<Rightarrow> True | D3 _ \<Rightarrow> True | D4 _ \<Rightarrow> True | D5 _ _ \<Rightarrow> True | _ \<Rightarrow> False)"

definition mp_step :: "'a mp_action \<Rightarrow> 'a mp_state \<Rightarrow> 'a mp_state option" where
  "mp_step a st = (case a of (t, c, spurious) \<Rightarrow>
     if pcs st t = Idle then Some (goto st t (case c of Enqueue v \<Rightarrow> E1 v | Dequeue \<Rightarrow> D1))
     else if is_deq (pcs st t) then try_dequeue_step t spurious st else try_enqueue_step t spurious st)"

definition mp_start :: "'a mpmc_bounded_queue \<Rightarrow> 'a mp_state" where
  "mp_start q = \<lparr>mpq = q, pcs = (\<lambda>_. Idle), claimed = [], delivered = []\<rparr>"

subsection \<open>The invariant\<close>

text \<open>The invariant speaks of the sequence number \<open>sq i\<close> and the object \<open>so i\<close> of every cell, of the position
  \<open>cur i\<close> the cell is at, of the positions \<open>e = length cl\<close> and \<open>d\<close> of the two ends and of the threads.\<close>

definition cell_ok :: "nat \<Rightarrow> 'a list \<Rightarrow> nat \<Rightarrow> (nat \<Rightarrow> nat) \<Rightarrow> (nat \<Rightarrow> 'a option) \<Rightarrow> (nat \<Rightarrow> nat) \<Rightarrow> nat \<Rightarrow> bool" where
  "cell_ok n cl d sq so cur i \<longleftrightarrow> cur i mod n = i \<and> (sq i = cur i \<or> sq i = Suc (cur i)) \<and> cur i < d + n \<and> length cl \<le> cur i + n \<and>
     (sq i = cur i \<longrightarrow> d \<le> cur i) \<and> (sq i = Suc (cur i) \<longrightarrow> cur i < length cl) \<and>
     (\<forall>v. so i = Some v \<longrightarrow> cur i < length cl \<and> v = cl ! cur i) \<and> (sq i = Suc (cur i) \<longrightarrow> d \<le> cur i \<longrightarrow> so i \<noteq> None)"

fun thread_ok :: "nat \<Rightarrow> 'a list \<Rightarrow> nat \<Rightarrow> (nat \<Rightarrow> nat) \<Rightarrow> (nat \<Rightarrow> 'a option) \<Rightarrow> (nat \<Rightarrow> nat) \<Rightarrow> 'a mp_pc \<Rightarrow> bool" where
  "thread_ok n cl d sq so cur (E2 v p) = (unat p \<le> length cl)"
| "thread_ok n cl d sq so cur (E3 v p) = (unat p \<le> length cl \<and> (unat p = length cl \<longrightarrow> sq (unat p mod n) = unat p))"
| "thread_ok n cl d sq so cur (E4 v p) = (unat p < length cl \<and> v = cl ! unat p \<and> cur (unat p mod n) = unat p \<and> sq (unat p mod n) = unat p \<and>
     so (unat p mod n) = None)"
| "thread_ok n cl d sq so cur (E5 v p) = (unat p < length cl \<and> cur (unat p mod n) = unat p \<and> sq (unat p mod n) = unat p \<and> so (unat p mod n) \<noteq> None)"
| "thread_ok n cl d sq so cur (D2 p) = (unat p \<le> d)"
| "thread_ok n cl d sq so cur (D3 p) = (unat p \<le> d \<and> (unat p = d \<longrightarrow> sq (unat p mod n) = Suc (unat p)))"
| "thread_ok n cl d sq so cur (D4 p) = (unat p < d \<and> cur (unat p mod n) = unat p \<and> sq (unat p mod n) = Suc (unat p) \<and> so (unat p mod n) \<noteq> None)"
| "thread_ok n cl d sq so cur (D5 p v) = (unat p < d \<and> cur (unat p mod n) = unat p \<and> sq (unat p mod n) = Suc (unat p) \<and> so (unat p mod n) = None)"
| "thread_ok n cl d sq so cur _ = True"

text \<open>The position a thread has to itself.\<close>

fun owns :: "'a mp_pc \<Rightarrow> nat option" where
  "owns (E4 v p) = Some (unat p)"
| "owns (E5 v p) = Some (unat p)"
| "owns (D4 p) = Some (unat p)"
| "owns (D5 p v) = Some (unat p)"
| "owns _ = None"

fun taking :: "'a mp_pc \<Rightarrow> nat option" where
  "taking (D4 p) = Some (unat p)"
| "taking _ = None"

text \<open>What was delivered came from its position, which is done; every position taken off the queue is delivered
  or about to be.\<close>

definition entry_ok :: "nat \<Rightarrow> 'a list \<Rightarrow> nat \<Rightarrow> (nat \<Rightarrow> nat) \<Rightarrow> (nat \<Rightarrow> 'a option) \<Rightarrow> (nat \<Rightarrow> nat) \<Rightarrow> nat \<times> 'a \<Rightarrow> bool" where
  "entry_ok n cl d sq so cur e \<longleftrightarrow> fst e < d \<and> snd e = cl ! fst e \<and>
     (fst e < cur (fst e mod n) \<or> fst e = cur (fst e mod n) \<and> so (fst e mod n) = None \<and> sq (fst e mod n) = Suc (fst e))"

definition all_taken :: "nat \<Rightarrow> (nat \<Rightarrow> 'a mp_pc) \<Rightarrow> (nat \<times> 'a) list \<Rightarrow> bool" where
  "all_taken d pc lg \<longleftrightarrow> (\<forall>p < d. p \<in> fst ` set lg \<or> (\<exists>t. taking (pc t) = Some p))"

text \<open>A cell that is being filled or emptied has an owner.\<close>

definition busy_owned :: "nat \<Rightarrow> 'a list \<Rightarrow> nat \<Rightarrow> (nat \<Rightarrow> nat) \<Rightarrow> (nat \<Rightarrow> nat) \<Rightarrow> (nat \<Rightarrow> 'a mp_pc) \<Rightarrow> bool" where
  "busy_owned n cl d sq cur pc \<longleftrightarrow> (\<forall>i < n. sq i = cur i \<and> cur i < length cl \<or> sq i = Suc (cur i) \<and> cur i < d \<longrightarrow> (\<exists>t. owns (pc t) = Some (cur i)))"

definition mpi :: "nat \<Rightarrow> 'a list \<Rightarrow> nat \<Rightarrow> (nat \<Rightarrow> nat) \<Rightarrow> (nat \<Rightarrow> 'a option) \<Rightarrow> (nat \<Rightarrow> nat) \<Rightarrow> (nat \<Rightarrow> 'a mp_pc) \<Rightarrow> (nat \<times> 'a) list \<Rightarrow> bool" where
  "mpi n cl d sq so cur pc lg \<longleftrightarrow> 2 \<le> n \<and> d \<le> length cl \<and> length cl \<le> d + n \<and> (\<forall>i < n. cell_ok n cl d sq so cur i) \<and>
     (\<forall>t. thread_ok n cl d sq so cur (pc t)) \<and> (\<forall>t u. t \<noteq> u \<longrightarrow> owns (pc t) \<noteq> None \<longrightarrow> owns (pc t) \<noteq> owns (pc u)) \<and>
     distinct (map fst lg) \<and> (\<forall>e \<in> set lg. entry_ok n cl d sq so cur e) \<and> all_taken d pc lg \<and>
     busy_owned n cl d sq cur pc"

lemma mpiD:
  assumes "mpi n cl d sq so cur pc lg"
  shows "2 \<le> n" "d \<le> length cl" "length cl \<le> d + n" "\<And>i. i < n \<Longrightarrow> cell_ok n cl d sq so cur i"
    "\<And>t. thread_ok n cl d sq so cur (pc t)" "\<And>t u. t \<noteq> u \<Longrightarrow> owns (pc t) \<noteq> None \<Longrightarrow> owns (pc t) \<noteq> owns (pc u)"
    "distinct (map fst lg)" "\<And>e. e \<in> set lg \<Longrightarrow> entry_ok n cl d sq so cur e" "all_taken d pc lg"
    "busy_owned n cl d sq cur pc"
  using assms by (auto simp: mpi_def)

lemma Suc_mod_neq: "2 \<le> n \<Longrightarrow> Suc p mod n \<noteq> p mod n"
  by (simp add: mod_Suc)

subsection \<open>Steps keep the invariant\<close>

text \<open>One thread moves from \<open>pc t\<close> to \<open>p\<close>.\<close>

lemma mpi_upd:
  assumes m: "mpi n cl d sq so cur pc lg"
    and "d' \<le> length cl'" "length cl' \<le> d' + n" "\<And>i. i < n \<Longrightarrow> cell_ok n cl' d' sq' so' cur' i"
    and th: "\<And>u. u \<noteq> t \<Longrightarrow> thread_ok n cl' d' sq' so' cur' (pc u)" "thread_ok n cl' d' sq' so' cur' p"
    and own: "\<And>u. u \<noteq> t \<Longrightarrow> owns p \<noteq> None \<Longrightarrow> owns p \<noteq> owns (pc u)"
    and lg: "distinct (map fst lg')" "\<And>e. e \<in> set lg' \<Longrightarrow> entry_ok n cl' d' sq' so' cur' e" "all_taken d' (pc(t := p)) lg'"
    and busy: "busy_owned n cl' d' sq' cur' (pc(t := p))"
  shows "mpi n cl' d' sq' so' cur' (pc(t := p)) lg'"
proof -
  have "owns ((pc(t := p)) a) \<noteq> owns ((pc(t := p)) b)" if "a \<noteq> b" "owns ((pc(t := p)) a) \<noteq> None" for a b
  proof (cases "a = t \<or> b = t")
    case True
    then show ?thesis using own that by (metis fun_upd_apply)
  next
    case False
    then show ?thesis using mpiD(6) [OF m that(1)] that(2) by simp
  qed
  then show ?thesis unfolding mpi_def using mpiD(1) [OF m] assms(2-4) th lg busy by simp
qed

lemma all_taken_upd: "all_taken d pc lg \<Longrightarrow> taking (pc t) = None \<Longrightarrow> all_taken d (pc(t := p)) lg"
  unfolding all_taken_def by (metis fun_upd_other option.distinct(1))

text \<open>The owners of the cells that are busy afterwards: those that were busy, and the thread that moved.\<close>

lemma busy_upd:
  assumes "busy_owned n cl d sq cur pc"
    "\<And>i. i < n \<Longrightarrow> sq' i = cur' i \<and> cur' i < length cl' \<or> sq' i = Suc (cur' i) \<and> cur' i < d' \<Longrightarrow> owns p \<noteq> Some (cur' i) \<Longrightarrow>
       cur' i = cur i \<and> (sq i = cur i \<and> cur i < length cl \<or> sq i = Suc (cur i) \<and> cur i < d) \<and> owns (pc t) \<noteq> Some (cur i)"
  shows "busy_owned n cl' d' sq' cur' (pc(t := p))"
  unfolding busy_owned_def
proof (intro allI impI)
  fix i assume i: "i < n" "sq' i = cur' i \<and> cur' i < length cl' \<or> sq' i = Suc (cur' i) \<and> cur' i < d'"
  show "\<exists>u. owns ((pc(t := p)) u) = Some (cur' i)"
  proof (cases "owns p = Some (cur' i)")
    case True
    then show ?thesis by (metis fun_upd_same)
  next
    case False
    note a = assms(2) [OF i False]
    obtain u where "owns (pc u) = Some (cur i)" using assms(1) i(1) a unfolding busy_owned_def by blast
    then show ?thesis using a by (metis fun_upd_other)
  qed
qed

lemma busy_done:
  assumes "busy_owned n cl d sq cur pc" "owns (pc t) = Some q" "\<And>j. j < n \<Longrightarrow> cur j = q \<Longrightarrow> j = i"
    "\<not> (sq' i = cur' i \<and> cur' i < length cl \<or> sq' i = Suc (cur' i) \<and> cur' i < d)" "\<And>j. j \<noteq> i \<Longrightarrow> sq' j = sq j \<and> cur' j = cur j"
  shows "busy_owned n cl d sq' cur' (pc(t := p))"
proof (rule busy_upd [OF assms(1)])
  fix j assume j: "j < n" "sq' j = cur' j \<and> cur' j < length cl \<or> sq' j = Suc (cur' j) \<and> cur' j < d"
  then have "j \<noteq> i" using assms(4) by blast
  then have "sq' j = sq j" "cur' j = cur j" "cur j \<noteq> q" using assms(3,5) j(1) by blast+
  then show "cur' j = cur j \<and> (sq j = cur j \<and> cur j < length cl \<or> sq j = Suc (cur j) \<and> cur j < d) \<and> owns (pc t) \<noteq> Some (cur j)"
    using j(2) assms(2) by auto
qed

text \<open>A thread moves without touching the queue.\<close>

lemma mpi_pc:
  assumes "mpi n cl d sq so cur pc lg" "thread_ok n cl d sq so cur p" "owns p = None" "owns (pc t) = None"
  shows "mpi n cl d sq so cur (pc(t := p)) lg"
proof -
  have t: "taking (pc t) = None" using assms(4) by (cases "pc t") auto
  have "busy_owned n cl d sq cur (pc(t := p))" by (rule busy_upd [OF mpiD(10) [OF assms(1)]]) (use assms(4) in auto)
  then show ?thesis by (intro mpi_upd [OF assms(1)]) (use mpiD [OF assms(1)] assms(2,3) t all_taken_upd in auto)
qed

text \<open>Two threads that own a position own different cells.\<close>

lemma owner_cell:
  assumes "thread_ok n cl d sq so cur pc" "owns pc = Some p"
  shows "cur (p mod n) = p"
  using assms by (cases pc) auto

lemma other_cell:
  assumes "mpi n cl d sq so cur pc lg" "owns (pc t) = Some p" "owns (pc u) = Some p'" "t \<noteq> u"
  shows "p' mod n \<noteq> p mod n"
proof
  assume "p' mod n = p mod n"
  then have "p' = p" using owner_cell [OF mpiD(5) [OF assms(1)]] assms(2,3) by metis
  then show False using mpiD(6) [OF assms(1,4)] assms(2,3) by simp
qed

text \<open>A change of the cell of an owned position concerns no other thread.\<close>

lemma thread_ok_upd:
  assumes "thread_ok n cl d sq so cur pc" "\<And>p'. owns pc = Some p' \<Longrightarrow> p' mod n \<noteq> i"
    and q: "length cl mod n = i \<Longrightarrow> sq i \<noteq> length cl" "d mod n = i \<Longrightarrow> sq i \<noteq> Suc d"
    and "\<And>j. j \<noteq> i \<Longrightarrow> sq' j = sq j \<and> so' j = so j \<and> cur' j = cur j"
  shows "thread_ok n cl d sq' so' cur' pc"
  using assms by (cases pc; cases "length cl mod n = i"; cases "d mod n = i") auto

lemma quiet:
  assumes "2 \<le> n" "sq (p mod n) = p \<and> p < length cl \<or> sq (p mod n) = Suc p \<and> p < d"
  shows "length cl mod n = p mod n \<Longrightarrow> sq (p mod n) \<noteq> length cl" "d mod n = p mod n \<Longrightarrow> sq (p mod n) \<noteq> Suc d"
  using assms Suc_mod_neq [OF assms(1)] by (metis less_irrefl, metis Suc_inject less_irrefl)

lemma others_ok:
  assumes "mpi n cl d sq so cur pc lg" "owns (pc t) = Some p" "sq (p mod n) = p \<and> p < length cl \<or> sq (p mod n) = Suc p \<and> p < d" "u \<noteq> t"
    "\<And>j. j \<noteq> p mod n \<Longrightarrow> sq' j = sq j \<and> so' j = so j \<and> cur' j = cur j"
  shows "thread_ok n cl d sq' so' cur' (pc u)"
  by (rule thread_ok_upd [OF mpiD(5) [OF assms(1)], of u "p mod n"])
    (use other_cell [OF assms(1,2)] assms(4,5) quiet [where cl = cl and d = d and sq = sq, OF mpiD(1) [OF assms(1)] assms(3)] in blast)+

lemma mpi_claim_enq:
  assumes "mpi n cl d sq so cur pc lg" "pc t = E3 v p" "unat p = length cl"
  shows "mpi n (cl @ [v]) d sq so cur (pc(t := E4 v p)) lg"
proof -
  note m = mpiD [OF assms(1)]
  let ?e = "length cl" and ?i = "length cl mod n"
  have s: "sq ?i = ?e" using m(5) [of t] assms(2,3) by simp
  have i: "?i < n" using m(1) by simp
  note c = m(4) [OF i]
  have cur: "cur ?i = ?e" using c s Suc_mod_neq [OF m(1), of "cur ?i"] unfolding cell_ok_def by metis
  have so: "so ?i = None" using c cur unfolding cell_ok_def by (metis less_irrefl option.exhaust)
  have lim: "?e < d + n" using c cur unfolding cell_ok_def by simp
  show ?thesis
  proof (rule mpi_upd [OF assms(1)])
    show "cell_ok n (cl @ [v]) d sq so cur j" if j: "j < n" for j
    proof -
      note cj = m(4) [OF j]
      have "?e \<noteq> cur j + n"
      proof
        assume a: "?e = cur j + n"
        then have "?i = j" using cj by (simp add: cell_ok_def)
        then show False using cur a i by simp
      qed
      then show ?thesis using cj by (auto simp: cell_ok_def nth_append)
    qed
    show "thread_ok n (cl @ [v]) d sq so cur (pc u)" for u using m(5) [of u] by (cases "pc u") (auto simp: nth_append)
    show "thread_ok n (cl @ [v]) d sq so cur (E4 v p)" using s cur so assms(3) by simp
    show "owns (E4 v p) \<noteq> owns (pc u)" for u using m(5) [of u] m(2) assms(3) by (cases "pc u") auto
    show "entry_ok n (cl @ [v]) d sq so cur e" if "e \<in> set lg" for e using m(8) [OF that] m(2) by (auto simp: entry_ok_def nth_append)
    show "all_taken d (pc(t := E4 v p)) lg" using all_taken_upd [OF m(9)] assms(2) by simp
    show "busy_owned n (cl @ [v]) d sq cur (pc(t := E4 v p))" by (rule busy_upd [OF m(10)]) (use assms(2,3) in auto)
  qed (use m(2,7) lim in auto)
qed

lemma mpi_construct:
  assumes "mpi n cl d sq so cur pc lg" "pc t = E4 v p"
  shows "mpi n cl d sq (so(unat p mod n := Some v)) cur (pc(t := E5 v p)) lg"
proof -
  note m = mpiD [OF assms(1)]
  let ?i = "unat p mod n" and ?so = "so(unat p mod n := Some v)"
  have o: "unat p < length cl" "v = cl ! unat p" "cur ?i = unat p" "sq ?i = unat p" "so ?i = None" using m(5) [of t] assms(2) by simp_all
  show ?thesis
  proof (rule mpi_upd [OF assms(1) m(2,3)])
    show "cell_ok n cl d sq ?so cur j" if "j < n" for j using m(4) [OF that] o by (auto simp: cell_ok_def)
    show "thread_ok n cl d sq ?so cur (pc u)" if "u \<noteq> t" for u by (rule others_ok [OF assms(1) _ _ that, of "unat p"]) (use assms(2) o in auto)
    show "owns (E5 v p) \<noteq> owns (pc u)" if "u \<noteq> t" for u using m(6) [of t u] that assms(2) by auto
    show "entry_ok n cl d sq ?so cur e" if "e \<in> set lg" for e using m(8) [OF that] o by (auto simp: entry_ok_def)
    show "all_taken d (pc(t := E5 v p)) lg" using all_taken_upd [OF m(9)] assms(2) by simp
    show "busy_owned n cl d sq cur (pc(t := E5 v p))" by (rule busy_upd [OF m(10)]) (use assms(2) in auto)
  qed (use m(7) o in auto)
qed

lemma mpi_publish:
  assumes "mpi n cl d sq so cur pc lg" "pc t = E5 v p"
  shows "mpi n cl d (sq(unat p mod n := Suc (unat p))) so cur (pc(t := Idle)) lg"
proof -
  note m = mpiD [OF assms(1)]
  let ?i = "unat p mod n" and ?sq = "sq(unat p mod n := Suc (unat p))"
  have o: "unat p < length cl" "cur ?i = unat p" "sq ?i = unat p" "so ?i \<noteq> None" using m(5) [of t] assms(2) by simp_all
  have cells: "cur j = unat p \<longleftrightarrow> j = ?i" if "j < n" for j using m(4) [OF that] o(2) by (auto simp: cell_ok_def)
  have d: "d \<le> unat p" using m(1) m(4) [of ?i] o by (simp add: cell_ok_def)
  show ?thesis
  proof (rule mpi_upd [OF assms(1) m(2,3)])
    show "cell_ok n cl d ?sq so cur j" if "j < n" for j using m(4) [OF that] o by (auto simp: cell_ok_def)
    show "thread_ok n cl d ?sq so cur (pc u)" if "u \<noteq> t" for u by (rule others_ok [OF assms(1) _ _ that, of "unat p"]) (use assms(2) o in auto)
    show "entry_ok n cl d ?sq so cur e" if "e \<in> set lg" for e using m(8) [OF that] o by (auto simp: entry_ok_def)
    show "all_taken d (pc(t := Idle)) lg" using all_taken_upd [OF m(9)] assms(2) by simp
    show "busy_owned n cl d ?sq cur (pc(t := Idle))"
      by (rule busy_done [OF m(10), of t "unat p" ?i]) (use assms(2) o d cells in auto)
  qed (use m(7) in auto)
qed

lemma mpi_claim_deq:
  assumes "mpi n cl d sq so cur pc lg" "pc t = D3 p" "unat p = d"
  shows "mpi n cl (Suc d) sq so cur (pc(t := D4 p)) lg"
proof -
  note m = mpiD [OF assms(1)]
  let ?i = "d mod n"
  have s: "sq ?i = Suc d" using m(5) [of t] assms(2,3) by simp
  have i: "?i < n" using m(1) by simp
  note c = m(4) [OF i]
  have cur: "cur ?i = d" using c s Suc_mod_neq [OF m(1), of d] unfolding cell_ok_def by (metis Suc_inject)
  have full: "d < length cl" "so ?i \<noteq> None" using c s cur unfolding cell_ok_def by auto
  show ?thesis
  proof (rule mpi_upd [OF assms(1)])
    show "cell_ok n cl (Suc d) sq so cur j" if j: "j < n" for j
    proof -
      note cj = m(4) [OF j]
      have "cur j \<noteq> d" if "sq j = cur j"
      proof
        assume "cur j = d"
        then have "j = ?i" using cj by (simp add: cell_ok_def)
        then show False using s cur that by simp
      qed
      then show ?thesis using cj by (auto simp: cell_ok_def)
    qed
    show "thread_ok n cl (Suc d) sq so cur (pc u)" for u using m(5) [of u] by (cases "pc u") auto
    show "thread_ok n cl (Suc d) sq so cur (D4 p)" using s cur full assms(3) by simp
    show "owns (D4 p) \<noteq> owns (pc u)" for u using m(5) [of u] s assms(3) by (cases "pc u") auto
    show "entry_ok n cl (Suc d) sq so cur e" if "e \<in> set lg" for e using m(8) [OF that] by (auto simp: entry_ok_def)
    have "all_taken d (pc(t := D4 p)) lg" using all_taken_upd [OF m(9)] assms(2) by simp
    then show "all_taken (Suc d) (pc(t := D4 p)) lg" unfolding all_taken_def using assms(3) by (metis fun_upd_same less_Suc_eq taking.simps(1))
    show "busy_owned n cl (Suc d) sq cur (pc(t := D4 p))" by (rule busy_upd [OF m(10)]) (use assms(2,3) in auto)
  qed (use m(3,7) full in auto)
qed

lemma mpi_take:
  assumes "mpi n cl d sq so cur pc lg" "pc t = D4 p" "so (unat p mod n) = Some v"
  shows "mpi n cl d sq (so(unat p mod n := None)) cur (pc(t := D5 p v)) (lg @ [(unat p, v)])"
proof -
  note m = mpiD [OF assms(1)]
  let ?i = "unat p mod n" and ?so = "so(unat p mod n := None)"
  have o: "unat p < d" "cur ?i = unat p" "sq ?i = Suc (unat p)" using m(5) [of t] assms(2) by simp_all
  have i: "?i < n" using m(1) by simp
  have v: "v = cl ! unat p" using m(4) [OF i] o(2) assms(3) by (simp add: cell_ok_def)
  have fresh: "unat p \<notin> fst ` set lg" 
  proof
    assume "unat p \<in> fst ` set lg"
    then obtain e where "e \<in> set lg" "fst e = unat p" by auto
    then show False using m(8) [of e] o(2) assms(3) by (simp add: entry_ok_def)
  qed
  show ?thesis
  proof (rule mpi_upd [OF assms(1) m(2,3)])
    show "cell_ok n cl d sq ?so cur j" if "j < n" for j using m(4) [OF that] o by (auto simp: cell_ok_def)
    show "thread_ok n cl d sq ?so cur (pc u)" if "u \<noteq> t" for u by (rule others_ok [OF assms(1) _ _ that, of "unat p"]) (use assms(2) o in auto)
    show "owns (D5 p v) \<noteq> owns (pc u)" if "u \<noteq> t" for u using m(6) [of t u] that assms(2) by auto
    show "entry_ok n cl d sq ?so cur e" if "e \<in> set (lg @ [(unat p, v)])" for e
    proof (cases "e \<in> set lg")
      case True
      then show ?thesis using m(8) [OF True] by (simp add: entry_ok_def) metis
    next
      case False
      then have "e = (unat p, v)" using that by simp
      then show ?thesis using o v by (simp add: entry_ok_def)
    qed
    show "all_taken d (pc(t := D5 p v)) (lg @ [(unat p, v)])"
      unfolding all_taken_def
    proof (intro allI impI)
      fix k assume "k < d"
      then consider "k \<in> fst ` set lg" | u where "taking (pc u) = Some k" using m(9) unfolding all_taken_def by blast
      then show "k \<in> fst ` set (lg @ [(unat p, v)]) \<or> (\<exists>t'. taking ((pc(t := D5 p v)) t') = Some k)"
      proof cases
        case 1
        then show ?thesis by simp
      next
        case (2 u)
        then show ?thesis using assms(2) by (cases "u = t") (simp, metis fun_upd_other)
      qed
    qed
    show "busy_owned n cl d sq cur (pc(t := D5 p v))" by (rule busy_upd [OF m(10)]) (use assms(2) in auto)
  qed (use m(7) o fresh in auto)
qed

lemma mpi_release:
  assumes "mpi n cl d sq so cur pc lg" "pc t = D5 p v"
  shows "mpi n cl d (sq(unat p mod n := unat p + n)) so (cur(unat p mod n := unat p + n)) (pc(t := Idle)) lg"
proof -
  note m = mpiD [OF assms(1)]
  let ?i = "unat p mod n" and ?sq = "sq(unat p mod n := unat p + n)" and ?cur = "cur(unat p mod n := unat p + n)"
  have o: "unat p < d" "cur ?i = unat p" "sq ?i = Suc (unat p)" "so ?i = None" using m(5) [of t] assms(2) by simp_all
  have i: "?i < n" using m(1) by simp
  have e: "length cl \<le> unat p + n" using m(4) [OF i] o(2) by (simp add: cell_ok_def)
  have cells: "cur j = unat p \<longleftrightarrow> j = ?i" if "j < n" for j using m(4) [OF that] o(2) by (auto simp: cell_ok_def)
  show ?thesis
  proof (rule mpi_upd [OF assms(1) m(2,3)])
    show "cell_ok n cl d ?sq so ?cur j" if "j < n" for j using m(4) [OF that] o e m(2) by (cases "j = ?i") (simp_all add: cell_ok_def)
    show "thread_ok n cl d ?sq so ?cur (pc u)" if "u \<noteq> t" for u by (rule others_ok [OF assms(1) _ _ that, of "unat p"]) (use assms(2) o in auto)
    show "entry_ok n cl d ?sq so ?cur e" if "e \<in> set lg" for e using m(8) [OF that] m(1) o by (auto simp: entry_ok_def)
    show "all_taken d (pc(t := Idle)) lg" using all_taken_upd [OF m(9)] assms(2) by simp
    show "busy_owned n cl d ?sq ?cur (pc(t := Idle))"
      by (rule busy_done [OF m(10), of t "unat p" ?i]) (use assms(2) o e cells in auto)
  qed (use m(7) in auto)
qed

subsection \<open>Words\<close>

text \<open>The invariant on the state; \<open>k\<close> bounds the number of steps, so that no position reaches \<open>2 ^ 63\<close>.\<close>

definition mp_inv :: "nat \<Rightarrow> (nat \<Rightarrow> nat) \<Rightarrow> nat \<Rightarrow> 'a mp_state \<Rightarrow> bool" where
  "mp_inv n cur k st \<longleftrightarrow> (let q = mpq st in (\<exists>b \<le> 62. n = 2 ^ b) \<and> buffer_mask q = of_nat (n - 1) \<and> length (mp_buffer q) = n \<and>
     unat (enqueue_pos q) = length (claimed st) \<and> length (claimed st) \<le> k \<and>
     mpi n (claimed st) (unat (dequeue_pos q)) (\<lambda>i. unat (sequence (mp_buffer q ! i))) (\<lambda>i. storage (mp_buffer q ! i)) cur (pcs st) (delivered st))"

lemma cell_of_mod:
  assumes "n = 2 ^ b" "b \<le> 62" "buffer_mask q = of_nat (n - 1)"
  shows "cell_of q pos = unat pos mod n"
proof -
  have "buffer_mask q = mask b" using assms by (simp add: mask_eq_exp_minus_1 of_nat_diff)
  then have "pos AND buffer_mask q = take_bit b pos" by (simp add: take_bit_eq_mask)
  then have "cell_of q pos = take_bit b (unat pos)" by (simp only: cell_of_def unsigned_take_bit_eq)
  then show ?thesis using assms(1) by (simp only: take_bit_eq_mod)
qed

lemma sint_small: "unat (w :: u64) < 2 ^ 63 \<Longrightarrow> sint w = int (unat w)"
proof -
  assume "unat w < 2 ^ 63"
  then have "int (unat w) < 2 ^ 63" by (metis of_nat_less_iff of_nat_numeral of_nat_power)
  then have "uint w < 2 ^ 63" by simp
  then have "signed_take_bit 63 (uint w) = uint w" using uint_ge_0 [of w] by (intro signed_take_bit_int_eq_self) linarith+
  then show ?thesis by (simp add: sint_uint)
qed

lemma unat_plus: "unat (w :: u64) + unat x < 2 ^ 64 \<Longrightarrow> unat (w + x) = unat w + unat x"
  by (simp add: unat_word_ariths)

lemma buffer_upd:
  assumes "i < length (mp_buffer q)"
  shows "(\<lambda>j. unat (sequence (mp_buffer (set_storage q i v) ! j))) = (\<lambda>j. unat (sequence (mp_buffer q ! j)))"
    "(\<lambda>j. storage (mp_buffer (set_storage q i v) ! j)) = (\<lambda>j. storage (mp_buffer q ! j))(i := v)"
    "(\<lambda>j. unat (sequence (mp_buffer (set_sequence q i w) ! j))) = (\<lambda>j. unat (sequence (mp_buffer q ! j)))(i := unat w)"
    "(\<lambda>j. storage (mp_buffer (set_sequence q i w) ! j)) = (\<lambda>j. storage (mp_buffer q ! j))"
  using assms by (auto simp: set_storage_def set_sequence_def fun_eq_iff nth_list_update)

lemma set_frame:
  "buffer_mask (set_storage q i v) = buffer_mask q" "enqueue_pos (set_storage q i v) = enqueue_pos q"
  "dequeue_pos (set_storage q i v) = dequeue_pos q" "length (mp_buffer (set_storage q i v)) = length (mp_buffer q)"
  "buffer_mask (set_sequence q i w) = buffer_mask q" "enqueue_pos (set_sequence q i w) = enqueue_pos q"
  "dequeue_pos (set_sequence q i w) = dequeue_pos q" "length (mp_buffer (set_sequence q i w)) = length (mp_buffer q)"
  by (simp_all add: set_storage_def set_sequence_def)

lemmas mp_frame [simp] = set_frame

lemma mp_invD:
  assumes "mp_inv n cur k st" "k < 2 ^ 62"
  shows "mpi n (claimed st) (unat (dequeue_pos (mpq st))) (\<lambda>i. unat (sequence (mp_buffer (mpq st) ! i))) (\<lambda>i. storage (mp_buffer (mpq st) ! i))
      cur (pcs st) (delivered st)"
    "\<And>pos. cell_of (mpq st) pos = unat pos mod n" "\<And>pos :: u64. unat pos mod n < length (mp_buffer (mpq st))"
    "\<And>pos :: u64. unat pos \<le> length (claimed st) \<Longrightarrow> unat (pos + 1) = Suc (unat pos)"
    "\<And>pos. unat pos \<le> length (claimed st) \<Longrightarrow> seq_dif (mpq st) pos pos = 0 \<longleftrightarrow> unat (sequence (mp_buffer (mpq st) ! (unat pos mod n))) = unat pos"
    "\<And>pos. unat pos \<le> length (claimed st) \<Longrightarrow> seq_dif (mpq st) pos (pos + 1) = 0 \<longleftrightarrow> unat (sequence (mp_buffer (mpq st) ! (unat pos mod n))) = Suc (unat pos)"
    "\<And>pos. unat pos < length (claimed st) \<Longrightarrow> unat (pos + buffer_mask (mpq st) + 1) = unat pos + n"
    "\<And>pos. unat pos \<le> length (claimed st) \<Longrightarrow> seq_dif (mpq st) pos pos < 0 \<longleftrightarrow> unat (sequence (mp_buffer (mpq st) ! (unat pos mod n))) < unat pos"
    "\<And>pos. unat pos \<le> length (claimed st) \<Longrightarrow> seq_dif (mpq st) pos (pos + 1) < 0 \<longleftrightarrow> unat (sequence (mp_buffer (mpq st) ! (unat pos mod n))) < Suc (unat pos)"
proof -
  let ?q = "mpq st"
  obtain b where b: "b \<le> 62" "n = 2 ^ b" and q: "buffer_mask ?q = of_nat (n - 1)" "length (mp_buffer ?q) = n" "length (claimed st) \<le> k"
    and m: "mpi n (claimed st) (unat (dequeue_pos ?q)) (\<lambda>i. unat (sequence (mp_buffer ?q ! i))) (\<lambda>i. storage (mp_buffer ?q ! i)) cur (pcs st) (delivered st)"
    using assms(1) by (auto simp: mp_inv_def Let_def)
  show "mpi n (claimed st) (unat (dequeue_pos ?q)) (\<lambda>i. unat (sequence (mp_buffer ?q ! i))) (\<lambda>i. storage (mp_buffer ?q ! i)) cur (pcs st) (delivered st)"
    by (rule m)
  have n: "n \<le> 2 ^ 62" unfolding b(2) using b(1) by (intro power_increasing) auto
  show c: "cell_of ?q pos = unat pos mod n" for pos by (rule cell_of_mod [OF b(2,1) q(1)])
  show l: "unat pos mod n < length (mp_buffer ?q)" for pos :: u64 using q(2) b(2) by simp
  show s: "unat (pos + 1) = Suc (unat pos)" if "unat pos \<le> length (claimed st)" for pos :: u64 using unat_plus [of pos 1] that q(3) assms(2) by simp
  have sq: "unat (sequence (mp_buffer ?q ! (unat pos mod n))) < 2 ^ 63" for pos :: u64
    using mpiD(4) [OF m, of "unat pos mod n"] mpiD(2) [OF m] l [of pos] q(2,3) assms(2) n by (auto simp: cell_ok_def)
  have dif: "seq_dif ?q pos x = 0 \<longleftrightarrow> unat (sequence (mp_buffer ?q ! (unat pos mod n))) = unat x" if "unat x < 2 ^ 63" for pos x
    unfolding seq_dif_def c sint_small [OF sq] sint_small [OF that] by linarith
  show "seq_dif ?q pos pos = 0 \<longleftrightarrow> unat (sequence (mp_buffer ?q ! (unat pos mod n))) = unat pos" if "unat pos \<le> length (claimed st)" for pos
    by (rule dif) (use that q(3) assms(2) in simp)
  show "seq_dif ?q pos (pos + 1) = 0 \<longleftrightarrow> unat (sequence (mp_buffer ?q ! (unat pos mod n))) = Suc (unat pos)" if "unat pos \<le> length (claimed st)" for pos
    using dif [of "pos + 1" pos] s [OF that] that q(3) assms(2) by simp
  have sgn: "seq_dif ?q pos x < 0 \<longleftrightarrow> unat (sequence (mp_buffer ?q ! (unat pos mod n))) < unat x" if "unat x < 2 ^ 63" for pos x
    unfolding seq_dif_def c sint_small [OF sq] sint_small [OF that] by linarith
  show "seq_dif ?q pos pos < 0 \<longleftrightarrow> unat (sequence (mp_buffer ?q ! (unat pos mod n))) < unat pos" if "unat pos \<le> length (claimed st)" for pos
    by (rule sgn) (use that q(3) assms(2) in simp)
  show "seq_dif ?q pos (pos + 1) < 0 \<longleftrightarrow> unat (sequence (mp_buffer ?q ! (unat pos mod n))) < Suc (unat pos)" if "unat pos \<le> length (claimed st)" for pos
    using sgn [of "pos + 1" pos] s [OF that] that q(3) assms(2) by simp
  have u: "unat (buffer_mask ?q) = n - 1" unfolding q(1) using n by (simp add: unsigned_of_nat take_bit_nat_eq_self)
  show "unat (pos + buffer_mask ?q + 1) = unat pos + n" if "unat pos < length (claimed st)" for pos
  proof -
    have "unat (pos + buffer_mask ?q) = unat pos + (n - 1)" using unat_plus [of pos "buffer_mask ?q"] u that q(3) assms(2) n by simp
    then show ?thesis using unat_plus [of "pos + buffer_mask ?q" 1] that q(3) assms(2) n mpiD(1) [OF m] by simp
  qed
qed

lemma mp_inv_goto:
  assumes "mp_inv n cur k st" "k < 2 ^ 62" "thread_ok n (claimed st) (unat (dequeue_pos (mpq st))) (\<lambda>i. unat (sequence (mp_buffer (mpq st) ! i)))
      (\<lambda>i. storage (mp_buffer (mpq st) ! i)) cur p" "owns p = None" "owns (pcs st t) = None"
  shows "mp_inv n cur (Suc k) (goto st t p)"
  using mpi_pc [OF mp_invD(1) [OF assms(1,2)] assms(3,4,5)] assms(1) by (simp add: mp_inv_def Let_def goto_def)

lemma enqueue_step_inv:
  assumes "mp_inv n cur k st" "k < 2 ^ 62" "pcs st t \<noteq> Idle" "\<not> is_deq (pcs st t)"
  shows "\<exists>st'. try_enqueue_step t sp st = Some st' \<and> mp_inv n cur (Suc k) st'"
proof -
  let ?q = "mpq st"
  note w = mp_invD [OF assms(1,2)]
  note m = w(1) and th = mpiD(5) [OF w(1), of t]
  have e: "unat (enqueue_pos ?q) = length (claimed st)" using assms(1) by (simp add: mp_inv_def Let_def)
  show ?thesis
  proof (cases "pcs st t")
    case (E1 v)
    show ?thesis unfolding try_enqueue_step_def Let_def E1 by (simp, rule mp_inv_goto [OF assms(1,2)]) (use E1 e in simp_all)
  next
    case (E2 v pos)
    have p: "unat pos \<le> length (claimed st)" using th E2 by simp
    show ?thesis unfolding try_enqueue_step_def Let_def E2
      by (simp, intro impI conjI; rule mp_inv_goto [OF assms(1,2)]) (use E2 p w(5) [OF p] in auto)
  next
    case (E3 v pos)
    show ?thesis
    proof (cases "enqueue_pos ?q = pos \<and> \<not> sp")
      case True
      then have l: "unat pos = length (claimed st)" using e by simp
      have "mp_inv n cur (Suc k) (goto (st\<lparr>mpq := ?q\<lparr>enqueue_pos := pos + 1\<rparr>, claimed := claimed st @ [v]\<rparr>) t (E4 v pos))"
        using mpi_claim_enq [OF m E3 l] assms(1) w(4) [of pos] l by (simp add: mp_inv_def Let_def goto_def)
      then show ?thesis unfolding try_enqueue_step_def Let_def E3 using True by simp
    next
      case False
      have "mp_inv n cur (Suc k) (goto st t (E1 v))" by (rule mp_inv_goto [OF assms(1,2)]) (use E3 in simp_all)
      then show ?thesis unfolding try_enqueue_step_def Let_def E3 using False by auto
    qed
  next
    case (E4 v pos)
    have "mp_inv n cur (Suc k) (goto (st\<lparr>mpq := set_storage ?q (cell_of ?q pos) (Some v)\<rparr>) t (E5 v pos))"
      using mpi_construct [OF m E4] assms(1) buffer_upd(1,2) [OF w(3) [of pos], of "Some v"] by (simp add: mp_inv_def Let_def goto_def w(2))
    then show ?thesis unfolding try_enqueue_step_def Let_def E4 using th E4 by (simp add: w(2))
  next
    case (E5 v pos)
    have p: "unat (pos + 1) = Suc (unat pos)" using w(4) th E5 by simp
    have "mp_inv n cur (Suc k) (goto (st\<lparr>mpq := set_sequence ?q (cell_of ?q pos) (pos + 1)\<rparr>) t Idle)"
      using mpi_publish [OF m E5] assms(1) buffer_upd(3,4) [OF w(3) [of pos], of "pos + 1"] p by (simp add: mp_inv_def Let_def goto_def w(2))
    then show ?thesis unfolding try_enqueue_step_def Let_def E5 by simp
  qed (use assms(3,4) in \<open>simp_all add: is_deq_def\<close>)
qed

lemma dequeue_step_inv:
  assumes "mp_inv n cur k st" "k < 2 ^ 62" "is_deq (pcs st t)"
  shows "\<exists>st' cur'. try_dequeue_step t sp st = Some st' \<and> mp_inv n cur' (Suc k) st'"
proof -
  let ?q = "mpq st"
  note w = mp_invD [OF assms(1,2)]
  note m = w(1) and th = mpiD(5) [OF w(1), of t] and le = mpiD(2) [OF w(1)]
  show ?thesis
  proof (cases "pcs st t")
    case D1
    have "mp_inv n cur (Suc k) (goto st t (D2 (dequeue_pos ?q)))" by (rule mp_inv_goto [OF assms(1,2)]) (use D1 in simp_all)
    then show ?thesis unfolding try_dequeue_step_def Let_def D1 by auto
  next
    case (D2 pos)
    have p: "unat pos \<le> unat (dequeue_pos ?q)" using th D2 by simp
    have "mp_inv n cur (Suc k) (goto st t (if seq_dif ?q pos (pos + 1) = 0 then D3 pos else if seq_dif ?q pos (pos + 1) < 0 then Idle else D1))"
      by (rule mp_inv_goto [OF assms(1,2)]) (use D2 p le w(6) [of pos] in auto)
    then show ?thesis unfolding try_dequeue_step_def Let_def D2 by auto
  next
    case (D3 pos)
    show ?thesis
    proof (cases "dequeue_pos ?q = pos \<and> \<not> sp")
      case True
      have "mp_inv n cur (Suc k) (goto (st\<lparr>mpq := ?q\<lparr>dequeue_pos := pos + 1\<rparr>\<rparr>) t (D4 pos))"
        using mpi_claim_deq [OF m D3] assms(1) w(4) [of pos] le True by (simp add: mp_inv_def Let_def goto_def)
      then show ?thesis unfolding try_dequeue_step_def Let_def D3 using True by auto
    next
      case False
      have "mp_inv n cur (Suc k) (goto st t D1)" by (rule mp_inv_goto [OF assms(1,2)]) (use D3 in simp_all)
      then show ?thesis unfolding try_dequeue_step_def Let_def D3 using False by auto
    qed
  next
    case (D4 pos)
    obtain v where v: "storage (mp_buffer ?q ! (unat pos mod n)) = Some v" using th D4 by auto
    have "mp_inv n cur (Suc k) (goto (st\<lparr>mpq := set_storage ?q (cell_of ?q pos) None, delivered := delivered st @ [(unat pos, v)]\<rparr>) t (D5 pos v))"
      using mpi_take [OF m D4 v] assms(1) buffer_upd(1,2) [OF w(3) [of pos], of None] by (simp add: mp_inv_def Let_def goto_def w(2))
    then show ?thesis unfolding try_dequeue_step_def Let_def D4 using v by (auto simp: w(2))
  next
    case (D5 pos v)
    have p: "unat (pos + buffer_mask ?q + 1) = unat pos + n" using w(7) th D5 le by simp
    have "mp_inv n (cur(unat pos mod n := unat pos + n)) (Suc k) (goto (st\<lparr>mpq := set_sequence ?q (cell_of ?q pos) (pos + buffer_mask ?q + 1)\<rparr>) t Idle)"
      using mpi_release [OF m D5] assms(1) buffer_upd(3,4) [OF w(3) [of pos], of "pos + buffer_mask ?q + 1"] p by (simp add: mp_inv_def Let_def goto_def w(2))
    then show ?thesis unfolding try_dequeue_step_def Let_def D5 by auto
  qed (use assms(3) in \<open>simp_all add: is_deq_def\<close>)
qed

lemma mp_step_inv:
  assumes "mp_inv n cur k st" "k < 2 ^ 62"
  shows "\<exists>st' cur'. mp_step a st = Some st' \<and> mp_inv n cur' (Suc k) st'"
proof -
  obtain t c sp where a: "a = (t, c, sp)" by (cases a)
  consider "pcs st t = Idle" | "is_deq (pcs st t)" | "pcs st t \<noteq> Idle" "\<not> is_deq (pcs st t)" by blast
  then show ?thesis
  proof cases
    case 1
    have "mp_inv n cur (Suc k) (goto st t (case c of Enqueue v \<Rightarrow> E1 v | Dequeue \<Rightarrow> D1))"
      by (rule mp_inv_goto [OF assms]) (use 1 in \<open>simp_all split: mp_call.splits\<close>)
    then show ?thesis using 1 a by (auto simp: mp_step_def)
  next
    case 2
    then have "pcs st t \<noteq> Idle" by (auto simp: is_deq_def)
    then show ?thesis using dequeue_step_inv [OF assms 2, of sp] 2 a by (auto simp: mp_step_def)
  next
    case 3
    then show ?thesis using enqueue_step_inv [OF assms 3, of sp] a by (auto simp: mp_step_def)
  qed
qed

lemma mp_run_inv:
  assumes "mp_inv n cur k st" "k + length sched \<le> 2 ^ 62"
  shows "\<exists>st' cur'. foldM mp_step sched st = Some st' \<and> mp_inv n cur' (k + length sched) st'"
  using assms
proof (induction sched arbitrary: st cur k)
  case (Cons a sched)
  obtain st1 cur1 where s: "mp_step a st = Some st1" "mp_inv n cur1 (Suc k) st1" using mp_step_inv [OF Cons.prems(1), of a] Cons.prems(2) by auto
  then show ?case using Cons.IH [OF s(2)] Cons.prems(2) by simp
qed auto

lemma mpmc_init_inv:
  assumes "mpmc_init (2 ^ b) = Some q" "1 \<le> b" "b \<le> 62"
  shows "mp_inv (2 ^ b) id 0 (mp_start q)"
proof -
  have "unat (of_nat (2 ^ b) :: u64) = 2 ^ b" using assms(3) power_strict_increasing [of b 64 "2 :: nat"] by (simp only: unsigned_of_nat take_bit_nat_eq_self) simp
  then have u: "unat (2 ^ b :: u64) = 2 ^ b" by simp
  have q: "q = \<lparr>mp_buffer = map (\<lambda>i. \<lparr>sequence = of_nat i, storage = None\<rparr>) [0..<2 ^ b], buffer_mask = 2 ^ b - 1, enqueue_pos = 0, dequeue_pos = 0\<rparr>"
    using assms(1) u by (simp add: mpmc_init_def split: if_splits)
  have n: "(2 :: nat) ^ b \<le> 2 ^ 62" using assms(3) by (intro power_increasing) auto
  have i: "unat (of_nat i :: u64) = i" if "i < 2 ^ b" for i using that n by (simp add: unsigned_of_nat take_bit_nat_eq_self)
  have two: "2 \<le> (2 :: nat) ^ b" using assms(2) power_increasing [of 1 b "2 :: nat"] by simp
  have p: "unat (enqueue_pos q) = 0" "unat (dequeue_pos q) = 0" "length (mp_buffer q) = 2 ^ b" by (simp_all add: q)
  have "buffer_mask q = of_nat (2 ^ b - 1)" by (simp add: q of_nat_diff)
  moreover have "mpi (2 ^ b) [] 0 (\<lambda>i. unat (sequence (mp_buffer q ! i))) (\<lambda>i. storage (mp_buffer q ! i)) id (\<lambda>_. Idle) []"
    using two i by (simp add: mpi_def cell_ok_def all_taken_def busy_owned_def q)
  moreover have "\<exists>c \<le> 62. (2 :: nat) ^ b = 2 ^ c" using assms(3) by blast
  ultimately show ?thesis unfolding mp_inv_def mp_start_def Let_def mp_state.select_convs p list.size(3) by blast
qed

text \<open>(C7) Under every schedule of any number of threads, with spurious failures of the exchange, the queue
  neither constructs over a live object nor moves out of a dead one; what a thread takes at a position is
  what was put there, no position is taken twice, at most \<open>capacity\<close> positions are ahead of the
  consumers, and when all threads are idle the positions taken are exactly the first ones.\<close>

theorem mpmc_correct:
  assumes "mpmc_init (2 ^ b) = Some q" "1 \<le> b" "b \<le> 62" "length sched \<le> 2 ^ 62"
  shows "\<exists>st d. foldM mp_step sched (mp_start q) = Some st \<and> d \<le> length (claimed st) \<and> length (claimed st) \<le> d + 2 ^ b \<and>
    distinct (map fst (delivered st)) \<and> (\<forall>(p, v) \<in> set (delivered st). p < d \<and> v = claimed st ! p) \<and>
    ((\<forall>t. pcs st t = Idle) \<longrightarrow> fst ` set (delivered st) = {..<d})"
proof -
  obtain st cur where st: "foldM mp_step sched (mp_start q) = Some st" "mp_inv (2 ^ b) cur (0 + length sched) st"
    using mp_run_inv [OF mpmc_init_inv [OF assms(1-3)], of sched] assms(4) by auto
  let ?d = "unat (dequeue_pos (mpq st))"
  obtain sq so where m: "mpi (2 ^ b) (claimed st) ?d sq so cur (pcs st) (delivered st)" using st(2) by (auto simp: mp_inv_def Let_def)
  note f = mpiD [OF m]
  have e: "\<forall>(p, v) \<in> set (delivered st). p < ?d \<and> v = claimed st ! p" using f(8) by (force simp: entry_ok_def)
  have "fst ` set (delivered st) = {..<?d}" if "\<forall>t. pcs st t = Idle"
    using f(9) e that by (fastforce simp: all_taken_def)
  then show ?thesis using st(1) f(2,3,7) e by blast
qed

theorem mpmc_correct_witness:
  "\<exists>q st d. mpmc_init (2 ^ 1) = Some q \<and> foldM mp_step [(0, Enqueue 7, False), (1, Enqueue 8, False), (0, Dequeue, False), (1, Dequeue, False),
       (2, Dequeue, True), (0, Dequeue, False), (1, Dequeue, True), (0, Dequeue, False)] (mp_start q) = Some st \<and>
     length (claimed st) \<le> d + 2 ^ 1 \<and> (\<forall>(p, v) \<in> set (delivered st). p < d \<and> v = (claimed st ! p :: nat))"
proof -
  let ?q = "\<lparr>mp_buffer = map (\<lambda>i. \<lparr>sequence = of_nat i, storage = None\<rparr>) [0..<2], buffer_mask = 1, enqueue_pos = 0, dequeue_pos = 0\<rparr> :: nat mpmc_bounded_queue"
  have q: "mpmc_init (2 ^ 1) = Some ?q" by (simp add: mpmc_init_def)
  show ?thesis
    using mpmc_correct [OF q, of "[(0, Enqueue 7, False), (1, Enqueue 8, False), (0, Dequeue, False), (1, Dequeue, False),
       (2, Dequeue, True), (0, Dequeue, False), (1, Dequeue, True), (0, Dequeue, False)]"] q
    by (intro exI [of _ ?q]) fastforce
qed

end
