(* ===== verification/Bounded_Queue.thy ===== *)
theory Bounded_Queue
  imports Prelude
begin

text \<open>
  The interface of the bounded queues: an attempt to add fails exactly when the queue is full, an attempt
  to take fails exactly when it is empty, and values leave in the order in which they came. The laws hold
  for the first \<open>limit\<close> operations, which the counters of the implementation need; \<open>k\<close> counts them. The two
  lock-free queues, run by one thread at a time, are instances; the event loop and the task queue are clients.
\<close>

text \<open>The loop that takes values until the queue is empty; \<open>None\<close> when the fuel ends.\<close>

fun drain :: "('q \<Rightarrow> ('a option \<times> 'q) option) \<Rightarrow> nat \<Rightarrow> 'q \<Rightarrow> ('a list \<times> 'q) option" where
  "drain deq 0 q = None"
| "drain deq (Suc fuel) q = do {
     (r, q) \<leftarrow> deq q;
     case r of None \<Rightarrow> Some ([], q) | Some x \<Rightarrow> do { (xs, q) \<leftarrow> drain deq fuel q; Some (x # xs, q) } }"

text \<open>Adding a list of values; the values that did not fit are lost.\<close>

fun add_all :: "('q \<Rightarrow> 'a \<Rightarrow> (bool \<times> 'q) option) \<Rightarrow> 'a list \<Rightarrow> 'q \<Rightarrow> (bool list \<times> 'q) option" where
  "add_all enq [] q = Some ([], q)"
| "add_all enq (x # xs) q = do { (ok, q) \<leftarrow> enq q x; (oks, q) \<leftarrow> add_all enq xs q; Some (ok # oks, q) }"

locale bounded_queue =
  fixes holds :: "nat \<Rightarrow> 'q \<Rightarrow> 'a list \<Rightarrow> bool" and cap :: nat and limit :: nat
    and enq :: "'q \<Rightarrow> 'a \<Rightarrow> (bool \<times> 'q) option" and deq :: "'q \<Rightarrow> ('a option \<times> 'q) option"
  assumes holds_cap: "holds k q xs \<Longrightarrow> length xs \<le> cap"
    and holds_mono: "holds k q xs \<Longrightarrow> k \<le> k' \<Longrightarrow> holds k' q xs"
    and enq: "holds k q xs \<Longrightarrow> k < limit \<Longrightarrow> \<exists>q'. enq q x = Some (length xs < cap, q') \<and> holds (Suc k) q' (if length xs < cap then xs @ [x] else xs)"
    and deq: "holds k q xs \<Longrightarrow> k < limit \<Longrightarrow> \<exists>q'. deq q = Some (case xs of [] \<Rightarrow> None | x # _ \<Rightarrow> Some x, q') \<and> holds (Suc k) q' (tl xs)"
begin

lemma drain_all:
  "holds k q xs \<Longrightarrow> k + length xs < limit \<Longrightarrow> length xs < fuel \<Longrightarrow>
     \<exists>q'. drain deq fuel q = Some (xs, q') \<and> holds (k + Suc (length xs)) q' []"
proof (induction fuel arbitrary: k q xs)
  case (Suc fuel)
  obtain q' where q': "deq q = Some (case xs of [] \<Rightarrow> None | x # _ \<Rightarrow> Some x, q')" "holds (Suc k) q' (tl xs)"
    using deq [OF Suc.prems(1)] Suc.prems(2) by auto
  show ?case
  proof (cases xs)
    case Nil
    then show ?thesis using q' by simp
  next
    case (Cons y ys)
    then show ?thesis using q' Suc.IH [of "Suc k" q' ys] Suc.prems(2,3) by auto
  qed
qed simp

lemma add_fits:
  "holds k q ys \<Longrightarrow> k + length xs \<le> limit \<Longrightarrow> length ys + length xs \<le> cap \<Longrightarrow>
     \<exists>q'. add_all enq xs q = Some (replicate (length xs) True, q') \<and> holds (k + length xs) q' (ys @ xs)"
proof (induction xs arbitrary: k q ys)
  case (Cons x xs)
  obtain q' where "enq q x = Some (True, q')" "holds (Suc k) q' (ys @ [x])" using enq [OF Cons.prems(1), of x] Cons.prems(2,3) by auto
  then show ?case using Cons.IH [of "Suc k" q' "ys @ [x]"] Cons.prems(2,3) by auto
qed auto

lemma fifo:
  assumes "holds k q []" "k + 2 * length xs < limit" "length xs \<le> cap"
  shows "\<exists>q1 q2. add_all enq xs q = Some (replicate (length xs) True, q1) \<and> drain deq (Suc (length xs)) q1 = Some (xs, q2) \<and>
    holds (k + length xs + Suc (length xs)) q2 []"
proof -
  obtain q1 where q1: "add_all enq xs q = Some (replicate (length xs) True, q1)" "holds (k + length xs) q1 xs"
    using add_fits [OF assms(1), of xs] assms(2,3) by auto
  show ?thesis using q1 drain_all [OF q1(2), of "Suc (length xs)"] assms(2) by auto
qed

end

end
