(* ===== verification/Mpmc_Seq.thy ===== *)
theory Mpmc_Seq
  imports Mpmc_Queue Bounded_Queue
begin

text \<open>
  \<open>try_enqueue\<close> and \<open>try_dequeue\<close> of the queue for many threads when no other thread is inside: the two
  operations as the source has them, their equality with the steps of one thread, and the queue as an
  instance of the interface of bounded queues.
\<close>

text \<open>\<open>None\<close> is a loop that does not end, or an access to a dead object.\<close>

definition try_enqueue :: "'a mpmc_bounded_queue \<Rightarrow> 'a \<Rightarrow> (bool \<times> 'a mpmc_bounded_queue) option" where
  "try_enqueue q v = (let pos = enqueue_pos q; i = cell_of q pos; dif = seq_dif q pos pos in
     if dif = 0 then do {
       let q = q\<lparr>enqueue_pos := pos + 1\<rparr>;
       assert_opt (storage (mp_buffer q ! i) = None);
       Some (True, set_sequence (set_storage q i (Some v)) i (pos + 1)) }
     else if dif < 0 then Some (False, q) else None)"

definition try_dequeue :: "'a mpmc_bounded_queue \<Rightarrow> ('a option \<times> 'a mpmc_bounded_queue) option" where
  "try_dequeue q = (let pos = dequeue_pos q; i = cell_of q pos; dif = seq_dif q pos (pos + 1) in
     if dif = 0 then do {
       let q = q\<lparr>dequeue_pos := pos + 1\<rparr>;
       v \<leftarrow> storage (mp_buffer q ! i);
       Some (Some v, set_sequence (set_storage q i None) i (pos + buffer_mask q + 1)) }
     else if dif < 0 then Some (None, q) else None)"

subsection \<open>The steps of one thread\<close>

lemma cell_of_upd [simp]:
  "cell_of (q\<lparr>enqueue_pos := p\<rparr>) pos = cell_of q pos" "cell_of (q\<lparr>dequeue_pos := p\<rparr>) pos = cell_of q pos"
  "cell_of (set_storage q i v) pos = cell_of q pos"
  by (simp_all add: cell_of_def set_storage_def)

lemma goto_simps [simp]:
  "pcs (goto st t pc) t = pc" "mpq (goto st t pc) = mpq st" "claimed (goto st t pc) = claimed st" "delivered (goto st t pc) = delivered st"
  "goto (goto st t pc) t pc' = goto st t pc'"
  by (simp_all add: goto_def)

lemma goto_idle: "pcs st t = Idle \<Longrightarrow> goto st t Idle = st"
  by (simp add: goto_def fun_upd_idem)

lemma mp_step_run:
  "pcs st t = Idle \<Longrightarrow> mp_step (t, Enqueue v, sp) st = Some (goto st t (E1 v))"
  "pcs st t = Idle \<Longrightarrow> mp_step (t, Dequeue, sp) st = Some (goto st t D1)"
  "pcs st t \<noteq> Idle \<Longrightarrow> mp_step (t, c, sp) st = (if is_deq (pcs st t) then try_dequeue_step t sp st else try_enqueue_step t sp st)"
  by (simp_all add: mp_step_def)

lemma enqueue_alone:
  assumes "pcs st t = Idle" "try_enqueue (mpq st) v = Some (ok, q)"
  shows "foldM mp_step (replicate (if ok then 6 else 3) (t, Enqueue v, False)) st =
    Some (st\<lparr>mpq := q, claimed := claimed st @ (if ok then [v] else [])\<rparr>)"
proof -
  let ?q = "mpq st"
  let ?pos = "enqueue_pos ?q"
  let ?dif = "seq_dif ?q ?pos ?pos"
  consider "?dif = 0" "ok" "storage (mp_buffer ?q ! cell_of ?q ?pos) = None"
      "q = set_sequence (set_storage (?q\<lparr>enqueue_pos := ?pos + 1\<rparr>) (cell_of ?q ?pos) (Some v)) (cell_of ?q ?pos) (?pos + 1)"
    | "?dif < 0" "\<not> ok" "q = ?q"
    using assms(2) by (auto simp: try_enqueue_def Let_def split: if_splits bind_splits)
  then show ?thesis
  proof cases
    case 1
    then show ?thesis using assms(1)
      by (simp add: eval_nat_numeral mp_step_run is_deq_def try_enqueue_step_def Let_def goto_def fun_upd_idem)
  next
    case 2
    then show ?thesis using assms(1)
      by (simp add: eval_nat_numeral mp_step_run is_deq_def try_enqueue_step_def Let_def goto_def fun_upd_idem)
  qed
qed

lemma dequeue_alone:
  assumes "pcs st t = Idle" "try_dequeue (mpq st) = Some (r, q)"
  shows "foldM mp_step (replicate (if r = None then 3 else 6) (t, Dequeue, False)) st =
    Some (st\<lparr>mpq := q, delivered := delivered st @ (case r of None \<Rightarrow> [] | Some v \<Rightarrow> [(unat (dequeue_pos (mpq st)), v)])\<rparr>)"
proof -
  let ?q = "mpq st"
  let ?pos = "dequeue_pos ?q"
  let ?dif = "seq_dif ?q ?pos (?pos + 1)"
  consider v where "?dif = 0" "r = Some v" "storage (mp_buffer ?q ! cell_of ?q ?pos) = Some v"
      "q = set_sequence (set_storage (?q\<lparr>dequeue_pos := ?pos + 1\<rparr>) (cell_of ?q ?pos) None) (cell_of ?q ?pos) (?pos + buffer_mask ?q + 1)"
    | "?dif < 0" "r = None" "q = ?q"
    using assms(2) by (auto simp: try_dequeue_def Let_def split: if_splits bind_splits dest: sym)
  then show ?thesis
  proof cases
    case 1
    then show ?thesis using assms(1)
      by (simp add: eval_nat_numeral mp_step_run is_deq_def try_dequeue_step_def Let_def goto_def fun_upd_idem)
  next
    case 2
    then show ?thesis using assms(1)
      by (simp add: eval_nat_numeral mp_step_run is_deq_def try_dequeue_step_def Let_def goto_def fun_upd_idem)
  qed
qed

subsection \<open>The queue at rest\<close>

lemma rest_cell:
  assumes "mpi n cl d sq so cur pc lg" "\<And>t. pc t = Idle" "i < n"
  shows "sq i = cur i \<and> length cl \<le> cur i \<or> sq i = Suc (cur i) \<and> d \<le> cur i \<and> cur i < length cl"
  using mpiD(4,10) [OF assms(1)] assms(2,3) unfolding cell_ok_def busy_owned_def by (metis not_le option.distinct(1) owns.simps(5))

lemma near_mod: "(a :: nat) mod n = b mod n \<Longrightarrow> a < b + n \<Longrightarrow> b < a + n \<Longrightarrow> a = b"
  by (metis add.commute less_diff_conv2 linorder_le_cases mod_eq_dvd_iff_nat nat_dvd_not_less nat_le_iff_add diff_is_0_eq le_antisym not_gr_zero add_diff_cancel_left')

lemma rest_enq:
  assumes "mpi n cl d sq so cur pc lg" "\<And>t. pc t = Idle"
  shows "length cl < d + n \<Longrightarrow> sq (length cl mod n) = length cl" "length cl = d + n \<Longrightarrow> sq (length cl mod n) < length cl"
proof -
  note m = mpiD [OF assms(1)]
  let ?i = "length cl mod n"
  have i: "?i < n" using m(1) by simp
  note c = m(4) [OF i] and r = rest_cell [OF assms i]
  have cm: "cur ?i mod n = length cl mod n" using c by (simp add: cell_ok_def)
  show "sq ?i = length cl" if "length cl < d + n"
  proof -
    have "cur ?i < length cl + n" "length cl < cur ?i + n \<or> length cl = cur ?i + n" using c m(2) by (auto simp: cell_ok_def)
    moreover have "length cl \<noteq> cur ?i + n" using r that m(1) by auto
    ultimately have "cur ?i = length cl" using near_mod [OF cm] by blast
    then show ?thesis using r by auto
  qed
  show "sq ?i < length cl" if "length cl = d + n"
  proof -
    have "cur ?i < length cl" using c that by (auto simp: cell_ok_def)
    then show ?thesis using c r that m(1) Suc_mod_neq [OF m(1), of "cur ?i"] cm by (metis Suc_lessI not_le)
  qed
qed

lemma rest_deq:
  assumes "mpi n cl d sq so cur pc lg" "\<And>t. pc t = Idle"
  shows "d < length cl \<Longrightarrow> sq (d mod n) = Suc d \<and> so (d mod n) = Some (cl ! d)" "d = length cl \<Longrightarrow> sq (d mod n) < Suc d"
proof -
  note m = mpiD [OF assms(1)]
  let ?i = "d mod n"
  have i: "?i < n" using m(1) by simp
  note c = m(4) [OF i] and r = rest_cell [OF assms i]
  have cm: "cur ?i mod n = d mod n" using c by (simp add: cell_ok_def)
  show "sq ?i = Suc d \<and> so ?i = Some (cl ! d)" if "d < length cl"
  proof -
    have "cur ?i < d + n" "d < cur ?i + n" using c that by (auto simp: cell_ok_def)
    then have "cur ?i = d" using near_mod [OF cm] by blast
    then show ?thesis using r c that by (auto simp: cell_ok_def)
  qed
  show "sq ?i < Suc d" if "d = length cl"
  proof -
    have "sq ?i = cur ?i" "cur ?i < d + n" using r c that by (auto simp: cell_ok_def)
    moreover have "length cl \<le> cur ?i" using r that by auto
    ultimately have "cur ?i = d" using near_mod [OF cm] that m(1) by simp
    then show ?thesis using \<open>sq ?i = cur ?i\<close> by simp
  qed
qed

definition mpmc_holds :: "nat \<Rightarrow> nat \<Rightarrow> 'a mpmc_bounded_queue \<Rightarrow> 'a list \<Rightarrow> bool" where
  "mpmc_holds n k q xs \<longleftrightarrow> (\<exists>st cur. mp_inv n cur (6 * k) st \<and> mpq st = q \<and> (\<forall>t. pcs st t = Idle) \<and> xs = drop (unat (dequeue_pos q)) (claimed st))"

lemma mp_inv_mono: "mp_inv n cur k st \<Longrightarrow> k \<le> k' \<Longrightarrow> mp_inv n cur k' st"
  by (auto simp: mp_inv_def Let_def)

lemma mp_run_k:
  assumes "mp_inv n cur k st" "foldM mp_step sched st = Some st'" "k + length sched \<le> k'" "k' \<le> 2 ^ 62"
  shows "\<exists>cur'. mp_inv n cur' k' st'"
proof -
  obtain cur' where "mp_inv n cur' (k + length sched) st'" using mp_run_inv [OF assms(1), of sched] assms(2-4) by auto
  then show ?thesis using mp_inv_mono assms(3) by blast
qed

lemma try_enqueue_spec:
  assumes "mpmc_holds n k q xs" "6 * k + 6 \<le> 2 ^ 62"
  shows "\<exists>q'. try_enqueue q v = Some (length xs < n, q') \<and> mpmc_holds n (Suc k) q' (if length xs < n then xs @ [v] else xs)"
proof -
  obtain st cur where st: "mp_inv n cur (6 * k) st" "mpq st = q" "\<And>t. pcs st t = Idle" "xs = drop (unat (dequeue_pos q)) (claimed st)"
    using assms(1) by (auto simp: mpmc_holds_def)
  have k: "6 * k < 2 ^ 62" using assms(2) by simp
  note w = mp_invD [OF st(1) k, unfolded st(2)]
  note m = mpiD [OF w(1)]
  let ?e = "length (claimed st)" and ?d = "unat (dequeue_pos q)" and ?pos = "enqueue_pos q"
  have e: "unat ?pos = ?e" using st(1,2) by (auto simp: mp_inv_def Let_def)
  have len: "length xs < n \<longleftrightarrow> ?e < ?d + n" using st(4) m(2) by auto
  have "\<exists>q'. try_enqueue q v = Some (length xs < n, q') \<and> dequeue_pos q' = dequeue_pos q"
  proof (cases "length xs < n")
    case True
    then have s: "unat (sequence (mp_buffer q ! (?e mod n))) = ?e" using rest_enq(1) [OF w(1) st(3)] len by simp
    have "storage (mp_buffer q ! (?e mod n)) = None"
      using s m(4) [of "?e mod n"] m(1) rest_cell [OF w(1) st(3), of "?e mod n"] Suc_mod_neq [OF m(1), of "cur (?e mod n)"]
      by (auto simp: cell_ok_def not_less_eq_eq intro: ccontr)
    then show ?thesis using True s w(2,5) e by (simp add: try_enqueue_def Let_def)
  next
    case False
    then have "unat (sequence (mp_buffer q ! (?e mod n))) < ?e" using rest_enq(2) [OF w(1) st(3)] len m(3) by simp
    then show ?thesis using False w(5,8) [of ?pos] e by (simp add: try_enqueue_def Let_def)
  qed
  then obtain q' where q': "try_enqueue q v = Some (length xs < n, q')" "dequeue_pos q' = dequeue_pos q" by blast
  let ?st = "st\<lparr>mpq := q', claimed := claimed st @ (if length xs < n then [v] else [])\<rparr>"
  have run: "foldM mp_step (replicate (if length xs < n then 6 else 3) (0, Enqueue v, False)) st = Some ?st"
    using enqueue_alone [OF st(3) q'(1) [folded st(2)]] .
  have "(if length xs < n then 6 else 3) \<le> (6 :: nat)" by simp
  then obtain cur' where "mp_inv n cur' (6 * Suc k) ?st" using mp_run_k [OF st(1) run, of "6 * Suc k"] assms(2) by auto
  then have "mpmc_holds n (Suc k) q' (if length xs < n then xs @ [v] else xs)"
    unfolding mpmc_holds_def using st(3,4) q'(2) m(2) by (intro exI [of _ ?st] exI [of _ cur']) simp
  then show ?thesis using q'(1) by blast
qed

lemma try_dequeue_spec:
  assumes "mpmc_holds n k q xs" "6 * k + 6 \<le> 2 ^ 62"
  shows "\<exists>q'. try_dequeue q = Some (case xs of [] \<Rightarrow> None | x # _ \<Rightarrow> Some x, q') \<and> mpmc_holds n (Suc k) q' (tl xs)"
proof -
  obtain st cur where st: "mp_inv n cur (6 * k) st" "mpq st = q" "\<And>t. pcs st t = Idle" "xs = drop (unat (dequeue_pos q)) (claimed st)"
    using assms(1) by (auto simp: mpmc_holds_def)
  have k: "6 * k < 2 ^ 62" using assms(2) by simp
  note w = mp_invD [OF st(1) k, unfolded st(2)]
  note m = mpiD [OF w(1)]
  let ?d = "unat (dequeue_pos q)" and ?pos = "dequeue_pos q" and ?r = "case xs of [] \<Rightarrow> None | x # _ \<Rightarrow> Some x"
  have "\<exists>q'. try_dequeue q = Some (?r, q') \<and> unat (dequeue_pos q') = (if xs = [] then ?d else Suc ?d)"
  proof (cases "xs = []")
    case True
    then have "?d = length (claimed st)" using st(4) m(2) by simp
    then have "unat (sequence (mp_buffer q ! (?d mod n))) < Suc ?d" using rest_deq(2) [OF w(1) st(3)] by simp
    then show ?thesis using True w(6,9) [of ?pos] m(2) by (simp add: try_dequeue_def Let_def)
  next
    case False
    then have lt: "?d < length (claimed st)" using st(4) by simp
    then have xs: "?r = Some (claimed st ! ?d)" using st(4) by (simp add: Cons_nth_drop_Suc [symmetric])
    have "unat (sequence (mp_buffer q ! (?d mod n))) = Suc ?d" "storage (mp_buffer q ! (?d mod n)) = Some (claimed st ! ?d)"
      using rest_deq(1) [OF w(1) st(3) lt] by auto
    then show ?thesis using False xs w(2) w(4,6) [of ?pos] m(2) by (simp add: try_dequeue_def Let_def)
  qed
  then obtain q' where q': "try_dequeue q = Some (?r, q')" "unat (dequeue_pos q') = (if xs = [] then ?d else Suc ?d)" by blast
  obtain lg where run: "foldM mp_step (replicate (if ?r = None then 3 else 6) (0, Dequeue, False)) st = Some (st\<lparr>mpq := q', delivered := lg\<rparr>)"
    using dequeue_alone [OF st(3) q'(1) [folded st(2)]] by blast
  let ?st = "st\<lparr>mpq := q', delivered := lg\<rparr>"
  have "(if ?r = None then 3 else 6) \<le> (6 :: nat)" by simp
  then obtain cur' where "mp_inv n cur' (6 * Suc k) ?st" using mp_run_k [OF st(1) run, of "6 * Suc k"] assms(2) by auto
  moreover have "tl xs = drop (unat (dequeue_pos q')) (claimed st)" using st(4) q'(2) by (simp add: drop_Suc tl_drop)
  ultimately have "mpmc_holds n (Suc k) q' (tl xs)"
    unfolding mpmc_holds_def using st(3) by (intro exI [of _ ?st] exI [of _ cur']) simp
  then show ?thesis using q'(1) by blast
qed

interpretation mpmc: bounded_queue "mpmc_holds n" n "2 ^ 59" try_enqueue try_dequeue
proof
  show "length xs \<le> n" if "mpmc_holds n k q xs" for k and q :: "'a mpmc_bounded_queue" and xs
    using that by (auto simp: mpmc_holds_def mp_inv_def Let_def dest: mpiD(3))
  show "mpmc_holds n k' q xs" if h: "mpmc_holds n k q xs" "k \<le> k'" for k k' and q :: "'a mpmc_bounded_queue" and xs
  proof -
    obtain st cur where st: "mp_inv n cur (6 * k) st" "mpq st = q \<and> (\<forall>t. pcs st t = Idle) \<and> xs = drop (unat (dequeue_pos q)) (claimed st)"
      using h(1) unfolding mpmc_holds_def by blast
    then have "mp_inv n cur (6 * k') st" using h(2) by (intro mp_inv_mono [OF st(1)]) simp
    then show ?thesis unfolding mpmc_holds_def using st(2) by blast
  qed
  have lim: "6 * k + 6 \<le> (2 :: nat) ^ 62" if "k < 2 ^ 59" for k :: nat using that by simp
  show "\<exists>q'. try_enqueue q x = Some (length xs < n, q') \<and> mpmc_holds n (Suc k) q' (if length xs < n then xs @ [x] else xs)"
    if h: "mpmc_holds n k q xs" "k < 2 ^ 59" for k and q :: "'a mpmc_bounded_queue" and xs x
    by (rule try_enqueue_spec [OF h(1) lim [OF h(2)]])
  show "\<exists>q'. try_dequeue q = Some (case xs of [] \<Rightarrow> None | x # _ \<Rightarrow> Some x, q') \<and> mpmc_holds n (Suc k) q' (tl xs)"
    if h: "mpmc_holds n k q xs" "k < 2 ^ 59" for k and q :: "'a mpmc_bounded_queue" and xs
    by (rule try_dequeue_spec [OF h(1) lim [OF h(2)]])
qed

lemma mpmc_init_holds:
  assumes "mpmc_init (2 ^ b) = Some q" "1 \<le> b" "b \<le> 62"
  shows "mpmc_holds (2 ^ b) 0 q []"
  unfolding mpmc_holds_def using mpmc_init_inv [OF assms] by (intro exI [of _ "mp_start q"] exI [of _ id]) (simp add: mp_start_def)

end
