(* ===== verification/Event_Count.thy ===== *)
theory Event_Count
  imports Prelude
begin

text \<open>
  \<open>EventCount\<close>, \<open>Done\<close> and \<open>ThreadEvent\<close> of \<open>net/util/synchronization.hpp\<close> with the \<open>WaitQueue\<close> of
  \<open>net/util/wait_queue.hpp\<close>. The word of an event count packs the number of notifications, in the upper half,
  with the number of keys, in the lower half. The calls of one thread are modelled: the spin lock is held by this
  thread or free, and \<open>None\<close> is a call that never returns because the thread waits for a lock that it holds itself.
\<close>

subsection \<open>The event count\<close>

definition kAddWaiter :: u64 where "kAddWaiter = 1"

definition kEpochShift :: nat where "kEpochShift = 32"

definition kAddEpoch :: u64 where "kAddEpoch = push_bit kEpochShift 1"

definition kWaiterMask :: u64 where "kWaiterMask = kAddEpoch - 1"

text \<open>The list of waiters holds the coroutines.\<close>

record EventCount =
  ec_val :: u64
  ec_locked :: bool
  wait_list :: "nat list"

definition EventCount_init :: EventCount where
  "EventCount_init = \<lparr>ec_val = 0, ec_locked = False, wait_list = []\<rparr>"

definition ec_lock :: "EventCount \<Rightarrow> EventCount option" where
  "ec_lock ec = (if ec_locked ec then None else Some (ec\<lparr>ec_locked := True\<rparr>))"

definition ec_unlock :: "EventCount \<Rightarrow> EventCount" where
  "ec_unlock ec = ec\<lparr>ec_locked := False\<rparr>"

text \<open>The key keeps 32 bits of the shifted word.\<close>

definition prepareWait :: "EventCount \<Rightarrow> u32 \<times> EventCount" where
  "prepareWait ec = (ucast (drop_bit kEpochShift (ec_val ec)), ec\<lparr>ec_val := ec_val ec + kAddWaiter\<rparr>)"

definition Key_destroy :: "EventCount \<Rightarrow> EventCount" where
  "Key_destroy ec = ec\<lparr>ec_val := ec_val ec - kAddWaiter\<rparr>"

definition finishWait :: "EventCount \<Rightarrow> EventCount option" where
  "finishWait ec = do { ec \<leftarrow> ec_lock ec; Some (ec_unlock ec) }"

text \<open>\<open>await_suspend\<close> of \<open>wait(epoch)\<close>: true when the coroutine \<open>w\<close> suspends.\<close>

definition ec_await_suspend :: "nat \<Rightarrow> u32 \<Rightarrow> EventCount \<Rightarrow> (bool \<times> EventCount) option" where
  "ec_await_suspend w epoch ec = do {
     ec \<leftarrow> ec_lock ec;
     if drop_bit kEpochShift (ec_val ec) = ucast epoch then Some (True, ec_unlock (ec\<lparr>wait_list := wait_list ec @ [w]\<rparr>))
     else Some (False, ec_unlock ec) }"

definition ec_await_resume :: "bool \<Rightarrow> EventCount \<Rightarrow> EventCount option" where
  "ec_await_resume SuspendWithResume ec = (if SuspendWithResume then finishWait ec else Some ec)"

text \<open>A resumed coroutine returns from its wait and goes on with \<open>rest\<close> until it suspends again.\<close>

definition ec_resume :: "(nat \<Rightarrow> EventCount \<Rightarrow> EventCount option) \<Rightarrow> nat \<Rightarrow> EventCount \<Rightarrow> EventCount option" where
  "ec_resume cont w ec = do { ec \<leftarrow> ec_await_resume True ec; cont w ec }"

definition NotifyOne :: "(nat \<Rightarrow> EventCount \<Rightarrow> EventCount option) \<Rightarrow> EventCount \<Rightarrow> (bool \<times> EventCount) option" where
  "NotifyOne cont ec = (case wait_list ec of
     [] \<Rightarrow> Some (False, ec)
   | w # ws \<Rightarrow> do { ec \<leftarrow> ec_resume cont w (ec\<lparr>wait_list := ws\<rparr>); Some (True, ec) })"

partial_function (option) NotifyAll_loop :: "(nat \<Rightarrow> EventCount \<Rightarrow> EventCount option) \<Rightarrow> bool \<Rightarrow> EventCount \<Rightarrow> (bool \<times> EventCount) option" where
  "NotifyAll_loop cont notified ec = (case wait_list ec of
     [] \<Rightarrow> Some (notified, ec)
   | w # ws \<Rightarrow> do {
       ec \<leftarrow> ec_resume cont w (ec\<lparr>wait_list := ws\<rparr>);
       if ws = [] then Some (True, ec) else NotifyAll_loop cont True ec })"

definition NotifyAll :: "(nat \<Rightarrow> EventCount \<Rightarrow> EventCount option) \<Rightarrow> EventCount \<Rightarrow> (bool \<times> EventCount) option" where
  "NotifyAll cont = NotifyAll_loop cont False"

definition NotifyInternal :: "(EventCount \<Rightarrow> (bool \<times> EventCount) option) \<Rightarrow> EventCount \<Rightarrow> (bool \<times> EventCount) option" where
  "NotifyInternal f ec = (
     let prev = ec_val ec; ec = ec\<lparr>ec_val := ec_val ec + kAddEpoch\<rparr> in
     if prev AND kWaiterMask \<noteq> 0 then do {
       ec \<leftarrow> ec_lock ec;
       (r, ec) \<leftarrow> f ec;
       Some (r, ec_unlock ec) }
     else Some (False, ec))"

definition ec_notify :: "(nat \<Rightarrow> EventCount \<Rightarrow> EventCount option) \<Rightarrow> EventCount \<Rightarrow> (bool \<times> EventCount) option" where
  "ec_notify cont = NotifyInternal (NotifyOne cont)"

definition ec_notifyAll :: "(nat \<Rightarrow> EventCount \<Rightarrow> EventCount option) \<Rightarrow> EventCount \<Rightarrow> (bool \<times> EventCount) option" where
  "ec_notifyAll cont = NotifyInternal (NotifyAll cont)"

subsection \<open>Done\<close>

record Done =
  done_ec :: EventCount
  done_ready :: bool

definition Done_Notify :: "(nat \<Rightarrow> EventCount \<Rightarrow> EventCount option) \<Rightarrow> Done \<Rightarrow> Done option" where
  "Done_Notify cont d = do { (_, ec) \<leftarrow> ec_notify cont (done_ec d); Some (d\<lparr>done_ready := True, done_ec := ec\<rparr>) }"

definition Done_Reset :: "Done \<Rightarrow> Done" where
  "Done_Reset d = d\<lparr>done_ready := False\<rparr>"

text \<open>One pass of \<open>Wait\<close>, the loop of \<open>await\<close> on the flag: \<open>Some True\<close> when the coroutine \<open>w\<close> suspends, with its key alive,
  and \<open>Some False\<close> when it returns. Nothing happens here between the two tests of the flag, before and after the key is taken.\<close>

definition Done_Wait_pass :: "nat \<Rightarrow> bool \<Rightarrow> Done \<Rightarrow> (bool \<times> Done) option" where
  "Done_Wait_pass w and_reset d = (
     if done_ready d then Some (False, d\<lparr>done_ready := \<not> and_reset\<rparr>)
     else let (epoch, ec) = prepareWait (done_ec d) in do {
       (susp, ec) \<leftarrow> ec_await_suspend w epoch ec;
       Some (susp, d\<lparr>done_ec := (if susp then ec else Key_destroy ec)\<rparr>) })"

text \<open>The handles of type \<open>Done\<close> share one object through a counter of references; the last handle deletes it. \<open>None\<close> is the use of a
  deleted object.\<close>

record done_ref =
  use_count :: u32
  impl_deleted :: bool

definition done_ref_init :: done_ref where
  "done_ref_init = \<lparr>use_count = 0, impl_deleted = False\<rparr>"

definition intrusive_ptr_add_ref :: "done_ref \<Rightarrow> done_ref option" where
  "intrusive_ptr_add_ref d = (if impl_deleted d then None else Some (d\<lparr>use_count := use_count d + 1\<rparr>))"

definition intrusive_ptr_release :: "done_ref \<Rightarrow> done_ref option" where
  "intrusive_ptr_release d = (if impl_deleted d then None
     else Some (d\<lparr>use_count := use_count d - 1, impl_deleted := (use_count d = 1)\<rparr>))"

subsection \<open>ThreadEvent\<close>

text \<open>The flag is a signed 32-bit integer. \<open>wait\<close> returns when it is positive; \<open>None\<close> is a wait that blocks.\<close>

type_synonym ThreadEvent = u32

definition te_wait :: "ThreadEvent \<Rightarrow> ThreadEvent option" where
  "te_wait flag = (if sint flag > 0 then Some (flag - 1) else None)"

definition te_notify :: "ThreadEvent \<Rightarrow> ThreadEvent" where
  "te_notify flag = flag + 1"

definition te_notifyAll :: "ThreadEvent \<Rightarrow> ThreadEvent" where
  "te_notifyAll flag = 0x7FFFFFFF"

definition te_reset :: "ThreadEvent \<Rightarrow> ThreadEvent" where
  "te_reset flag = 0"

subsection \<open>The packed word\<close>

text \<open>\<open>e\<close> notifications, \<open>n\<close> keys and the waiters \<open>ws\<close>, each of which has a key.\<close>

definition ec_rep :: "EventCount \<Rightarrow> nat \<Rightarrow> nat \<Rightarrow> nat list \<Rightarrow> bool" where
  "ec_rep ec e n ws \<longleftrightarrow> ec_val ec = of_nat e * 2 ^ 32 + of_nat n \<and> n < 2 ^ 32 \<and> length ws \<le> n \<and> wait_list ec = ws \<and> \<not> ec_locked ec"

lemma unat_eq_of_nat_inv: "unat (w :: 'a :: len word) = n \<Longrightarrow> w = of_nat n"
  by auto

lemma bit_nat_low: "n < 2 ^ k \<Longrightarrow> bit n i \<Longrightarrow> i < k" for n :: nat
  by (metis bit_take_bit_iff take_bit_nat_eq_self)

lemma half_words:
  assumes "n < 2 ^ 32"
  shows "unat (of_nat n :: u64) = n" "unat (of_nat n :: u32) = n"
    "ucast (of_nat n :: u64) = (of_nat n :: u32)" "ucast (of_nat n :: u32) = (of_nat n :: u64)"
proof -
  have lt: "n < 2 ^ LENGTH(64)" "n < 2 ^ LENGTH(32)" using assms by simp_all
  show u: "unat (of_nat n :: u64) = n" "unat (of_nat n :: u32) = n"
    using lt by (simp_all only: unsigned_of_nat take_bit_nat_eq_self of_nat_id)
  show "ucast (of_nat n :: u64) = (of_nat n :: u32)" "ucast (of_nat n :: u32) = (of_nat n :: u64)"
    by (rule bit_word_eqI, use lt in \<open>simp add: bit_simps\<close>) (rule bit_word_eqI, use bit_nat_low [OF assms] in \<open>auto simp: bit_simps\<close>)
qed

lemma pack_parts:
  assumes "n < 2 ^ 32"
  shows "drop_bit 32 (of_nat e * 2 ^ 32 + of_nat n :: u64) = of_nat (e mod 2 ^ 32)"
    and "(of_nat e * 2 ^ 32 + of_nat n :: u64) AND kWaiterMask = of_nat n"
proof -
  let ?w = "of_nat e * 2 ^ 32 + of_nat n :: u64"
  have w: "?w = of_nat (e * 2 ^ 32 + n)" by simp
  have "unat ?w = take_bit 64 (e * 2 ^ 32 + n)" unfolding w by (simp only: unsigned_of_nat) simp
  also have "\<dots> = (e * 2 ^ 32 + n) mod 2 ^ 64" by (simp only: take_bit_eq_mod)
  also have "(e * 2 ^ 32 + n) mod 2 ^ 64 = (e * 2 ^ 32 + n) mod (2 ^ 32 * 2 ^ 32)" by simp
  also have "\<dots> = 2 ^ 32 * ((e * 2 ^ 32 + n) div 2 ^ 32 mod 2 ^ 32) + (e * 2 ^ 32 + n) mod 2 ^ 32" by (rule mod_mult2_eq)
  also have "\<dots> = (e mod 2 ^ 32) * 2 ^ 32 + n" using assms by (simp add: mult.commute)
  finally have u: "unat ?w = (e mod 2 ^ 32) * 2 ^ 32 + n" .
  have "unat (drop_bit 32 ?w) = unat ?w div 2 ^ 32" by (metis drop_bit_eq_div unat_drop_bit_eq)
  also have "\<dots> = e mod 2 ^ 32" unfolding u using assms by simp
  finally have "unat (drop_bit 32 ?w) = e mod 2 ^ 32" .
  then show "drop_bit 32 ?w = of_nat (e mod 2 ^ 32)" by (simp only: unat_eq_of_nat_inv)
  have "?w AND kWaiterMask = take_bit 32 ?w" by (simp add: kWaiterMask_def kAddEpoch_def kEpochShift_def take_bit_eq_mask mask_eq_exp_minus_1)
  moreover have "unat (take_bit 32 ?w) = n"
  proof -
    have "unat (take_bit 32 ?w) = take_bit 32 (unat ?w)" by (simp only: unsigned_take_bit_eq)
    then show ?thesis unfolding u using assms by (simp add: take_bit_eq_mod)
  qed
  ultimately show "?w AND kWaiterMask = of_nat n" by (simp only: unat_eq_of_nat_inv)
qed

lemma ec_rep_init: "ec_rep EventCount_init 0 0 []"
  by (simp add: ec_rep_def EventCount_init_def)

lemma prepareWait_rep:
  assumes "ec_rep ec e n ws" "Suc n < 2 ^ 32"
  shows "\<exists>ec'. prepareWait ec = (of_nat (e mod 2 ^ 32), ec') \<and> ec_rep ec' e (Suc n) ws"
proof -
  have "drop_bit kEpochShift (ec_val ec) = of_nat (e mod 2 ^ 32)"
    using assms pack_parts(1) [of n e] by (simp only: ec_rep_def kEpochShift_def)
  moreover have "(ucast (of_nat (e mod 2 ^ 32) :: u64) :: u32) = of_nat (e mod 2 ^ 32)" by (rule half_words) simp
  ultimately show ?thesis using assms by (auto simp: prepareWait_def ec_rep_def kAddWaiter_def)
qed

lemma Key_destroy_rep: "ec_rep ec e (Suc n) ws \<Longrightarrow> length ws \<le> n \<Longrightarrow> ec_rep (Key_destroy ec) e n ws"
  by (simp add: ec_rep_def Key_destroy_def kAddWaiter_def)

lemma resume_stuck: "ec_locked ec \<Longrightarrow> ec_resume cont w ec = None"
  by (simp add: ec_resume_def ec_await_resume_def finishWait_def ec_lock_def)

lemma notify_rep:
  assumes "ec_rep ec e n ws"
  shows "ec_notify cont ec = (if ws = [] then Some (False, ec\<lparr>ec_val := ec_val ec + kAddEpoch\<rparr>) else None)"
    and "ec_notifyAll cont ec = (if ws = [] then Some (False, ec\<lparr>ec_val := ec_val ec + kAddEpoch\<rparr>) else None)"
    and "ec_rep (ec\<lparr>ec_val := ec_val ec + kAddEpoch\<rparr>) (Suc e) n ws"
proof -
  have m: "ec_val ec AND kWaiterMask = of_nat n" and n: "n < 2 ^ 32" using assms pack_parts(2) [of n e] by (auto simp: ec_rep_def)
  have z: "ws = []" if "n = 0" using assms that by (simp add: ec_rep_def)
  have "(of_nat n :: u64) = 0 \<longleftrightarrow> n = 0" 
  proof
    assume "(of_nat n :: u64) = 0"
    then have "unat (of_nat n :: u64) = 0" by (simp only: unsigned_0)
    then show "n = 0" unfolding half_words(1) [OF n] .
  qed simp
  then have m0: "ec_val ec AND kWaiterMask = 0 \<longleftrightarrow> n = 0" using m by simp
  show "ec_notify cont ec = (if ws = [] then Some (False, ec\<lparr>ec_val := ec_val ec + kAddEpoch\<rparr>) else None)"
    using assms m0 z by (cases ws) (auto simp: ec_notify_def NotifyInternal_def NotifyOne_def ec_rep_def ec_lock_def ec_unlock_def resume_stuck Let_def)
  show "ec_notifyAll cont ec = (if ws = [] then Some (False, ec\<lparr>ec_val := ec_val ec + kAddEpoch\<rparr>) else None)"
    using assms m0 z
    by (cases ws) (auto simp: ec_notifyAll_def NotifyInternal_def NotifyAll_def NotifyAll_loop.simps ec_rep_def ec_lock_def ec_unlock_def resume_stuck Let_def)
  show "ec_rep (ec\<lparr>ec_val := ec_val ec + kAddEpoch\<rparr>) (Suc e) n ws"
    using assms by (simp add: ec_rep_def kAddEpoch_def kEpochShift_def algebra_simps)
qed

lemma await_suspend_rep:
  assumes "ec_rep ec e n ws" "length ws < n"
  shows "\<exists>ec'. ec_await_suspend w (of_nat (k mod 2 ^ 32)) ec = Some (e mod 2 ^ 32 = k mod 2 ^ 32, ec') \<and>
    ec_rep ec' e n (if e mod 2 ^ 32 = k mod 2 ^ 32 then ws @ [w] else ws)"
proof -
  have d: "drop_bit kEpochShift (ec_val ec) = of_nat (e mod 2 ^ 32)"
    using assms pack_parts(1) [of n e] by (simp only: ec_rep_def kEpochShift_def)
  have u: "unat (of_nat (j mod 2 ^ 32) :: u64) = j mod 2 ^ 32" for j :: nat
    by (rule half_words) simp
  have "ucast (of_nat (k mod 2 ^ 32) :: u32) = (of_nat (k mod 2 ^ 32) :: u64)"
    by (rule half_words) simp
  then have "drop_bit kEpochShift (ec_val ec) = ucast (of_nat (k mod 2 ^ 32) :: u32) \<longleftrightarrow> e mod 2 ^ 32 = k mod 2 ^ 32"
    using d u by metis
  then show ?thesis using assms by (auto simp: ec_await_suspend_def ec_lock_def ec_unlock_def ec_rep_def)
qed

subsection \<open>Waiting\<close>

text \<open>What other coroutines do between a \<open>prepareWait\<close> and the \<open>wait\<close> that follows: they take and drop keys, and notify.
  The number of keys stays in its half of the word, and the own key is not dropped.\<close>

datatype ec_event = Ev_Prepare | Ev_Destroy | Ev_Notify

fun ec_step :: "(nat \<Rightarrow> EventCount \<Rightarrow> EventCount option) \<Rightarrow> ec_event \<Rightarrow> EventCount \<Rightarrow> EventCount option" where
  "ec_step cont Ev_Prepare ec = Some (snd (prepareWait ec))"
| "ec_step cont Ev_Destroy ec = Some (Key_destroy ec)"
| "ec_step cont Ev_Notify ec = map_option snd (ec_notify cont ec)"

fun keys_ok :: "nat \<Rightarrow> ec_event list \<Rightarrow> bool" where
  "keys_ok n [] \<longleftrightarrow> 0 < n"
| "keys_ok n (Ev_Prepare # evs) \<longleftrightarrow> Suc n < 2 ^ 32 \<and> keys_ok (Suc n) evs"
| "keys_ok n (Ev_Destroy # evs) \<longleftrightarrow> 1 < n \<and> keys_ok (n - 1) evs"
| "keys_ok n (Ev_Notify # evs) \<longleftrightarrow> keys_ok n evs"

lemma ec_run_rep:
  "ec_rep ec e n [] \<Longrightarrow> keys_ok n evs \<Longrightarrow>
     \<exists>ec' m. foldM (ec_step cont) evs ec = Some ec' \<and> ec_rep ec' (e + count_list evs Ev_Notify) m [] \<and> 0 < m"
proof (induction evs arbitrary: ec e n)
  case (Cons ev evs)
  show ?case
  proof (cases ev)
    case Ev_Prepare
    then show ?thesis using prepareWait_rep [OF Cons.prems(1)] Cons.prems(2) Cons.IH [of _ e "Suc n"] by auto
  next
    case Ev_Destroy
    then obtain m where "n = Suc m" "0 < m" using Cons.prems(2) by (cases n) auto
    then show ?thesis using Ev_Destroy Key_destroy_rep [of ec e m "[]"] Cons.prems Cons.IH [of "Key_destroy ec" e m] by auto
  next
    case Ev_Notify
    then show ?thesis using notify_rep(1,3) [OF Cons.prems(1)] Cons.prems(2) Cons.IH [of _ "Suc e" n] by auto
  qed
qed auto

text \<open>No notification is lost: whatever other coroutines do between \<open>prepareWait\<close> and \<open>wait\<close>, the coroutine suspends
  exactly when the number of notifications in between is a multiple of \<open>2 ^ 32\<close>; keys never change the epoch.\<close>

theorem wakeup_not_lost:
  assumes "ec_rep ec e n []" "Suc n < 2 ^ 32" "prepareWait ec = (epoch, ec1)" "keys_ok (Suc n) evs"
  shows "\<exists>ec2 ec3. foldM (ec_step cont) evs ec1 = Some ec2 \<and>
    ec_await_suspend w epoch ec2 = Some (count_list evs Ev_Notify mod 2 ^ 32 = 0, ec3)"
proof -
  have ep: "epoch = of_nat (e mod 2 ^ 32)" "ec_rep ec1 e (Suc n) []" using prepareWait_rep [OF assms(1,2)] assms(3) by auto
  obtain ec2 m where ec2: "foldM (ec_step cont) evs ec1 = Some ec2" "ec_rep ec2 (e + count_list evs Ev_Notify) m []" "0 < m"
    using ec_run_rep [OF ep(2) assms(4)] by blast
  have "(e + count_list evs Ev_Notify) mod 2 ^ 32 = e mod 2 ^ 32 \<longleftrightarrow> count_list evs Ev_Notify mod 2 ^ 32 = 0"
    by (metis add_diff_cancel_left' le_add1 mod_eq_dvd_iff_nat dvd_eq_mod_eq_0)
  then show ?thesis using await_suspend_rep [OF ec2(2), of w e] ec2(1,3) ep(1) by auto
qed

theorem wakeup_not_lost_witness:
  "\<exists>ec2 ec3. foldM (ec_step (\<lambda>_. Some)) [Ev_Prepare, Ev_Notify, Ev_Destroy] (snd (prepareWait EventCount_init)) = Some ec2 \<and>
    ec_await_suspend 5 (fst (prepareWait EventCount_init)) ec2 = Some (False, ec3)"
  using wakeup_not_lost [OF ec_rep_init _ _, of "fst (prepareWait EventCount_init)" "snd (prepareWait EventCount_init)"
      "[Ev_Prepare, Ev_Notify, Ev_Destroy]" "\<lambda>_. Some" 5] by simp

text \<open>(C33) \<open>notify\<close> and \<open>notifyAll\<close> return exactly when no coroutine is suspended: they resume the waiter while they hold
  the spin lock, and the first thing the waiter does is to take that lock.\<close>

theorem notify_returns_iff:
  assumes "ec_rep ec e n ws"
  shows "((\<exists>r. ec_notify cont ec = Some r) \<longleftrightarrow> ws = []) \<and> ((\<exists>r. ec_notifyAll cont ec = Some r) \<longleftrightarrow> ws = [])"
  using notify_rep(1,2) [OF assms, of cont] by auto

theorem notify_returns_iff_witness:
  "\<exists>ec. ec_await_suspend 5 (fst (prepareWait EventCount_init)) (snd (prepareWait EventCount_init)) = Some (True, ec) \<and> ec_notify (\<lambda>_. Some) ec = None"
proof -
  obtain ec1 where ec1: "prepareWait EventCount_init = (of_nat (0 mod 2 ^ 32), ec1)" "ec_rep ec1 0 (Suc 0) []"
    using prepareWait_rep [OF ec_rep_init] by auto
  obtain ec where "ec_await_suspend 5 (of_nat (0 mod 2 ^ 32)) ec1 = Some (True, ec)" "ec_rep ec 0 (Suc 0) [5]"
    using await_suspend_rep [OF ec1(2), of 5 0] by auto
  then show ?thesis using notify_returns_iff [of ec 0 "Suc 0" "[5]" "\<lambda>_. Some"] ec1(1) by (auto simp: not_Some_eq [symmetric] simp del: not_Some_eq)
qed

text \<open>The flag as a counter.\<close>

lemma te_count:
  assumes "n < 2 ^ 30"
  shows "te_notify (of_nat n) = of_nat (Suc n)" "te_wait (of_nat n) = (if n = 0 then None else Some (of_nat (n - 1)))"
proof -
  show "te_notify (of_nat n) = of_nat (Suc n)" by (simp add: te_notify_def)
  have "sint (of_nat n :: u32) = int n" using assms by (simp add: signed_of_nat signed_take_bit_int_eq_self)
  then show "te_wait (of_nat n) = (if n = 0 then None else Some (of_nat (n - 1)))" by (cases n) (auto simp: te_wait_def)
qed

lemma te_overflow: "te_wait (te_notify (te_notifyAll f)) = None"
  by (simp add: te_wait_def te_notify_def te_notifyAll_def)

subsection \<open>The references of Done\<close>

text \<open>Handles are copied (true) from a live handle and destroyed (false); \<open>n\<close> handles are alive before.\<close>

fun handles_ok :: "nat \<Rightarrow> bool list \<Rightarrow> bool" where
  "handles_ok n [] \<longleftrightarrow> True"
| "handles_ok n (c # cs) \<longleftrightarrow> 0 < n \<and> handles_ok (if c then n + 1 else n - 1) cs"

definition done_ref_step :: "bool \<Rightarrow> done_ref \<Rightarrow> done_ref option" where
  "done_ref_step c = (if c then intrusive_ptr_add_ref else intrusive_ptr_release)"

text \<open>The shared object is deleted with its last handle, exactly once and never before; no handle uses a deleted object.\<close>

lemma done_ref_life:
  "use_count d = of_nat n \<Longrightarrow> impl_deleted d = (n = 0) \<Longrightarrow> handles_ok n cs \<Longrightarrow> n + length cs < 2 ^ 32 \<Longrightarrow>
   \<exists>d' m. foldM done_ref_step cs d = Some d' \<and> use_count d' = of_nat m \<and> impl_deleted d' = (m = 0) \<and> m + length (filter (\<lambda>c. \<not> c) cs) = n + length (filter (\<lambda>c. c) cs)"
proof (induction cs arbitrary: n d)
  case (Cons c cs)
  then have n: "0 < n" "n < 2 ^ 32" by auto
  have u: "unat (of_nat n :: u32) = n" using n(2) by (simp add: unsigned_of_nat take_bit_nat_eq_self)
  have one: "(of_nat n :: u32) = 1 \<longleftrightarrow> n = 1" using u by (metis of_nat_1 unsigned_1)
  have dec: "(of_nat n :: u32) - 1 = of_nat (n - 1)" using n(1) by (simp add: of_nat_diff)
  show ?case
  proof (cases c)
    case True
    let ?d = "d\<lparr>use_count := use_count d + 1\<rparr>"
    have "done_ref_step c d = Some ?d" using True Cons.prems(2) n(1) by (simp add: done_ref_step_def intrusive_ptr_add_ref_def)
    moreover have h: "use_count ?d = of_nat (n + 1)" "impl_deleted ?d = (n + 1 = 0)" "handles_ok (n + 1) cs" "n + 1 + length cs < 2 ^ 32"
      using Cons.prems True n(1) by auto
    ultimately show ?thesis using Cons.IH [OF h] True by simp
  next
    case False
    let ?d = "d\<lparr>use_count := use_count d - 1, impl_deleted := (use_count d = 1)\<rparr>"
    have h: "use_count ?d = of_nat (n - 1)" "impl_deleted ?d = (n - 1 = 0)" "handles_ok (n - 1) cs" "n - 1 + length cs < 2 ^ 32"
      using one dec n(1) Cons.prems(1,3,4) False by auto
    obtain d' m where "foldM done_ref_step cs ?d = Some d'" "use_count d' = of_nat m" "impl_deleted d' = (m = 0)"
        "m + length (filter (\<lambda>c. \<not> c) cs) = n - 1 + length (filter (\<lambda>c. c) cs)"
      using Cons.IH [OF h] by blast
    moreover have "done_ref_step c d = Some ?d" using False Cons.prems(2) n(1) by (simp add: done_ref_step_def intrusive_ptr_release_def)
    ultimately show ?thesis using False n(1) by (intro exI [of _ d'] exI [of _ m]) simp
  qed
qed auto

end
