(* ===== verification/Task_Queue.thy ===== *)
theory Task_Queue
  imports Mpmc_Seq Event_Count
begin

text \<open>
  The queue that feeds the worker thread of a shard: \<open>util::TaskQueue\<close> of \<open>net/util/task_queue.hpp\<close>, which
  \<open>detail/task_queue.hpp\<close> wraps. Producers add tasks to the bounded queue and wake the worker through a \<open>ThreadEvent\<close>;
  a producer that finds the queue full suspends on an \<open>EventCount\<close>. The calls are atomic here; the interleavings inside
  the bounded queue are those of the theory \<open>Mpmc_Queue\<close>.
\<close>

text \<open>\<open>tq_added\<close> and \<open>tq_ran\<close> record history; \<open>tq_ended\<close> is the return of \<open>Run\<close>.\<close>

record 'f TaskQueue =
  tq_queue :: "'f mpmc_bounded_queue"
  push_ec :: EventCount
  pull_ec :: ThreadEvent
  is_closed :: bool
  tq_ended :: bool
  tq_added :: "'f list"
  tq_ran :: "'f list"

definition TaskQueue_init :: "u64 \<Rightarrow> 'f TaskQueue option" where
  "TaskQueue_init queue_size = do {
     q \<leftarrow> mpmc_init queue_size;
     Some \<lparr>tq_queue = q, push_ec = EventCount_init, pull_ec = 0, is_closed = False, tq_ended = False, tq_added = [], tq_ran = []\<rparr> }"

definition TryAdd :: "'f \<Rightarrow> 'f TaskQueue \<Rightarrow> (bool \<times> 'f TaskQueue) option" where
  "TryAdd f tq = do {
     (enqueued, q) \<leftarrow> try_enqueue (tq_queue tq) f;
     let tq = tq\<lparr>tq_queue := q\<rparr>;
     if enqueued then Some (True, tq\<lparr>pull_ec := te_notify (pull_ec tq), tq_added := tq_added tq @ [f]\<rparr>)
     else Some (False, tq) }"

text \<open>One pass of the loop of \<open>Add\<close> in the coroutine \<open>w\<close>: true when it suspends, with its key alive.\<close>

definition Add_pass :: "nat \<Rightarrow> 'f \<Rightarrow> 'f TaskQueue \<Rightarrow> (bool \<times> 'f TaskQueue) option" where
  "Add_pass w f tq = (
     let (epoch, ec) = prepareWait (push_ec tq) in do {
     (added, tq) \<leftarrow> TryAdd f (tq\<lparr>push_ec := ec\<rparr>);
     if added then Some (False, tq\<lparr>push_ec := Key_destroy (push_ec tq)\<rparr>)
     else do {
       (susp, ec) \<leftarrow> ec_await_suspend w epoch (push_ec tq);
       Some (susp, tq\<lparr>push_ec := (if susp then ec else Key_destroy ec)\<rparr>) } })"

definition Shutdown :: "'f TaskQueue \<Rightarrow> 'f TaskQueue" where
  "Shutdown tq = tq\<lparr>is_closed := True, pull_ec := te_notifyAll (pull_ec tq)\<rparr>"

text \<open>One pass of the loop of \<open>Run\<close>; a wait that blocks leaves everything as it is.\<close>

definition Run_pass :: "(nat \<Rightarrow> EventCount \<Rightarrow> EventCount option) \<Rightarrow> 'f TaskQueue \<Rightarrow> 'f TaskQueue option" where
  "Run_pass cont tq = (
     if tq_ended tq then Some tq
     else case te_wait (pull_ec tq) of
       None \<Rightarrow> Some tq
     | Some flag \<Rightarrow>
         let tq = tq\<lparr>pull_ec := flag\<rparr> in
         if is_closed tq then Some (tq\<lparr>tq_ended := True\<rparr>)
         else do {
           (r, q) \<leftarrow> try_dequeue (tq_queue tq);
           let tq = tq\<lparr>tq_queue := q\<rparr>;
           case r of
             None \<Rightarrow> Some tq
           | Some f \<Rightarrow> do { (_, ec) \<leftarrow> ec_notify cont (push_ec tq); Some (tq\<lparr>push_ec := ec, tq_ran := tq_ran tq @ [f]\<rparr>) } })"

definition isRuning :: "'f TaskQueue \<Rightarrow> bool" where
  "isRuning tq \<longleftrightarrow> \<not> is_closed tq"

subsection \<open>The invariant\<close>

text \<open>The tasks \<open>xs\<close> wait, and the flag of the worker counts them.\<close>

definition tq_inv :: "nat \<Rightarrow> nat \<Rightarrow> nat list \<Rightarrow> 'f list \<Rightarrow> 'f TaskQueue \<Rightarrow> bool" where
  "tq_inv n k ws xs tq \<longleftrightarrow> mpmc_holds n k (tq_queue tq) xs \<and> n \<le> 2 ^ 29 \<and> pull_ec tq = of_nat (length xs) \<and> \<not> is_closed tq \<and> \<not> tq_ended tq \<and>
     tq_added tq = tq_ran tq @ xs \<and> (\<exists>e. ec_rep (push_ec tq) e (length ws) ws)"

lemma tq_flag: "tq_inv n k ws xs tq \<Longrightarrow> length xs \<le> n \<and> length xs < 2 ^ 30"
  by (force simp: tq_inv_def dest: mpmc.holds_cap)

lemma TryAdd_inv:
  assumes I: "tq_inv n k ws xs tq" and k: "k < 2 ^ 59"
  shows "\<exists>tq'. TryAdd f tq = Some (length xs < n, tq') \<and> tq_inv n (Suc k) ws (if length xs < n then xs @ [f] else xs) tq'"
proof -
  obtain q where "try_enqueue (tq_queue tq) f = Some (length xs < n, q)" "mpmc_holds n (Suc k) q (if length xs < n then xs @ [f] else xs)"
    using mpmc.enq [of n k "tq_queue tq" xs f] I k by (auto simp: tq_inv_def)
  then show ?thesis using I te_count(1) [of "length xs"] tq_flag [OF I] by (auto simp: TryAdd_def tq_inv_def Let_def)
qed

lemma Run_pass_inv:
  assumes I: "tq_inv n k [] xs tq" and k: "k < 2 ^ 59"
  shows "\<exists>tq'. Run_pass cont tq = Some tq' \<and> tq_inv n (Suc k) [] (tl xs) tq' \<and> tq_ran tq' = tq_ran tq @ take 1 xs"
proof -
  obtain e where ec: "ec_rep (push_ec tq) e 0 []" using I by (auto simp: tq_inv_def)
  obtain q where q: "try_dequeue (tq_queue tq) = Some (case xs of [] \<Rightarrow> None | x # _ \<Rightarrow> Some x, q)" "mpmc_holds n (Suc k) q (tl xs)"
    using mpmc.deq [of n k "tq_queue tq" xs] I k by (auto simp: tq_inv_def)
  show ?thesis
  proof (cases xs)
    case Nil
    then show ?thesis using I te_count(2) [of 0] mpmc.holds_mono [of n k "tq_queue tq" "[]" "Suc k"] by (auto simp: Run_pass_def tq_inv_def)
  next
    case (Cons x ys)
    have "te_wait (pull_ec tq) = Some (of_nat (length ys))" using I Cons te_count(2) [of "length xs"] tq_flag [OF I] by (auto simp: tq_inv_def)
    then show ?thesis using I q Cons notify_rep(1,3) [OF ec] by (auto simp: Run_pass_def tq_inv_def Let_def)
  qed
qed

subsection \<open>Properties\<close>

datatype 'f tq_event = Ev_TryAdd 'f | Ev_Run

fun tq_step :: "(nat \<Rightarrow> EventCount \<Rightarrow> EventCount option) \<Rightarrow> 'f tq_event \<Rightarrow> 'f TaskQueue \<Rightarrow> 'f TaskQueue option" where
  "tq_step cont (Ev_TryAdd f) tq = map_option snd (TryAdd f tq)"
| "tq_step cont Ev_Run tq = Run_pass cont tq"

lemma tq_run_inv:
  "tq_inv n k [] xs tq \<Longrightarrow> k + length evs \<le> 2 ^ 59 \<Longrightarrow> \<exists>tq' xs'. foldM (tq_step cont) evs tq = Some tq' \<and> tq_inv n (k + length evs) [] xs' tq'"
proof (induction evs arbitrary: k xs tq)
  case (Cons ev evs)
  obtain tq' xs' where "tq_step cont ev tq = Some tq'" "tq_inv n (Suc k) [] xs' tq'"
    using TryAdd_inv [OF Cons.prems(1)] Run_pass_inv [OF Cons.prems(1), of cont] Cons.prems(2) by (cases ev) fastforce+
  then show ?case using Cons.IH [of "Suc k" xs' tq'] Cons.prems(2) by auto
qed auto

lemma tq_init_inv:
  assumes "TaskQueue_init (2 ^ b) = Some tq" "1 \<le> b" "b \<le> 29"
  shows "tq_inv (2 ^ b) 0 [] [] tq"
proof -
  obtain q where q: "mpmc_init (2 ^ b) = Some q" "tq = \<lparr>tq_queue = q, push_ec = EventCount_init, pull_ec = 0, is_closed = False, tq_ended = False, tq_added = [], tq_ran = []\<rparr>"
    using assms(1) by (auto simp: TaskQueue_init_def split: bind_splits)
  have "(2 :: nat) ^ b \<le> 2 ^ 29" using assms(3) by (intro power_increasing) auto
  then show ?thesis using mpmc_init_holds [OF q(1)] assms(2,3) ec_rep_init by (auto simp: tq_inv_def q(2))
qed

lemma drain_passes:
  "tq_inv n k [] xs tq \<Longrightarrow> k + length xs \<le> 2 ^ 59 \<Longrightarrow>
     \<exists>tq'. foldM (tq_step cont) (replicate (length xs) Ev_Run) tq = Some tq' \<and> tq_ran tq' = tq_ran tq @ xs"
proof (induction xs arbitrary: k tq)
  case (Cons x xs)
  obtain tq1 where tq1: "Run_pass cont tq = Some tq1" "tq_inv n (Suc k) [] xs tq1" "tq_ran tq1 = tq_ran tq @ [x]"
    using Run_pass_inv [OF Cons.prems(1), of cont] Cons.prems(2) by auto
  then show ?case using Cons.IH [OF tq1(2)] Cons.prems(2) by auto
qed simp

lemma add_passes:
  "tq_inv n k [] xs tq \<Longrightarrow> k + length fs \<le> 2 ^ 59 \<Longrightarrow> length xs + length fs \<le> n \<Longrightarrow>
     \<exists>tq'. foldM (tq_step cont) (map Ev_TryAdd fs) tq = Some tq' \<and> tq_inv n (k + length fs) [] (xs @ fs) tq'"
proof (induction fs arbitrary: k xs tq)
  case (Cons f fs)
  obtain tq1 where "TryAdd f tq = Some (True, tq1)" "tq_inv n (Suc k) [] (xs @ [f]) tq1"
    using TryAdd_inv [OF Cons.prems(1), of f] Cons.prems(2,3) by auto
  then show ?case using Cons.IH [of "Suc k" "xs @ [f]" tq1] Cons.prems(2,3) by auto
qed auto

lemma Add_full:
  assumes I: "tq_inv n k [] xs tq" and k: "Suc k < 2 ^ 59" and n: "length xs = n" "0 < n"
  shows "\<exists>tq'. Add_pass w f tq = Some (True, tq') \<and> Run_pass cont tq' = None"
proof -
  obtain e where ec: "ec_rep (push_ec tq) e 0 []" using I by (auto simp: tq_inv_def)
  obtain ec1 where ec1: "prepareWait (push_ec tq) = (of_nat (e mod 2 ^ 32), ec1)" "ec_rep ec1 e 1 []" using prepareWait_rep [OF ec] by auto
  obtain ec2 where ec2: "ec_await_suspend w (of_nat (e mod 2 ^ 32)) ec1 = Some (True, ec2)" "ec_rep ec2 e 1 [w]"
    using await_suspend_rep [OF ec1(2), of w e] by auto
  obtain q where q: "try_enqueue (tq_queue tq) f = Some (False, q)" "mpmc_holds n (Suc k) q xs"
    using mpmc.enq [of n k "tq_queue tq" xs f] I k n by (auto simp: tq_inv_def)
  obtain x ys where xs: "xs = x # ys" using n by (cases xs) auto
  obtain q' where q': "try_dequeue q = Some (Some x, q')" using mpmc.deq [OF q(2) k] xs by auto
  let ?tq = "tq\<lparr>tq_queue := q, push_ec := ec2\<rparr>"
  have "Add_pass w f tq = Some (True, ?tq)" using ec1(1) ec2(1) q(1) by (simp add: Add_pass_def TryAdd_def Let_def)
  moreover have "te_wait (pull_ec tq) = Some (of_nat (length ys))" using I xs te_count(2) [of "length xs"] tq_flag [OF I] by (auto simp: tq_inv_def)
  then have "Run_pass cont ?tq = None" using I q' notify_rep(1) [OF ec2(2)] by (auto simp: Run_pass_def tq_inv_def Let_def)
  ultimately show ?thesis by blast
qed

lemma blocked_passes: "te_wait (pull_ec tq) = None \<Longrightarrow> foldM (tq_step cont) (replicate m Ev_Run) tq = Some tq"
  by (induction m) (auto simp: Run_pass_def)


lemma TaskQueue_init_ex: "\<exists>tq. TaskQueue_init (2 ^ 1) = Some tq"
  by (simp add: TaskQueue_init_def mpmc_init_def)


text \<open>(C30) A full queue stops its worker: a producer that calls \<open>Add\<close> then suspends, and the next pass of the worker does
  not return, because it resumes the producer under the lock that the producer takes next.\<close>

theorem Add_full_stuck:
  assumes "TaskQueue_init (2 ^ b) = Some tq" "1 \<le> b" "b \<le> 29" "length fs = 2 ^ b"
  shows "\<exists>tq1 tq2. foldM (tq_step cont) (map Ev_TryAdd fs) tq = Some tq1 \<and> Add_pass w f tq1 = Some (True, tq2) \<and> Run_pass cont tq2 = None"
proof -
  have b: "(2 :: nat) ^ b \<le> 2 ^ 29" using assms(3) by (intro power_increasing) auto
  obtain tq1 where tq1: "foldM (tq_step cont) (map Ev_TryAdd fs) tq = Some tq1" "tq_inv (2 ^ b) (length fs) [] fs tq1"
    using add_passes [OF tq_init_inv [OF assms(1-3)], of fs cont] assms(4) b by auto
  then show ?thesis using Add_full [OF tq1(2), of w f cont] assms(4) b by auto
qed

theorem Add_full_stuck_witness:
  "\<exists>tq tq1 tq2. TaskQueue_init (2 ^ 1) = Some tq \<and> foldM (tq_step (\<lambda>_. Some)) (map Ev_TryAdd [''a'', ''b'']) tq = Some tq1 \<and>
     Add_pass 7 ''c'' tq1 = Some (True, tq2) \<and> Run_pass (\<lambda>_. Some) tq2 = None"
proof -
  obtain tq where tq: "TaskQueue_init (2 ^ 1) = Some (tq :: string TaskQueue)" using TaskQueue_init_ex by blast
  show ?thesis using tq Add_full_stuck [OF tq, of "[''a'', ''b'']" "\<lambda>_. Some" 7 "''c''"] by auto
qed

text \<open>(C31) After \<open>Shutdown\<close> the next pass of the worker ends it; but a task that is added before that pass pushes the flag,
  which \<open>Shutdown\<close> set to the largest value, over the edge: the worker then waits for ever, and with it the caller that joins it.\<close>

theorem Shutdown_race:
  assumes "TaskQueue_init (2 ^ b) = Some tq" "1 \<le> b" "b \<le> 29" "length evs \<le> 2 ^ 58"
  shows "\<exists>tq1. foldM (tq_step cont) evs tq = Some tq1 \<and>
    (\<exists>tq2. Run_pass cont (Shutdown tq1) = Some tq2 \<and> tq_ended tq2) \<and>
    (\<forall>tq2 m. TryAdd f (Shutdown tq1) = Some (True, tq2) \<longrightarrow> foldM (tq_step cont) (replicate m Ev_Run) tq2 = Some tq2 \<and> \<not> tq_ended tq2)"
proof -
  obtain tq1 xs where tq1: "foldM (tq_step cont) evs tq = Some tq1" "tq_inv (2 ^ b) (length evs) [] xs tq1"
    using tq_run_inv [OF tq_init_inv [OF assms(1-3)], of evs cont] assms(4) by auto
  have "\<exists>tq2. Run_pass cont (Shutdown tq1) = Some tq2 \<and> tq_ended tq2"
    using tq1(2) by (simp add: Run_pass_def Shutdown_def tq_inv_def te_wait_def te_notifyAll_def)
  moreover have "foldM (tq_step cont) (replicate m Ev_Run) tq2 = Some tq2 \<and> \<not> tq_ended tq2" if h: "TryAdd f (Shutdown tq1) = Some (True, tq2)" for tq2 m
  proof -
    have "pull_ec tq2 = te_notify (te_notifyAll (pull_ec tq1))" "tq_ended tq2 = tq_ended tq1"
      using h by (auto simp: TryAdd_def Shutdown_def Let_def split: bind_splits if_splits)
    then show ?thesis using blocked_passes [of tq2] te_overflow tq1(2) by (auto simp: tq_inv_def)
  qed
  ultimately show ?thesis using tq1(1) by blast
qed

theorem Shutdown_race_witness:
  "\<exists>tq tq2 tq3. TaskQueue_init (2 ^ 1) = Some tq \<and> Run_pass (\<lambda>_. Some) (Shutdown tq) = Some tq2 \<and> tq_ended tq2 \<and>
     TryAdd ''a'' (Shutdown tq) = Some (True, tq3) \<and> foldM (tq_step (\<lambda>_. Some)) (replicate 5 Ev_Run) tq3 = Some tq3 \<and> \<not> tq_ended tq3"
proof -
  obtain tq where tq: "TaskQueue_init (2 ^ 1) = Some (tq :: string TaskQueue)" using TaskQueue_init_ex by blast
  have I: "tq_inv (2 ^ 1) 0 [] [] tq" by (rule tq_init_inv [OF tq]) auto
  then obtain q where "try_enqueue (tq_queue tq) ''a'' = Some (True, q)"
    using mpmc.enq [of "2 ^ 1" 0 "tq_queue tq" "[]" "''a''"] by (auto simp: tq_inv_def)
  then obtain tq3 where tq3: "TryAdd ''a'' (Shutdown tq) = Some (True, tq3)" by (auto simp: TryAdd_def Shutdown_def Let_def)
  have l: "length ([] :: string tq_event list) \<le> 2 ^ 58" "(1 :: nat) \<le> 29" by simp_all
  show ?thesis using tq tq3 Shutdown_race [OF tq order_refl l(2,1), of "\<lambda>_. Some" "''a''"] by fastforce
qed

end
