(* ===== verification/Shard_Set.thy ===== *)
theory Shard_Set
  imports Engine Task_Queue
begin

text \<open>
  The shards and their worker threads: \<open>EngineShard\<close> (\<open>engine_shard.hpp\<close>, \<open>engine_shard.cpp\<close>) and \<open>EngineShardSet\<close>
  (\<open>engine_shard_set.hpp\<close>, \<open>engine_shard_set.cpp\<close>). Every shard owns a task queue; a command adds its job to the queue
  of the shard of its key. The thread-local pointer to the shard is the entry of the array at the index of the thread,
  and the heaps are not modelled.
\<close>

definition kQueueLen :: u64 where "kQueueLen = 64"

record 'f EngineShard =
  es_queue :: "'f TaskQueue"
  es_shard_id :: u16

record 'f EngineShardSet =
  es_shards :: "'f EngineShard option list"
  es_size :: u32

text \<open>\<open>EngineShard::InitThreadLocal\<close> on the loop \<open>i\<close>; the index is cut to 16 bits.\<close>

definition EngineShard_new :: "nat \<Rightarrow> 'f EngineShard option" where
  "EngineShard_new i = do { q \<leftarrow> TaskQueue_init kQueueLen; Some \<lparr>es_queue = q, es_shard_id = of_nat i\<rparr> }"

text \<open>\<open>EngineShardSet::InitThreadLocal\<close>: the shard goes to the entry of its number.\<close>

definition shard_InitThreadLocal :: "nat \<Rightarrow> 'f EngineShard option list \<Rightarrow> 'f EngineShard option list option" where
  "shard_InitThreadLocal i xs = do {
     es \<leftarrow> EngineShard_new i;
     assert_opt (unat (es_shard_id es) < length xs);
     Some (xs[unat (es_shard_id es) := Some es]) }"

text \<open>\<open>AwaitOnAll\<close> runs the callback once on every loop; \<open>order\<close> is the order in which the loops get to it.\<close>

definition shard_set_Init :: "nat list \<Rightarrow> u32 \<Rightarrow> 'f EngineShardSet option" where
  "shard_set_Init order sz = do {
     xs \<leftarrow> foldM shard_InitThreadLocal order (replicate (unat sz) None);
     Some \<lparr>es_shards = xs, es_size = sz\<rparr> }"

text \<open>One pass of \<open>EngineShardSet::Add\<close>; true when the coroutine \<open>w\<close> suspends.\<close>

definition shard_set_Add :: "nat \<Rightarrow> u16 \<Rightarrow> 'f \<Rightarrow> 'f EngineShardSet \<Rightarrow> (bool \<times> 'f EngineShardSet) option" where
  "shard_set_Add w sid f s = do {
     assert_opt (unat sid < unat (es_size s));
     es \<leftarrow> (if unat sid < length (es_shards s) then es_shards s ! unat sid else None);
     (susp, q) \<leftarrow> Add_pass w f (es_queue es);
     Some (susp, s\<lparr>es_shards := (es_shards s)[unat sid := Some (es\<lparr>es_queue := q\<rparr>)]\<rparr>) }"

definition shard_Shutdown :: "'f EngineShard \<Rightarrow> 'f EngineShard" where
  "shard_Shutdown es = es\<lparr>es_queue := Shutdown (es_queue es)\<rparr>"

text \<open>A command adds its job to the shard of its key.\<close>

fun add_jobs :: "(string \<Rightarrow> u64) \<Rightarrow> u32 \<Rightarrow> (string \<times> 'f) list \<Rightarrow> 'f EngineShardSet \<Rightarrow> 'f EngineShardSet option" where
  "add_jobs hs n [] s = Some s"
| "add_jobs hs n ((ky, f) # js) s = do { (_, s) \<leftarrow> shard_set_Add 0 (Shard hs n ky) f s; add_jobs hs n js s }"

definition jobs_of :: "(string \<Rightarrow> u64) \<Rightarrow> u32 \<Rightarrow> nat \<Rightarrow> (string \<times> 'f) list \<Rightarrow> 'f list" where
  "jobs_of hs n i js = map snd (filter (\<lambda>(ky, f). unat (Shard hs n ky) = i) js)"

lemma Add_pass_fits:
  assumes I: "tq_inv n k [] xs tq" and k: "k < 2 ^ 59" and n: "length xs < n"
  shows "\<exists>tq'. Add_pass w f tq = Some (False, tq') \<and> tq_inv n (Suc k) [] (xs @ [f]) tq' \<and> tq_added tq' = tq_added tq @ [f]"
proof -
  obtain e where ec: "ec_rep (push_ec tq) e 0 []" using I by (auto simp: tq_inv_def)
  obtain ec1 where ec1: "prepareWait (push_ec tq) = (of_nat (e mod 2 ^ 32), ec1)" "ec_rep ec1 e 1 []" using prepareWait_rep [OF ec] by auto
  obtain tq1 where tq1: "TryAdd f tq = Some (True, tq1)" "tq_inv n (Suc k) [] (xs @ [f]) tq1" using TryAdd_inv [OF I k, of f] n by auto
  have "TryAdd f (tq\<lparr>push_ec := ec1\<rparr>) = Some (True, tq1\<lparr>push_ec := ec1\<rparr>)"
    and "tq_added tq1 = tq_added tq @ [f]" using tq1(1) by (auto simp: TryAdd_def Let_def split: bind_splits if_splits)
  moreover have "tq_inv n (Suc k) [] (xs @ [f]) (tq1\<lparr>push_ec := Key_destroy ec1\<rparr>)"
    using tq1(2) Key_destroy_rep [of ec1 e 0 "[]"] ec1(2) by (auto simp: tq_inv_def)
  ultimately show ?thesis using ec1(1) by (auto simp: Add_pass_def Let_def)
qed

text \<open>The shards with what was added to their queues.\<close>

definition shards_hold :: "nat \<Rightarrow> nat \<Rightarrow> (nat \<Rightarrow> 'f list) \<Rightarrow> 'f EngineShardSet \<Rightarrow> bool" where
  "shards_hold m k xs s \<longleftrightarrow> unat (es_size s) = m \<and> length (es_shards s) = m \<and>
     (\<forall>i < m. \<exists>es. es_shards s ! i = Some es \<and> unat (es_shard_id es) = i \<and> tq_inv 64 k [] (xs i) (es_queue es) \<and> tq_added (es_queue es) = xs i)"

lemma shards_hold_mono: "shards_hold m k xs s \<Longrightarrow> k \<le> k' \<Longrightarrow> shards_hold m k' xs s"
  by (fastforce simp: shards_hold_def tq_inv_def intro: mpmc.holds_mono)

lemma shard_set_Init_holds:
  assumes "mset order = mset [0..<unat sz]" "sz \<le> 65536"
  shows "\<exists>s :: 'a EngineShardSet. shard_set_Init order sz = Some s \<and> shards_hold (unat sz) 0 (\<lambda>_. []) s"
proof -
  let ?n = "unat sz"
  have sz: "?n \<le> 65536" using assms(2) by (simp add: word_le_nat_alt)
  have idx: "unat (of_nat i :: u16) = i" if "i < ?n" for i using that sz by (simp add: unsigned_of_nat take_bit_nat_eq_self)
  obtain q :: "'a TaskQueue" where q: "TaskQueue_init kQueueLen = Some q" by (simp add: TaskQueue_init_def mpmc_init_def kQueueLen_def)
  then have q6: "TaskQueue_init (2 ^ 6) = Some q" by (simp add: kQueueLen_def)
  have I: "tq_inv 64 0 [] [] q" "tq_added q = []" using tq_init_inv [OF q6] q by (auto simp: TaskQueue_init_def split: bind_splits)
  let ?d = "\<lambda>i. \<lparr>es_queue = q, es_shard_id = of_nat i\<rparr> :: 'a EngineShard"
  have new: "EngineShard_new i = Some (?d i)" for i using q by (simp add: EngineShard_new_def)
  have set: "set order = {0..<?n}" using assms(1) by (metis set_mset_mset set_upt)
  have "foldM shard_InitThreadLocal order (replicate ?n None :: 'a EngineShard option list) =
      foldM (\<lambda>i xs. do { assert_opt (i < length xs); x \<leftarrow> EngineShard_new i; Some (xs[i := Some x]) }) order (replicate ?n None)"
    using set idx new by (intro foldM_cong) (auto simp: shard_InitThreadLocal_def)
  also have "\<dots> = Some (map (\<lambda>i. Some (?d i)) [0..<?n])" by (rule fill_all [OF assms(1) new])
  finally show ?thesis using I idx by (simp add: shard_set_Init_def shards_hold_def)
qed

lemma add_jobs_holds:
  assumes n: "0 < sz" "sz \<le> 65536"
  shows "shards_hold (unat sz) k xs s \<Longrightarrow> k + length js \<le> 2 ^ 59 \<Longrightarrow> (\<And>i. length (xs i @ jobs_of hs sz i js) \<le> 64) \<Longrightarrow>
    \<exists>s'. add_jobs hs sz js s = Some s' \<and> shards_hold (unat sz) (k + length js) (\<lambda>i. xs i @ jobs_of hs sz i js) s'"
proof (induction js arbitrary: k xs s)
  case Nil
  then show ?case by (simp add: jobs_of_def)
next
  case (Cons j js)
  obtain ky f where j: "j = (ky, f)" by (cases j)
  let ?i = "unat (Shard hs sz ky)" and ?m = "unat sz"
  have i: "?i < ?m" using Shard_eq [OF n] by blast
  obtain es where es: "es_shards s ! ?i = Some es" "unat (es_shard_id es) = ?i" "tq_inv 64 k [] (xs ?i) (es_queue es)" "tq_added (es_queue es) = xs ?i"
    and len: "unat (es_size s) = ?m" "length (es_shards s) = ?m" using Cons.prems(1) i by (auto simp: shards_hold_def)
  have "length (xs ?i) < 64" using Cons.prems(3) [of ?i] j by (simp add: jobs_of_def)
  then obtain q where q: "Add_pass 0 f (es_queue es) = Some (False, q)" "tq_inv 64 (Suc k) [] (xs ?i @ [f]) q" "tq_added q = xs ?i @ [f]"
    using Add_pass_fits [OF es(3), of 0 f] Cons.prems(2) es(4) by auto
  let ?s = "s\<lparr>es_shards := (es_shards s)[?i := Some (es\<lparr>es_queue := q\<rparr>)]\<rparr>"
  let ?xs = "\<lambda>u. if u = ?i then xs u @ [f] else xs u"
  have add: "shard_set_Add 0 (Shard hs sz ky) f s = Some (False, ?s)" using i len es(1) q(1) by (simp add: shard_set_Add_def)
  have "shards_hold ?m (Suc k) xs s" using shards_hold_mono [OF Cons.prems(1)] by simp
  then have H: "shards_hold ?m (Suc k) ?xs ?s" using q(2,3) es(2) len i by (auto simp: shards_hold_def nth_list_update)
  have eq: "?xs u @ jobs_of hs sz u js = xs u @ jobs_of hs sz u (j # js)" for u by (simp add: j jobs_of_def)
  then show ?case using Cons.IH [OF H] Cons.prems(2,3) add j by (simp add: eq)
qed

text \<open>After the start of the shards, in whatever order their threads run, a job goes to the queue of the shard of its key,
  which is a valid shard: as long as no shard gets more jobs than its queue holds, every queue holds exactly the jobs
  of its keys, in the order in which they were added, and nobody suspends.\<close>

theorem jobs_reach_shards:
  assumes "mset order = mset [0..<unat sz]" "0 < sz" "sz \<le> 65536" "length js \<le> 2 ^ 59" "\<And>i. length (jobs_of hs sz i js) \<le> 64"
  shows "\<exists>s s'. shard_set_Init order sz = Some s \<and> add_jobs hs sz js s = Some s' \<and>
    (\<forall>i < unat sz. \<exists>es. es_shards s' ! i = Some es \<and> tq_added (es_queue es) = jobs_of hs sz i js)"
proof -
  obtain s :: "'a EngineShardSet" where s: "shard_set_Init order sz = Some s" "shards_hold (unat sz) 0 (\<lambda>_. []) s"
    using shard_set_Init_holds [OF assms(1,3)] by blast
  obtain s' where "add_jobs hs sz js s = Some s'" "shards_hold (unat sz) (0 + length js) (\<lambda>i. [] @ jobs_of hs sz i js) s'"
    using add_jobs_holds [OF assms(2,3) s(2), of js hs] assms(4,5) by auto
  then show ?thesis using s(1) by (auto simp: shards_hold_def)
qed

theorem jobs_reach_shards_witness:
  "\<exists>s s' es. shard_set_Init [1, 0] 2 = Some s \<and> add_jobs (\<lambda>_. 3) 2 [(''a'', True), (''b'', False)] s = Some s' \<and>
     es_shards s' ! 1 = Some es \<and> tq_added (es_queue es) = jobs_of (\<lambda>_. 3) 2 1 [(''a'', True), (''b'', False)]"
proof -
  have l: "length (jobs_of (\<lambda>_. 3) 2 i [(''a'', True), (''b'', False)]) \<le> 64" for i by (simp add: jobs_of_def)
  have "unat (2 :: u32) = 2" "mset [1, 0] = mset [0..<2]" by (simp_all add: upt_rec)
  then have o: "mset [1, 0] = mset [0..<unat (2 :: u32)]" by metis
  show ?thesis using jobs_reach_shards [OF o _ _ _ l] by auto
qed

end
