(* ===== verification/Io_Buf.thy ===== *)
theory Io_Buf
  imports Prelude
begin

text \<open>
  The byte buffer of a connection (\<open>net/base/io_buf.hpp\<close>, \<open>net/base/io_buf.cpp\<close>): a vector with a
  read and a write index and a reserved prefix. \<open>None\<close> is a failed assertion or a read past the end.
  Sizes are natural numbers: the vector fits in memory.

  The contents of the buffer, the bytes between the two indices, are a byte queue: \<open>append\<close> adds at
  the end and \<open>retrieve\<close> takes from the front. The locale \<open>byte_queue\<close> states this contract, and the
  write loop of a session is verified against it.
\<close>

subsection \<open>State\<close>

record TcpBuffer =
  buffer :: string
  prepend_size :: nat
  read_index :: nat
  write_index :: nat

text \<open>\<open>std::copy\<close> into the vector, and \<open>std::vector::resize\<close>.\<close>

definition overwrite :: "'a list \<Rightarrow> nat \<Rightarrow> 'a list \<Rightarrow> 'a list" where
  "overwrite xs i ys = take i xs @ ys @ drop (i + length ys) xs"

definition resize :: "string \<Rightarrow> nat \<Rightarrow> string" where
  "resize xs n = take n xs @ replicate (n - length xs) (CHR 0x00)"

definition TcpBuffer_init :: "nat \<Rightarrow> nat \<Rightarrow> TcpBuffer" where
  "TcpBuffer_init initial_size prepend =
     \<lparr>buffer = replicate (prepend + initial_size) (CHR 0x00), prepend_size = prepend, read_index = prepend, write_index = prepend\<rparr>"

definition readable_size :: "TcpBuffer \<Rightarrow> nat" where
  "readable_size b = write_index b - read_index b"

definition writable_size :: "TcpBuffer \<Rightarrow> nat" where
  "writable_size b = length (buffer b) - write_index b"

definition prependable_size :: "TcpBuffer \<Rightarrow> nat" where
  "prependable_size b = read_index b"

definition readView :: "TcpBuffer \<Rightarrow> string" where
  "readView b = take (readable_size b) (drop (read_index b) (buffer b))"

text \<open>\<open>reset\<close> and \<open>clear\<close> set the indices to 8, whatever the reserved prefix is.\<close>

definition buf_reset :: "TcpBuffer \<Rightarrow> TcpBuffer" where
  "buf_reset b = b\<lparr>read_index := 8, write_index := 8\<rparr>"

definition buf_clear :: "TcpBuffer \<Rightarrow> TcpBuffer" where
  "buf_clear b = b\<lparr>read_index := 8, write_index := 8\<rparr>"

text \<open>\<open>swap\<close> exchanges everything but the constant \<open>prepend_size_\<close>.\<close>

definition buf_swap :: "TcpBuffer \<Rightarrow> TcpBuffer \<Rightarrow> TcpBuffer \<times> TcpBuffer" where
  "buf_swap a b = (a\<lparr>buffer := buffer b, read_index := read_index b, write_index := write_index b\<rparr>,
                   b\<lparr>buffer := buffer a, read_index := read_index a, write_index := write_index a\<rparr>)"

subsection \<open>Indices\<close>

definition check_index_validity :: "TcpBuffer \<Rightarrow> unit option" where
  "check_index_validity b = do { assert_opt (read_index b \<ge> prepend_size b); assert_opt (write_index b \<ge> read_index b) }"

definition move_write_index :: "TcpBuffer \<Rightarrow> nat \<Rightarrow> TcpBuffer option" where
  "move_write_index b sz = do { assert_opt (sz \<le> writable_size b); Some (b\<lparr>write_index := write_index b + sz\<rparr>) }"

definition move_read_index :: "TcpBuffer \<Rightarrow> nat \<Rightarrow> TcpBuffer option" where
  "move_read_index b sz = do {
     assert_opt (sz \<le> readable_size b);
     if sz < readable_size b
     then do { let b = b\<lparr>read_index := read_index b + sz\<rparr>; check_index_validity b; Some b }
     else do { check_index_validity b;
               let b = b\<lparr>read_index := prepend_size b, write_index := prepend_size b\<rparr>;
               check_index_validity b; Some b } }"

definition reuse_prependable_space :: "TcpBuffer \<Rightarrow> TcpBuffer option" where
  "reuse_prependable_space b = do {
     let readable = readable_size b;
     let b = b\<lparr>buffer := overwrite (buffer b) (prepend_size b) (readView b),
               read_index := prepend_size b, write_index := prepend_size b + readable\<rparr>;
     check_index_validity b; Some b }"

definition expend :: "TcpBuffer \<Rightarrow> nat \<Rightarrow> TcpBuffer option" where
  "expend b sz = do {
     check_index_validity b;
     if writable_size b + prependable_size b > sz + prepend_size b
     then reuse_prependable_space b
     else do { b \<leftarrow> reuse_prependable_space b;
               let b = b\<lparr>buffer := resize (buffer b) (write_index b + sz)\<rparr>;
               check_index_validity b; Some b } }"

definition ensure_appendable :: "TcpBuffer \<Rightarrow> nat \<Rightarrow> TcpBuffer option" where
  "ensure_appendable b sz = do {
     b \<leftarrow> (if writable_size b < sz then expend b sz else Some b);
     assert_opt (writable_size b \<ge> sz);
     check_index_validity b; Some b }"

definition ensureWritableBytes :: "TcpBuffer \<Rightarrow> nat \<Rightarrow> TcpBuffer option" where
  "ensureWritableBytes b len = do {
     b \<leftarrow> (if writable_size b < len then expend b len else Some b);
     assert_opt (writable_size b \<ge> len);
     check_index_validity b; Some b }"

definition hasWritten :: "TcpBuffer \<Rightarrow> nat \<Rightarrow> TcpBuffer option" where
  "hasWritten b len = do {
     assert_opt (len \<le> writable_size b);
     let b = b\<lparr>write_index := write_index b + len\<rparr>;
     check_index_validity b; Some b }"

definition unwrite :: "TcpBuffer \<Rightarrow> nat \<Rightarrow> TcpBuffer option" where
  "unwrite b len = do {
     assert_opt (len \<le> readable_size b);
     let b = b\<lparr>write_index := write_index b - len\<rparr>;
     check_index_validity b; Some b }"

subsection \<open>Operations on the contents\<close>

definition appendImp :: "TcpBuffer \<Rightarrow> string \<Rightarrow> TcpBuffer option" where
  "appendImp b data = do {
     b \<leftarrow> ensure_appendable b (length data);
     let b = b\<lparr>buffer := overwrite (buffer b) (write_index b) data\<rparr>;
     move_write_index b (length data) }"

definition buf_append :: "TcpBuffer \<Rightarrow> string \<Rightarrow> TcpBuffer option" where
  "buf_append b data = appendImp b data"

text \<open>\<open>appendFormFd\<close>: \<open>bytes\<close> is what \<open>readv\<close> stored, first in the free part of the vector and then in
  a local array of 65536 bytes; it is empty at the end of the stream and on an error.\<close>

definition appendFormFd :: "TcpBuffer \<Rightarrow> string \<Rightarrow> TcpBuffer option" where
  "appendFormFd b bytes = do {
     let writable = writable_size b;
     assert_opt (length bytes \<le> (if writable < 65536 then writable + 65536 else writable));
     let b = b\<lparr>buffer := overwrite (buffer b) (write_index b) (take writable bytes)\<rparr>;
     if length bytes > 0
     then if length bytes \<le> writable_size b then move_write_index b (length bytes)
          else buf_append (b\<lparr>write_index := length (buffer b)\<rparr>) (drop writable bytes)
     else Some b }"

definition consume :: "TcpBuffer \<Rightarrow> nat \<Rightarrow> TcpBuffer option" where
  "consume b sz = move_read_index b sz"

text \<open>\<open>retrieve\<close> returns a pointer to the bytes, or null.\<close>

definition retrieve :: "TcpBuffer \<Rightarrow> nat \<Rightarrow> (nat option \<times> TcpBuffer) option" where
  "retrieve b sz = (if sz \<le> readable_size b
     then do { b' \<leftarrow> move_read_index b sz; Some (Some (read_index b), b') }
     else Some (None, b))"

definition retrieveAll :: "TcpBuffer \<Rightarrow> (nat option \<times> TcpBuffer) option" where
  "retrieveAll b = retrieve b (readable_size b)"

text \<open>A \<open>std::string\<close> built from a pointer ends at the first NUL.\<close>

definition c_string :: "string \<Rightarrow> nat \<Rightarrow> string option" where
  "c_string xs p = (if CHR 0x00 \<in> set (drop p xs) then Some (takeWhile (\<lambda>c. c \<noteq> CHR 0x00) (drop p xs)) else None)"

definition retrieveAllToString :: "TcpBuffer \<Rightarrow> (string \<times> TcpBuffer) option" where
  "retrieveAllToString b = do {
     (p, b) \<leftarrow> retrieveAll b;
     p \<leftarrow> p;
     s \<leftarrow> c_string (buffer b) p;
     Some (s, b) }"

definition shrink :: "TcpBuffer \<Rightarrow> nat \<Rightarrow> TcpBuffer" where
  "shrink b reserve = b\<lparr>buffer := resize (buffer b) (readable_size b + reserve + prepend_size b)\<rparr>"

definition buf_prepend :: "TcpBuffer \<Rightarrow> string \<Rightarrow> TcpBuffer option" where
  "buf_prepend b data = do {
     assert_opt (length data \<le> prependable_size b);
     let b = b\<lparr>read_index := read_index b - length data\<rparr>;
     Some (b\<lparr>buffer := overwrite (buffer b) (read_index b) data\<rparr>) }"

text \<open>\<open>std::search\<close> over the contents: the index of the first occurrence, or of the end.\<close>

fun search :: "string \<Rightarrow> string \<Rightarrow> nat" where
  "search pat [] = 0"
| "search pat (c # cs) = (if take (length pat) (c # cs) = pat then 0 else Suc (search pat cs))"

definition findBorder :: "TcpBuffer \<Rightarrow> string \<Rightarrow> nat" where
  "findBorder b border = read_index b + search border (readView b)"

subsection \<open>The invariant\<close>

definition buf_ok :: "TcpBuffer \<Rightarrow> bool" where
  "buf_ok b \<longleftrightarrow> prepend_size b \<le> read_index b \<and> read_index b \<le> write_index b \<and> write_index b \<le> length (buffer b)"

lemma overwrite_simps [simp]:
  "length (overwrite xs i ys) = (if i + length ys \<le> length xs then length xs else min i (length xs) + length ys)"
  "i \<le> length xs \<Longrightarrow> take (length ys) (drop i (overwrite xs i ys)) = ys"
  "i \<le> length xs \<Longrightarrow> n \<le> i \<Longrightarrow> take n (overwrite xs i ys) = take n xs"
  by (auto simp: overwrite_def min_def)

lemma take_drop_overwrite:
  "p + n \<le> i \<Longrightarrow> i \<le> length xs \<Longrightarrow> take n (drop p (overwrite xs i ys)) = take n (drop p xs)"
  by (simp add: overwrite_def take_drop)

lemma take_drop_resize: "p + n \<le> length xs \<Longrightarrow> p + n \<le> m \<Longrightarrow> take n (drop p (resize xs m)) = take n (drop p xs)"
  by (simp add: resize_def take_drop)

lemma length_resize [simp]: "length (resize xs n) = n"
  by (simp add: resize_def)

lemma check_ok [simp]: "buf_ok b \<Longrightarrow> check_index_validity b = Some ()"
  by (simp add: check_index_validity_def buf_ok_def)

lemma length_readView: "buf_ok b \<Longrightarrow> length (readView b) = readable_size b"
  by (auto simp: readView_def readable_size_def buf_ok_def min_def)

lemma TcpBuffer_init_ok: "buf_ok (TcpBuffer_init n p)" "readView (TcpBuffer_init n p) = ''''" "writable_size (TcpBuffer_init n p) = n"
  by (simp_all add: buf_ok_def TcpBuffer_init_def readView_def readable_size_def writable_size_def)

lemma reuse_spec:
  assumes "buf_ok b"
  shows "\<exists>b'. reuse_prependable_space b = Some b' \<and> buf_ok b' \<and> readView b' = readView b \<and> prepend_size b' = prepend_size b \<and>
    length (buffer b') = length (buffer b) \<and> write_index b' = prepend_size b + readable_size b"
proof -
  let ?b = "b\<lparr>buffer := overwrite (buffer b) (prepend_size b) (readView b), read_index := prepend_size b,
    write_index := prepend_size b + readable_size b\<rparr>"
  have l: "length (readView b) = readable_size b" by (rule length_readView [OF assms])
  have p: "prepend_size b + readable_size b \<le> length (buffer b)" "prepend_size b \<le> length (buffer b)"
    using assms by (auto simp: buf_ok_def readable_size_def)
  have len: "length (buffer ?b) = length (buffer b)" using p l by simp
  have ok: "buf_ok ?b" using p len by (simp add: buf_ok_def)
  have "readView ?b = take (length (readView b)) (drop (prepend_size b) (overwrite (buffer b) (prepend_size b) (readView b)))"
    by (simp add: readView_def [of ?b] readable_size_def [of ?b] l)
  then have "readView ?b = readView b" using p by simp
  then show ?thesis using ok len by (intro exI [of _ ?b]) (simp add: reuse_prependable_space_def Let_def)
qed

lemma expend_spec:
  assumes "buf_ok b"
  shows "\<exists>b'. expend b n = Some b' \<and> buf_ok b' \<and> readView b' = readView b \<and> prepend_size b' = prepend_size b \<and> n \<le> writable_size b'"
proof -
  obtain b1 where b1: "reuse_prependable_space b = Some b1" "buf_ok b1" "readView b1 = readView b" "prepend_size b1 = prepend_size b"
    "length (buffer b1) = length (buffer b)" "write_index b1 = prepend_size b + readable_size b"
    using reuse_spec [OF assms] by blast
  have r: "readable_size b = write_index b - read_index b" "read_index b \<le> write_index b" "write_index b \<le> length (buffer b)"
    using assms by (auto simp: readable_size_def buf_ok_def)
  show ?thesis
  proof (cases "writable_size b + prependable_size b > n + prepend_size b")
    case True
    then have "n \<le> writable_size b1" using b1(5,6) r by (simp add: writable_size_def prependable_size_def)
    then show ?thesis using b1 True assms by (simp add: expend_def)
  next
    case False
    let ?b = "b1\<lparr>buffer := resize (buffer b1) (write_index b1 + n)\<rparr>"
    have ok: "buf_ok ?b" using b1(2) by (simp add: buf_ok_def)
    have "readView ?b = readView b1"
      using b1(2) take_drop_resize [of "read_index b1" "readable_size b1" "buffer b1" "write_index b1 + n"]
      by (simp add: readView_def readable_size_def buf_ok_def)
    moreover have "writable_size ?b = n" by (simp add: writable_size_def)
    ultimately show ?thesis using b1 False assms ok by (intro exI [of _ ?b]) (simp add: expend_def Let_def)
  qed
qed

lemma ensure_appendable_spec:
  assumes "buf_ok b"
  shows "\<exists>b'. ensure_appendable b n = Some b' \<and> buf_ok b' \<and> readView b' = readView b \<and> prepend_size b' = prepend_size b \<and> n \<le> writable_size b'"
proof (cases "writable_size b < n")
  case True
  then show ?thesis using expend_spec [OF assms, of n] by (auto simp: ensure_appendable_def)
next
  case False
  then show ?thesis using assms by (simp add: ensure_appendable_def)
qed

text \<open>Writing into the free part and moving the write index.\<close>

lemma write_spec:
  assumes "buf_ok b" "length xs \<le> writable_size b"
  shows "buf_ok (b\<lparr>buffer := overwrite (buffer b) (write_index b) xs, write_index := write_index b + length xs\<rparr>)"
    "readView (b\<lparr>buffer := overwrite (buffer b) (write_index b) xs, write_index := write_index b + length xs\<rparr>) = readView b @ xs"
proof -
  let ?b = "b\<lparr>buffer := overwrite (buffer b) (write_index b) xs, write_index := write_index b + length xs\<rparr>"
  have w: "write_index b \<le> length (buffer b)" "read_index b \<le> write_index b" using assms by (auto simp: buf_ok_def)
  have w2: "write_index b + length xs \<le> length (buffer b)" using assms w by (simp add: writable_size_def)
  show "buf_ok ?b" using assms w2 by (simp add: buf_ok_def)
  have split: "readable_size ?b = readable_size b + length xs" using w by (simp add: readable_size_def)
  have at: "readable_size b + read_index b = write_index b" using w by (simp add: readable_size_def)
  have "readView ?b = take (readable_size b) (drop (read_index b) (buffer ?b)) @ take (length xs) (drop (write_index b) (buffer ?b))"
    unfolding readView_def split take_add by (simp add: at)
  also have "take (readable_size b) (drop (read_index b) (buffer ?b)) = readView b"
    using take_drop_overwrite [of "read_index b" "readable_size b" "write_index b" "buffer b" xs] w
    by (simp add: readView_def readable_size_def)
  finally show "readView ?b = readView b @ xs" using w by simp
qed

lemma buf_append_spec:
  assumes "buf_ok b"
  shows "\<exists>b'. buf_append b xs = Some b' \<and> buf_ok b' \<and> readView b' = readView b @ xs \<and> prepend_size b' = prepend_size b"
proof -
  obtain b1 where b1: "ensure_appendable b (length xs) = Some b1" "buf_ok b1" "readView b1 = readView b"
    "prepend_size b1 = prepend_size b" "length xs \<le> writable_size b1"
    using ensure_appendable_spec [OF assms] by blast
  have "length xs \<le> writable_size (b1\<lparr>buffer := overwrite (buffer b1) (write_index b1) xs\<rparr>)"
    using b1(2,5) by (simp add: writable_size_def buf_ok_def)
  then show ?thesis using b1 write_spec [OF b1(2,5)] by (simp add: buf_append_def appendImp_def Let_def move_write_index_def)
qed

lemma move_read_spec:
  assumes "buf_ok b" "n \<le> length (readView b)"
  shows "\<exists>b'. move_read_index b n = Some b' \<and> buf_ok b' \<and> readView b' = drop n (readView b) \<and> prepend_size b' = prepend_size b \<and>
    buffer b' = buffer b"
proof -
  have n: "n \<le> readable_size b" using assms length_readView by simp
  show ?thesis
  proof (cases "n < readable_size b")
    case True
    let ?b = "b\<lparr>read_index := read_index b + n\<rparr>"
    have ok: "buf_ok ?b" using assms(1) True by (simp add: buf_ok_def readable_size_def)
    have "readView ?b = drop n (readView b)"
      using True by (simp add: readView_def readable_size_def drop_take add.commute)
    then show ?thesis using True ok by (intro exI [of _ ?b]) (simp add: move_read_index_def Let_def)
  next
    case False
    let ?b = "b\<lparr>read_index := prepend_size b, write_index := prepend_size b\<rparr>"
    have ok: "buf_ok ?b" using assms(1) by (simp add: buf_ok_def)
    have "readView ?b = drop n (readView b)" using False length_readView [OF assms(1)] by (simp add: readView_def readable_size_def)
    then show ?thesis using False n ok assms(1) by (intro exI [of _ ?b]) (simp add: move_read_index_def Let_def)
  qed
qed

lemma retrieve_spec:
  assumes "buf_ok b" "n \<le> length (readView b)"
  shows "\<exists>b'. retrieve b n = Some (Some (read_index b), b') \<and> buf_ok b' \<and> readView b' = drop n (readView b) \<and>
    take n (drop (read_index b) (buffer b')) = take n (readView b)"
  using move_read_spec [OF assms] assms(2) length_readView [OF assms(1)]
  by (auto simp: retrieve_def readView_def min_absorb1)

subsection \<open>The buffer as a byte queue\<close>

datatype qop = Push string | Pop nat

fun pushed :: "qop list \<Rightarrow> string" where
  "pushed [] = ''''"
| "pushed (Push xs # ops) = xs @ pushed ops"
| "pushed (Pop n # ops) = pushed ops"

text \<open>A run of operations and the bytes it takes out.\<close>

fun run_queue :: "('b \<Rightarrow> string) \<Rightarrow> ('b \<Rightarrow> string \<Rightarrow> 'b option) \<Rightarrow> ('b \<Rightarrow> nat \<Rightarrow> 'b option) \<Rightarrow> qop list \<Rightarrow> 'b \<Rightarrow> (string \<times> 'b) option" where
  "run_queue view push pop [] b = Some ('''', b)"
| "run_queue view push pop (Push xs # ops) b = do { b \<leftarrow> push b xs; run_queue view push pop ops b }"
| "run_queue view push pop (Pop n # ops) b = do {
     b' \<leftarrow> pop b (min n (length (view b)));
     (out, b') \<leftarrow> run_queue view push pop ops b';
     Some (take n (view b) @ out, b') }"

locale byte_queue =
  fixes wf :: "'b \<Rightarrow> bool" and view :: "'b \<Rightarrow> string" and push :: "'b \<Rightarrow> string \<Rightarrow> 'b option" and pop :: "'b \<Rightarrow> nat \<Rightarrow> 'b option"
  assumes push: "wf b \<Longrightarrow> \<exists>b'. push b xs = Some b' \<and> wf b' \<and> view b' = view b @ xs"
    and pop: "wf b \<Longrightarrow> n \<le> length (view b) \<Longrightarrow> \<exists>b'. pop b n = Some b' \<and> wf b' \<and> view b' = drop n (view b)"
begin

lemma fifo:
  assumes "wf b"
  shows "\<exists>out b'. run_queue view push pop ops b = Some (out, b') \<and> wf b' \<and> out @ view b' = view b @ pushed ops"
  using assms
proof (induction ops arbitrary: b)
  case (Cons x ops)
  show ?case
  proof (cases x)
    case (Push xs)
    obtain b1 where b1: "push b xs = Some b1" "wf b1" "view b1 = view b @ xs" using push [OF Cons.prems] by blast
    show ?thesis using Cons.IH [OF b1(2)] b1 Push by auto
  next
    case (Pop n)
    obtain b1 where b1: "pop b (min n (length (view b))) = Some b1" "wf b1" "view b1 = drop (min n (length (view b))) (view b)"
      using pop [OF Cons.prems, of "min n (length (view b))"] by auto
    have "view b1 = drop n (view b)" using b1(3) by (cases "n \<le> length (view b)") (simp_all add: min_def)
    moreover obtain out b2 where "run_queue view push pop ops b1 = Some (out, b2)" "wf b2" "out @ view b2 = view b1 @ pushed ops"
      using Cons.IH [OF b1(2)] by blast
    ultimately show ?thesis using b1 Pop by (intro exI [of _ "take n (view b) @ out"] exI [of _ b2]) simp
  qed
qed simp

end

interpretation tcp: byte_queue buf_ok readView buf_append consume
proof
  show "\<exists>b'. buf_append b xs = Some b' \<and> buf_ok b' \<and> readView b' = readView b @ xs" if "buf_ok b" for b xs
    using buf_append_spec [OF that] by blast
  show "\<exists>b'. consume b n = Some b' \<and> buf_ok b' \<and> readView b' = drop n (readView b)" if "buf_ok b" "n \<le> length (readView b)" for b n
    using move_read_spec [OF that] by (auto simp: consume_def)
qed

text \<open>(C26) The buffer is a byte queue: whatever the sequence of appends and reads, the bytes read and the
  bytes left are the bytes that were there and those appended, in order; no assertion fails.\<close>

theorem buffer_fifo:
  assumes "buf_ok b"
  shows "\<exists>out b'. run_queue readView buf_append consume ops b = Some (out, b') \<and> buf_ok b' \<and> out @ readView b' = readView b @ pushed ops"
  by (rule tcp.fifo [OF assms])

theorem buffer_fifo_witness:
  "\<exists>out b'. run_queue readView buf_append consume [Push ''abc'', Pop 2, Push ''de''] (TcpBuffer_init 2 8) = Some (out, b') \<and>
     out @ readView b' = ''abcde''"
  using buffer_fifo [OF TcpBuffer_init_ok(1) [of 2 8], of "[Push ''abc'', Pop 2, Push ''de'']"] TcpBuffer_init_ok(2) [of 2 8] by auto

lemma appendFormFd_spec:
  assumes ok: "buf_ok b" and n: "length bytes \<le> (if writable_size b < 65536 then writable_size b + 65536 else writable_size b)"
  shows "\<exists>b'. appendFormFd b bytes = Some b' \<and> buf_ok b' \<and> readView b' = readView b @ bytes"
proof -
  let ?w = "writable_size b" let ?b = "b\<lparr>buffer := overwrite (buffer b) (write_index b) (take ?w bytes)\<rparr>"
  have le: "length (take ?w bytes) \<le> writable_size b" by simp
  note w = write_spec [OF ok le]
  have len: "length (buffer ?b) = length (buffer b)" "writable_size ?b = ?w" "write_index b + ?w = length (buffer b)"
    using ok by (auto simp: writable_size_def buf_ok_def)
  show ?thesis
  proof (cases "length bytes \<le> ?w")
    case True
    then show ?thesis using w n len ok write_spec [OF ok, of "[]"]
      by (cases "bytes = []") (auto simp: appendFormFd_def Let_def move_write_index_def)
  next
    case False
    then have "length (take ?w bytes) = ?w" by simp
    then have ok': "buf_ok (?b\<lparr>write_index := length (buffer ?b)\<rparr>)" "readView (?b\<lparr>write_index := length (buffer ?b)\<rparr>) = readView b @ take ?w bytes"
      using w len by (simp_all del: length_take)
    show ?thesis using buf_append_spec [OF ok'(1), of "drop ?w bytes"] ok'(2) False n len
      by (auto simp: appendFormFd_def Let_def)
  qed
qed

text \<open>Growing the buffer never loses a byte and makes room for what was asked, for every state that
  satisfies the invariant.\<close>

theorem ensureWritableBytes_correct:
  assumes "buf_ok b"
  shows "\<exists>b'. ensureWritableBytes b len = Some b' \<and> buf_ok b' \<and> readView b' = readView b \<and> len \<le> writable_size b'"
  using ensure_appendable_spec [OF assms, of len] by (auto simp: ensureWritableBytes_def ensure_appendable_def)

theorem ensureWritableBytes_correct_witness:
  "\<exists>b'. ensureWritableBytes (TcpBuffer_init 4 8) 100 = Some b' \<and> 100 \<le> writable_size b'"
  using ensureWritableBytes_correct [OF TcpBuffer_init_ok(1) [of 4 8], of 100] by auto

end
