(* ===== verification/Resp.thy ===== *)
theory Resp
  imports Io_Buf Decimal
begin

text \<open>
  The protocol: \<open>RESP_Buf::ParseRESP\<close> (\<open>redis/facade/resp_buf.hpp\<close>), which takes one command off the
  receive buffer, and the replies (\<open>redis/facade/reply_builder.hpp\<close>).

  \<open>None\<close> is a signed overflow of \<open>int64_t\<close> in a length. Parsing is the inverse of the encoding of a
  command as an array of bulk strings, which is how clients send commands.
\<close>

subsection \<open>Parsing\<close>

definition kInt64Max :: nat where "kInt64Max = 2 ^ 63"

text \<open>The loop that reads a decimal number.\<close>

function parse_num :: "string \<Rightarrow> nat \<Rightarrow> nat \<Rightarrow> nat \<Rightarrow> (nat \<times> nat) option" where
  "parse_num data sz pos n = (if pos < sz \<and> is_digit (data ! pos)
     then if dec_step n (data ! pos) < kInt64Max then parse_num data sz (pos + 1) (dec_step n (data ! pos)) else None
     else Some (n, pos))"
  by auto

termination
  by (relation "measure (\<lambda>(data, sz, pos, n). sz - pos)") auto

declare parse_num.simps [simp del]

text \<open>The elements of the array; the flag says whether all were there.\<close>

fun parse_elems :: "string \<Rightarrow> nat \<Rightarrow> nat \<Rightarrow> nat \<Rightarrow> string list \<Rightarrow> (bool \<times> string list \<times> nat) option" where
  "parse_elems data sz 0 pos result = Some (True, result, pos)"
| "parse_elems data sz (Suc n) pos result =
     (if pos \<ge> sz \<or> data ! pos \<noteq> CHR ''$'' then Some (False, result, pos)
      else do {
        (len, pos) \<leftarrow> parse_num data sz (pos + 1) 0;
        if pos + 2 > sz \<or> data ! pos \<noteq> CHR 0x0D \<or> data ! (pos + 1) \<noteq> CHR 0x0A then Some (False, result, pos)
        else let pos = pos + 2 in
          if pos + len + 2 > sz then Some (False, result, pos)
          else let result = result @ [take len (drop pos data)]; pos = pos + len in
            if pos + 2 > sz \<or> data ! pos \<noteq> CHR 0x0D \<or> data ! (pos + 1) \<noteq> CHR 0x0A then Some (False, result, pos)
            else parse_elems data sz n (pos + 2) result })"

definition ParseRESP :: "TcpBuffer \<Rightarrow> (string list \<times> TcpBuffer) option" where
  "ParseRESP b =
     (let data = buffer b; sz = write_index b; pos = read_index b
      in if pos \<ge> sz \<or> data ! pos \<noteq> CHR ''*'' then Some ([], b)
         else do {
           (num_elements, pos) \<leftarrow> parse_num data sz (pos + 1) 0;
           if num_elements \<le> 0 \<or> pos + 2 > sz \<or> data ! pos \<noteq> CHR 0x0D \<or> data ! (pos + 1) \<noteq> CHR 0x0A then Some ([], b)
           else do {
             (done, result, pos) \<leftarrow> parse_elems data sz num_elements (pos + 2) [];
             if done then do { b \<leftarrow> consume b (pos - read_index b); Some (result, b) }
             else Some (result, b) } })"

subsection \<open>Replies\<close>

definition crlf :: string where "crlf = [CHR 0x0D, CHR 0x0A]"

definition BuildNull :: string where
  "BuildNull = ''$-1'' @ crlf"

definition BuildSimpleString :: "string \<Rightarrow> string" where
  "BuildSimpleString s = ''+'' @ s @ crlf"

definition BuildError :: "string \<Rightarrow> string" where
  "BuildError err = ''-ERR '' @ err @ crlf"

definition BuildInteger :: "int \<Rightarrow> string" where
  "BuildInteger n = '':'' @ to_string n @ crlf"

definition BuildBulkString :: "string \<Rightarrow> string" where
  "BuildBulkString s = (if s = '''' then ''$-1'' @ crlf else ''$'' @ to_string (int (length s)) @ crlf @ s @ crlf)"

definition BuildArray :: "string list \<Rightarrow> string" where
  "BuildArray items = ''*'' @ to_string (int (length items)) @ crlf @ concat (map BuildSimpleString items)"

subsection \<open>Commands on the wire\<close>

definition encode_bulk :: "string \<Rightarrow> string" where
  "encode_bulk s = ''$'' @ nat_string (length s) @ crlf @ s @ crlf"

definition encode_cmd :: "string list \<Rightarrow> string" where
  "encode_cmd args = ''*'' @ nat_string (length args) @ crlf @ concat (map encode_bulk args)"

text \<open>The bytes at a position of the received part of the buffer.\<close>

definition at :: "string \<Rightarrow> nat \<Rightarrow> nat \<Rightarrow> string \<Rightarrow> bool" where
  "at data sz pos xs \<longleftrightarrow> pos + length xs \<le> sz \<and> sz \<le> length data \<and> take (length xs) (drop pos data) = xs"

lemma at_nth: "at data sz pos xs \<Longrightarrow> i < length xs \<Longrightarrow> data ! (pos + i) = xs ! i"
  by (metis at_def add.commute add_leE le_trans nth_drop nth_take)

lemma at_Nil [simp]: "at data sz pos [] \<longleftrightarrow> pos \<le> sz \<and> sz \<le> length data"
  by (simp add: at_def)

lemma at_append: "at data sz pos (xs @ ys) \<longleftrightarrow> at data sz pos xs \<and> at data sz (pos + length xs) ys"
  by (auto simp: at_def take_add add.commute add.left_commute append_eq_append_conv)

lemma at_Cons: "at data sz pos (c # xs) \<longleftrightarrow> pos < sz \<and> sz \<le> length data \<and> data ! pos = c \<and> at data sz (Suc pos) xs"
  by (auto simp: at_def take_Suc_conv_app_nth Cons_nth_drop_Suc [symmetric])

lemma parse_num_at:
  assumes "at data sz pos cs" "\<forall>c \<in> set cs. is_digit c" "pos + length cs < sz \<longrightarrow> \<not> is_digit (data ! (pos + length cs))"
    "foldl dec_step n cs < kInt64Max"
  shows "parse_num data sz pos n = Some (foldl dec_step n cs, pos + length cs)"
  using assms
proof (induction cs arbitrary: pos n)
  case Nil
  then show ?case by (subst parse_num.simps) auto
next
  case (Cons c cs)
  have "dec_step n c < kInt64Max" using Cons.prems(4) dec_mono [of "dec_step n c" cs] by simp
  then show ?case using Cons by (subst parse_num.simps) (auto simp: at_Cons)
qed

lemma parse_num_nat:
  assumes "at data sz pos (nat_string n @ c # xs)" "\<not> is_digit c" "n < kInt64Max"
  shows "parse_num data sz pos 0 = Some (n, pos + length (nat_string n))"
  using parse_num_at [of data sz pos "nat_string n" 0] assms nat_string_digits(1) dec_nat_string [of n]
  by (auto simp: at_append at_Cons)

lemma not_digit [simp]: "\<not> is_digit (CHR 0x0D)"
  by (simp add: is_digit_def)

lemma at_take: "at data sz pos xs \<Longrightarrow> take (length xs) (drop pos data) = xs"
  by (simp add: at_def)

lemma parse_elems_at:
  assumes "at data sz pos (concat (map encode_bulk args))" "\<forall>a \<in> set args. length a < kInt64Max"
  shows "parse_elems data sz (length args + m) pos result =
    parse_elems data sz m (pos + length (concat (map encode_bulk args))) (result @ args)"
  using assms
proof (induction args arbitrary: pos result)
  case (Cons a args)
  let ?p = "pos + 1 + length (nat_string (length a))"
  have a: "at data sz pos ''$''" "at data sz (pos + 1) (nat_string (length a) @ CHR 0x0D # CHR 0x0A # a @ crlf)"
    "at data sz (?p + 2 + length a + 2) (concat (map encode_bulk args))"
    using Cons.prems(1) by (auto simp: encode_bulk_def [of a] crlf_def at_append at_Cons ac_simps)
  have num: "parse_num data sz (pos + 1) 0 = Some (length a, ?p)" by (rule parse_num_nat [OF a(2)]) (use Cons.prems(2) in auto)
  have b: "?p + 2 + length a + 2 \<le> sz" "data ! ?p = CHR 0x0D" "data ! (?p + 1) = CHR 0x0A" "at data sz (?p + 2) a"
    "data ! (?p + 2 + length a) = CHR 0x0D" "data ! (?p + 2 + length a + 1) = CHR 0x0A"
    using a(2) by (auto simp: at_append at_Cons crlf_def ac_simps)
  have "parse_elems data sz (length args + m) (?p + 2 + length a + 2) (result @ [a]) =
      parse_elems data sz m (?p + 2 + length a + 2 + length (concat (map encode_bulk args))) ((result @ [a]) @ args)"
    using Cons.IH [OF a(3)] Cons.prems(2) by simp
  then show ?case
    using a(1) num b at_take [OF b(4)] by (simp add: at_Cons encode_bulk_def [of a] crlf_def Let_def ac_simps)
qed simp

text \<open>The parser on an array header and bulk strings that follow it.\<close>

lemma ParseRESP_header:
  assumes "buf_ok b" "readView b = ''*'' @ nat_string n @ crlf @ concat (map encode_bulk args) @ rest" "0 < n" "n < kInt64Max"
    "\<forall>a \<in> set args. length a < kInt64Max" "n = length args + m"
  shows "ParseRESP b = do {
    (done, result, pos) \<leftarrow> parse_elems (buffer b) (write_index b) m
       (read_index b + length (''*'' @ nat_string n @ crlf @ concat (map encode_bulk args))) args;
    if done then do { b \<leftarrow> consume b (pos - read_index b); Some (result, b) } else Some (result, b) }"
proof -
  let ?d = "buffer b" and ?s = "write_index b" and ?r = "read_index b" and ?n = "nat_string n"
  have v: "at ?d ?s ?r (readView b)"
    using assms(1) length_readView [OF assms(1)] by (auto simp: at_def buf_ok_def readView_def readable_size_def min_def)
  then have a: "at ?d ?s ?r ''*''" "at ?d ?s (?r + 1) (?n @ CHR 0x0D # CHR 0x0A # concat (map encode_bulk args))"
    unfolding assms(2) crlf_def by (auto simp: at_append at_Cons ac_simps)
  let ?p = "?r + 1 + length ?n"
  have num: "parse_num ?d ?s (?r + 1) 0 = Some (n, ?p)" by (rule parse_num_nat [OF a(2)]) (use assms(4) in auto)
  have b: "?p + 2 \<le> ?s" "?d ! ?p = CHR 0x0D" "?d ! (?p + 1) = CHR 0x0A" "at ?d ?s (?p + 2) (concat (map encode_bulk args))"
    using a(2) by (auto simp: at_append at_Cons ac_simps at_def [of _ _ _ "concat (map encode_bulk args)"])
  have el: "parse_elems ?d ?s n (?p + 2) [] = parse_elems ?d ?s m (?p + 2 + length (concat (map encode_bulk args))) args"
    using parse_elems_at [OF b(4) assms(5), of m "[]"] assms(6) by simp
  show ?thesis
    using a(1) num b el assms(3) unfolding ParseRESP_def Let_def by (simp add: at_Cons crlf_def ac_simps)
qed

text \<open>(C24) Parsing inverts the encoding: when the buffer starts with an encoded command, \<open>ParseRESP\<close>
  returns its arguments and leaves exactly the bytes that follow it.\<close>

theorem ParseRESP_roundtrip:
  assumes "buf_ok b" "readView b = encode_cmd args @ rest" "args \<noteq> []" "length args < kInt64Max" "\<forall>a \<in> set args. length a < kInt64Max"
  shows "\<exists>b'. ParseRESP b = Some (args, b') \<and> buf_ok b' \<and> readView b' = rest"
proof -
  obtain b' where b': "consume b (length (encode_cmd args)) = Some b'" "buf_ok b'" "readView b' = rest"
    using tcp.pop [OF assms(1), of "length (encode_cmd args)"] assms(2) by auto
  then show ?thesis
    using ParseRESP_header [OF assms(1) _ _ assms(4,5), of rest 0] assms(2,3) by (auto simp: encode_cmd_def)
qed

theorem ParseRESP_roundtrip_witness:
  "\<exists>b b'. readView b = encode_cmd [''GET'', ''k''] @ ''*'' \<and> ParseRESP b = Some ([''GET'', ''k''], b') \<and> readView b' = ''*''"
proof -
  obtain b where b: "buf_ok b" "readView b = encode_cmd [''GET'', ''k''] @ ''*''"
    using buf_append_spec [OF TcpBuffer_init_ok(1) [of 4 8], of "encode_cmd [''GET'', ''k''] @ ''*''"] TcpBuffer_init_ok(2) [of 4 8] by auto
  then show ?thesis using ParseRESP_roundtrip [OF b] by (auto simp: kInt64Max_def)
qed

text \<open>(C25) A command of which only the first arguments have arrived is returned as if it were complete,
  and its bytes stay in the buffer.\<close>

theorem ParseRESP_partial:
  assumes "buf_ok b" "readView b = ''*'' @ nat_string n @ crlf @ concat (map encode_bulk args)" "length args < n" "n < kInt64Max"
    "\<forall>a \<in> set args. length a < kInt64Max"
  shows "ParseRESP b = Some (args, b)"
proof -
  obtain m where m: "n = length args + Suc m" using assms(3) less_imp_Suc_add by auto
  let ?pre = "''*'' @ nat_string n @ crlf @ concat (map encode_bulk args)"
  have pos: "0 < n" using assms(3) by simp
  have view: "readView b = ''*'' @ nat_string n @ crlf @ concat (map encode_bulk args) @ ''''" using assms(2) by simp
  note h = ParseRESP_header [OF assms(1) view pos assms(4,5) m]
  have "length (readView b) = write_index b - read_index b" "read_index b \<le> write_index b"
    using length_readView [OF assms(1)] assms(1) by (auto simp: readable_size_def buf_ok_def)
  then have "write_index b \<le> read_index b + length ?pre" using assms(2) by simp
  then show ?thesis unfolding h by simp
qed

theorem ParseRESP_partial_witness:
  "\<exists>b. readView b = ''*'' @ nat_string 2 @ crlf @ encode_bulk ''GET'' \<and> ParseRESP b = Some ([''GET''], b)"
proof -
  obtain b where b: "buf_ok b" "readView b = ''*'' @ nat_string 2 @ crlf @ encode_bulk ''GET''"
    using buf_append_spec [OF TcpBuffer_init_ok(1) [of 4 8], of "''*'' @ nat_string 2 @ crlf @ encode_bulk ''GET''"]
      TcpBuffer_init_ok(2) [of 4 8] by auto
  then show ?thesis using ParseRESP_partial [OF b(1), of 2 "[''GET'']"] by (auto simp: kInt64Max_def)
qed

text \<open>The bulk reply of a nonempty string is what a client parses back to the string; the reply of the
  empty string is the null reply.\<close>

theorem BuildBulkString_correct:
  "BuildBulkString s = (if s = '''' then BuildNull else encode_bulk s)"
  by (simp add: BuildBulkString_def BuildNull_def encode_bulk_def to_string_def)

end
