(* ===== verification/Cmd_Parser.thy ===== *)
theory Cmd_Parser
  imports Decimal
begin

text \<open>
  The reader of command arguments (\<open>command_layer/cmd_arg_parser.hpp\<close>) with the string helpers it uses
  (\<open>net/util/Strings.hpp\<close>). The templates are modelled at the types the sources use them with:
  \<open>std::string_view\<close> and \<open>int64_t\<close>, and \<open>Next\<close> for a pair of \<open>std::string_view\<close>. The variadic cases of
  \<open>MapNext\<close> are a list of tags and values.
\<close>

subsection \<open>Strings\<close>

text \<open>\<open>std::tolower\<close> and \<open>std::toupper\<close> in the C locale.\<close>

definition to_lower :: "char \<Rightarrow> char" where
  "to_lower c = (let n = of_char c :: nat in if 65 \<le> n \<and> n \<le> 90 then char_of (n + 32) else c)"

definition to_upper :: "char \<Rightarrow> char" where
  "to_upper c = (let n = of_char c :: nat in if 97 \<le> n \<and> n \<le> 122 then char_of (n - 32) else c)"

definition StrToUpper :: "string \<Rightarrow> string" where
  "StrToUpper str = map to_upper str"

definition EqualsIgnoreCaseStd :: "string \<Rightarrow> string \<Rightarrow> bool" where
  "EqualsIgnoreCaseStd a b = (if length a \<noteq> length b then False else list_all2 (\<lambda>c d. to_lower c = to_lower d) a b)"

text \<open>\<open>std::from_chars\<close> for \<open>int64_t\<close>: the number and the rest of the string, \<open>None\<close> when there is no
  number or it does not fit.\<close>

definition in_int64 :: "int \<Rightarrow> bool" where
  "in_int64 i \<longleftrightarrow> - (2 ^ 63) \<le> i \<and> i < 2 ^ 63"

definition from_chars :: "string \<Rightarrow> (int \<times> string) option" where
  "from_chars s =
     (let (neg, ds) = (case s of c # cs \<Rightarrow> if c = CHR ''-'' then (True, cs) else (False, s) | [] \<Rightarrow> (False, s));
          num = takeWhile is_digit ds;
          n = int (foldl dec_step 0 num);
          i = (if neg then - n else n)
      in if num = [] \<or> \<not> in_int64 i then None else Some (i, dropWhile is_digit ds))"

subsection \<open>State\<close>

datatype ErrorType = NO_ERROR | HAS_ERROR

record CmdArgParser =
  cur_i :: nat
  parser_args :: "string list"
  parser_error :: ErrorType

definition CmdArgParser_init :: "string list \<Rightarrow> CmdArgParser" where
  "CmdArgParser_init args = \<lparr>cur_i = 0, parser_args = args, parser_error = NO_ERROR\<rparr>"

definition Report :: "CmdArgParser \<Rightarrow> CmdArgParser" where
  "Report p = p\<lparr>parser_error := HAS_ERROR, cur_i := length (parser_args p)\<rparr>"

definition SafeSV :: "CmdArgParser \<Rightarrow> nat \<Rightarrow> string" where
  "SafeSV p i = (if i \<ge> length (parser_args p) then '''' else if parser_args p ! i = '''' then '''' else parser_args p ! i)"

definition HasNext :: "CmdArgParser \<Rightarrow> bool" where
  "HasNext p \<longleftrightarrow> cur_i p < length (parser_args p) \<and> parser_error p = NO_ERROR"

definition HasError :: "CmdArgParser \<Rightarrow> bool" where
  "HasError p \<longleftrightarrow> parser_error p = HAS_ERROR"

definition HasAtLeast :: "CmdArgParser \<Rightarrow> nat \<Rightarrow> bool" where
  "HasAtLeast p i \<longleftrightarrow> parser_error p = NO_ERROR \<and> i \<le> length (parser_args p) - cur_i p"

definition GetCurrentIndex :: "CmdArgParser \<Rightarrow> nat" where
  "GetCurrentIndex p = cur_i p"

definition Tail :: "CmdArgParser \<Rightarrow> string list" where
  "Tail p = drop (cur_i p) (parser_args p)"

definition Peek :: "CmdArgParser \<Rightarrow> string" where
  "Peek p = SafeSV p (cur_i p)"

subsection \<open>Reading arguments\<close>

definition Num :: "CmdArgParser \<Rightarrow> nat \<Rightarrow> int \<times> CmdArgParser" where
  "Num p idx = (case from_chars (SafeSV p idx) of
      Some (out, rest) \<Rightarrow> if rest = '''' then (out, p) else (0, Report p)
    | None \<Rightarrow> (0, Report p))"

text \<open>\<open>Next\<close> for one string, one number and two strings.\<close>

definition Next :: "CmdArgParser \<Rightarrow> string \<times> CmdArgParser" where
  "Next p = (if cur_i p + 0 \<ge> length (parser_args p) then ('''', Report p)
     else let idx = cur_i p; p = p\<lparr>cur_i := idx + 1\<rparr> in (SafeSV p idx, p))"

definition Next_num :: "CmdArgParser \<Rightarrow> int \<times> CmdArgParser" where
  "Next_num p = (if cur_i p + 0 \<ge> length (parser_args p) then (0, Report p)
     else let idx = cur_i p; p = p\<lparr>cur_i := idx + 1\<rparr> in Num p idx)"

definition Next_pair :: "CmdArgParser \<Rightarrow> (string \<times> string) \<times> CmdArgParser" where
  "Next_pair p = (if cur_i p + 1 \<ge> length (parser_args p) then (('''', ''''), Report p)
     else ((SafeSV p (cur_i p), SafeSV p (cur_i p + 1)), p\<lparr>cur_i := cur_i p + 2\<rparr>))"

definition NextOrDefault :: "CmdArgParser \<Rightarrow> string \<Rightarrow> string \<times> CmdArgParser" where
  "NextOrDefault p dflt = (if HasNext p then Next p else (dflt, p))"

fun MapImpl :: "string \<Rightarrow> (string \<times> 'v) list \<Rightarrow> 'v option" where
  "MapImpl arg [] = None"
| "MapImpl arg ((tag, v) # cases) = (if EqualsIgnoreCaseStd arg tag then Some v else MapImpl arg cases)"

text \<open>\<open>v0\<close> is the default value of the type of the cases.\<close>

definition MapNext :: "'v \<Rightarrow> CmdArgParser \<Rightarrow> (string \<times> 'v) list \<Rightarrow> 'v \<times> CmdArgParser" where
  "MapNext v0 p cases = (if cur_i p \<ge> length (parser_args p) then (v0, Report p)
     else let idx = cur_i p; p = p\<lparr>cur_i := idx + 1\<rparr> in
       case MapImpl (SafeSV p idx) cases of None \<Rightarrow> (v0, Report p) | Some v \<Rightarrow> (v, p))"

definition TryMapNext :: "CmdArgParser \<Rightarrow> (string \<times> 'v) list \<Rightarrow> 'v option \<times> CmdArgParser" where
  "TryMapNext p cases = (if cur_i p \<ge> length (parser_args p) then (None, p)
     else let res = MapImpl (SafeSV p (cur_i p)) cases
          in (res, p\<lparr>cur_i := (if res \<noteq> None then cur_i p + 1 else cur_i p)\<rparr>))"

definition Check :: "CmdArgParser \<Rightarrow> string \<Rightarrow> bool \<times> CmdArgParser" where
  "Check p tag = (if cur_i p \<ge> length (parser_args p) then (False, p)
     else if \<not> EqualsIgnoreCaseStd (SafeSV p (cur_i p)) tag then (False, p)
     else (True, p\<lparr>cur_i := cur_i p + 1\<rparr>))"

definition Skip :: "CmdArgParser \<Rightarrow> nat \<Rightarrow> CmdArgParser" where
  "Skip p n = (if cur_i p + n > length (parser_args p) then Report p else p\<lparr>cur_i := cur_i p + n\<rparr>)"

subsection \<open>Facts\<close>

text \<open>The position stays within the arguments, and is at the end once an error was reported.\<close>

definition parser_ok :: "CmdArgParser \<Rightarrow> bool" where
  "parser_ok p \<longleftrightarrow> cur_i p \<le> length (parser_args p) \<and> (parser_error p = HAS_ERROR \<longrightarrow> cur_i p = length (parser_args p))"

lemma SafeSV_nth: "i < length (parser_args p) \<Longrightarrow> SafeSV p i = parser_args p ! i"
  by (simp add: SafeSV_def)

lemma Report_ok [simp]: "parser_ok (Report p)" "HasError (Report p)" "Tail (Report p) = []" "parser_args (Report p) = parser_args p"
  by (simp_all add: parser_ok_def Report_def HasError_def Tail_def)

lemma parser_ok_step: "cur_i p < length (parser_args p) \<Longrightarrow> parser_ok p \<Longrightarrow> n \<le> length (parser_args p) \<Longrightarrow> parser_ok (p\<lparr>cur_i := n\<rparr>)"
  by (auto simp: parser_ok_def)

lemma Num_ok: "parser_ok p \<Longrightarrow> parser_ok (snd (Num p i))"
  by (simp add: Num_def split: option.split prod.split)



lemma Tail_Cons: "Tail p = a # as \<Longrightarrow> cur_i p < length (parser_args p) \<and> parser_args p ! cur_i p = a \<and> Tail (p\<lparr>cur_i := Suc (cur_i p)\<rparr>) = as"
proof -
  assume t: "Tail p = a # as"
  then have lt: "cur_i p < length (parser_args p)" by (cases "cur_i p < length (parser_args p)") (simp_all add: Tail_def)
  then show ?thesis using t Cons_nth_drop_Suc [OF lt] by (simp add: Tail_def)
qed

lemma takeWhile_all: "\<forall>x \<in> set xs. P x \<Longrightarrow> takeWhile P xs = xs \<and> dropWhile P xs = []"
  by (simp add: takeWhile_eq_all_conv dropWhile_eq_Nil_conv)

lemma from_chars_nat: "n < 2 ^ 63 \<Longrightarrow> from_chars (nat_string n) = Some (int n, '''')"
proof -
  assume n: "n < 2 ^ 63"
  obtain c cs where s: "nat_string n = c # cs" using nat_string_digits(2) [of n] by (cases "nat_string n") auto
  have "is_digit c" using nat_string_digits(1) [of n] s by simp
  then have "c \<noteq> CHR ''-''" by (auto simp: is_digit_def)
  moreover have "int n < 2 ^ 63" using n by (metis of_nat_less_iff of_nat_numeral of_nat_power)
  ultimately show ?thesis
    using s nat_string_digits(2) [of n] dec_nat_string [of n] takeWhile_all [OF nat_string_digits(1) [of n]]
    by (simp add: from_chars_def in_int64_def Let_def)
qed

text \<open>Numbers round trip: every 64-bit integer that is printed by \<open>std::to_string\<close> is read back by
  \<open>Next\<close> at its type, and the reader moves on by one argument.\<close>

theorem Num_roundtrip:
  assumes "in_int64 i" "Tail p = to_string i # as"
  shows "Next_num p = (i, p\<lparr>cur_i := cur_i p + 1\<rparr>) \<and> Tail (snd (Next_num p)) = as"
proof -
  have f: "from_chars (to_string i) = Some (i, '''')"
  proof (cases "i < 0")
    case False
    then have "nat i < 2 ^ 63" using assms(1) by (simp add: in_int64_def nat_less_iff)
    then show ?thesis using from_chars_nat [of "nat i"] False by (simp add: to_string_def)
  next
    case True
    let ?n = "nat (- i)"
    have tw: "takeWhile is_digit (nat_string ?n) = nat_string ?n" "dropWhile is_digit (nat_string ?n) = []"
      using takeWhile_all [OF nat_string_digits(1)] by blast+
    show ?thesis using True assms(1) nat_string_digits(2) [of ?n] dec_nat_string [of ?n]
      by (simp add: to_string_def from_chars_def in_int64_def tw Let_def nat_le_iff)
  qed
  have t: "cur_i p < length (parser_args p)" "parser_args p ! cur_i p = to_string i" "Tail (p\<lparr>cur_i := Suc (cur_i p)\<rparr>) = as"
    using Tail_Cons [OF assms(2)] by blast+
  have "Next_num p = (i, p\<lparr>cur_i := cur_i p + 1\<rparr>)" using t f by (simp add: Next_num_def Num_def SafeSV_nth)
  then show ?thesis using t(3) by simp
qed

theorem Num_roundtrip_witness: "fst (Next_num (CmdArgParser_init [to_string (- 42), ''x''])) = - 42"
  using Num_roundtrip [of "- 42" "CmdArgParser_init [to_string (- 42), ''x'']" "[''x'']"]
  by (simp add: in_int64_def Tail_def CmdArgParser_init_def)

text \<open>\<open>Check\<close> on the first of the remaining arguments.\<close>

lemma Check_Cons: "Tail p = a # as \<Longrightarrow>
    Check p tag = (if EqualsIgnoreCaseStd a tag then (True, p\<lparr>cur_i := Suc (cur_i p)\<rparr>) else (False, p))"
  using Tail_Cons [of p a as] by (simp add: Check_def SafeSV_nth)

lemma Check_Nil: "Tail p = [] \<Longrightarrow> Check p tag = (False, p)"
  by (simp add: Check_def Tail_def)

end
