(* ===== verification/Commands.thy ===== *)
theory Commands
  imports Engine Resp Cmd_Parser
begin

text \<open>
  The commands (\<open>generic_family.cpp\<close>, \<open>string_family.cpp\<close>). A handler is a coroutine: it gives a callback
  to the shard of the transaction, waits, and replies. The model runs the callback on the slice of
  the shard (\<open>Scheduling\<close>) and returns the bytes of the reply. \<open>None\<close> is an abort, an access out of the
  range of the arguments, or a loop that does not end.
\<close>

subsection \<open>Helpers\<close>

text \<open>\<open>it.GetInnerIt()\<close> on an iterator into the database of the context.\<close>

definition inner_it :: "(string \<Rightarrow> u64) \<Rightarrow> (int \<Rightarrow> u64) \<Rightarrow> DbSlice \<Rightarrow> DbContext \<Rightarrow> DbIterator \<Rightarrow> TableIterator option option" where
  "inner_it hs hi sl c it = (case inner it of None \<Rightarrow> Some None
     | Some _ \<Rightarrow> do { t \<leftarrow> get_db sl (db_index c); GetInnerIt hs hi t it })"

text \<open>\<open>std::atoi\<close>; the value of a number that is no \<open>int\<close> is undefined.\<close>

definition is_space :: "char \<Rightarrow> bool" where
  "is_space c \<longleftrightarrow> (let n = of_char c :: nat in n = 32 \<or> 9 \<le> n \<and> n \<le> 13)"

definition atoi :: "string \<Rightarrow> int option" where
  "atoi s = (let s = dropWhile is_space s;
                 (neg, ds) = (case s of c # cs \<Rightarrow> if c = CHR ''-'' then (True, cs) else if c = CHR ''+'' then (False, cs) else (False, s)
                                | [] \<Rightarrow> (False, s));
                 n = int (foldl dec_step 0 (takeWhile is_digit ds));
                 i = (if neg then - n else n)
             in if - (2 ^ 31) \<le> i \<and> i < 2 ^ 31 then Some i else None)"

definition arg :: "string list \<Rightarrow> nat \<Rightarrow> string option" where
  "arg args i = (if i < length args then Some (args ! i) else None)"

definition shard_keys :: "Transaction \<Rightarrow> string list option" where
  "shard_keys tx = (let s = GetShardArgs tx in sa_loop (Suc (length (sa_index s))) s sa_begin)"

definition SendERROR :: string where "SendERROR = BuildError ''NULL''"

type_synonym Reply = "(string \<times> Namespace) option"

subsection \<open>DEL, PING, EXISTS\<close>

definition OpDel_step :: "(string \<Rightarrow> u64) \<Rightarrow> (int \<Rightarrow> u64) \<Rightarrow> DbContext \<Rightarrow> string \<Rightarrow> u32 \<times> DbSlice \<Rightarrow> (u32 \<times> DbSlice) option" where
  "OpDel_step hs hi c ky st = (case st of (res, sl) \<Rightarrow> do {
     u \<leftarrow> FindMutable hs hi sl c ky;
     i \<leftarrow> inner_it hs hi sl c (upd_it u);
     if \<not> IsValid i then Some (res, sl)
     else do { sl \<leftarrow> Del hs hi sl c (upd_it u); Some (res + 1, sl) } })"

definition OpDel :: "(string \<Rightarrow> u64) \<Rightarrow> (int \<Rightarrow> u64) \<Rightarrow> DbContext \<Rightarrow> string list \<Rightarrow> DbSlice \<Rightarrow> (u32 OpResult \<times> DbSlice) option" where
  "OpDel hs hi c keys sl = do { (res, sl) \<leftarrow> foldM (OpDel_step hs hi c) keys (0, sl); Some (OpResult_value res, sl) }"

definition CmdDel :: "(string \<Rightarrow> u64) \<Rightarrow> (int \<Rightarrow> u64) \<Rightarrow> Namespace \<Rightarrow> Transaction \<Rightarrow> string list \<Rightarrow> Reply" where
  "CmdDel hs hi ns tx args = do {
     (del_cnt, ns) \<leftarrow> Scheduling ns tx (\<lambda>sl. do {
        keys \<leftarrow> shard_keys tx;
        (res, sl) \<leftarrow> OpDel hs hi (db_cntx tx) keys sl;
        Some (value_or res 0, sl) });
     Some (BuildInteger (uint del_cnt), ns) }"

definition Delex :: "(string \<Rightarrow> u64) \<Rightarrow> (int \<Rightarrow> u64) \<Rightarrow> Namespace \<Rightarrow> Transaction \<Rightarrow> string list \<Rightarrow> Reply" where
  "Delex hs hi ns tx args = do { assert_opt (args \<noteq> []); CmdDel hs hi ns tx args }"

definition Ping :: "Namespace \<Rightarrow> string list \<Rightarrow> Reply" where
  "Ping ns args = Some (if length args > 1 then SendERROR else BuildSimpleString ''PONG'', ns)"

definition Exists_step :: "(string \<Rightarrow> u64) \<Rightarrow> (int \<Rightarrow> u64) \<Rightarrow> DbContext \<Rightarrow> DbSlice \<Rightarrow> string \<Rightarrow> u32 \<Rightarrow> u32 option" where
  "Exists_step hs hi c sl ky res = do {
     it \<leftarrow> FindReadOnly hs hi sl c ky;
     i \<leftarrow> inner_it hs hi sl c it;
     Some (res + (if IsValid i then 1 else 0)) }"

definition CmdExists :: "(string \<Rightarrow> u64) \<Rightarrow> (int \<Rightarrow> u64) \<Rightarrow> Namespace \<Rightarrow> Transaction \<Rightarrow> string list \<Rightarrow> Reply" where
  "CmdExists hs hi ns tx args = do {
     (res, ns) \<leftarrow> Scheduling ns tx (\<lambda>sl. do {
        keys \<leftarrow> shard_keys tx;
        res \<leftarrow> foldM (Exists_step hs hi (db_cntx tx) sl) keys 0;
        Some (res, sl) });
     Some (BuildInteger (uint res), ns) }"

subsection \<open>EXPIRE, EXPIRETIME, TTL\<close>

definition CmdExpire :: "(string \<Rightarrow> string) \<Rightarrow> (string \<Rightarrow> u64) \<Rightarrow> (int \<Rightarrow> u64) \<Rightarrow> Namespace \<Rightarrow> Transaction \<Rightarrow> string \<Rightarrow> int \<Rightarrow> Reply" where
  "CmdExpire sm hs hi ns tx ky sec = do {
     (res, ns) \<leftarrow> Scheduling ns tx (\<lambda>sl. do {
        u \<leftarrow> FindMutable hs hi sl (db_cntx tx) ky;
        i \<leftarrow> inner_it hs hi sl (db_cntx tx) (upd_it u);
        if \<not> IsValid i then Some (KEY_NOTFOUND, sl)
        else do {
          t \<leftarrow> get_db sl (db_index (db_cntx tx));
          (r, t) \<leftarrow> UpdateExpire sm hs hi t (upd_it u) sec;
          Some (op_st r, put_db sl (db_index (db_cntx tx)) t) } });
     Some (if res = OK then BuildSimpleString ''OK'' else SendERROR, ns) }"

text \<open>\<open>Expire\<close> takes the key from \<open>args[0]\<close>, which holds the name of the command, and the time from
  \<open>args[1]\<close>.\<close>

definition Expire :: "(string \<Rightarrow> string) \<Rightarrow> (string \<Rightarrow> u64) \<Rightarrow> (int \<Rightarrow> u64) \<Rightarrow> Namespace \<Rightarrow> Transaction \<Rightarrow> string list \<Rightarrow> Reply" where
  "Expire sm hs hi ns tx args = do {
     ky \<leftarrow> arg args 0;
     sec \<leftarrow> arg args 1;
     int_arg \<leftarrow> atoi sec;
     CmdExpire sm hs hi ns tx ky int_arg }"

text \<open>The callbacks of \<open>CmdExpireTime\<close> and \<open>CmdTtl\<close> differ in the number they return.\<close>

definition expire_query :: "(string \<Rightarrow> u64) \<Rightarrow> (int \<Rightarrow> u64) \<Rightarrow> DbContext \<Rightarrow> string \<Rightarrow> (u64 \<Rightarrow> int) \<Rightarrow> DbSlice \<Rightarrow> int OpResult option" where
  "expire_query hs hi c ky f sl = do {
     it \<leftarrow> FindReadOnly hs hi sl c ky;
     i \<leftarrow> inner_it hs hi sl c it;
     case i of None \<Rightarrow> Some (OpResult_status 0 KEY_NOTFOUND)
     | Some i \<Rightarrow> do {
         t \<leftarrow> get_db sl (db_index c);
         k \<leftarrow> it_first t i;
         if \<not> HasExpire k then Some (OpResult_status 0 SKIPPED)
         else do { at \<leftarrow> GetExpireTime k; Some (OpResult_value (f at)) } } }"

definition CmdExpireTime :: "(string \<Rightarrow> u64) \<Rightarrow> (int \<Rightarrow> u64) \<Rightarrow> Namespace \<Rightarrow> Transaction \<Rightarrow> string \<Rightarrow> Reply" where
  "CmdExpireTime hs hi ns tx ky = do {
     (res, ns) \<leftarrow> Scheduling ns tx (\<lambda>sl. do { r \<leftarrow> expire_query hs hi (db_cntx tx) ky sint sl; Some (r, sl) });
     Some (if op_ok res then BuildInteger (op_v res) else SendERROR, ns) }"

definition ExpireTime :: "(string \<Rightarrow> u64) \<Rightarrow> (int \<Rightarrow> u64) \<Rightarrow> Namespace \<Rightarrow> Transaction \<Rightarrow> string list \<Rightarrow> Reply" where
  "ExpireTime hs hi ns tx args = do { ky \<leftarrow> arg args 0; CmdExpireTime hs hi ns tx ky }"

definition CmdTtl :: "(string \<Rightarrow> u64) \<Rightarrow> (int \<Rightarrow> u64) \<Rightarrow> Namespace \<Rightarrow> Transaction \<Rightarrow> string \<Rightarrow> Reply" where
  "CmdTtl hs hi ns tx ky = do {
     (res, ns) \<leftarrow> Scheduling ns tx (\<lambda>sl. do {
        r \<leftarrow> expire_query hs hi (db_cntx tx) ky (\<lambda>at. sint (at - time_now_ms (db_cntx tx))) sl; Some (r, sl) });
     Some (if op_ok res then BuildInteger (op_v res) else SendERROR, ns) }"

definition Ttl :: "(string \<Rightarrow> u64) \<Rightarrow> (int \<Rightarrow> u64) \<Rightarrow> Namespace \<Rightarrow> Transaction \<Rightarrow> string list \<Rightarrow> Reply" where
  "Ttl hs hi ns tx args = do { ky \<leftarrow> arg args 0; CmdTtl hs hi ns tx ky }"

definition Client_Info :: "Namespace \<Rightarrow> string list \<Rightarrow> Reply" where
  "Client_Info ns args = Some (if args \<noteq> [''CLIENT'', ''SETINFO'', ''LIB-NAME'', ''redis-py''] then SendERROR
     else BuildSimpleString ''OK'', ns)"

subsection \<open>SET\<close>

definition SET_KEEP_EXPIRE :: u16 where "SET_KEEP_EXPIRE = push_bit 2 1"
definition SET_EXPIRE_AFTER_MS :: u16 where "SET_EXPIRE_AFTER_MS = push_bit 4 1"

record SetParams =
  set_flags :: u16
  expire_after_ms :: u64

definition SetParams_init :: SetParams where
  "SetParams_init = \<lparr>set_flags = 0, expire_after_ms = 0\<rparr>"

definition SetExisting :: "(string \<Rightarrow> string) \<Rightarrow> (string \<Rightarrow> u64) \<Rightarrow> (int \<Rightarrow> u64) \<Rightarrow> DbContext \<Rightarrow> SetParams \<Rightarrow> string \<Rightarrow> DbIterator
    \<Rightarrow> PrimeTable \<Rightarrow> PrimeTable option" where
  "SetExisting sm hs hi c params val it t = do {
     i \<leftarrow> deref hs hi t it;
     let at_ms = (if expire_after_ms params \<noteq> 0 then expire_after_ms params + time_now_ms c else 0);
     t \<leftarrow> (if set_flags params AND SET_KEEP_EXPIRE = 0
          then if at_ms \<noteq> 0 then AddExpire sm hs hi t it at_ms else map_option snd (RemoveExpire hs hi t it)
          else Some t);
     v \<leftarrow> it_second t i;
     Some (set_second t i (SetString v val)) }"

definition SetCmd_AddNew :: "(string \<Rightarrow> string) \<Rightarrow> (string \<Rightarrow> u64) \<Rightarrow> (int \<Rightarrow> u64) \<Rightarrow> DbContext \<Rightarrow> SetParams \<Rightarrow> DbIterator \<Rightarrow> string
    \<Rightarrow> PrimeTable \<Rightarrow> PrimeTable option" where
  "SetCmd_AddNew sm hs hi c params it val t = do {
     i \<leftarrow> deref hs hi t it;
     v \<leftarrow> it_second t i;
     let t = set_second t i (MoveValue (PrimeTablePolicy hs hi) v (CompactObj_str val));
     if expire_after_ms params \<noteq> 0 then AddExpire sm hs hi t it (expire_after_ms params + time_now_ms c) else Some t }"

definition SetCmd_Set :: "(string \<Rightarrow> string) \<Rightarrow> (string \<Rightarrow> u64) \<Rightarrow> (int \<Rightarrow> u64) \<Rightarrow> DbContext \<Rightarrow> SetParams \<Rightarrow> string \<Rightarrow> string
    \<Rightarrow> DbSlice \<Rightarrow> (OpStatus \<times> DbSlice) option" where
  "SetCmd_Set sm hs hi c params ky val sl = do {
     (r, sl) \<leftarrow> AddOrFind hs hi sl c ky None;
     t \<leftarrow> get_db sl (db_index c);
     t \<leftarrow> (if \<not> is_new (op_v r) then SetExisting sm hs hi c params val (upd_it (op_v r)) t
           else SetCmd_AddNew sm hs hi c params (upd_it (op_v r)) val t);
     Some (OK, put_db sl (db_index c) t) }"

text \<open>The loop of \<open>ParseSetParams\<close>; \<open>None\<close> when the fuel ends. The inner option is the \<open>ErrorReply\<close>
  alternative. The time after \<open>EX\<close> is not read.\<close>

fun ParseSetParams :: "nat \<Rightarrow> CmdArgParser \<Rightarrow> SetParams \<Rightarrow> SetParams option option" where
  "ParseSetParams 0 p sparams = None"
| "ParseSetParams (Suc fuel) p sparams =
     (if HasNext p
      then let (ok, p) = Check p ''EX''
           in if ok then if HasError p then Some None
                         else ParseSetParams fuel p (sparams\<lparr>set_flags := set_flags sparams OR SET_EXPIRE_AFTER_MS\<rparr>)
              else ParseSetParams fuel p sparams
      else Some (Some sparams))"

definition CmdSet :: "(string \<Rightarrow> string) \<Rightarrow> (string \<Rightarrow> u64) \<Rightarrow> (int \<Rightarrow> u64) \<Rightarrow> nat \<Rightarrow> Namespace \<Rightarrow> Transaction \<Rightarrow> string list \<Rightarrow> Reply" where
  "CmdSet sm hs hi fuel ns tx args = do {
     assert_opt (args \<noteq> []);
     let ((ky, val), p) = Next_pair (CmdArgParser_init (tl args));
     params_result \<leftarrow> ParseSetParams fuel p SetParams_init;
     sparams \<leftarrow> params_result;
     (res, ns) \<leftarrow> Scheduling ns tx (SetCmd_Set sm hs hi (db_cntx tx) sparams ky val);
     Some (if res = OK then BuildSimpleString ''OK'' else SendERROR, ns) }"

subsection \<open>GET\<close>

definition CmdGet :: "(string \<Rightarrow> u64) \<Rightarrow> (int \<Rightarrow> u64) \<Rightarrow> Namespace \<Rightarrow> Transaction \<Rightarrow> string list \<Rightarrow> Reply" where
  "CmdGet hs hi ns tx args = do {
     ky \<leftarrow> arg args 1;
     (res, ns) \<leftarrow> Scheduling ns tx (\<lambda>sl. do {
        it \<leftarrow> FindReadOnly hs hi sl (db_cntx tx) ky;
        i \<leftarrow> inner_it hs hi sl (db_cntx tx) it;
        case i of None \<Rightarrow> Some (OpResult_status '''' KEY_NOTFOUND, sl)
        | Some i \<Rightarrow> do {
            t \<leftarrow> get_db sl (db_index (db_cntx tx));
            v \<leftarrow> it_second t i;
            s \<leftarrow> ToString v;
            Some (OpResult_value s, sl) } });
     Some (if op_ok res then BuildBulkString (op_v res) else SendERROR, ns) }"

subsection \<open>The command tables\<close>

datatype Handler = HSet | HGet | HDelex | HPing | HExists | HExpire | HTtl | HClient_Info | HShutDown

record CommandId =
  cmd_name :: string
  cmd_arity :: int
  first_key :: int
  last_key :: int
  cmd_family :: nat
  support_async :: bool
  cmd_handler :: "Handler option"

definition CommandId_init :: "string \<Rightarrow> int \<Rightarrow> int \<Rightarrow> int \<Rightarrow> CommandId" where
  "CommandId_init nm arity fk lk = \<lparr>cmd_name = nm, cmd_arity = arity, first_key = fk, last_key = lk, cmd_family = 0,
     support_async = False, cmd_handler = None\<rparr>"

definition SetHandler :: "CommandId \<Rightarrow> Handler \<Rightarrow> bool \<Rightarrow> CommandId" where
  "SetHandler ci f async = ci\<lparr>support_async := support_async ci \<or> async, cmd_handler := Some f\<rparr>"

definition SetAsyncHandler :: "CommandId \<Rightarrow> Handler \<Rightarrow> CommandId" where
  "SetAsyncHandler ci f = ci\<lparr>support_async := True, cmd_handler := Some f\<rparr>"

definition Clone :: "CommandId \<Rightarrow> string \<Rightarrow> CommandId" where
  "Clone ci nm = (CommandId_init nm (cmd_arity ci) (first_key ci) (last_key ci))\<lparr>cmd_handler := cmd_handler ci\<rparr>"

record CommandRegistry =
  cmd_map :: "(string \<times> CommandId) list"
  family_of_commands :: "string list list"

definition CommandRegistry_init :: CommandRegistry where
  "CommandRegistry_init = \<lparr>cmd_map = [], family_of_commands = []\<rparr>"

text \<open>\<open>operator<<\<close>: \<open>emplace\<close> keeps a command that is already there. The family is an unsigned number and
  wraps when no family was started.\<close>

definition reg_add :: "CommandRegistry \<Rightarrow> CommandId \<Rightarrow> CommandRegistry" where
  "reg_add r cmd =
     (let cmd = cmd\<lparr>cmd_family := (length (family_of_commands r) + (2 ^ 64 - 1)) mod 2 ^ 64\<rparr>
      in if map_of (cmd_map r) (cmd_name cmd) = None then r\<lparr>cmd_map := (cmd_name cmd, cmd) # cmd_map r\<rparr> else r)"

definition StartFamily :: "CommandRegistry \<Rightarrow> CommandRegistry" where
  "StartFamily r = r\<lparr>family_of_commands := family_of_commands r @ [[]]\<rparr>"

definition GetFamilies :: "CommandRegistry \<Rightarrow> string list list \<times> CommandRegistry" where
  "GetFamilies r = (family_of_commands r, r\<lparr>family_of_commands := []\<rparr>)"

definition reg_Find :: "CommandRegistry \<Rightarrow> string \<Rightarrow> CommandId option" where
  "reg_Find r cmd = map_of (cmd_map r) cmd"

definition RegisterStringFamily :: "CommandRegistry \<Rightarrow> CommandRegistry" where
  "RegisterStringFamily r = foldl reg_add (StartFamily r)
     [SetAsyncHandler (CommandId_init ''SET'' (-3) 1 1) HSet, SetAsyncHandler (CommandId_init ''GET'' 2 1 1) HGet]"

definition RegisterGeneric :: "CommandRegistry \<Rightarrow> CommandRegistry" where
  "RegisterGeneric r = foldl reg_add (StartFamily r)
     [SetHandler (CommandId_init ''DEL'' (-2) 1 (-1)) HDelex False,
      SetHandler (CommandId_init ''PING'' (-1) 0 0) HPing False,
      SetHandler (CommandId_init ''EXISTS'' (-2) 1 (-1)) HExists False,
      SetHandler (CommandId_init ''EXPIRE'' (-3) 1 1) HExpire False,
      SetHandler (CommandId_init ''TTL'' 2 1 1) HTtl False,
      SetHandler (CommandId_init ''CLIENT'' (-4) 0 0) HClient_Info False,
      SetHandler (CommandId_init ''SHUTDOWN'' 1 0 0) HShutDown False]"

text \<open>\<open>Invoke\<close>; the flag says whether the server goes on.\<close>

definition Invoke :: "(string \<Rightarrow> string) \<Rightarrow> (string \<Rightarrow> u64) \<Rightarrow> (int \<Rightarrow> u64) \<Rightarrow> nat \<Rightarrow> CommandId \<Rightarrow> Namespace \<Rightarrow> Transaction \<Rightarrow> string list
    \<Rightarrow> (string \<times> Namespace \<times> bool) option" where
  "Invoke sm hs hi fuel ci ns tx args = do {
     h \<leftarrow> cmd_handler ci;
     if h = HShutDown then Some ('''', ns, False)
     else do {
       (s, ns) \<leftarrow> (case h of
           HSet \<Rightarrow> CmdSet sm hs hi fuel ns tx args
         | HGet \<Rightarrow> CmdGet hs hi ns tx args
         | HDelex \<Rightarrow> Delex hs hi ns tx args
         | HPing \<Rightarrow> Ping ns args
         | HExists \<Rightarrow> CmdExists hs hi ns tx args
         | HExpire \<Rightarrow> Expire sm hs hi ns tx args
         | HTtl \<Rightarrow> Ttl hs hi ns tx args
         | HClient_Info \<Rightarrow> Client_Info ns args
         | HShutDown \<Rightarrow> None);
       Some (s, ns, True) } }"

end
