(* ===== verification/Commands_Correct.thy ===== *)
theory Commands_Correct
  imports Commands Db_Props
begin

text \<open>
  What the commands do to the database of their shard and what they reply.
\<close>

subsection \<open>On a slice\<close>

lemma inner_it_find:
  assumes "get_db sl (db_index c) = Some t" "db_inv hs hi t" "Table_Find (PrimeTablePolicy hs hi) t ky = r"
  shows "inner_it hs hi sl c \<lparr>inner = r, it_skey = FromView ky\<rparr> = Some r"
proof (cases r)
  case (Some i)
  then have "tit_points t i" "key_view (tit_key t i) = ky" using prime.Find_iff(2) [OF assms(2)] assms(3) by auto
  then show ?thesis using GetInnerIt_hit(1) [OF assms(2), of "\<lparr>inner = r, it_skey = FromView ky\<rparr>" i] Some assms(1) by (simp add: inner_it_def)
qed (simp add: inner_it_def)

lemma SetString_eq: "SetString v s = CompactObj_str s"
  by (cases v) (simp add: SetString_def CompactObj_str_eq)

lemma MoveValue_str: "MoveValue (PrimeTablePolicy hs hi) v (CompactObj_str s) = CompactObj_str s"
  using plain_move [OF plain_str] by (simp add: PrimeTablePolicy_def)

text \<open>Tables whose keys and values are strings and whose keys have no expiry time.\<close>

definition strings_db :: "PrimeTable \<Rightarrow> bool" where
  "strings_db t \<longleftrightarrow> (\<forall>e \<in># tb_entries t. \<exists>k v. e = (CompactObj_str k, CompactObj_str v))"

lemma strings_add: "tb_entries t' = add_mset (CompactObj_str k, CompactObj_str v) M \<Longrightarrow> tb_entries t = add_mset e M \<Longrightarrow> strings_db t \<Longrightarrow> strings_db t'"
  by (auto simp: strings_db_def)

lemma strings_plain: "strings_db t \<Longrightarrow> plain_db t"
  by (fastforce simp: strings_db_def plain_db_def)

lemma strings_rekeyed:
  assumes "rekeyed hs hi t i (CompactObj_str ky) t'" "strings_db t"
  shows "strings_db t'"
proof -
  obtain M where M: "tb_entries t = add_mset (tit_key t i, tit_value t i) M" "tb_entries t' = add_mset (CompactObj_str ky, tit_value t i) M"
    using assms(1) by (auto simp: rekeyed_def)
  then obtain v where "tit_value t i = CompactObj_str v" using assms(2) by (auto simp: strings_db_def)
  then show ?thesis using strings_add [OF _ M(1) assms(2)] M(2) by simp
qed

lemma strings_set_second:
  assumes "db_inv hs hi t" "tit_points t i" "strings_db t"
  shows "strings_db (set_second t i (CompactObj_str v))"
proof -
  obtain M where M: "tb_entries t = add_mset (tit_key t i, tit_value t i) M" "tb_entries (set_second t i (CompactObj_str v)) = add_mset (tit_key t i, CompactObj_str v) M"
    using prime.map_set_second(6) [OF assms(1,2), of "CompactObj_str v"] by blast
  then obtain k where "tit_key t i = CompactObj_str k" using assms(3) by (auto simp: strings_db_def)
  then show ?thesis using strings_add [OF _ M(1) assms(3)] M(2) by simp
qed

lemma SetExisting_spec:
  assumes inv: "db_inv hs hi t" and i: "tit_points t i" "key_view (tit_key t i) = ky" and d: "deref hs hi t it = Some i"
    and p: "expire_after_ms params = 0" "set_flags params AND SET_KEEP_EXPIRE = 0"
  shows "\<exists>t'. SetExisting sm hs hi c params val it t = Some t' \<and> db_inv hs hi t' \<and> db_map hs hi t' = (db_map hs hi t)(ky \<mapsto> CompactObj_str val) \<and>
    (strings_db t \<longrightarrow> strings_db t')"
proof -
  obtain t1 where t1: "RemoveExpire hs hi t it = Some (HasExpire (tit_key t i), t1)" "rekeyed hs hi t i (CompactObj_str ky) t1"
    using RemoveExpire_spec [OF inv i(1) d] i(2) by auto
  have r: "db_inv hs hi t1" "db_map hs hi t1 = db_map hs hi t" "tit_points t1 i" "key_view (tit_key t1 i) = ky"
    using t1(2) prime.view_fresh by (auto simp: rekeyed_def)
  note s = prime.map_set_second [OF r(1,3), of "CompactObj_str val"]
  have "SetExisting sm hs hi c params val it t = Some (set_second t1 i (CompactObj_str val))"
    using d t1(1) p tit_content(2) [OF r(3)] by (simp add: SetExisting_def SetString_eq)
  then show ?thesis using s(1,2) r(2,4) strings_set_second [OF r(1,3)] strings_rekeyed [OF t1(2)] by simp
qed

lemma SetCmd_Set_spec:
  assumes db: "get_db sl (db_index c) = Some t" and inv: "db_inv hs hi t"
    and new: "db_map hs hi t ky = None \<longrightarrow> plain_db t \<and> room (PrimeTablePolicy hs hi) t (hs ky) D"
    and p: "expire_after_ms params = 0" "set_flags params AND SET_KEEP_EXPIRE = 0"
  shows "\<exists>t'. SetCmd_Set sm hs hi c params ky val sl = Some (OK, put_db sl (db_index c) t') \<and> db_inv hs hi t' \<and>
    db_map hs hi t' = (db_map hs hi t)(ky \<mapsto> CompactObj_str val) \<and> (strings_db t \<longrightarrow> strings_db t')"
proof (cases "db_map hs hi t ky")
  case None
  have reg: "all_regular (PrimeTablePolicy hs hi) t" "room (PrimeTablePolicy hs hi) t (hs ky) D"
    using plain_table new None by (simp_all add: plain_db_def)
  obtain i t1 w where a: "AddOrFind hs hi sl c ky None =
       Some (OpResult_value \<lparr>upd_it = \<lparr>inner = Some i, it_skey = FromView ky\<rparr>, is_new = True\<rparr>, put_db sl (db_index c) t1)"
    "db_inv hs hi t1" "tit_points t1 i" "tit_key t1 i = CompactObj_str ky" "tit_value t1 i = w"
    "tb_entries t1 = add_mset (CompactObj_str ky, w) (tb_entries t)" "db_map hs hi t1 = (db_map hs hi t)(ky \<mapsto> w)"
    by (rule AddOrFind_new [OF db inv None reg])
  let ?it = "\<lparr>inner = Some i, it_skey = FromView ky\<rparr>"
  have vk: "key_view (tit_key t1 i) = ky" using a(4) prime.view_fresh by simp
  have d: "deref hs hi t1 ?it = Some i" using GetInnerIt_hit(2) [OF a(2) _ a(3), of ?it] vk by simp
  note s = prime.map_set_second [OF a(2,3), of "CompactObj_str val"]
  have "SetCmd_Set sm hs hi c params ky val sl = Some (OK, put_db sl (db_index c) (set_second t1 i (CompactObj_str val)))"
    using a(1) d tit_content(2) [OF a(3)] p(1) db by (simp add: SetCmd_Set_def SetCmd_AddNew_def put_put_db MoveValue_str)
  moreover have "db_map hs hi (set_second t1 i (CompactObj_str val)) = (db_map hs hi t)(ky \<mapsto> CompactObj_str val)"
    using s(2) a(7) vk by simp
  moreover have "strings_db (set_second t1 i (CompactObj_str val))" if h: "strings_db t"
  proof -
    obtain M where M: "tb_entries t1 = add_mset (CompactObj_str ky, w) M" "tb_entries (set_second t1 i (CompactObj_str val)) = add_mset (CompactObj_str ky, CompactObj_str val) M"
      using s(6) a(4,5) by auto
    then have "M = tb_entries t" using a(6) by simp
    then show ?thesis using M(2) h by (auto simp: strings_db_def)
  qed
  ultimately show ?thesis using s(1) by blast
next
  case (Some v)
  then obtain i where i: "Table_Find (PrimeTablePolicy hs hi) t ky = Some i" by (auto simp: lookup_def)
  note f = prime.Find_iff(2) [OF inv i]
  let ?it = "\<lparr>inner = Some i, it_skey = FromView ky\<rparr>"
  have "deref hs hi t ?it = Some i" using GetInnerIt_hit(2) [OF inv, of ?it i] f by simp
  from SetExisting_spec [OF inv _ _ this p] f obtain t' where t': "SetExisting sm hs hi c params val ?it t = Some t'"
    "db_inv hs hi t'" "db_map hs hi t' = (db_map hs hi t)(ky \<mapsto> CompactObj_str val)" "strings_db t \<longrightarrow> strings_db t'" by blast
  then show ?thesis using AddOrFind_old [OF db inv i] db by (intro exI [of _ t']) (simp add: SetCmd_Set_def)
qed

lemma OpDel_step_spec:
  assumes db: "get_db sl (db_index c) = Some t" and inv: "db_inv hs hi t"
  shows "\<exists>t'. OpDel_step hs hi c ky (res, sl) = Some (if db_map hs hi t ky = None then res else res + 1, put_db sl (db_index c) t') \<and>
    db_inv hs hi t' \<and> db_map hs hi t' = (db_map hs hi t)(ky := None) \<and> (strings_db t \<longrightarrow> strings_db t')"
proof (cases "Table_Find (PrimeTablePolicy hs hi) t ky")
  case None
  then have m: "db_map hs hi t ky = None" by (simp add: lookup_def)
  have "FindMutable hs hi sl c ky = Some ItAndUpdater_init" using FindMutable_eq [OF db inv, of ky] None by simp
  then show ?thesis using m put_db_same [OF db] inv
    by (intro exI [of _ t]) (simp add: OpDel_step_def ItAndUpdater_init_def DbIterator_init_def inner_it_def IsValid_def fun_upd_idem)
next
  case (Some i)
  note f = prime.Find_iff(2) [OF inv Some]
  let ?it = "\<lparr>inner = Some i, it_skey = FromView ky\<rparr>"
  have u: "FindMutable hs hi sl c ky = Some \<lparr>upd_it = ?it, is_new = False\<rparr>" using FindMutable_eq [OF db inv, of ky] Some by simp
  have ii: "inner_it hs hi sl c ?it = Some (Some i)" using inner_it_find [OF db inv Some] .
  have d: "deref hs hi t ?it = Some i" using GetInnerIt_hit(2) [OF inv, of ?it i] f by simp
  obtain t' where t': "PerformDeletionAtomic hs hi t ?it = Some t'" "db_inv hs hi t'" "db_map hs hi t' = (db_map hs hi t)(ky := None)"
      "tb_entries t = add_mset (tit_key t i, tit_value t i) (tb_entries t')"
    using PerformDeletionAtomic_spec [OF inv _ d] f by auto
  then have str: "strings_db t \<longrightarrow> strings_db t'" by (simp add: strings_db_def)
  have "Del hs hi sl c ?it = Some (put_db sl (db_index c) t')" using t'(1) db by (simp add: Del_def)
  moreover have "db_map hs hi t ky \<noteq> None" using Some by (simp add: lookup_def)
  ultimately show ?thesis using u ii t'(2,3) str by (intro exI [of _ t']) (simp add: OpDel_step_def IsValid_def)
qed

subsection \<open>On a namespace\<close>

text \<open>The database of index 0 on the shard of a transaction.\<close>

definition tx_db :: "Namespace \<Rightarrow> Transaction \<Rightarrow> PrimeTable option" where
  "tx_db ns tx = do { sl \<leftarrow> GetDbSlice ns (unique_shard_id tx); get_db sl (db_index (db_cntx tx)) }"

definition put_tx_db :: "Namespace \<Rightarrow> Transaction \<Rightarrow> PrimeTable \<Rightarrow> Namespace" where
  "put_tx_db ns tx t = (case GetDbSlice ns (unique_shard_id tx) of None \<Rightarrow> ns
     | Some sl \<Rightarrow> ns[unique_shard_id tx := Some (put_db sl (db_index (db_cntx tx)) t)])"

lemma tx_dbE:
  assumes "tx_db ns tx = Some t"
  obtains sl where "unique_shard_id tx < length ns" "ns ! unique_shard_id tx = Some sl" "GetDbSlice ns (unique_shard_id tx) = Some sl"
    "get_db sl (db_index (db_cntx tx)) = Some t"
  using assms by (auto simp: tx_db_def GetDbSlice_def split: if_splits bind_splits)

lemma tx_db_put: "tx_db ns tx = Some t \<Longrightarrow> tx_db (put_tx_db ns tx t') tx = Some t'"
  by (erule tx_dbE) (simp add: tx_db_def put_tx_db_def GetDbSlice_def)

abbreviation tx_slice :: "Namespace \<Rightarrow> Transaction \<Rightarrow> DbSlice" where
  "tx_slice ns tx \<equiv> the (GetDbSlice ns (unique_shard_id tx))"

lemma Scheduling_eq:
  assumes "tx_db ns tx = Some t"
  shows "get_db (tx_slice ns tx) (db_index (db_cntx tx)) = Some t"
    "Scheduling ns tx cb = do { (r, sl') \<leftarrow> cb (tx_slice ns tx); Some (r, ns[unique_shard_id tx := Some sl']) }"
    "ns[unique_shard_id tx := Some (tx_slice ns tx)] = ns"
    "put_tx_db ns tx t' = ns[unique_shard_id tx := Some (put_db (tx_slice ns tx) (db_index (db_cntx tx)) t')]"
  by (rule tx_dbE [OF assms]; simp add: Scheduling_def put_tx_db_def list_update_same_conv)+

lemma put_tx_db_same: "tx_db ns tx = Some t \<Longrightarrow> put_tx_db ns tx t = ns"
  by (erule tx_dbE) (simp add: put_tx_db_def put_db_same list_update_same_conv)

subsection \<open>A fresh namespace\<close>

abbreviation tx4 :: "string list \<Rightarrow> Transaction" where "tx4 \<equiv> InitByArgs (\<lambda>_. 0) 4 0 0"

lemma tx4_facts [simp]: "unique_shard_id (tx4 args) = 0" "db_index (db_cntx (tx4 args)) = 0" "full_args (tx4 args) = args"
  by (simp_all add: InitByArgs_def Let_def Shard_def)

lemma fresh_ns_db: "unique_shard_id tx < n \<Longrightarrow> db_index (db_cntx tx) = 0 \<Longrightarrow> tx_db (fresh_ns n) tx = Some fresh_prime"
  by (simp add: tx_db_def fresh_ns_def GetDbSlice_def get_db_def DbTable_init_def fresh_prime_def)

lemma tx_db_cong: "unique_shard_id tx' = unique_shard_id tx \<Longrightarrow> db_index (db_cntx tx') = db_index (db_cntx tx) \<Longrightarrow> tx_db ns tx' = tx_db ns tx"
  by (simp add: tx_db_def)

subsection \<open>The commands\<close>

lemma Next_pair_init: "Next_pair (CmdArgParser_init (a # b # as)) = ((a, b), \<lparr>cur_i = 2, parser_args = a # b # as, parser_error = NO_ERROR\<rparr>)"
  by (simp add: Next_pair_def CmdArgParser_init_def SafeSV_def)

lemma CmdSet_run:
  assumes "tx_db ns tx = Some t" "db_inv hs hi t"
    "db_map hs hi t ky = None \<longrightarrow> plain_db t \<and> room (PrimeTablePolicy hs hi) t (hs ky) D"
  shows "\<exists>t'. CmdSet sm hs hi 1 ns tx [''SET'', ky, val] = Some (BuildSimpleString ''OK'', put_tx_db ns tx t') \<and> db_inv hs hi t' \<and>
    db_map hs hi t' = (db_map hs hi t)(ky \<mapsto> CompactObj_str val) \<and> (strings_db t \<longrightarrow> strings_db t')"
proof -
  note sl = Scheduling_eq(1) [OF assms(1)] and sch = Scheduling_eq(2) [OF assms(1)]
    and same = Scheduling_eq(3) [OF assms(1)] and put = Scheduling_eq(4) [OF assms(1)]
  obtain t' where t': "SetCmd_Set sm hs hi (db_cntx tx) SetParams_init ky val (tx_slice ns tx) = Some (OK, put_db (tx_slice ns tx) (db_index (db_cntx tx)) t')"
    "db_inv hs hi t'" "db_map hs hi t' = (db_map hs hi t)(ky \<mapsto> CompactObj_str val)" "strings_db t \<longrightarrow> strings_db t'"
    using SetCmd_Set_spec [OF sl assms(2,3), of SetParams_init] by (auto simp: SetParams_init_def)
  show ?thesis
    using t' by (intro exI [of _ t']) (simp add: CmdSet_def Next_pair_init HasNext_def sch put)
qed



lemma CmdGet_run:
  assumes "tx_db ns tx = Some t" "db_inv hs hi t" "\<forall>v. db_map hs hi t ky = Some v \<longrightarrow> ToString v \<noteq> None"
  shows "CmdGet hs hi ns tx [''GET'', ky] = Some (case db_map hs hi t ky of
      None \<Rightarrow> SendERROR | Some v \<Rightarrow> BuildBulkString (the (ToString v)), ns)"
proof -
  note sl = Scheduling_eq(1) [OF assms(1)] and sch = Scheduling_eq(2) [OF assms(1)]
    and same = Scheduling_eq(3) [OF assms(1)] and put = Scheduling_eq(4) [OF assms(1)]
  let ?c = "db_cntx tx" and ?F = "Table_Find (PrimeTablePolicy hs hi) t ky"
  have f: "FindReadOnly hs hi (tx_slice ns tx) ?c ky = Some \<lparr>inner = ?F, it_skey = FromView ky\<rparr>" by (rule FindReadOnly_eq [OF sl assms(2)])
  have i: "inner_it hs hi (tx_slice ns tx) ?c \<lparr>inner = ?F, it_skey = FromView ky\<rparr> = Some ?F" by (rule inner_it_find [OF sl assms(2) refl])
  show ?thesis
  proof (cases ?F)
    case None
    then have m: "db_map hs hi t ky = None" by (simp add: lookup_def)
    show ?thesis using f i sl None m by (simp add: CmdGet_def arg_def sch same)
  next
    case (Some j)
    have p: "tit_points t j" "db_map hs hi t ky = Some (tit_value t j)" using prime.Find_iff(2) [OF assms(2) Some] Some by (auto simp: lookup_def)
    obtain s where s: "ToString (tit_value t j) = Some s" using assms(3) p(2) by auto
    show ?thesis using f i sl Some p s tit_content(2) [OF p(1)] by (simp add: CmdGet_def arg_def sch same)
  qed
qed

text \<open>(C21) \<open>GET key\<close> replies the value of the key as a bulk string, or an error when the key is not there;
  it changes nothing.\<close>

theorem CmdGet_correct:
  assumes "tx_db ns tx = Some t" "db_inv hs hi t" "\<forall>v. db_map hs hi t ky = Some v \<longrightarrow> ToString v \<noteq> None"
  shows "CmdGet hs hi ns tx [''GET'', ky] = Some (case db_map hs hi t ky of
      None \<Rightarrow> SendERROR | Some v \<Rightarrow> BuildBulkString (the (ToString v)), ns)"
  by (rule CmdGet_run [OF assms])

theorem CmdGet_correct_witness:
  "CmdGet (\<lambda>_. 0) (\<lambda>_. 0) (fresh_ns 4) (tx4 [''GET'', ''k'']) [''GET'', ''k''] = Some (SendERROR, fresh_ns 4)"
  using CmdGet_correct [OF fresh_ns_db fresh_prime_facts(6), of "tx4 [''GET'', ''k'']" 4 "\<lambda>_. 0" "\<lambda>_. 0" "''k''"] fresh_prime_facts(7) [of "\<lambda>_. 0" "\<lambda>_. 0"]
  by simp

lemma shard_keys_eq: "full_args tx = c # ky # kys \<Longrightarrow> shard_keys tx = Some [ky]"
  using sa_loop_from [of "GetShardArgs tx" 0 "Suc (Suc 0)"] by (simp add: shard_keys_def GetShardArgs_def Let_def sa_begin_def del: sa_loop.simps)

lemma CmdDel_run:
  assumes "tx_db ns tx = Some t" "db_inv hs hi t" "full_args tx = args" "args = c # ky # kys"
  shows "\<exists>t'. Delex hs hi ns tx args = Some (BuildInteger (if db_map hs hi t ky = None then 0 else 1), put_tx_db ns tx t') \<and>
    db_inv hs hi t' \<and> db_map hs hi t' = (db_map hs hi t)(ky := None) \<and> (strings_db t \<longrightarrow> strings_db t')"
proof -
  obtain t' where t': "OpDel_step hs hi (db_cntx tx) ky (0, tx_slice ns tx) =
      Some (if db_map hs hi t ky = None then 0 else 0 + 1, put_db (tx_slice ns tx) (db_index (db_cntx tx)) t')"
    "db_inv hs hi t'" "db_map hs hi t' = (db_map hs hi t)(ky := None)" "strings_db t \<longrightarrow> strings_db t'"
    using OpDel_step_spec [OF Scheduling_eq(1) [OF assms(1)] assms(2)] by blast
  have "shard_keys tx = Some [ky]" using shard_keys_eq assms(3,4) by simp
  then have "Delex hs hi ns tx args = Some (BuildInteger (if db_map hs hi t ky = None then 0 else 1), put_tx_db ns tx t')"
    using t'(1) assms(4) by (simp add: Delex_def CmdDel_def OpDel_def value_or_def OpResult_value_def op_ok_def Scheduling_eq(2,4) [OF assms(1)])
  then show ?thesis using t'(2-4) by blast
qed

text \<open>\<open>DEL key ...\<close> deletes its first key, replies \<open>1\<close> when the key was there and \<open>0\<close> when not, and leaves
  every other key; the keys after the first are ignored.\<close>

theorem CmdDel_correct:
  assumes "tx_db ns tx = Some t" "db_inv hs hi t" "full_args tx = args" "args = c # ky # kys"
  shows "\<exists>t'. Delex hs hi ns tx args = Some (BuildInteger (if db_map hs hi t ky = None then 0 else 1), put_tx_db ns tx t') \<and>
    db_inv hs hi t' \<and> db_map hs hi t' = (db_map hs hi t)(ky := None)"
  using CmdDel_run [OF assms] by blast

theorem CmdDel_correct_witness:
  "\<exists>ns. Delex (\<lambda>_. 0) (\<lambda>_. 0) (fresh_ns 4) (tx4 [''DEL'', ''a'', ''b'']) [''DEL'', ''a'', ''b''] = Some (BuildInteger 0, ns)"
proof -
  have db: "tx_db (fresh_ns 4) (tx4 [''DEL'', ''a'', ''b'']) = Some fresh_prime" by (rule fresh_ns_db) simp_all
  show ?thesis using CmdDel_correct [OF db fresh_prime_facts(6) tx4_facts(3) refl, of "\<lambda>_. 0" "\<lambda>_. 0"] fresh_prime_facts(7) [of "\<lambda>_. 0" "\<lambda>_. 0"] by auto
qed

lemma CmdExists_eq:
  assumes "tx_db ns tx = Some t" "db_inv hs hi t" "full_args tx = c # ky # kys"
  shows "CmdExists hs hi ns tx args = Some (BuildInteger (if db_map hs hi t ky = None then 0 else 1), ns)"
proof -
  note sl = Scheduling_eq(1) [OF assms(1)]
  let ?F = "Table_Find (PrimeTablePolicy hs hi) t ky" and ?c = "db_cntx tx"
  have f: "FindReadOnly hs hi (tx_slice ns tx) ?c ky = Some \<lparr>inner = ?F, it_skey = FromView ky\<rparr>" by (rule FindReadOnly_eq [OF sl assms(2)])
  have i: "inner_it hs hi (tx_slice ns tx) ?c \<lparr>inner = ?F, it_skey = FromView ky\<rparr> = Some ?F" by (rule inner_it_find [OF sl assms(2) refl])
  have "IsValid ?F \<longleftrightarrow> db_map hs hi t ky \<noteq> None" by (auto simp: lookup_def IsValid_def)
  then show ?thesis using f i shard_keys_eq [OF assms(3)] by (simp add: CmdExists_def Exists_step_def Scheduling_eq(2,3) [OF assms(1)])
qed

subsection \<open>The options of SET\<close>

lemma ParseSetParams_stuck:
  "HasNext p \<Longrightarrow> \<not> list_all (\<lambda>a. EqualsIgnoreCaseStd a ''EX'') (Tail p) \<Longrightarrow> ParseSetParams fuel p sp = None"
proof (induction fuel arbitrary: p sp)
  case (Suc fuel)
  have c: "cur_i p < length (parser_args p)" "parser_error p = NO_ERROR" using Suc.prems(1) by (auto simp: HasNext_def)
  let ?p = "p\<lparr>cur_i := cur_i p + 1\<rparr>"
  have T: "Tail p = parser_args p ! cur_i p # Tail ?p" using c(1) by (simp add: Tail_def Cons_nth_drop_Suc)
  show ?case
  proof (cases "EqualsIgnoreCaseStd (parser_args p ! cur_i p) ''EX''")
    case True
    then have n: "\<not> list_all (\<lambda>a. EqualsIgnoreCaseStd a ''EX'') (Tail ?p)" using Suc.prems(2) T by simp
    then have "Tail ?p \<noteq> []" by auto
    then have h: "HasNext ?p" using c(2) by (simp add: HasNext_def Tail_def)
    have "Check p ''EX'' = (True, ?p)" using c(1) True by (simp add: Check_def SafeSV_nth)
    then show ?thesis using Suc.prems(1) Suc.IH [OF h n] c(2) by (simp add: HasError_def)
  next
    case False
    then have "Check p ''EX'' = (False, p)" using c(1) by (simp add: Check_def SafeSV_nth)
    then show ?thesis using Suc.prems Suc.IH by simp
  qed
qed simp

lemma ParseSetParams_returns:
  "parser_error p = NO_ERROR \<Longrightarrow> list_all (\<lambda>a. EqualsIgnoreCaseStd a ''EX'') (Tail p) \<Longrightarrow> length (Tail p) < fuel \<Longrightarrow>
     \<exists>sp'. ParseSetParams fuel p sp = Some (Some sp') \<and> expire_after_ms sp' = expire_after_ms sp"
proof (induction fuel arbitrary: p sp)
  case (Suc fuel)
  show ?case
  proof (cases "HasNext p")
    case True
    then have c: "cur_i p < length (parser_args p)" by (auto simp: HasNext_def)
    let ?p = "p\<lparr>cur_i := cur_i p + 1\<rparr>"
    have T: "Tail p = parser_args p ! cur_i p # Tail ?p" using c by (simp add: Tail_def Cons_nth_drop_Suc)
    then have "Check p ''EX'' = (True, ?p)" using c Suc.prems(2) by (simp add: Check_def SafeSV_nth)
    moreover have "\<exists>sp'. ParseSetParams fuel ?p (sp\<lparr>set_flags := set_flags sp OR SET_EXPIRE_AFTER_MS\<rparr>) = Some (Some sp') \<and>
        expire_after_ms sp' = expire_after_ms (sp\<lparr>set_flags := set_flags sp OR SET_EXPIRE_AFTER_MS\<rparr>)"
      by (rule Suc.IH) (use Suc.prems T in auto)
    ultimately show ?thesis using True Suc.prems(1) by (simp add: HasError_def)
  qed simp
qed simp

text \<open>(C22) The parser of the options of \<open>SET\<close> returns exactly when every option is \<open>EX\<close>; the expiry time stays 0
  then. With any other option, such as the time after \<open>EX\<close>, the loop never ends.\<close>

theorem ParseSetParams_ends_iff:
  assumes "parser_error p = NO_ERROR"
  shows "(\<exists>fuel r. ParseSetParams fuel p sp = Some r) = list_all (\<lambda>a. EqualsIgnoreCaseStd a ''EX'') (Tail p)"
proof
  assume "\<exists>fuel r. ParseSetParams fuel p sp = Some r"
  then obtain fuel r where r: "ParseSetParams fuel p sp = Some r" by blast
  show "list_all (\<lambda>a. EqualsIgnoreCaseStd a ''EX'') (Tail p)"
  proof (cases "HasNext p")
    case True
    then show ?thesis using ParseSetParams_stuck r by fastforce
  next
    case False
    then have "Tail p = []" using assms by (simp add: HasNext_def Tail_def)
    then show ?thesis by simp
  qed
next
  assume "list_all (\<lambda>a. EqualsIgnoreCaseStd a ''EX'') (Tail p)"
  then show "\<exists>fuel r. ParseSetParams fuel p sp = Some r" using ParseSetParams_returns [OF assms _ lessI] by blast
qed

theorem ParseSetParams_ends_iff_witness:
  "\<not> (\<exists>fuel r. ParseSetParams fuel (snd (Next_pair (CmdArgParser_init [''k'', ''v'', ''EX'', ''10'']))) SetParams_init = Some r)"
proof -
  have p: "snd (Next_pair (CmdArgParser_init [''k'', ''v'', ''EX'', ''10''])) = \<lparr>cur_i = 2, parser_args = [''k'', ''v'', ''EX'', ''10''], parser_error = NO_ERROR\<rparr>"
    by (simp add: Next_pair_init)
  have n: "\<not> EqualsIgnoreCaseStd ''10'' ''EX''" by code_simp
  show ?thesis unfolding p using n ParseSetParams_ends_iff [of "\<lparr>cur_i = 2, parser_args = [''k'', ''v'', ''EX'', ''10''], parser_error = NO_ERROR\<rparr>" SetParams_init]
    by (simp add: Tail_def)
qed

end
