(* ===== verification/Hop.thy ===== *)
theory Hop
  imports Shard_Set Commands_Correct
begin

text \<open>
  The hop of a command to its shard, across threads: \<open>SingleHopWaiterT\<close> of \<open>cmd_support.hpp\<close> suspends the coroutine of the
  command, \<open>Transaction::Scheduling\<close> of \<open>transaction.cpp\<close> adds a job to the queue of the shard, and the worker of the shard
  runs the callback and resumes the coroutine. The theory \<open>Engine\<close> has the hop as one step, which the commands use; here the
  hops of many coroutines interleave with the passes of the workers.
\<close>

text \<open>The job captures the transaction, the callback and the handle of the coroutine.\<close>

record 'r job =
  job_handle :: nat
  job_tx :: Transaction
  job_cb :: "DbSlice \<Rightarrow> ('r \<times> DbSlice) option"

text \<open>\<open>en_resumed\<close> are the resumed coroutines with what their \<open>co_await\<close> returned, \<open>en_done\<close> the jobs in the order in which they ran.\<close>

record 'r engine =
  en_shards :: "'r job EngineShardSet"
  en_ns :: Namespace
  en_resumed :: "(nat \<times> 'r) list"
  en_done :: "'r job list"

definition engine_init :: "nat list \<Rightarrow> u32 \<Rightarrow> Namespace \<Rightarrow> 'r engine option" where
  "engine_init order sz ns = do { s \<leftarrow> shard_set_Init order sz; Some \<lparr>en_shards = s, en_ns = ns, en_resumed = [], en_done = []\<rparr> }"

definition job_shard :: "'r job \<Rightarrow> nat" where
  "job_shard j = unique_shard_id (job_tx j)"

text \<open>\<open>await_suspend\<close> and \<open>Scheduling\<close>.\<close>

definition Scheduling_add :: "'r job \<Rightarrow> 'r engine \<Rightarrow> 'r engine option" where
  "Scheduling_add j en = do {
     (_, s) \<leftarrow> shard_set_Add (job_handle j) (of_nat (job_shard j)) j (en_shards en);
     Some (en\<lparr>en_shards := s\<rparr>) }"

text \<open>The body of the job: the callback on the slice of the shard, then the resumption.\<close>

definition run_job :: "'r job \<Rightarrow> 'r engine \<Rightarrow> 'r engine option" where
  "run_job j en = do {
     (r, ns) \<leftarrow> Scheduling (en_ns en) (job_tx j) (job_cb j);
     Some (en\<lparr>en_ns := ns, en_resumed := en_resumed en @ [(job_handle j, r)], en_done := en_done en @ [j]\<rparr>) }"

text \<open>A pass of the worker of the shard \<open>i\<close>, which runs the task that it takes.\<close>

definition worker_pass :: "(nat \<Rightarrow> EventCount \<Rightarrow> EventCount option) \<Rightarrow> nat \<Rightarrow> 'r engine \<Rightarrow> 'r engine option" where
  "worker_pass cont i en = do {
     es \<leftarrow> (if i < length (es_shards (en_shards en)) then es_shards (en_shards en) ! i else None);
     q \<leftarrow> Run_pass cont (es_queue es);
     let en = en\<lparr>en_shards := (en_shards en)\<lparr>es_shards := (es_shards (en_shards en))[i := Some (es\<lparr>es_queue := q\<rparr>)]\<rparr>\<rparr>;
     foldM run_job (drop (length (tq_ran (es_queue es))) (tq_ran q)) en }"

datatype 'r engine_event = Hops "'r job" | Works nat

fun engine_step :: "(nat \<Rightarrow> EventCount \<Rightarrow> EventCount option) \<Rightarrow> 'r engine_event \<Rightarrow> 'r engine \<Rightarrow> 'r engine option" where
  "engine_step cont (Hops j) en = Scheduling_add j en"
| "engine_step cont (Works i) en = worker_pass cont i en"

subsection \<open>The atomic engine\<close>

text \<open>The jobs one after the other, each as the single step of the theory \<open>Engine\<close>.\<close>

definition atomic_step :: "'r job \<Rightarrow> Namespace \<times> (nat \<times> 'r) list \<Rightarrow> (Namespace \<times> (nat \<times> 'r) list) option" where
  "atomic_step j st = do { (r, ns) \<leftarrow> Scheduling (fst st) (job_tx j) (job_cb j); Some (ns, snd st @ [(job_handle j, r)]) }"

fun hops_at :: "nat \<Rightarrow> 'r engine_event list \<Rightarrow> 'r job list" where
  "hops_at i [] = []"
| "hops_at i (Hops j # evs) = (if job_shard j = i then [j] else []) @ hops_at i evs"
| "hops_at i (Works _ # evs) = hops_at i evs"

lemma hops_at_append: "hops_at i (evs @ evs') = hops_at i evs @ hops_at i evs'"
  by (induction i evs rule: hops_at.induct) auto

text \<open>The events name shards that exist, and never more than 64 jobs wait at a shard; \<open>w\<close> counts them.\<close>

fun hops_fit :: "nat \<Rightarrow> (nat \<Rightarrow> nat) \<Rightarrow> 'r engine_event list \<Rightarrow> bool" where
  "hops_fit m w [] \<longleftrightarrow> True"
| "hops_fit m w (Hops j # evs) \<longleftrightarrow> job_shard j < m \<and> w (job_shard j) < 64 \<and> hops_fit m (w(job_shard j := Suc (w (job_shard j)))) evs"
| "hops_fit m w (Works i # evs) \<longleftrightarrow> i < m \<and> hops_fit m (w(i := w i - 1)) evs"

text \<open>The callback of a job returns on every slice of its shard that satisfies \<open>P\<close>, and keeps \<open>P\<close>.\<close>

definition job_ok :: "(nat \<Rightarrow> DbSlice \<Rightarrow> bool) \<Rightarrow> 'r job \<Rightarrow> bool" where
  "job_ok P j \<longleftrightarrow> (\<forall>sl. P (job_shard j) sl \<longrightarrow> (\<exists>r sl'. job_cb j sl = Some (r, sl') \<and> P (job_shard j) sl'))"

definition slices_ok :: "(nat \<Rightarrow> DbSlice \<Rightarrow> bool) \<Rightarrow> nat \<Rightarrow> Namespace \<Rightarrow> bool" where
  "slices_ok P m ns \<longleftrightarrow> length ns = m \<and> (\<forall>i < m. \<exists>sl. ns ! i = Some sl \<and> P i sl)"

text \<open>At every shard the jobs that hopped are those that ran, in the order of the hops, followed by those that wait; the state is
  that of the atomic engine after the jobs that ran.\<close>

definition engine_inv :: "(nat \<Rightarrow> DbSlice \<Rightarrow> bool) \<Rightarrow> nat \<Rightarrow> Namespace \<Rightarrow> nat \<Rightarrow> (nat \<Rightarrow> 'r job list) \<Rightarrow> (nat \<Rightarrow> 'r job list) \<Rightarrow> 'r engine \<Rightarrow> bool" where
  "engine_inv P m ns0 k hops xs en \<longleftrightarrow> unat (es_size (en_shards en)) = m \<and> length (es_shards (en_shards en)) = m \<and>
     (\<forall>i < m. \<exists>es. es_shards (en_shards en) ! i = Some es \<and> tq_inv 64 k [] (xs i) (es_queue es)) \<and>
     (\<forall>i < m. hops i = filter (\<lambda>j. job_shard j = i) (en_done en) @ xs i \<and> (\<forall>j \<in> set (xs i). job_shard j = i \<and> job_ok P j)) \<and>
     (\<forall>j \<in> set (en_done en). job_shard j < m) \<and> slices_ok P m (en_ns en) \<and> foldM atomic_step (en_done en) (ns0, []) = Some (en_ns en, en_resumed en)"

lemma engine_inv_shard:
  assumes "engine_inv P m ns0 k hops xs en" "i < m"
  obtains es where "es_shards (en_shards en) ! i = Some es" "tq_inv 64 k [] (xs i) (es_queue es)"
  using assms by (auto simp: engine_inv_def)

lemma tq_inv_mono: "tq_inv n k ws xs tq \<Longrightarrow> k \<le> k' \<Longrightarrow> tq_inv n k' ws xs tq"
  by (auto simp: tq_inv_def intro: mpmc.holds_mono)

lemma engine_inv_put:
  assumes I: "engine_inv P m ns0 k hops xs en" and q: "tq_inv 64 (Suc k) [] ys q" and u: "i < m" "u < m"
  shows "\<exists>es'. (es_shards (en_shards en))[i := Some (es\<lparr>es_queue := q\<rparr>)] ! u = Some es' \<and> tq_inv 64 (Suc k) [] ((xs(i := ys)) u) (es_queue es')"
proof (cases "u = i")
  case True
  then show ?thesis using I q u by (simp add: engine_inv_def)
next
  case False
  obtain es' where "es_shards (en_shards en) ! u = Some es'" "tq_inv 64 k [] (xs u) (es_queue es')" by (rule engine_inv_shard [OF I u(2)])
  then show ?thesis using False tq_inv_mono [of 64 k "[]" "xs u" "es_queue es'" "Suc k"] by simp
qed

lemma Scheduling_add_inv:
  assumes I: "engine_inv P m ns0 k hops xs en" and k: "k < 2 ^ 59" and j: "job_shard j < m" "job_ok P j" and m: "m \<le> 65536"
    and fit: "length (xs (job_shard j)) < 64"
  shows "\<exists>en'. shard_set_Add (job_handle j) (of_nat (job_shard j)) j (en_shards en) = Some (False, en_shards en') \<and>
    Scheduling_add j en = Some en' \<and> en_done en' = en_done en \<and>
    engine_inv P m ns0 (Suc k) (hops(job_shard j := hops (job_shard j) @ [j])) (xs(job_shard j := xs (job_shard j) @ [j])) en'"
proof -
  let ?i = "job_shard j"
  obtain es where es: "es_shards (en_shards en) ! ?i = Some es" "tq_inv 64 k [] (xs ?i) (es_queue es)" by (rule engine_inv_shard [OF I j(1)])
  have len: "unat (es_size (en_shards en)) = m" "length (es_shards (en_shards en)) = m" using I by (auto simp: engine_inv_def)
  have idx: "unat (of_nat ?i :: u16) = ?i" using j(1) m by (simp add: unsigned_of_nat take_bit_nat_eq_self)
  obtain q where q: "Add_pass (job_handle j) j (es_queue es) = Some (False, q)" "tq_inv 64 (Suc k) [] (xs ?i @ [j]) q"
    using Add_pass_fits [OF es(2) k fit] by blast
  let ?s = "(en_shards en)\<lparr>es_shards := (es_shards (en_shards en))[?i := Some (es\<lparr>es_queue := q\<rparr>)]\<rparr>"
  have a: "shard_set_Add (job_handle j) (of_nat ?i) j (en_shards en) = Some (False, ?s)"
    using es(1) q(1) len idx j(1) by (simp add: shard_set_Add_def)
  then have "Scheduling_add j en = Some (en\<lparr>en_shards := ?s\<rparr>)" by (simp add: Scheduling_add_def)
  moreover have "engine_inv P m ns0 (Suc k) (hops(?i := hops ?i @ [j])) (xs(?i := xs ?i @ [j])) (en\<lparr>en_shards := ?s\<rparr>)"
    using I j len engine_inv_put [OF I q(2) j(1)] by (simp add: engine_inv_def)
  ultimately show ?thesis using a by simp
qed

lemma run_job_inv:
  assumes "slices_ok P m ns" "job_shard j < m" "job_ok P j"
  shows "\<exists>r ns'. Scheduling ns (job_tx j) (job_cb j) = Some (r, ns') \<and> slices_ok P m ns'"
proof -
  obtain sl where sl: "ns ! job_shard j = Some sl" "P (job_shard j) sl" "length ns = m" using assms(1,2) by (auto simp: slices_ok_def)
  then obtain r sl' where "job_cb j sl = Some (r, sl')" "P (job_shard j) sl'" using assms(3) by (auto simp: job_ok_def)
  then show ?thesis using sl assms(1,2) by (auto simp: Scheduling_def GetDbSlice_def slices_ok_def job_shard_def nth_list_update)
qed

lemma worker_pass_inv:
  assumes I: "engine_inv P m ns0 k hops xs en" and k: "k < 2 ^ 59" and i: "i < m"
  shows "\<exists>en'. worker_pass cont i en = Some en' \<and> en_done en' = en_done en @ take 1 (xs i) \<and> engine_inv P m ns0 (Suc k) hops (xs(i := tl (xs i))) en'"
proof -
  obtain es where es: "es_shards (en_shards en) ! i = Some es" "tq_inv 64 k [] (xs i) (es_queue es)" by (rule engine_inv_shard [OF I i])
  have len: "unat (es_size (en_shards en)) = m" "length (es_shards (en_shards en)) = m" using I by (auto simp: engine_inv_def)
  obtain q where q: "Run_pass cont (es_queue es) = Some q" "tq_inv 64 (Suc k) [] (tl (xs i)) q" "tq_ran q = tq_ran (es_queue es) @ take 1 (xs i)"
    using Run_pass_inv [OF es(2) k] by blast
  let ?s = "(en_shards en)\<lparr>es_shards := (es_shards (en_shards en))[i := Some (es\<lparr>es_queue := q\<rparr>)]\<rparr>"
  have w: "worker_pass cont i en = foldM run_job (take 1 (xs i)) (en\<lparr>en_shards := ?s\<rparr>)"
    using es(1) q(1,3) len i by (simp add: worker_pass_def Let_def)
  note sh = engine_inv_put [OF I q(2) i]
  show ?thesis
  proof (cases "xs i")
    case Nil
    then have "engine_inv P m ns0 (Suc k) hops (xs(i := tl (xs i))) (en\<lparr>en_shards := ?s\<rparr>)" using sh I len by (simp add: engine_inv_def)
    then show ?thesis using w Nil by simp
  next
    case (Cons j js)
    have j: "job_shard j = i" "job_ok P j" using I i Cons by (auto simp: engine_inv_def)
    obtain r ns' where r: "Scheduling (en_ns en) (job_tx j) (job_cb j) = Some (r, ns')" "slices_ok P m ns'"
      using run_job_inv [of P m "en_ns en" j] I i j by (auto simp: engine_inv_def)
    let ?en = "en\<lparr>en_shards := ?s, en_ns := ns', en_resumed := en_resumed en @ [(job_handle j, r)], en_done := en_done en @ [j]\<rparr>"
    have "worker_pass cont i en = Some ?en" using w r(1) Cons by (simp add: run_job_def)
    moreover have "foldM atomic_step (en_done en @ [j]) (ns0, []) = Some (ns', en_resumed en @ [(job_handle j, r)])"
      using I r(1) by (simp add: engine_inv_def foldM_append atomic_step_def)
    then have "engine_inv P m ns0 (Suc k) hops (xs(i := tl (xs i))) ?en" using sh I len r(2) Cons j(1) i by (simp add: engine_inv_def)
    ultimately show ?thesis using Cons by simp
  qed
qed

lemma engine_run:
  assumes m: "m \<le> 65536"
  shows "engine_inv P m ns0 k hops xs en \<Longrightarrow> k + length evs \<le> 2 ^ 59 \<Longrightarrow> hops_fit m (\<lambda>i. length (xs i)) (evs @ later) \<Longrightarrow>
    (\<forall>j. Hops j \<in> set evs \<longrightarrow> job_ok P j) \<Longrightarrow>
    \<exists>en' xs' d. foldM (engine_step cont) evs en = Some en' \<and> en_done en' = en_done en @ d \<and> hops_fit m (\<lambda>i. length (xs' i)) later \<and>
      engine_inv P m ns0 (k + length evs) (\<lambda>i. hops i @ hops_at i evs) xs' en'"
proof (induction evs arbitrary: k hops xs en)
  case Nil
  then show ?case by auto
next
  case (Cons ev evs)
  have k: "k < 2 ^ 59" "Suc k + length evs \<le> 2 ^ 59" using Cons.prems(2) by auto
  obtain en1 xs1 hops1 d1 where 1: "engine_step cont ev en = Some en1" "en_done en1 = en_done en @ d1" "engine_inv P m ns0 (Suc k) hops1 xs1 en1"
      "hops_fit m (\<lambda>i. length (xs1 i)) (evs @ later)" "\<And>i. hops1 i @ hops_at i evs = hops i @ hops_at i (ev # evs)"
  proof (cases ev)
    case (Hops j)
    let ?i = "job_shard j" and ?xs = "xs(job_shard j := xs (job_shard j) @ [j])"
    have fit: "?i < m" "length (xs ?i) < 64" "hops_fit m ((\<lambda>i. length (xs i))(?i := Suc (length (xs ?i)))) (evs @ later)" and ok: "job_ok P j"
      using Cons.prems(3,4) Hops by auto
    have "(\<lambda>i. length (xs i))(?i := Suc (length (xs ?i))) = (\<lambda>i. length (?xs i))" by auto
    then show ?thesis
      using that [of _ "[]" "hops(?i := hops ?i @ [j])" ?xs] Scheduling_add_inv [OF Cons.prems(1) k(1) fit(1) ok m fit(2)] fit(3) Hops by auto
  next
    case (Works i)
    let ?xs = "xs(i := tl (xs i))"
    have fit: "i < m" "hops_fit m ((\<lambda>i. length (xs i))(i := length (xs i) - 1)) (evs @ later)" using Cons.prems(3) Works by auto
    have "(\<lambda>i. length (xs i))(i := length (xs i) - 1) = (\<lambda>i. length (?xs i))" by auto
    then show ?thesis
      using that [of _ "take 1 (xs i)" hops ?xs] worker_pass_inv [OF Cons.prems(1) k(1) fit(1), of cont] fit(2) Works by auto
  qed
  obtain en' xs' d where "foldM (engine_step cont) evs en1 = Some en'" "en_done en' = en_done en1 @ d" "hops_fit m (\<lambda>i. length (xs' i)) later"
      "engine_inv P m ns0 (Suc k + length evs) (\<lambda>i. hops1 i @ hops_at i evs) xs' en'"
    using Cons.IH [OF 1(3) k(2) 1(4)] Cons.prems(4) by auto
  then show ?case using 1(1,2,5) by auto
qed

lemma drop_tl: "drop n (tl xs) = drop (Suc n) xs"
  by (cases xs) auto

lemma engine_drain:
  "engine_inv P m ns0 k hops xs en \<Longrightarrow> k + length ws \<le> 2 ^ 59 \<Longrightarrow> (\<forall>w \<in> set ws. w < m) \<Longrightarrow>
    \<exists>en' d. foldM (engine_step cont) (map Works ws) en = Some en' \<and> en_done en' = en_done en @ d \<and>
      engine_inv P m ns0 (k + length ws) hops (\<lambda>i. drop (count_list ws i) (xs i)) en'"
proof (induction ws arbitrary: k xs en)
  case (Cons w ws)
  obtain en1 where en1: "worker_pass cont w en = Some en1" "en_done en1 = en_done en @ take 1 (xs w)" "engine_inv P m ns0 (Suc k) hops (xs(w := tl (xs w))) en1"
    using worker_pass_inv [OF Cons.prems(1), of w cont] Cons.prems(2,3) by auto
  have eq: "(\<lambda>i. drop (count_list ws i) ((xs(w := tl (xs w))) i)) = (\<lambda>i. drop (count_list (w # ws) i) (xs i))" by (auto simp: drop_tl)
  show ?case using Cons.IH [OF en1(3)] Cons.prems(2,3) en1(1,2) unfolding eq by auto
qed auto

lemma drained:
  assumes "engine_inv P m ns0 k hops xs en" "i < m" "64 \<le> c"
  shows "drop c (xs i) = []"
proof -
  obtain es where "es_shards (en_shards en) ! i = Some es" "tq_inv 64 k [] (xs i) (es_queue es)" by (rule engine_inv_shard [OF assms(1,2)])
  then have "length (xs i) \<le> 64" using tq_flag by blast
  then show ?thesis using assms(3) by simp
qed

lemma engine_init_inv:
  assumes "mset order = mset [0..<unat sz]" "sz \<le> 65536" "slices_ok P (unat sz) ns"
  shows "\<exists>en :: 'r engine. engine_init order sz ns = Some en \<and> engine_inv P (unat sz) ns 0 (\<lambda>_. []) (\<lambda>_. []) en"
proof -
  obtain s :: "'r job EngineShardSet" where s: "shard_set_Init order sz = Some s" "shards_hold (unat sz) 0 (\<lambda>_. []) s"
    using shard_set_Init_holds [OF assms(1,2)] by blast
  then have "\<exists>es. es_shards s ! i = Some es \<and> tq_inv 64 0 [] [] (es_queue es)" if "i < unat sz" for i using that by (auto simp: shards_hold_def)
  then show ?thesis using s assms(3) by (simp add: engine_init_def engine_inv_def shards_hold_def)
qed


text \<open>A job that looks a key up in the first database.\<close>

definition find_job :: "nat \<Rightarrow> string \<Rightarrow> bool job" where
  "find_job h ky = \<lparr>job_handle = h, job_tx = tx4 [''GET'', ky],
     job_cb = (\<lambda>sl. do { it \<leftarrow> FindReadOnly (\<lambda>_. 0) (\<lambda>_. 0) sl (db_cntx (tx4 [''GET'', ky])) ky; Some (inner it \<noteq> None, sl) })\<rparr>"

lemma find_job_ok: "job_ok (\<lambda>_ sl. get_db sl 0 = Some fresh_prime) (find_job h ky)"
proof -
  have "\<exists>r. job_cb (find_job h ky) sl = Some (r, sl)" if "get_db sl 0 = Some fresh_prime" for sl
    using FindReadOnly_eq [of sl "db_cntx (tx4 [''GET'', ky])" fresh_prime "\<lambda>_. 0" "\<lambda>_. 0" ky] that fresh_prime_facts(6) by (simp add: find_job_def)
  then show ?thesis by (fastforce simp: job_ok_def)
qed

lemma find_job_shard: "job_shard (find_job h ky) = 0"
  by (simp add: job_shard_def find_job_def)

lemma unat_2: "unat (2 :: u32) = 2"
  by simp

lemma two_shards: "mset [1, 0] = mset [0..<unat (2 :: u32)]"
  unfolding unat_2 by (simp add: upt_rec)

lemma fresh_slices: "slices_ok (\<lambda>_ sl. get_db sl 0 = Some fresh_prime) (unat (2 :: u32)) (fresh_ns 2)"
  unfolding unat_2 slices_ok_def by (auto simp: fresh_ns_def get_db_def DbTable_init_def fresh_prime_def)

abbreviation two_workers :: "nat list" where
  "two_workers \<equiv> replicate 64 1 @ replicate 64 0"

lemma two_workers_ok:
  "\<forall>w \<in> set two_workers. w < unat (2 :: u32)" "\<forall>i < unat (2 :: u32). 64 \<le> count_list two_workers i"
proof -
  have c: "count_list (replicate n x) y = (if x = y then n else 0)" for n and x y :: nat by (induction n) auto
  show "\<forall>w \<in> set two_workers. w < unat (2 :: u32)" by (auto simp: unat_2)
  show "\<forall>i < unat (2 :: u32). 64 \<le> count_list two_workers i" unfolding unat_2 by (auto simp: count_list_append c less_2_cases_iff)
qed


end
