(* ===== verification/Server_Steps.thy ===== *)
theory Server_Steps
  imports Hop
begin

text \<open>
  The server as a transition system: clients that send one command at a time and wait for its answer, over the shards of the
  theory \<open>Hop\<close>. A command is the job that its handler hops with; \<open>J\<close> are the jobs that the handlers make. The session
  (\<open>redis_server.hpp\<close>) and its buffers are in the theory \<open>Session\<close>.
\<close>

datatype 'r client = Thinking | Waiting "'r job" | Answered 'r

record 'r server =
  sv_engine :: "'r engine"
  sv_client :: "nat \<Rightarrow> 'r client"

definition server_init :: "nat list \<Rightarrow> u32 \<Rightarrow> Namespace \<Rightarrow> 'r server option" where
  "server_init order sz ns = do { en \<leftarrow> engine_init order sz ns; Some \<lparr>sv_engine = en, sv_client = (\<lambda>_. Thinking)\<rparr> }"

text \<open>The coroutines that a pass of a worker resumed answer their clients.\<close>

definition answers :: "'r engine \<Rightarrow> 'r engine \<Rightarrow> (nat \<Rightarrow> 'r client) \<Rightarrow> nat \<Rightarrow> 'r client" where
  "answers en en' = fold (\<lambda>(c, r) f. f(c := Answered r)) (drop (length (en_resumed en)) (en_resumed en'))"

text \<open>A client sends a command; a worker makes a pass; a client reads its answer.\<close>

inductive server_step :: "(nat \<Rightarrow> EventCount \<Rightarrow> EventCount option) \<Rightarrow> nat \<Rightarrow> 'r job set \<Rightarrow> 'r server \<Rightarrow> 'r server \<Rightarrow> bool" for cont n J where
  request: "j \<in> J \<Longrightarrow> job_handle j < n \<Longrightarrow> sv_client s (job_handle j) = Thinking \<Longrightarrow> Scheduling_add j (sv_engine s) = Some en \<Longrightarrow>
    server_step cont n J s (s\<lparr>sv_engine := en, sv_client := (sv_client s)(job_handle j := Waiting j)\<rparr>)"
| work: "i < length (es_shards (en_shards (sv_engine s))) \<Longrightarrow> worker_pass cont i (sv_engine s) = Some en \<Longrightarrow>
    server_step cont n J s (s\<lparr>sv_engine := en, sv_client := answers (sv_engine s) en (sv_client s)\<rparr>)"
| receive: "sv_client s c = Answered r \<Longrightarrow> server_step cont n J s (s\<lparr>sv_client := (sv_client s)(c := Thinking)\<rparr>)"

text \<open>The states after \<open>k\<close> steps.\<close>

inductive server_reach :: "(nat \<Rightarrow> EventCount \<Rightarrow> EventCount option) \<Rightarrow> nat \<Rightarrow> 'r job set \<Rightarrow> 'r server \<Rightarrow> nat \<Rightarrow> 'r server \<Rightarrow> bool" for cont n J s0 where
  start: "server_reach cont n J s0 0 s0"
| next_state: "server_reach cont n J s0 k s \<Longrightarrow> server_step cont n J s s' \<Longrightarrow> server_reach cont n J s0 (Suc k) s'"

inductive_cases server_stepE: "server_step cont n J s s'"

text \<open>The job \<open>j\<close> of a waiting client is finished by passes of the workers: its coroutine is resumed.\<close>

definition resumes :: "(nat \<Rightarrow> EventCount \<Rightarrow> EventCount option) \<Rightarrow> nat list \<Rightarrow> nat \<Rightarrow> 'r engine \<Rightarrow> bool" where
  "resumes cont ws c en = (case foldM (engine_step cont) (map Works ws) en of None \<Rightarrow> False
     | Some en' \<Rightarrow> c \<in> fst ` set (drop (length (en_resumed en)) (en_resumed en')))"

subsection \<open>The invariant\<close>

text \<open>The jobs in the queues are those of the waiting clients, one for each; an answer is the last result of its client.\<close>

definition clients_ok :: "nat \<Rightarrow> nat \<Rightarrow> (nat \<Rightarrow> 'r job list) \<Rightarrow> 'r server \<Rightarrow> bool" where
  "clients_ok m n xs s \<longleftrightarrow>
     (\<forall>c j. sv_client s c = Waiting j \<longrightarrow> job_handle j = c \<and> c < n \<and> job_shard j < m \<and> j \<in> set (xs (job_shard j))) \<and>
     (\<forall>i < m. distinct (map job_handle (xs i)) \<and> (\<forall>j \<in> set (xs i). job_shard j = i \<and> sv_client s (job_handle j) = Waiting j)) \<and>
     (\<forall>c r. sv_client s c = Answered r \<longrightarrow> map_of (rev (en_resumed (sv_engine s))) c = Some r)"

definition jobs_from :: "nat \<Rightarrow> 'r job set \<Rightarrow> (nat \<Rightarrow> 'r job list) \<Rightarrow> 'r engine \<Rightarrow> bool" where
  "jobs_from m J xs en \<longleftrightarrow> set (en_done en) \<subseteq> J \<and> (\<forall>i < m. set (xs i) \<subseteq> J)"

definition server_inv :: "(nat \<Rightarrow> DbSlice \<Rightarrow> bool) \<Rightarrow> nat \<Rightarrow> nat \<Rightarrow> 'r job set \<Rightarrow> Namespace \<Rightarrow> nat \<Rightarrow> 'r server \<Rightarrow> bool" where
  "server_inv P m n J ns0 k s \<longleftrightarrow> (\<exists>hops xs. engine_inv P m ns0 k hops xs (sv_engine s) \<and> clients_ok m n xs s \<and> jobs_from m J xs (sv_engine s))"

lemma clients_okD:
  assumes "clients_ok m n xs s"
  shows "sv_client s c = Waiting j \<Longrightarrow> job_handle j = c \<and> c < n \<and> job_shard j < m \<and> j \<in> set (xs (job_shard j))"
    "i < m \<Longrightarrow> distinct (map job_handle (xs i))" "i < m \<Longrightarrow> j \<in> set (xs i) \<Longrightarrow> job_shard j = i \<and> sv_client s (job_handle j) = Waiting j"
    "sv_client s c = Answered r \<Longrightarrow> map_of (rev (en_resumed (sv_engine s))) c = Some r"
  using assms unfolding clients_ok_def by blast+

lemma queue_room:
  assumes "clients_ok m n xs s" "sv_client s c = Thinking" "c < n" "i < m"
  shows "length (xs i) < n"
proof -
  note d = clients_okD(2) [OF assms(1,4)]
  have "job_handle j \<in> {..<n} - {c}" if "j \<in> set (xs i)" for j
    using clients_okD(3) [OF assms(1,4) that] clients_okD(1) [OF assms(1), of "job_handle j" j] assms(2) by auto
  then have "set (map job_handle (xs i)) \<subseteq> {..<n} - {c}" by auto
  then have "card (set (map job_handle (xs i))) \<le> card ({..<n} - {c})" by (intro card_mono) auto
  then show ?thesis using d assms(3) by (simp add: distinct_card del: set_map)
qed

lemma engine_inv_Suc:
  assumes "engine_inv P m ns0 k hops xs en"
  shows "engine_inv P m ns0 (Suc k) hops xs en"
proof -
  have "\<exists>es. es_shards (en_shards en) ! i = Some es \<and> tq_inv 64 (Suc k) [] (xs i) (es_queue es)" if i: "i < m" for i
  proof -
    obtain es where "es_shards (en_shards en) ! i = Some es" "tq_inv 64 k [] (xs i) (es_queue es)" by (rule engine_inv_shard [OF assms i])
    then show ?thesis using tq_inv_mono [of 64 k "[]" "xs i" "es_queue es" "Suc k"] by simp
  qed
  then show ?thesis using assms by (simp add: engine_inv_def)
qed

lemma atomic_resumed:
  "foldM atomic_step js (ns, rs) = Some (ns', rs') \<Longrightarrow> \<exists>ys. rs' = rs @ ys \<and> map fst ys = map job_handle js"
proof (induction js arbitrary: ns rs)
  case (Cons j js)
  obtain r ns1 where "foldM atomic_step js (ns1, rs @ [(job_handle j, r)]) = Some (ns', rs')"
    using Cons.prems by (auto simp: atomic_step_def [of j] split: bind_splits prod.splits)
  then obtain ys where "rs' = (rs @ [(job_handle j, r)]) @ ys" "map fst ys = map job_handle js" using Cons.IH by blast
  then show ?case by (intro exI [of _ "(job_handle j, r) # ys"]) simp
qed simp

lemma worker_pass_resumed:
  assumes I: "engine_inv P m ns0 k hops xs en" and k: "k < 2 ^ 59" and i: "i < m"
  shows "\<exists>en' rs. worker_pass cont i en = Some en' \<and> engine_inv P m ns0 (Suc k) hops (xs(i := tl (xs i))) en' \<and>
    en_resumed en' = en_resumed en @ rs \<and> map fst rs = map job_handle (take 1 (xs i)) \<and> en_done en' = en_done en @ take 1 (xs i)"
proof -
  obtain en' where en': "worker_pass cont i en = Some en'" "en_done en' = en_done en @ take 1 (xs i)" "engine_inv P m ns0 (Suc k) hops (xs(i := tl (xs i))) en'"
    using worker_pass_inv [OF I k i] by blast
  have "foldM atomic_step (take 1 (xs i)) (en_ns en, en_resumed en) = Some (en_ns en', en_resumed en')"
    using I en'(2,3) by (simp add: engine_inv_def foldM_append)
  then obtain rs where "en_resumed en' = en_resumed en @ rs" "map fst rs = map job_handle (take 1 (xs i))"
    using atomic_resumed by blast
  then show ?thesis using en' by blast
qed

lemma clients_request:
  assumes C: "clients_ok m n xs s" and c: "sv_client s c = Thinking" "c < n" and j: "job_handle j = c" "job_shard j < m"
    and en: "en_resumed en = en_resumed (sv_engine s)"
  shows "clients_ok m n (xs(job_shard j := xs (job_shard j) @ [j])) (s\<lparr>sv_engine := en, sv_client := (sv_client s)(c := Waiting j)\<rparr>)"
proof -
  have new: "job_handle j' \<noteq> c" if "j' \<in> set (xs i)" "i < m" for i j' using clients_okD(3) [OF C that(2,1)] c(1) by auto
  show ?thesis
    unfolding clients_ok_def
    using clients_okD [OF C] new c j en by (auto simp: image_iff) metis
qed

lemma clients_work:
  assumes C: "clients_ok m n xs s" and i: "i < m" and en: "en_resumed en = en_resumed (sv_engine s) @ rs" "map fst rs = map job_handle (take 1 (xs i))"
  shows "clients_ok m n (xs(i := tl (xs i))) (s\<lparr>sv_engine := en, sv_client := answers (sv_engine s) en (sv_client s)\<rparr>)"
proof (cases "xs i")
  case Nil
  then have "xs(i := tl (xs i)) = xs" "answers (sv_engine s) en (sv_client s) = sv_client s" using en by (auto simp: answers_def)
  then show ?thesis using C en Nil by (simp add: clients_ok_def)
next
  case (Cons j js)
  then obtain r where rs: "rs = [(job_handle j, r)]" using en(2) by auto
  let ?h = "job_handle j"
  have a: "answers (sv_engine s) en (sv_client s) = (sv_client s)(?h := Answered r)" using en(1) rs by (simp add: answers_def)
  have j: "job_shard j = i" "sv_client s ?h = Waiting j" using clients_okD(3) [OF C i, of j] Cons by auto
  have d: "?h \<notin> job_handle ` set js" "distinct (map job_handle js)" using clients_okD(2) [OF C i] Cons by auto
  have other: "job_handle j' \<noteq> ?h" if "j' \<in> set ((xs(i := tl (xs i))) u)" "u < m" for u j'
  proof (cases "u = i")
    case True
    then show ?thesis using that d(1) Cons by (auto simp: image_iff)
  next
    case False
    then show ?thesis using clients_okD(3) [OF C that(2), of j'] that(1) j by auto
  qed
  show ?thesis unfolding clients_ok_def
  proof (intro conjI allI impI ballI)
    fix c j' assume "sv_client (s\<lparr>sv_engine := en, sv_client := answers (sv_engine s) en (sv_client s)\<rparr>) c = Waiting j'"
    then have w: "sv_client s c = Waiting j'" "c \<noteq> ?h" by (auto simp: a split: if_splits)
    show "job_handle j' = c" "c < n" "job_shard j' < m" using clients_okD(1) [OF C w(1)] by auto
    show "j' \<in> set ((xs(i := tl (xs i))) (job_shard j'))" using clients_okD(1) [OF C w(1)] w(2) Cons by auto
  next
    fix u assume u: "u < m"
    show "distinct (map job_handle ((xs(i := tl (xs i))) u))" using clients_okD(2) [OF C u] d(2) Cons by auto
    fix j' assume j': "j' \<in> set ((xs(i := tl (xs i))) u)"
    then have "j' \<in> set (xs u)" using Cons by (auto split: if_splits)
    then show "job_shard j' = u" "sv_client (s\<lparr>sv_engine := en, sv_client := answers (sv_engine s) en (sv_client s)\<rparr>) (job_handle j') = Waiting j'"
      using clients_okD(3) [OF C u, of j'] other [OF j' u] by (auto simp: a)
  next
    fix c r' assume "sv_client (s\<lparr>sv_engine := en, sv_client := answers (sv_engine s) en (sv_client s)\<rparr>) c = Answered r'"
    then show "map_of (rev (en_resumed (sv_engine (s\<lparr>sv_engine := en, sv_client := answers (sv_engine s) en (sv_client s)\<rparr>)))) c = Some r'"
      using clients_okD(4) [OF C, of c r'] en(1) rs by (auto simp: a split: if_splits)
  qed
qed

lemma Scheduling_add_resumed: "Scheduling_add j en = Some en' \<Longrightarrow> en_resumed en' = en_resumed en"
  by (auto simp: Scheduling_add_def split: bind_splits)

lemma server_step_inv:
  assumes "server_step cont n J s s'" "server_inv P m n J ns0 k s" "k < 2 ^ 59" "n \<le> 64" "m \<le> 65536" "\<forall>j \<in> J. job_shard j < m \<and> job_ok P j"
  shows "server_inv P m n J ns0 (Suc k) s'"
proof -
  obtain hops xs where I: "engine_inv P m ns0 k hops xs (sv_engine s)" and C: "clients_ok m n xs s" and F: "jobs_from m J xs (sv_engine s)" using assms(2) by (auto simp: server_inv_def)
  show ?thesis
    using assms(1)
  proof (rule server_stepE)
    fix j en assume h: "s' = s\<lparr>sv_engine := en, sv_client := (sv_client s)(job_handle j := Waiting j)\<rparr>" "j \<in> J" "job_handle j < n"
      "sv_client s (job_handle j) = Thinking" "Scheduling_add j (sv_engine s) = Some en"
    have j: "job_shard j < m" "job_ok P j" using h(2) assms(6) by auto
    have "length (xs (job_shard j)) < 64" using queue_room [OF C h(4,3) j(1)] assms(4) by simp
    then obtain "en_done en = en_done (sv_engine s)"
        "engine_inv P m ns0 (Suc k) (hops(job_shard j := hops (job_shard j) @ [j])) (xs(job_shard j := xs (job_shard j) @ [j])) en"
      using Scheduling_add_inv [OF I assms(3) j assms(5)] h(5) by auto
    moreover from this(1) have "jobs_from m J (xs(job_shard j := xs (job_shard j) @ [j])) en" using F h(2) by (auto simp: jobs_from_def)
    ultimately show ?thesis using clients_request [OF C h(4,3) refl j(1) Scheduling_add_resumed [OF h(5)]] h(1) by (auto simp: server_inv_def)
  next
    fix i en assume h: "s' = s\<lparr>sv_engine := en, sv_client := answers (sv_engine s) en (sv_client s)\<rparr>"
      "i < length (es_shards (en_shards (sv_engine s)))" "worker_pass cont i (sv_engine s) = Some en"
    have i: "i < m" using h(2) I by (simp add: engine_inv_def)
    obtain rs where rs: "engine_inv P m ns0 (Suc k) hops (xs(i := tl (xs i))) en" "en_resumed en = en_resumed (sv_engine s) @ rs"
        "map fst rs = map job_handle (take 1 (xs i))" "en_done en = en_done (sv_engine s) @ take 1 (xs i)"
      using worker_pass_resumed [OF I assms(3) i, of cont] h(3) by auto
    have "set (xs i) \<subseteq> J" using F i by (simp add: jobs_from_def)
    then have "jobs_from m J (xs(i := tl (xs i))) en" using F rs(4) by (cases "xs i") (auto simp: jobs_from_def)
    then show ?thesis using clients_work [OF C i rs(2,3)] h(1) rs(1) by (auto simp: server_inv_def)
  next
    fix c r assume "s' = s\<lparr>sv_client := (sv_client s)(c := Thinking)\<rparr>" "sv_client s c = Answered r"
    moreover from this have "clients_ok m n xs s'" using C unfolding clients_ok_def by (fastforce split: if_splits)
    ultimately show ?thesis using engine_inv_Suc [OF I] F by (auto simp: server_inv_def)
  qed
qed

lemma server_reach_inv:
  assumes "server_inv P m n J ns0 0 s0" "n \<le> 64" "m \<le> 65536" "\<forall>j \<in> J. job_shard j < m \<and> job_ok P j"
  shows "server_reach cont n J s0 k s \<Longrightarrow> k < 2 ^ 59 \<Longrightarrow> server_inv P m n J ns0 k s"
proof (induction rule: server_reach.induct)
  case (next_state k s s')
  then show ?case using server_step_inv [OF next_state.hyps(2) _ _ assms(2-4)] by simp
qed (rule assms(1))

lemma server_init_inv:
  assumes "mset order = mset [0..<unat sz]" "sz \<le> 65536" "slices_ok P (unat sz) ns"
  shows "\<exists>s :: 'r server. server_init order sz ns = Some s \<and> server_inv P (unat sz) n J ns 0 s"
proof -
  obtain en :: "'r engine" where en: "engine_init order sz ns = Some en" "engine_inv P (unat sz) ns 0 (\<lambda>_. []) (\<lambda>_. []) en"
    using engine_init_inv [OF assms] by blast
  moreover have "en_done en = []" using en(1) by (auto simp: engine_init_def split: bind_splits)
  ultimately have "server_inv P (unat sz) n J ns 0 \<lparr>sv_engine = en, sv_client = (\<lambda>_. Thinking)\<rparr>"
    unfolding server_inv_def by (intro exI [of _ "\<lambda>_. []"]) (simp add: clients_ok_def jobs_from_def)
  then show ?thesis using en(1) by (simp add: server_init_def)
qed

lemma waiting_resumes:
  assumes I: "engine_inv P m ns0 k hops xs en" and j: "j \<in> set (xs i)" "i < m" and ws: "\<forall>w \<in> set ws. w < m" "64 \<le> count_list ws i" "k + length ws \<le> 2 ^ 59"
  shows "resumes cont ws (job_handle j) en"
proof -
  obtain en' d where en': "foldM (engine_step cont) (map Works ws) en = Some en'" "en_done en' = en_done en @ d"
      "engine_inv P m ns0 (k + length ws) hops (\<lambda>i. drop (count_list ws i) (xs i)) en'"
    using engine_drain [OF I ws(3,1)] by blast
  have "hops i = filter (\<lambda>j. job_shard j = i) (en_done en) @ xs i" "hops i = filter (\<lambda>j. job_shard j = i) (en_done en') @ drop (count_list ws i) (xs i)"
    using I en'(3) j(2) by (simp_all add: engine_inv_def)
  then have "filter (\<lambda>j. job_shard j = i) d = xs i" using en'(2) drained [OF I j(2) ws(2)] by simp
  then have "j \<in> set d" using j(1) by (metis filter_is_subset subsetD)
  moreover obtain ys where "en_resumed en' = en_resumed en @ ys" "map fst ys = map job_handle d"
    using I en'(2,3) atomic_resumed [of d "en_ns en" "en_resumed en"] by (auto simp: engine_inv_def foldM_append)
  ultimately show ?thesis using en'(1) by (metis (mono_tags, lifting) append_eq_conv_conj image_eqI image_set option.simps(5) resumes_def)
qed

lemma server_facts:
  assumes "mset order = mset [0..<unat sz]" "sz \<le> 65536" "slices_ok P (unat sz) ns" "n \<le> 64" "\<forall>j \<in> J. job_shard j < unat sz \<and> job_ok P j"
    "server_init order sz ns = Some s0" "server_reach cont n J s0 k s" "k < 2 ^ 59"
  obtains hops xs where "engine_inv P (unat sz) ns k hops xs (sv_engine s)" "clients_ok (unat sz) n xs s" "jobs_from (unat sz) J xs (sv_engine s)"
proof -
  have m: "unat sz \<le> 65536" using assms(2) by (simp add: word_le_nat_alt)
  obtain s1 :: "'a server" where "server_init order sz ns = Some s1" "server_inv P (unat sz) n J ns 0 s1" using server_init_inv [OF assms(1-3), of n J] by blast
  then have "server_inv P (unat sz) n J ns 0 s0" using assms(6) by simp
  from server_reach_inv [OF this assms(4) m assms(5,7,8)] show thesis using that by (auto simp: server_inv_def)
qed

lemma request_fits:
  assumes "engine_inv P m ns k hops xs (sv_engine s)" "clients_ok m n xs s" "k < 2 ^ 59" "n \<le> 64" "m \<le> 65536"
    "job_shard j < m" "job_ok P j" "job_handle j < n" "sv_client s (job_handle j) = Thinking"
  shows "\<exists>s' en. shard_set_Add (job_handle j) (of_nat (job_shard j)) j (en_shards (sv_engine s)) = Some (False, s') \<and> Scheduling_add j (sv_engine s) = Some en"
proof -
  have "length (xs (job_shard j)) < 64" using queue_room [OF assms(2,9,8,6)] assms(4) by simp
  then show ?thesis using Scheduling_add_inv [OF assms(1,3,6,7,5)] by blast
qed



end
