(* ===== verification/Session.thy ===== *)
theory Session
  imports Commands_Correct
begin

text \<open>
  Sessions and the server (\<open>network/redis_server.hpp\<close>). A session is a state machine driven by the
  proactor of its socket: a read completes and the coroutine \<open>DoRead\<close> goes round its loop, a function
  that was dispatched runs, a write of one of the coroutines \<open>DoWrite\<close> completes. \<open>session_step\<close> is one
  such event; \<open>None\<close> is a failed assertion, undefined behaviour, or an event that cannot happen.

  A command may suspend on its shard. Until its reply is dispatched the flag
  \<open>debug_com_deal_one_Com\<close> is false and a completed read fails the assertion, so running the command
  within the read loses no interleaving. The bytes of a write are those of the send buffer when it was
  submitted.
\<close>

subsection \<open>State\<close>

record RedisSession =
  RecvBuf :: TcpBuffer
  SendBuf :: TcpBuffer
  ns_index :: nat
  debug_com_deal_one_Com :: bool
  sess_open :: bool
  dispatched :: "string list"
  in_flight :: "string list"
  sent :: string

record RedisServer =
  srv_ns :: Namespace
  pool_size :: nat
  CIs :: CommandRegistry
  NextProIndex :: nat
  isRuning :: bool

definition RedisSession_init :: RedisSession where
  "RedisSession_init = \<lparr>RecvBuf = TcpBuffer_init 1024 8, SendBuf = TcpBuffer_init 1024 8, ns_index = 0,
     debug_com_deal_one_Com = True, sess_open = True, dispatched = [], in_flight = [], sent = []\<rparr>"

definition RedisServer_init :: "nat \<Rightarrow> Namespace \<Rightarrow> RedisServer" where
  "RedisServer_init n ns = \<lparr>srv_ns = ns, pool_size = n, CIs = RegisterGeneric (RegisterStringFamily CommandRegistry_init),
     NextProIndex = 0, isRuning = False\<rparr>"

definition Start :: "RedisServer \<Rightarrow> RedisServer" where
  "Start srv = srv\<lparr>isRuning := True\<rparr>"

text \<open>\<open>Stop\<close> ends the accept loop and shuts the shards down, which resets the slices of the namespace.\<close>

definition Stop :: "RedisServer \<Rightarrow> RedisServer" where
  "Stop srv = srv\<lparr>isRuning := False, srv_ns := map (\<lambda>_. None) (srv_ns srv)\<rparr>"

definition NextProactor :: "RedisServer \<Rightarrow> (nat \<times> RedisServer) option" where
  "NextProactor srv = do {
     assert_opt (pool_size srv \<noteq> 0);
     let i = (NextProIndex srv + 1) mod pool_size srv;
     Some (i, srv\<lparr>NextProIndex := i\<rparr>) }"

text \<open>One round of the accept loop with the descriptor that \<open>AsyncAccept\<close> returned: the new session and
  the proactor it is given to.\<close>

definition Accept :: "RedisServer \<Rightarrow> int \<Rightarrow> ((nat \<times> RedisSession) option \<times> RedisServer) option" where
  "Accept srv fd = do {
     assert_opt (isRuning srv);
     if fd > 0 then do { (p, srv) \<leftarrow> NextProactor srv; Some (Some (p, RedisSession_init), srv) } else Some (None, srv) }"

subsection \<open>Events\<close>

datatype Event = ReadDone string | ReadClosed | ReadFailed | RunDispatched | WriteDone nat int

definition SendImp :: "RedisSession \<Rightarrow> string \<Rightarrow> RedisSession" where
  "SendImp s reply = s\<lparr>dispatched := dispatched s @ [reply]\<rparr>"

text \<open>The test of the loop of \<open>DoWrite\<close>: the next write, when there is something to send.\<close>

definition next_write :: "RedisSession \<Rightarrow> string option" where
  "next_write s = (if readable_size (SendBuf s) \<noteq> 0 then Some (readView (SendBuf s)) else None)"

definition run_dispatched :: "RedisSession \<Rightarrow> RedisSession option" where
  "run_dispatched s = (case dispatched s of [] \<Rightarrow> None
     | r # rs \<Rightarrow> do {
         b \<leftarrow> buf_append (SendBuf s) r;
         let s = s\<lparr>dispatched := rs, SendBuf := b\<rparr>;
         let s = s\<lparr>in_flight := in_flight s @ (case next_write s of None \<Rightarrow> [] | Some w \<Rightarrow> [w])\<rparr>;
         Some (s\<lparr>debug_com_deal_one_Com := True\<rparr>) })"

text \<open>The write of the \<open>k\<close>-th coroutine \<open>DoWrite\<close> completes with the result \<open>wr\<close>; the socket took \<open>wr\<close> bytes.\<close>

definition write_done :: "nat \<Rightarrow> int \<Rightarrow> RedisSession \<Rightarrow> RedisSession option" where
  "write_done k wr s = do {
     assert_opt (k < length (in_flight s));
     s \<leftarrow> (if wr > 0
          then do {
            assert_opt (nat wr \<le> length (in_flight s ! k));
            (_, b) \<leftarrow> retrieve (SendBuf s) (nat wr);
            Some (s\<lparr>SendBuf := b, sent := sent s @ take (nat wr) (in_flight s ! k)\<rparr>) }
          else Some s);
     Some (case next_write s of None \<Rightarrow> s\<lparr>in_flight := take k (in_flight s) @ drop (Suc k) (in_flight s)\<rparr>
       | Some w \<Rightarrow> s\<lparr>in_flight := (in_flight s)[k := w]\<rparr>) }"

text \<open>The body of the loop of \<open>DoRead\<close> for \<open>r > 0\<close>. The hash functions, \<open>sm\<close>, the fuel of \<open>ParseSetParams\<close> and
  the reading \<open>now\<close> of the clock are parameters.\<close>

definition deal_one_com :: "(string \<Rightarrow> string) \<Rightarrow> (string \<Rightarrow> u64) \<Rightarrow> (int \<Rightarrow> u64) \<Rightarrow> nat \<Rightarrow> u64 \<Rightarrow> string \<Rightarrow> RedisSession \<times> RedisServer
    \<Rightarrow> (RedisSession \<times> RedisServer) option" where
  "deal_one_com sm hs hi fuel now bytes st = (case st of (s, srv) \<Rightarrow> do {
     let b = (RecvBuf s)\<lparr>buffer := overwrite (buffer (RecvBuf s)) (write_index (RecvBuf s)) bytes\<rparr>;
     b \<leftarrow> hasWritten b (length bytes);
     assert_opt (debug_com_deal_one_Com s);
     (Com, b) \<leftarrow> ParseRESP b;
     let s = s\<lparr>RecvBuf := b, debug_com_deal_one_Com := False\<rparr>;
     if Com = [] then Some (s, srv)
     else (case reg_Find (CIs srv) (Com ! 0) of
         None \<Rightarrow> Some (SendImp s SendERROR, srv)
       | Some ci \<Rightarrow> do {
           let t = InitByArgs hs (pool_size srv) now (ns_index s) Com;
           (reply, ns, goes_on) \<leftarrow> Invoke sm hs hi fuel ci (srv_ns srv) t Com;
           let srv = srv\<lparr>srv_ns := ns\<rparr>;
           Some (if goes_on then (SendImp s reply, srv) else (s, Stop srv)) }) })"

definition session_step :: "(string \<Rightarrow> string) \<Rightarrow> (string \<Rightarrow> u64) \<Rightarrow> (int \<Rightarrow> u64) \<Rightarrow> nat \<Rightarrow> u64 \<Rightarrow> Event \<Rightarrow> RedisSession \<times> RedisServer
    \<Rightarrow> (RedisSession \<times> RedisServer) option" where
  "session_step sm hs hi fuel now e st = (case st of (s, srv) \<Rightarrow> (case e of
       ReadDone bytes \<Rightarrow> do {
         assert_opt (sess_open s \<and> bytes \<noteq> [] \<and> length bytes \<le> writable_size (RecvBuf s));
         deal_one_com sm hs hi fuel now bytes (s, srv) }
     | ReadClosed \<Rightarrow> do { assert_opt (sess_open s); Some (s\<lparr>sess_open := False\<rparr>, srv) }
     | ReadFailed \<Rightarrow> do { assert_opt (sess_open s); Some (s, srv) }
     | RunDispatched \<Rightarrow> do { s \<leftarrow> run_dispatched s; Some (s, srv) }
     | WriteDone k wr \<Rightarrow> do { s \<leftarrow> write_done k wr s; Some (s, srv) }))"

definition session_run :: "(string \<Rightarrow> string) \<Rightarrow> (string \<Rightarrow> u64) \<Rightarrow> (int \<Rightarrow> u64) \<Rightarrow> nat \<Rightarrow> u64 \<Rightarrow> Event list \<Rightarrow> RedisSession \<times> RedisServer
    \<Rightarrow> (RedisSession \<times> RedisServer) option" where
  "session_run sm hs hi fuel now es st = foldM (session_step sm hs hi fuel now) es st"

lemma session_run_append:
  "session_run sm hs hi fuel now xs a = Some b \<Longrightarrow> session_run sm hs hi fuel now ys b = c \<Longrightarrow> session_run sm hs hi fuel now (xs @ ys) a = c"
  by (simp add: session_run_def foldM_append)

text \<open>A write that fails is repeated with the same bytes; nothing bounds the number of attempts.\<close>

lemma failed_write_repeats:
  "k < length (in_flight s) \<Longrightarrow> wr \<le> 0 \<Longrightarrow> readable_size (SendBuf s) \<noteq> 0 \<Longrightarrow> write_done k wr s = Some (s\<lparr>in_flight := (in_flight s)[k := readView (SendBuf s)]\<rparr>)"
  by (simp add: write_done_def next_write_def)

subsection \<open>A request and its reply\<close>

text \<open>Between two commands: everything received was parsed and everything replied was sent.\<close>

definition drained :: "TcpBuffer \<Rightarrow> bool" where
  "drained b \<longleftrightarrow> buf_ok b \<and> read_index b = prepend_size b \<and> write_index b = prepend_size b"

definition idle :: "RedisSession \<Rightarrow> bool" where
  "idle s \<longleftrightarrow> drained (RecvBuf s) \<and> buf_ok (SendBuf s) \<and> readView (SendBuf s) = [] \<and> debug_com_deal_one_Com s \<and> sess_open s \<and>
     dispatched s = [] \<and> in_flight s = []"

definition capacity :: "TcpBuffer \<Rightarrow> nat" where
  "capacity b = length (buffer b) - prepend_size b"

lemma RedisSession_init_idle: "idle RedisSession_init" "capacity (RecvBuf RedisSession_init) = 1024" "sent RedisSession_init = []"
proof -
  show "idle RedisSession_init"
    using TcpBuffer_init_ok(1,2) [of 1024 8] by (simp add: RedisSession_init_def idle_def drained_def) (simp add: TcpBuffer_init_def)
qed (simp_all add: RedisSession_init_def capacity_def TcpBuffer_init_def)

lemma consume_all:
  assumes "buf_ok b" "n = length (readView b)"
  shows "consume b n = Some (b\<lparr>read_index := prepend_size b, write_index := prepend_size b\<rparr>)"
  using assms length_readView [OF assms(1)] by (simp add: consume_def move_read_index_def Let_def buf_ok_def check_index_validity_def)

lemma ParseRESP_all:
  assumes "buf_ok b" "readView b = encode_cmd args" "args \<noteq> []" "length args < kInt64Max" "\<forall>a \<in> set args. length a < kInt64Max"
  shows "ParseRESP b = Some (args, b\<lparr>read_index := prepend_size b, write_index := prepend_size b\<rparr>)"
proof -
  have "consume b (length (encode_cmd args)) = Some (b\<lparr>read_index := prepend_size b, write_index := prepend_size b\<rparr>)"
    using consume_all [OF assms(1)] assms(2) by simp
  then show ?thesis using ParseRESP_header [OF assms(1) _ _ assms(4,5), of "[]" 0] assms(2,3) by (auto simp: encode_cmd_def)
qed

lemma next_write_view: "buf_ok (SendBuf s) \<Longrightarrow> next_write s = (if readView (SendBuf s) = [] then None else Some (readView (SendBuf s)))"
  using length_readView [of "SendBuf s"] by (auto simp: next_write_def)

lemma deal_one_com_eq:
  assumes "idle s" "length (encode_cmd args) \<le> capacity (RecvBuf s)" "args \<noteq> []" "length args < kInt64Max"
    "\<forall>a \<in> set args. length a < kInt64Max" "reg_Find (CIs srv) (args ! 0) = Some ci"
    "Invoke sm hs hi fuel ci (srv_ns srv) (InitByArgs hs (pool_size srv) now (ns_index s) args) args = Some (reply, ns, True)"
  shows "\<exists>b. session_step sm hs hi fuel now (ReadDone (encode_cmd args)) (s, srv) =
      Some (s\<lparr>RecvBuf := b, debug_com_deal_one_Com := False, dispatched := [reply]\<rparr>, srv\<lparr>srv_ns := ns\<rparr>) \<and>
    drained b \<and> capacity b = capacity (RecvBuf s)"
proof -
  let ?r = "RecvBuf s" and ?x = "encode_cmd args"
  let ?w = "?r\<lparr>buffer := overwrite (buffer ?r) (write_index ?r) ?x, write_index := write_index ?r + length ?x\<rparr>"
  let ?b = "?w\<lparr>read_index := prepend_size ?w, write_index := prepend_size ?w\<rparr>"
  have r: "buf_ok ?r" "read_index ?r = prepend_size ?r" "write_index ?r = prepend_size ?r" using assms(1) by (auto simp: idle_def drained_def)
  have len: "length ?x \<le> writable_size ?r" using assms(2) r by (simp add: capacity_def writable_size_def)
  have l2: "prepend_size ?r + length ?x \<le> length (buffer ?r)" using len r by (simp add: writable_size_def buf_ok_def)
  then have l3: "length ?x \<le> length (buffer ?r) - prepend_size ?r" by simp
  have v: "readView ?w = ?x" using write_spec(2) [OF r(1) len] r by (simp add: readView_def readable_size_def)
  have hw: "hasWritten (?r\<lparr>buffer := overwrite (buffer ?r) (write_index ?r) ?x\<rparr>) (length ?x) = Some ?w"
    using write_spec(1) [OF r(1) len] l2 l3 r by (simp add: hasWritten_def Let_def writable_size_def)
  have p: "ParseRESP ?w = Some (args, ?b)" by (rule ParseRESP_all [OF write_spec(1) [OF r(1) len] v assms(3,4,5)])
  have "?x \<noteq> []" by (simp add: encode_cmd_def)
  then have "session_step sm hs hi fuel now (ReadDone ?x) (s, srv) =
      Some (s\<lparr>RecvBuf := ?b, debug_com_deal_one_Com := False, dispatched := [reply]\<rparr>, srv\<lparr>srv_ns := ns\<rparr>)"
    using assms len hw p by (simp add: session_step_def deal_one_com_def idle_def SendImp_def Let_def del: TcpBuffer.update_convs)
  moreover have "drained ?b" using r l2 by (simp add: drained_def buf_ok_def)
  moreover have "capacity ?b = capacity ?r" using l2 r by (simp add: capacity_def)
  ultimately show ?thesis by blast
qed

lemma write_pieces:
  assumes "buf_ok (SendBuf s)" "in_flight s = [readView (SendBuf s)]" "sum_list ws = length (readView (SendBuf s))" "0 \<notin> set ws" "ws \<noteq> []"
  shows "\<exists>b. session_run sm hs hi fuel now (map (\<lambda>w. WriteDone 0 (int w)) ws) (s, srv) =
      Some (s\<lparr>SendBuf := b, in_flight := [], sent := sent s @ readView (SendBuf s)\<rparr>, srv) \<and> buf_ok b \<and> readView b = []"
  using assms
proof (induction ws arbitrary: s)
  case (Cons w ws)
  let ?v = "readView (SendBuf s)"
  have w: "0 < w" "w \<le> length ?v" using Cons.prems(3,4) by auto
  obtain p b where b: "retrieve (SendBuf s) w = Some (p, b)" "buf_ok b" "readView b = drop w ?v"
    using retrieve_spec [OF Cons.prems(1) w(2)] by blast
  let ?s = "s\<lparr>SendBuf := b, sent := sent s @ take w ?v\<rparr>"
  have nw: "next_write ?s = (if drop w ?v = [] then None else Some (drop w ?v))" using next_write_view [of ?s] b(2,3) by simp
  show ?case
  proof (cases "ws = []")
    case True
    then have "w = length ?v" using Cons.prems(3) by simp
    then have "write_done 0 (int w) s = Some (s\<lparr>SendBuf := b, in_flight := [], sent := sent s @ ?v\<rparr>)" "readView b = []"
      using Cons.prems(2) w b nw by (simp_all add: write_done_def)
    then show ?thesis using True b(2) by (intro exI [of _ b]) (simp add: session_run_def session_step_def)
  next
    case False
    then obtain w' ws' where "ws = w' # ws'" by (cases ws) auto
    then have "0 < sum_list ws" using Cons.prems(4) by simp
    then have ne: "drop w ?v \<noteq> []" using Cons.prems(3) by simp
    let ?t = "?s\<lparr>in_flight := [drop w ?v]\<rparr>"
    have st: "session_step sm hs hi fuel now (WriteDone 0 (int w)) (s, srv) = Some (?t, srv)"
      using Cons.prems(2) w b nw ne by (simp add: session_step_def write_done_def)
    have "\<exists>b'. session_run sm hs hi fuel now (map (\<lambda>w. WriteDone 0 (int w)) ws) (?t, srv) =
      Some (?t\<lparr>SendBuf := b', in_flight := [], sent := sent ?t @ readView (SendBuf ?t)\<rparr>, srv) \<and> buf_ok b' \<and> readView b' = []"
      by (rule Cons.IH) (use b(2,3) Cons.prems False in auto)
    then obtain b' where b': "session_run sm hs hi fuel now (map (\<lambda>w. WriteDone 0 (int w)) ws) (?t, srv) =
      Some (?t\<lparr>SendBuf := b', in_flight := [], sent := sent ?t @ readView (SendBuf ?t)\<rparr>, srv)" "buf_ok b'" "readView b' = []" by blast
    have "?t\<lparr>SendBuf := b', in_flight := [], sent := sent ?t @ readView (SendBuf ?t)\<rparr> = s\<lparr>SendBuf := b', in_flight := [], sent := sent s @ ?v\<rparr>"
      using b(3) by simp
    then show ?thesis using st b' by (intro exI [of _ b']) (simp add: session_run_def)
  qed
qed simp

lemma run_dispatched_eq:
  assumes "buf_ok (SendBuf s)" "dispatched s = r # rs" "r \<noteq> []"
  shows "\<exists>b. run_dispatched s = Some (s\<lparr>dispatched := rs, SendBuf := b, in_flight := in_flight s @ [readView (SendBuf s) @ r],
      debug_com_deal_one_Com := True\<rparr>) \<and> buf_ok b \<and> readView b = readView (SendBuf s) @ r"
proof -
  obtain b where b: "buf_append (SendBuf s) r = Some b" "buf_ok b" "readView b = readView (SendBuf s) @ r"
    using buf_append_spec [OF assms(1)] by blast
  have "next_write (s\<lparr>dispatched := rs, SendBuf := b\<rparr>) = Some (readView (SendBuf s) @ r)"
    using next_write_view [of "s\<lparr>dispatched := rs, SendBuf := b\<rparr>"] b(2,3) assms(3) by simp
  then show ?thesis using b assms(2) by (intro exI [of _ b]) (simp add: run_dispatched_def Let_def)
qed

lemma request_reply:
  assumes "idle s" "length (encode_cmd args) \<le> capacity (RecvBuf s)" "args \<noteq> []" "length args < kInt64Max"
    "\<forall>a \<in> set args. length a < kInt64Max" "reg_Find (CIs srv) (args ! 0) = Some ci"
    "Invoke sm hs hi fuel ci (srv_ns srv) (InitByArgs hs (pool_size srv) now (ns_index s) args) args = Some (reply, ns, True)"
    "reply \<noteq> []" "sum_list ws = length reply" "0 \<notin> set ws"
  shows "\<exists>s'. session_run sm hs hi fuel now (ReadDone (encode_cmd args) # RunDispatched # map (\<lambda>w. WriteDone 0 (int w)) ws) (s, srv) =
      Some (s', srv\<lparr>srv_ns := ns\<rparr>) \<and> idle s' \<and> sent s' = sent s @ reply \<and> capacity (RecvBuf s') = capacity (RecvBuf s) \<and> ns_index s' = ns_index s"
proof -
  obtain b where b: "session_step sm hs hi fuel now (ReadDone (encode_cmd args)) (s, srv) =
      Some (s\<lparr>RecvBuf := b, debug_com_deal_one_Com := False, dispatched := [reply]\<rparr>, srv\<lparr>srv_ns := ns\<rparr>)"
    "drained b" "capacity b = capacity (RecvBuf s)"
    using deal_one_com_eq [OF assms(1-7)] by blast
  let ?s = "s\<lparr>RecvBuf := b, debug_com_deal_one_Com := False, dispatched := [reply]\<rparr>"
  have i: "buf_ok (SendBuf s)" "readView (SendBuf s) = []" "in_flight s = []" using assms(1) by (auto simp: idle_def)
  obtain c where c: "run_dispatched ?s = Some (?s\<lparr>dispatched := [], SendBuf := c, in_flight := [reply], debug_com_deal_one_Com := True\<rparr>)"
    "buf_ok c" "readView c = reply"
    using run_dispatched_eq [of ?s reply "[]"] i assms(8) by auto
  let ?t = "?s\<lparr>dispatched := [], SendBuf := c, in_flight := [reply], debug_com_deal_one_Com := True\<rparr>"
  have ws: "ws \<noteq> []" using assms(8,9) by auto
  obtain d where d: "session_run sm hs hi fuel now (map (\<lambda>w. WriteDone 0 (int w)) ws) (?t, srv\<lparr>srv_ns := ns\<rparr>) =
      Some (?t\<lparr>SendBuf := d, in_flight := [], sent := sent ?t @ reply\<rparr>, srv\<lparr>srv_ns := ns\<rparr>)" "buf_ok d" "readView d = []"
    using write_pieces [of ?t ws sm hs hi fuel now "srv\<lparr>srv_ns := ns\<rparr>"] c assms(9,10) ws by auto
  let ?u = "?t\<lparr>SendBuf := d, in_flight := [], sent := sent ?t @ reply\<rparr>"
  have st: "session_step sm hs hi fuel now RunDispatched (?s, srv\<lparr>srv_ns := ns\<rparr>) = Some (?t, srv\<lparr>srv_ns := ns\<rparr>)"
    using c(1) by (simp only: session_step_def prod.case Event.case Option.bind.simps)
  have run: "session_run sm hs hi fuel now (ReadDone (encode_cmd args) # RunDispatched # map (\<lambda>w. WriteDone 0 (int w)) ws) (s, srv) =
      Some (?u, srv\<lparr>srv_ns := ns\<rparr>)"
    using b(1) st d(1) by (simp only: session_run_def foldM.simps Option.bind.simps)
  have "idle ?u" using assms(1) b(2) d(2,3) by (simp add: idle_def)
  then show ?thesis using run b(3) by (intro exI [of _ ?u]) simp
qed

lemma length_concat_bulk: "a \<in> set args \<Longrightarrow> length a \<le> length (concat (map encode_bulk args))" "length args \<le> length (concat (map encode_bulk args))"
  by (induction args) (auto simp: encode_bulk_def)

lemma encode_cmd_bounds: "length (encode_cmd args) \<le> n \<Longrightarrow> n < kInt64Max \<Longrightarrow> length args < kInt64Max \<and> (\<forall>a \<in> set args. length a < kInt64Max)"
  using length_concat_bulk(1) [of _ args] length_concat_bulk(2) [of args] by (fastforce simp: encode_cmd_def)

text \<open>The registry of a server finds the handler of every command it has.\<close>

lemma registered:
  "map_option cmd_handler (reg_Find (CIs (RedisServer_init n ns)) c) = map_of
     [(''SET'', Some HSet), (''GET'', Some HGet), (''DEL'', Some HDelex), (''PING'', Some HPing), (''EXISTS'', Some HExists),
      (''EXPIRE'', Some HExpire), (''TTL'', Some HTtl), (''CLIENT'', Some HClient_Info), (''SHUTDOWN'', Some HShutDown)] c"
  by (simp add: RedisServer_init_def RegisterGeneric_def RegisterStringFamily_def reg_Find_def reg_add_def Let_def StartFamily_def
      CommandRegistry_init_def SetAsyncHandler_def SetHandler_def CommandId_init_def)

text \<open>(C3) A command that arrives at an idle session is answered by exactly its reply, however the socket
  splits the writes, and the session is idle again; the namespace is what the command made of it.\<close>

theorem session_reply:
  assumes "idle s" "length (encode_cmd args) \<le> capacity (RecvBuf s)" "capacity (RecvBuf s) < kInt64Max" "args \<noteq> []"
    "reg_Find (CIs srv) (args ! 0) = Some ci"
    "Invoke sm hs hi fuel ci (srv_ns srv) (InitByArgs hs (pool_size srv) now (ns_index s) args) args = Some (reply, ns, True)"
    "reply \<noteq> []" "sum_list ws = length reply" "0 \<notin> set ws"
  shows "\<exists>s'. session_run sm hs hi fuel now (ReadDone (encode_cmd args) # RunDispatched # map (\<lambda>w. WriteDone 0 (int w)) ws) (s, srv) =
      Some (s', srv\<lparr>srv_ns := ns\<rparr>) \<and> idle s' \<and> sent s' = sent s @ reply \<and> capacity (RecvBuf s') = capacity (RecvBuf s)"
  using request_reply [OF assms(1,2,4) _ _ assms(5-9)] encode_cmd_bounds [of args "capacity (RecvBuf s)"] assms(2,3) by fastforce

theorem session_reply_witness:
  "\<exists>s'. session_run id (\<lambda>_. 0) (\<lambda>_. 0) 1 0 [ReadDone (encode_cmd [''PING'']), RunDispatched, WriteDone 0 3, WriteDone 0 4]
      (RedisSession_init, RedisServer_init 4 (fresh_ns 4)) = Some (s', RedisServer_init 4 (fresh_ns 4)) \<and> sent s' = BuildSimpleString ''PONG''"
proof -
  let ?srv = "RedisServer_init 4 (fresh_ns 4)"
  obtain ci where ci: "reg_Find (CIs ?srv) ''PING'' = Some ci" "cmd_handler ci = Some HPing" using registered [of 4 "fresh_ns 4" "''PING''"] by auto
  have inv: "Invoke id (\<lambda>_. 0) (\<lambda>_. 0) 1 ci (srv_ns ?srv) tx [''PING''] = Some (BuildSimpleString ''PONG'', srv_ns ?srv, True)" for tx
    using ci(2) by (simp add: Invoke_def Ping_def)
  have "?srv\<lparr>srv_ns := srv_ns ?srv\<rparr> = ?srv" by simp
  moreover have "length (encode_cmd [''PING'']) \<le> 1024" by (simp add: encode_cmd_def encode_bulk_def crlf_def nat_string.simps)
  ultimately show ?thesis
    using session_reply [of RedisSession_init "[''PING'']" ?srv ci id "\<lambda>_. 0" "\<lambda>_. 0" 1 0 "BuildSimpleString ''PONG''" "srv_ns ?srv" "[3, 4]"]
      RedisSession_init_idle ci(1) inv by (auto simp: kInt64Max_def BuildSimpleString_def crlf_def)
qed

lemma InitByArgs_key:
  "tx_db ns (InitByArgs hs n now i (c # ky # xs)) = tx_db ns (InitByArgs hs n now i (d # ky # ys))"
  by (simp add: tx_db_def InitByArgs_def Let_def)

lemma ToString_str: "ToString (CompactObj_str s) = Some s"
  by (simp add: ToString_def CompactObj_str_eq u_str_def)

lemma registered_handler:
  assumes "CIs srv = CIs (RedisServer_init n ns)" "map_of [(''SET'', HSet), (''GET'', HGet)] c = Some h"
  obtains ci where "reg_Find (CIs srv) c = Some ci" "cmd_handler ci = Some h"
  using registered [of n ns c] assms by (auto split: if_splits)



text \<open>(C36) Two coroutines \<open>DoWrite\<close> that overlap send bytes twice: when a reply \<open>r\<close> is dispatched while a write of
  the bytes \<open>v\<close> is in flight, the second write repeats \<open>v\<close>, and both coroutines then write \<open>r\<close> once more.\<close>

theorem overlapping_writes:
  assumes "buf_ok (SendBuf s)" "readView (SendBuf s) = v" "v \<noteq> []" "in_flight s = [v]" "dispatched s = [r]" "r \<noteq> []"
  shows "\<exists>s'. session_run sm hs hi fuel now [RunDispatched, WriteDone 0 (int (length v)), WriteDone 1 (int (length (v @ r)))] (s, srv) = Some (s', srv) \<and>
    sent s' = sent s @ v @ v @ r \<and> in_flight s' = [r, r]"
proof -
  obtain b where b: "run_dispatched s = Some (s\<lparr>dispatched := [], SendBuf := b, in_flight := [v, v @ r], debug_com_deal_one_Com := True\<rparr>)"
    "buf_ok b" "readView b = v @ r"
    using run_dispatched_eq [of s r "[]"] assms by auto
  let ?s = "s\<lparr>dispatched := [], SendBuf := b, in_flight := [v, v @ r], debug_com_deal_one_Com := True\<rparr>"
  obtain p c where c: "retrieve b (length v) = Some (p, c)" "buf_ok c" "readView c = r" using retrieve_spec [OF b(2), of "length v"] b(3) by auto
  let ?t = "?s\<lparr>SendBuf := c, sent := sent s @ v, in_flight := [r, v @ r]\<rparr>"
  have nw: "next_write u = Some r" if "SendBuf u = c" for u using next_write_view [of u] that c(2,3) assms(6) by simp
  have t: "write_done 0 (int (length v)) ?s = Some ?t" using c(1) assms(3) nw by (simp add: write_done_def)
  have "readable_size c = length r" using length_readView [OF c(2)] c(3) by simp
  then have far: "retrieve c (length v + length r) = Some (None, c)" using assms(3) by (simp add: retrieve_def)
  let ?u = "?t\<lparr>sent := sent s @ v @ v @ r, in_flight := [r, r]\<rparr>"
  have pos: "0 < int (length v) + int (length r)" using assms(3) by (simp add: add_pos_nonneg)
  have u: "write_done 1 (int (length v + length r)) ?t = Some ?u" using far pos assms(3) nw by (simp add: write_done_def nat_add_distrib)
  have "session_run sm hs hi fuel now [RunDispatched, WriteDone 0 (int (length v)), WriteDone 1 (int (length (v @ r)))] (s, srv) = Some (?u, srv)"
    using b(1) t u by (simp only: session_run_def session_step_def foldM.simps Option.bind.simps prod.case Event.case length_append)
  then show ?thesis by (intro exI [of _ ?u]) simp
qed

theorem overlapping_writes_witness:
  "\<exists>s s'. in_flight s = [''ab''] \<and> session_run id (\<lambda>_. 0) (\<lambda>_. 0) 1 0 [RunDispatched, WriteDone 0 2, WriteDone 1 3] (s, RedisServer_init 4 (fresh_ns 4)) =
     Some (s', RedisServer_init 4 (fresh_ns 4)) \<and> sent s' = ''ababc''"
proof -
  obtain b where b: "buf_ok b" "readView b = ''ab''" using buf_append_spec [OF TcpBuffer_init_ok(1) [of 8 8], of "''ab''"] TcpBuffer_init_ok(2) [of 8 8] by auto
  let ?s = "RedisSession_init\<lparr>SendBuf := b, in_flight := [''ab''], dispatched := [''c'']\<rparr>"
  have s: "sent ?s = []" "in_flight ?s = [''ab'']" by (simp_all add: RedisSession_init_def)
  obtain s' where "session_run id (\<lambda>_. 0) (\<lambda>_. 0) 1 0 [RunDispatched, WriteDone 0 2, WriteDone 1 3] (?s, RedisServer_init 4 (fresh_ns 4)) =
     Some (s', RedisServer_init 4 (fresh_ns 4)) \<and> sent s' = ''ababc''"
    using overlapping_writes [of ?s "''ab''" "''c''" id "\<lambda>_. 0" "\<lambda>_. 0" 1 0 "RedisServer_init 4 (fresh_ns 4)"] b s(1) by auto
  then show ?thesis using s(2) by blast
qed

end
