(* ===== verification/Kv_Store.thy ===== *)
theory Kv_Store
  imports Server_Steps Session
begin

text \<open>
  The server as a key-value store. The jobs of the theory \<open>Server_Steps\<close> are here the handlers of SET, GET, DEL and EXISTS,
  as the registry of the server finds them, and the answers of many concurrent clients are those of one map from strings to strings.
\<close>

subsection \<open>The job of a command\<close>

definition only_slice :: "nat \<Rightarrow> DbSlice \<Rightarrow> Namespace" where
  "only_slice i sl = replicate i None @ [Some sl]"

text \<open>The handler with its hop: on the slice of its shard the callback runs, and what the coroutine does with the result is its reply.\<close>

definition command_job :: "(string \<Rightarrow> string) \<Rightarrow> (string \<Rightarrow> u64) \<Rightarrow> (int \<Rightarrow> u64) \<Rightarrow> nat \<Rightarrow> nat \<Rightarrow> u64 \<Rightarrow> CommandId \<Rightarrow> nat \<Rightarrow> string list \<Rightarrow> string job" where
  "command_job sm hs hi fuel n now ci h args = (let tx = InitByArgs hs n now 0 args in
     \<lparr>job_handle = h, job_tx = tx,
      job_cb = (\<lambda>sl. do {
        (reply, ns, _) \<leftarrow> Invoke sm hs hi fuel ci (only_slice (unique_shard_id tx) sl) tx args;
        sl \<leftarrow> ns ! unique_shard_id tx;
        Some (reply, sl) })\<rparr>)"

lemma Scheduling_only:
  "Scheduling (only_slice (unique_shard_id tx) sl) tx cb = do { (r, sl') \<leftarrow> cb sl; Some (r, only_slice (unique_shard_id tx) sl') }"
  by (simp add: Scheduling_def only_slice_def GetDbSlice_def nth_append list_update_append)

lemma Scheduling_at:
  assumes "unique_shard_id tx < length ns" "ns ! unique_shard_id tx = Some sl"
  shows "Scheduling ns tx cb = do { (r, sl') \<leftarrow> cb sl; Some (r, ns[unique_shard_id tx := Some sl']) }"
  using assms by (simp add: Scheduling_def GetDbSlice_def)

lemma only_slice_nth [simp]: "only_slice i sl ! i = Some sl"
  by (simp add: only_slice_def nth_append)

text \<open>The hop of the job is the handler in the namespace.\<close>

lemma command_job_hop:
  assumes "cmd_handler ci = Some h" "h \<in> {HSet, HGet, HDelex, HExists}"
    and tx: "tx = InitByArgs hs n now 0 args" "unique_shard_id tx < length ns" "ns ! unique_shard_id tx = Some sl"
  shows "Scheduling ns tx (job_cb (command_job sm hs hi fuel n now ci c args)) =
    map_option (\<lambda>(reply, ns, _). (reply, ns)) (Invoke sm hs hi fuel ci ns tx args)"
  using assms(1,2)
  by (auto simp: command_job_def Let_def tx(1) [symmetric] Scheduling_at [OF tx(2,3)] Invoke_def CmdSet_def CmdGet_def Delex_def CmdDel_def CmdExists_def
      Scheduling_only assert_opt_def split: bind_splits option.splits prod.splits)

subsection \<open>The store\<close>

datatype kv_cmd = KSet string string | KGet string | KDel string | KExists string

fun kv_args :: "kv_cmd \<Rightarrow> string list" where
  "kv_args (KSet ky val) = [''SET'', ky, val]"
| "kv_args (KGet ky) = [''GET'', ky]"
| "kv_args (KDel ky) = [''DEL'', ky]"
| "kv_args (KExists ky) = [''EXISTS'', ky]"

fun kv_key :: "kv_cmd \<Rightarrow> string" where
  "kv_key (KSet ky val) = ky"
| "kv_key (KGet ky) = ky"
| "kv_key (KDel ky) = ky"
| "kv_key (KExists ky) = ky"

text \<open>The reply and the store after a command.\<close>

fun kv_step :: "kv_cmd \<Rightarrow> (string \<rightharpoonup> string) \<Rightarrow> string \<times> (string \<rightharpoonup> string)" where
  "kv_step (KSet ky val) m = (BuildSimpleString ''OK'', m(ky \<mapsto> val))"
| "kv_step (KGet ky) m = (case m ky of None \<Rightarrow> SendERROR | Some val \<Rightarrow> BuildBulkString val, m)"
| "kv_step (KDel ky) m = (BuildInteger (if m ky = None then 0 else 1), m(ky := None))"
| "kv_step (KExists ky) m = (BuildInteger (if m ky = None then 0 else 1), m)"

fun kv_replies :: "(nat \<times> kv_cmd) list \<Rightarrow> (string \<rightharpoonup> string) \<Rightarrow> (nat \<times> string) list" where
  "kv_replies [] m = []"
| "kv_replies ((h, c) # cs) m = (h, fst (kv_step c m)) # kv_replies cs (snd (kv_step c m))"

definition server_registry :: CommandRegistry where
  "server_registry = RegisterGeneric (RegisterStringFamily CommandRegistry_init)"

definition kv_job :: "(string \<Rightarrow> string) \<Rightarrow> (string \<Rightarrow> u64) \<Rightarrow> (int \<Rightarrow> u64) \<Rightarrow> nat \<Rightarrow> u64 \<Rightarrow> nat \<times> kv_cmd \<Rightarrow> string job" where
  "kv_job sm hs hi n now hc = command_job sm hs hi 1 n now (the (reg_Find server_registry (hd (kv_args (snd hc))))) (fst hc) (kv_args (snd hc))"

definition kv_shard :: "(string \<Rightarrow> u64) \<Rightarrow> nat \<Rightarrow> string \<Rightarrow> nat" where
  "kv_shard hs n ky = unat (Shard hs (of_nat n) ky)"

lemma kv_registered:
  "cmd_handler (the (reg_Find server_registry ''SET'')) = Some HSet" "cmd_handler (the (reg_Find server_registry ''GET'')) = Some HGet"
  "cmd_handler (the (reg_Find server_registry ''DEL'')) = Some HDelex" "cmd_handler (the (reg_Find server_registry ''EXISTS'')) = Some HExists"
  by (simp_all add: server_registry_def RegisterGeneric_def RegisterStringFamily_def reg_Find_def reg_add_def Let_def StartFamily_def
      SetHandler_def SetAsyncHandler_def CommandId_init_def CommandRegistry_init_def)

lemma kv_job_simps [simp]:
  "job_handle (kv_job sm hs hi n now hc) = fst hc" "job_shard (kv_job sm hs hi n now hc) = kv_shard hs n (kv_key (snd hc))"
  by (cases "snd hc"; simp add: kv_job_def command_job_def Let_def job_shard_def InitByArgs_def kv_shard_def)+

subsection \<open>Room for the keys\<close>

text \<open>\<open>room\<close> depends on the hashes of the keys only.\<close>

definition hashes_room :: "u64 multiset \<Rightarrow> u64 \<Rightarrow> nat \<Rightarrow> bool" where
  "hashes_room M h D \<longleftrightarrow> D \<le> 31 \<and> size (filter_mset (\<lambda>x. prefix D x = prefix D h) M) < 84 \<and>
     (\<forall>d < D. size (filter_mset (\<lambda>x. prefix d x = prefix d h \<and> \<not> is_mine (d + 1) x) M) \<le> 84 \<or>
       (\<forall>c < kBucketNum. size (filter_mset (\<lambda>x. prefix d x = prefix d h \<and> \<not> is_mine (d + 1) x \<and> HomeIndex x = c) M) \<le> kSlotNum))"

lemma room_hashes: "room P t h D \<longleftrightarrow> hashes_room (image_mset (\<lambda>e. khash P (fst e)) (tb_entries t)) h D"
  by (simp add: room_def hashes_room_def pref_def too_many_def few_def mine_def home_def filter_filter_mset filter_mset_image_mset not_less o_def conj_ac)
    (meson linorder_not_less)

lemma hashes_room_mono:
  assumes "hashes_room M h D" "N \<subseteq># M"
  shows "hashes_room N h D"
proof -
  have le: "size (filter_mset Q N) \<le> size (filter_mset Q M)" for Q by (intro size_mset_mono multiset_filter_mono assms(2))
  show ?thesis using assms(1) unfolding hashes_room_def
    by (elim conjE, intro conjI allI impI) (auto intro: le_less_trans [OF le] order_trans [OF le])
qed

definition kv_room :: "(string \<Rightarrow> u64) \<Rightarrow> nat \<Rightarrow> string set \<Rightarrow> bool" where
  "kv_room hs n K \<longleftrightarrow> finite K \<and> (\<forall>ky \<in> K. \<exists>D. hashes_room (image_mset hs (mset_set {k \<in> K. kv_shard hs n k = kv_shard hs n ky})) (hs ky) D)"

text \<open>Up to 83 keys at a shard always have room.\<close>

lemma kv_room_few:
  assumes "finite K" "\<And>i. card {k \<in> K. kv_shard hs n k = i} \<le> 83"
  shows "kv_room hs n K"
proof -
  have "hashes_room (image_mset hs (mset_set {k \<in> K. kv_shard hs n k = i})) h 0" for i h
  proof -
    have "size (filter_mset (\<lambda>x. prefix 0 x = prefix 0 h) (image_mset hs (mset_set {k \<in> K. kv_shard hs n k = i}))) \<le> card {k \<in> K. kv_shard hs n k = i}"
      by (rule order_trans [OF size_filter_mset_lesseq]) simp
    then show ?thesis using assms(2) [of i] by (simp add: hashes_room_def)
  qed
  then show ?thesis using assms(1) unfolding kv_room_def by blast
qed

text \<open>The slice of the shard \<open>i\<close> holds the part of the store \<open>m\<close> whose keys belong to it.\<close>

definition kv_slice :: "(string \<Rightarrow> u64) \<Rightarrow> (int \<Rightarrow> u64) \<Rightarrow> nat \<Rightarrow> string set \<Rightarrow> (string \<rightharpoonup> string) \<Rightarrow> nat \<Rightarrow> DbSlice \<Rightarrow> bool" where
  "kv_slice hs hi n K m i sl \<longleftrightarrow> dom m \<subseteq> K \<and> (\<exists>t. get_db sl 0 = Some t \<and> db_inv hs hi t \<and> strings_db t \<and>
     (\<forall>k. db_map hs hi t k = (if kv_shard hs n k = i then map_option CompactObj_str (m k) else None)))"

lemma count_view: "count (image_mset f M) x = size (filter_mset (\<lambda>e. f e = x) M)"
  by (induction M) auto

lemma kv_slice_room:
  assumes t: "db_inv hs hi t" "\<forall>k. db_map hs hi t k = (if kv_shard hs n k = i then map_option CompactObj_str (m k) else None)" "dom m \<subseteq> K"
    and K: "kv_room hs n K" and ky: "ky \<in> K" "kv_shard hs n ky = i"
  shows "\<exists>D. room (PrimeTablePolicy hs hi) t (hs ky) D"
proof -
  let ?K = "{k \<in> K. kv_shard hs n k = i}" and ?V = "image_mset (\<lambda>e. key_view (fst e)) (tb_entries t)"
  have fin: "finite ?K" using K by (simp add: kv_room_def)
  have keyed: "keyed key_view good_key (tb_entries t)" using t(1) by (simp add: map_inv_def)
  have V: "x \<in> ?K" if h: "x \<in># ?V" for x
  proof -
    obtain k v where kv: "(k, v) \<in># tb_entries t" "key_view k = x" using h by auto
    then have "db_map hs hi t x = Some v" using prime.lookup_iff [OF t(1)] by blast
    then have "kv_shard hs n x = i" "m x \<noteq> None" using t(2) by (auto split: if_splits)
    then show ?thesis using t(3) by auto
  qed
  have "count ?V x \<le> count (mset_set ?K) x" for x
  proof -
    have "count ?V x \<le> 1" unfolding count_view using keyed by (simp add: keyed_def)
    moreover have "count ?V x = 0" if "x \<notin># ?V" using that by (simp only: not_in_iff)
    ultimately show ?thesis using V [of x] fin by (cases "x \<in># ?V") auto
  qed
  then have sub: "?V \<subseteq># mset_set ?K" by (rule mset_subset_eqI)
  have "khash (PrimeTablePolicy hs hi) (fst e) = hs (key_view (fst e))" if "e \<in># tb_entries t" for e
    using prime.khash_view keyed that by (simp add: keyed_def PrimeTablePolicy_def)
  then have "image_mset (\<lambda>e. khash (PrimeTablePolicy hs hi) (fst e)) (tb_entries t) = image_mset hs ?V"
    by (simp add: multiset.map_comp o_def cong: image_mset_cong)
  moreover obtain D where "hashes_room (image_mset hs (mset_set ?K)) (hs ky) D" using K ky unfolding kv_room_def by blast
  ultimately show ?thesis using hashes_room_mono [OF _ image_mset_subseteq_mono [OF sub, of hs]] by (auto simp: room_hashes)
qed

subsection \<open>Commands on a slice\<close>

lemma only_slice_db: "tx_db (only_slice (unique_shard_id tx) sl) tx = get_db sl (db_index (db_cntx tx))"
  by (simp add: tx_db_def GetDbSlice_def) (simp add: only_slice_def)

lemma only_slice_put: "put_tx_db (only_slice (unique_shard_id tx) sl) tx t = only_slice (unique_shard_id tx) (put_db sl (db_index (db_cntx tx)) t)"
  by (simp add: put_tx_db_def GetDbSlice_def) (simp add: only_slice_def list_update_append)

lemma command_job_reply:
  assumes "Invoke sm hs hi fuel ci (only_slice (unique_shard_id tx) sl) tx args = Some (reply, only_slice (unique_shard_id tx) sl', b)" "tx = InitByArgs hs n now 0 args"
  shows "job_cb (command_job sm hs hi fuel n now ci h args) sl = Some (reply, sl')"
  using assms by (simp add: command_job_def Let_def)

lemma kv_slice_upd:
  assumes "get_db sl 0 = Some t" "dom m \<subseteq> K" "\<forall>k. db_map hs hi t k = (if kv_shard hs n k = i then map_option CompactObj_str (m k) else None)"
    and "ky \<in> K" "kv_shard hs n ky = i" "db_inv hs hi t'" "strings_db t'" "db_map hs hi t' = (db_map hs hi t)(ky := map_option CompactObj_str v)"
  shows "kv_slice hs hi n K (m(ky := v)) i (put_db sl 0 t')"
proof -
  have "get_db (put_db sl 0 t') 0 = Some t'" using get_put_db [OF assms(1), of t' 0] by simp
  moreover have "dom (m(ky := v)) \<subseteq> K" using assms(2,4) by (auto split: if_splits)
  ultimately show ?thesis using assms(3,5-8) by (auto simp: kv_slice_def)
qed

lemma kv_job_slice:
  assumes S: "kv_slice hs hi n K m i sl" and K: "kv_room hs n K" and c: "kv_key c \<in> K" "kv_shard hs n (kv_key c) = i"
  shows "\<exists>sl'. job_cb (kv_job sm hs hi n now (h, c)) sl = Some (fst (kv_step c m), sl') \<and> kv_slice hs hi n K (snd (kv_step c m)) i sl'"
proof -
  obtain t where t: "get_db sl 0 = Some t" "db_inv hs hi t" "strings_db t"
      "\<forall>k. db_map hs hi t k = (if kv_shard hs n k = i then map_option CompactObj_str (m k) else None)" and m: "dom m \<subseteq> K"
    using S by (auto simp: kv_slice_def)
  define tx where "tx = InitByArgs hs n now 0 (kv_args c)"
  have tx: "unique_shard_id tx = i" "db_index (db_cntx tx) = 0" "full_args tx = kv_args c"
    using c(2) by (cases c; simp add: tx_def InitByArgs_def kv_shard_def Let_def)+
  let ?ns = "only_slice i sl"
  have db: "tx_db ?ns tx = Some t" using only_slice_db [of tx sl] tx t(1) by simp
  have put: "put_tx_db ?ns tx t' = only_slice i (put_db sl 0 t')" for t' using only_slice_put [of tx sl t'] tx by simp
  have mk: "db_map hs hi t (kv_key c) = map_option CompactObj_str (m (kv_key c))" using t(4) c(2) by simp
  note job = command_job_reply [of sm hs hi 1 _ tx sl "kv_args c", unfolded tx(1), OF _ tx_def]
  note upd = kv_slice_upd [OF t(1) m t(4) c]
  show ?thesis
  proof (cases c)
    case (KSet ky val)
    obtain D where "room (PrimeTablePolicy hs hi) t (hs ky) D" using kv_slice_room [OF t(2,4) m K] c KSet by auto
    then obtain t' where t': "CmdSet sm hs hi 1 ?ns tx [''SET'', ky, val] = Some (BuildSimpleString ''OK'', put_tx_db ?ns tx t')" "db_inv hs hi t'"
        "db_map hs hi t' = (db_map hs hi t)(ky \<mapsto> CompactObj_str val)" "strings_db t'"
      using CmdSet_run [OF db t(2), of ky D sm val] strings_plain t(3) by auto
    then show ?thesis using job [of _ _ _ True h] upd [OF t'(2,4), of "Some val"] KSet put
      by (auto simp: kv_job_def Invoke_def kv_registered)
  next
    case (KGet ky)
    have "CmdGet hs hi ?ns tx [''GET'', ky] = Some (fst (kv_step c m), ?ns)"
      using CmdGet_run [OF db t(2), of ky] mk KGet by (auto simp: ToString_str split: option.splits)
    then show ?thesis using job [of _ _ sl True h] KGet S by (auto simp: kv_job_def Invoke_def kv_registered)
  next
    case (KDel ky)
    obtain t' where t': "Delex hs hi ?ns tx [''DEL'', ky] = Some (BuildInteger (if db_map hs hi t ky = None then 0 else 1), put_tx_db ?ns tx t')"
        "db_inv hs hi t'" "db_map hs hi t' = (db_map hs hi t)(ky := None)" "strings_db t'"
      using CmdDel_run [OF db t(2), of "[''DEL'', ky]" "''DEL''" ky "[]"] tx(3) t(3) KDel by auto
    then show ?thesis using job [of _ _ _ True h] upd [OF t'(2,4), of None] mk KDel put by (auto simp: kv_job_def Invoke_def kv_registered)
  next
    case (KExists ky)
    have "CmdExists hs hi ?ns tx [''EXISTS'', ky] = Some (fst (kv_step c m), ?ns)"
      using CmdExists_eq [OF db t(2), of "''EXISTS''" ky "[]" "[''EXISTS'', ky]"] tx(3) mk KExists by simp
    then show ?thesis using job [of _ _ sl True h] KExists S by (auto simp: kv_job_def Invoke_def kv_registered)
  qed
qed

subsection \<open>The server\<close>

definition kv_ns :: "(string \<Rightarrow> u64) \<Rightarrow> (int \<Rightarrow> u64) \<Rightarrow> nat \<Rightarrow> string set \<Rightarrow> (string \<rightharpoonup> string) \<Rightarrow> Namespace \<Rightarrow> bool" where
  "kv_ns hs hi n K m ns \<longleftrightarrow> slices_ok (kv_slice hs hi n K m) n ns"

text \<open>The jobs that handlers make of commands on the keys \<open>K\<close>.\<close>

definition kv_jobs :: "(string \<Rightarrow> string) \<Rightarrow> (string \<Rightarrow> u64) \<Rightarrow> (int \<Rightarrow> u64) \<Rightarrow> nat \<Rightarrow> string set \<Rightarrow> string job set" where
  "kv_jobs sm hs hi n K = {kv_job sm hs hi n now (h, c) | now h c. kv_key c \<in> K}"

definition is_kv_job :: "(string \<Rightarrow> string) \<Rightarrow> (string \<Rightarrow> u64) \<Rightarrow> (int \<Rightarrow> u64) \<Rightarrow> nat \<Rightarrow> string job \<Rightarrow> nat \<times> kv_cmd \<Rightarrow> bool" where
  "is_kv_job sm hs hi n j hc \<longleftrightarrow> (\<exists>now. j = kv_job sm hs hi n now hc)"

fun kv_final :: "(nat \<times> kv_cmd) list \<Rightarrow> (string \<rightharpoonup> string) \<Rightarrow> string \<rightharpoonup> string" where
  "kv_final [] m = m"
| "kv_final ((h, c) # cs) m = kv_final cs (snd (kv_step c m))"

abbreviation some_kv :: "(string \<Rightarrow> u64) \<Rightarrow> (int \<Rightarrow> u64) \<Rightarrow> nat \<Rightarrow> string set \<Rightarrow> nat \<Rightarrow> DbSlice \<Rightarrow> bool" where
  "some_kv hs hi n K i sl \<equiv> \<exists>m. kv_slice hs hi n K m i sl"

lemma kv_shard_less: "0 < n \<Longrightarrow> n \<le> 65536 \<Longrightarrow> kv_shard hs n ky < n"
proof -
  assume n: "0 < n" "n \<le> 65536"
  then have u: "unat (of_nat n :: u32) = n" by (simp add: unsigned_of_nat take_bit_nat_eq_self)
  have "(0 :: u32) < of_nat n" "(of_nat n :: u32) \<le> 65536" using n u by (simp_all add: word_less_nat_alt word_le_nat_alt)
  from Shard_eq [OF this, of hs ky] show ?thesis using u by (simp add: kv_shard_def)
qed

lemma kv_jobs_ok:
  assumes "kv_room hs n K" "0 < n" "n \<le> 65536" "j \<in> kv_jobs sm hs hi n K"
  shows "job_shard j < n \<and> job_ok (some_kv hs hi n K) j"
proof -
  obtain now h c where j: "j = kv_job sm hs hi n now (h, c)" "kv_key c \<in> K" using assms(4) by (auto simp: kv_jobs_def)
  have "job_ok (some_kv hs hi n K) j" unfolding job_ok_def j(1) using kv_job_slice [OF _ assms(1) j(2)] by fastforce
  then show ?thesis using kv_shard_less [OF assms(2,3)] j(1) by simp
qed

lemma kv_slice_other: "kv_slice hs hi n K m i sl \<Longrightarrow> kv_key c \<in> K \<Longrightarrow> kv_shard hs n (kv_key c) \<noteq> i \<Longrightarrow> kv_slice hs hi n K (snd (kv_step c m)) i sl"
  by (cases c) (auto simp: kv_slice_def split: if_splits)

lemma kv_atomic:
  assumes N: "kv_ns hs hi n K m ns" and K: "kv_room hs n K" "0 < n" "n \<le> 65536" and c: "kv_key c \<in> K"
  shows "\<exists>ns'. atomic_step (kv_job sm hs hi n now (h, c)) (ns, rs) = Some (ns', rs @ [(h, fst (kv_step c m))]) \<and> kv_ns hs hi n K (snd (kv_step c m)) ns'"
proof -
  let ?i = "kv_shard hs n (kv_key c)" and ?j = "kv_job sm hs hi n now (h, c)"
  have i: "?i < n" by (rule kv_shard_less [OF K(2,3)])
  obtain sl where sl: "ns ! ?i = Some sl" "kv_slice hs hi n K m ?i sl" and len: "length ns = n" using N i by (auto simp: kv_ns_def slices_ok_def)
  obtain sl' where sl': "job_cb ?j sl = Some (fst (kv_step c m), sl')" "kv_slice hs hi n K (snd (kv_step c m)) ?i sl'"
    using kv_job_slice [OF sl(2) K(1) c refl] by blast
  have u: "unique_shard_id (job_tx ?j) = ?i" using kv_job_simps(2) [of sm hs hi n now "(h, c)"] by (simp add: job_shard_def)
  have "Scheduling ns (job_tx ?j) (job_cb ?j) = Some (fst (kv_step c m), ns[?i := Some sl'])"
    using Scheduling_at [of "job_tx ?j" ns sl "job_cb ?j"] i len sl(1) sl'(1) u by simp
  moreover have "kv_ns hs hi n K (snd (kv_step c m)) (ns[?i := Some sl'])"
    unfolding kv_ns_def slices_ok_def
  proof (intro conjI allI impI)
    fix u assume u: "u < n"
    show "\<exists>sl. ns[?i := Some sl'] ! u = Some sl \<and> kv_slice hs hi n K (snd (kv_step c m)) u sl"
    proof (cases "u = ?i")
      case False
      then obtain x where "ns ! u = Some x" "kv_slice hs hi n K m u x" using N u by (auto simp: kv_ns_def slices_ok_def)
      then show ?thesis using False kv_slice_other [OF _ c] by auto
    qed (use i len sl'(2) in simp)
  qed (simp add: len)
  ultimately show ?thesis by (simp add: atomic_step_def)
qed

lemma kv_atomic_run:
  assumes "kv_room hs n K" "0 < n" "n \<le> 65536"
  shows "kv_ns hs hi n K m ns \<Longrightarrow> set js \<subseteq> kv_jobs sm hs hi n K \<Longrightarrow> \<exists>cs ns'. list_all2 (is_kv_job sm hs hi n) js cs \<and>
    foldM atomic_step js (ns, rs) = Some (ns', rs @ kv_replies cs m) \<and> kv_ns hs hi n K (kv_final cs m) ns'"
proof (induction js arbitrary: m ns rs)
  case Nil
  then show ?case by auto
next
  case (Cons j js)
  obtain now h c where j: "j = kv_job sm hs hi n now (h, c)" "kv_key c \<in> K" using Cons.prems(2) by (auto simp: kv_jobs_def)
  obtain ns1 where 1: "atomic_step j (ns, rs) = Some (ns1, rs @ [(h, fst (kv_step c m))])" "kv_ns hs hi n K (snd (kv_step c m)) ns1"
    using kv_atomic [OF Cons.prems(1) assms j(2)] j(1) by blast
  have sub: "set js \<subseteq> kv_jobs sm hs hi n K" using Cons.prems(2) by simp
  obtain cs ns' where cs: "list_all2 (is_kv_job sm hs hi n) js cs"
      "foldM atomic_step js (ns1, rs @ [(h, fst (kv_step c m))]) = Some (ns', (rs @ [(h, fst (kv_step c m))]) @ kv_replies cs (snd (kv_step c m)))"
      "kv_ns hs hi n K (kv_final cs (snd (kv_step c m))) ns'"
    using Cons.IH [OF 1(2) sub] by blast
  have "is_kv_job sm hs hi n j (h, c)" using j(1) by (auto simp: is_kv_job_def)
  then show ?case using 1(1) cs by (intro exI [of _ "(h, c) # cs"] exI [of _ ns']) simp
qed


lemma fresh_kv_ns: "kv_ns hs hi 2 K Map.empty (fresh_ns 2)"
proof -
  have "kv_slice hs hi 2 K Map.empty i \<lparr>shard_id = i, db_arr = [Some (DbTable_init 0)]\<rparr>" for i
    using fresh_prime_facts(2) fresh_prime_facts(6,7) [of hs hi] by (auto simp: kv_slice_def get_db_def DbTable_init_def fresh_prime_def [symmetric] strings_db_def)
  then show ?thesis by (auto simp: kv_ns_def slices_ok_def fresh_ns_def)
qed


end
