(* ===== verification/Coro_Task.thy ===== *)
theory Coro_Task
  imports Prelude
begin

text \<open>
  Coroutines: \<open>cppcoro::task\<close> of \<open>net/cppcoro/task.hpp\<close> and \<open>AsyncTask\<close> of \<open>net/cppcoro/async_task.hpp\<close>. A coroutine body is a
  tree of its suspension points: it returns, throws, awaits a new task, or suspends on something else, such as a socket or an
  event, which resumes it with a value. A frame is on the heap under its handle; awaiting a task transfers control to it, and its
  final suspension transfers control back to the awaiting coroutine. Resuming no coroutine, or one that is not suspended, has no result.
\<close>

subsection \<open>Frames\<close>

datatype 'v body = Return 'v | Throw nat | Await "'v body" "nat + 'v \<Rightarrow> 'v body" | Suspend "'v \<Rightarrow> 'v body"

datatype 'v promise_value = Empty | Value 'v | Exception nat

text \<open>Where a frame is: in its body, at an await of the task \<open>c\<close>, at another suspension point, or at its final suspension.\<close>

datatype 'v point = Run "'v body" | AtTask nat "nat + 'v \<Rightarrow> 'v body" | AtOther "'v \<Rightarrow> 'v body" | Final

record 'v frame =
  fr_point :: "'v point"
  m_continuation :: "nat option"
  m_result :: "'v promise_value"

text \<open>\<open>co_outcome\<close> is the result of the detached coroutine; \<open>co_destroyed\<close> are the destroyed frames.\<close>

record 'v coro =
  co_frames :: "nat \<rightharpoonup> 'v frame"
  co_running :: "nat option"
  co_next :: nat
  co_outcome :: "'v option"
  co_destroyed :: "nat list"

text \<open>A call of a coroutine: the promise is empty and the body has not started.\<close>

definition new_frame :: "'v body \<Rightarrow> 'v frame" where
  "new_frame b = \<lparr>fr_point = Run b, m_continuation = None, m_result = Empty\<rparr>"

definition call_task :: "'v body \<Rightarrow> 'v coro \<Rightarrow> nat \<times> 'v coro" where
  "call_task b s = (co_next s, s\<lparr>co_frames := (co_frames s)(co_next s \<mapsto> new_frame b), co_next := Suc (co_next s)\<rparr>)"

text \<open>\<open>await_ready\<close> of a task.\<close>

definition task_ready :: "nat option \<Rightarrow> 'v coro \<Rightarrow> bool" where
  "task_ready t s = (case t of None \<Rightarrow> True | Some c \<Rightarrow> (case co_frames s c of Some f \<Rightarrow> fr_point f = Final | None \<Rightarrow> False))"

text \<open>\<open>await_suspend\<close>: the awaiting coroutine becomes the continuation, and the task runs.\<close>

definition task_await_suspend :: "nat \<Rightarrow> nat \<Rightarrow> 'v coro \<Rightarrow> 'v coro option" where
  "task_await_suspend c h s = do {
     f \<leftarrow> co_frames s c;
     Some (s\<lparr>co_frames := (co_frames s)(c \<mapsto> f\<lparr>m_continuation := Some h\<rparr>), co_running := Some c\<rparr>) }"

text \<open>\<open>result\<close> of the promise; the assertion fails when it is empty.\<close>

definition promise_result :: "'v frame \<Rightarrow> (nat + 'v) option" where
  "promise_result f = (case m_result f of Empty \<Rightarrow> None | Value v \<Rightarrow> Some (Inr v) | Exception e \<Rightarrow> Some (Inl e))"

definition return_value :: "'v \<Rightarrow> 'v frame \<Rightarrow> 'v frame" where
  "return_value v f = f\<lparr>m_result := Value v\<rparr>"

definition unhandled_exception :: "nat \<Rightarrow> 'v frame \<Rightarrow> 'v frame" where
  "unhandled_exception e f = f\<lparr>m_result := Exception e\<rparr>"

text \<open>\<open>await_suspend\<close> of the final awaitable: control goes to the continuation, which must be there.\<close>

definition final_suspend :: "nat \<Rightarrow> 'v frame \<Rightarrow> 'v coro \<Rightarrow> 'v coro option" where
  "final_suspend h f s = do {
     c \<leftarrow> m_continuation f;
     Some (s\<lparr>co_frames := (co_frames s)(h \<mapsto> f\<lparr>fr_point := Final\<rparr>), co_running := Some c\<rparr>) }"

definition destroy_frame :: "nat \<Rightarrow> 'v coro \<Rightarrow> 'v coro option" where
  "destroy_frame h s = do {
     _ \<leftarrow> co_frames s h;
     Some (s\<lparr>co_frames := (co_frames s)(h := None), co_destroyed := co_destroyed s @ [h]\<rparr>) }"

text \<open>The detached coroutine has the handle 0: its final suspension destroys it, and an exception that leaves it ends the program.\<close>

definition finish :: "nat \<Rightarrow> nat + 'v \<Rightarrow> 'v frame \<Rightarrow> 'v coro \<Rightarrow> 'v coro option" where
  "finish h r f s = (case r of
     Inr v \<Rightarrow> if h = 0 then do { s \<leftarrow> destroy_frame h s; Some (s\<lparr>co_outcome := Some v, co_running := None\<rparr>) } else final_suspend h (return_value v f) s
   | Inl e \<Rightarrow> if h = 0 then None else final_suspend h (unhandled_exception e f) s)"

definition set_point :: "nat \<Rightarrow> 'v point \<Rightarrow> 'v coro \<Rightarrow> 'v coro" where
  "set_point h p s = s\<lparr>co_frames := (co_frames s)(h := map_option (\<lambda>f. f\<lparr>fr_point := p\<rparr>) (co_frames s h))\<rparr>"

text \<open>\<open>await_resume\<close>, after which the task object is destroyed with its frame.\<close>

definition task_await_resume :: "nat \<Rightarrow> 'v coro \<Rightarrow> ((nat + 'v) \<times> 'v coro) option" where
  "task_await_resume c s = do { f \<leftarrow> co_frames s c; r \<leftarrow> promise_result f; s \<leftarrow> destroy_frame c s; Some (r, s) }"

text \<open>The running coroutine goes on to its next suspension point; when none runs, the next value resumes the suspended one \<open>w\<close>.\<close>

definition coro_step :: "'v list \<times> nat \<times> 'v coro \<Rightarrow> ('v list \<times> nat \<times> 'v coro) option" where
  "coro_step st = (case st of (ins, w, s) \<Rightarrow> (case co_running s of
     None \<Rightarrow> (case ins of [] \<Rightarrow> None
       | v # ins \<Rightarrow> do {
           f \<leftarrow> co_frames s w;
           case fr_point f of AtOther k \<Rightarrow> Some (ins, w, (set_point w (Run (k v)) s)\<lparr>co_running := Some w\<rparr>) | _ \<Rightarrow> None })
   | Some h \<Rightarrow> do {
       f \<leftarrow> co_frames s h;
       case fr_point f of
         Run (Return v) \<Rightarrow> do { s \<leftarrow> finish h (Inr v) f s; Some (ins, w, s) }
       | Run (Throw e) \<Rightarrow> do { s \<leftarrow> finish h (Inl e) f s; Some (ins, w, s) }
       | Run (Await b k) \<Rightarrow> (let (c, s) = call_task b s in
           if task_ready (Some c) s then None
           else do { s \<leftarrow> task_await_suspend c h (set_point h (AtTask c k) s); Some (ins, w, s) })
       | Run (Suspend k) \<Rightarrow> Some (ins, h, (set_point h (AtOther k) s)\<lparr>co_running := None\<rparr>)
       | AtTask c k \<Rightarrow> do { (r, s) \<leftarrow> task_await_resume c s; Some (ins, w, set_point h (Run (k r)) s) }
       | AtOther k \<Rightarrow> None
       | Final \<Rightarrow> None }))"

fun coro_run :: "nat \<Rightarrow> 'v list \<times> nat \<times> 'v coro \<Rightarrow> ('v list \<times> nat \<times> 'v coro) option" where
  "coro_run 0 st = Some st"
| "coro_run (Suc n) st = Option.bind (coro_step st) (coro_run n)"

definition coro_start :: "'v body \<Rightarrow> 'v coro" where
  "coro_start b = \<lparr>co_frames = [0 \<mapsto> new_frame b], co_running = Some 0, co_next = 1, co_outcome = None, co_destroyed = []\<rparr>"

subsection \<open>The reference\<close>

text \<open>The body as a function of the values it receives: an await is a call.\<close>

primrec body_eval :: "'v body \<Rightarrow> 'v list \<Rightarrow> ((nat + 'v) \<times> 'v list) option" where
  "body_eval (Return v) = (\<lambda>ins. Some (Inr v, ins))"
| "body_eval (Throw e) = (\<lambda>ins. Some (Inl e, ins))"
| "body_eval (Await b k) = (\<lambda>ins. case body_eval b ins of None \<Rightarrow> None | Some (r, ins) \<Rightarrow> body_eval (k r) ins)"
| "body_eval (Suspend k) = (\<lambda>ins. case ins of [] \<Rightarrow> None | v # ins \<Rightarrow> body_eval (k v) ins)"

lemma coro_run_append: "coro_run (m + n) st = Option.bind (coro_run m st) (coro_run n)"
  by (induction m arbitrary: st) (auto split: bind_splits)

lemma coro_run_trans: "coro_run m st = Some st1 \<Longrightarrow> coro_run (m + n) st = coro_run n st1"
  by (simp add: coro_run_append)

lemma coro_run_one: "coro_run 1 st = coro_step st"
  by (cases "coro_step st") simp_all

fun last_step :: "nat + 'v \<Rightarrow> 'v body" where
  "last_step (Inr v) = Return v"
| "last_step (Inl e) = Throw e"

definition fresh_above :: "'v coro \<Rightarrow> bool" where
  "fresh_above s \<longleftrightarrow> (\<forall>x \<ge> co_next s. co_frames s x = None)"

text \<open>The coroutine \<open>h\<close> got from the state \<open>s\<close> to the last step with the outcome \<open>r\<close>: the other frames are as they were, and the frames made
  on the way were destroyed exactly once.\<close>

definition got_to :: "nat \<Rightarrow> 'v frame \<Rightarrow> 'v body \<Rightarrow> 'v coro \<Rightarrow> 'v coro \<Rightarrow> bool" where
  "got_to h f b s s' \<longleftrightarrow> co_running s' = Some h \<and> co_frames s' = (co_frames s)(h \<mapsto> f\<lparr>fr_point := Run b\<rparr>) \<and> co_next s \<le> co_next s' \<and>
     co_outcome s' = co_outcome s \<and> (\<exists>d. co_destroyed s' = co_destroyed s @ d \<and> distinct d \<and> set d = {co_next s..<co_next s'})"

lemma got_to_fresh: "got_to h f b s s' \<Longrightarrow> fresh_above s \<Longrightarrow> h < co_next s \<Longrightarrow> fresh_above s' \<and> h < co_next s' \<and> co_running s' = Some h \<and> co_frames s' h = Some (f\<lparr>fr_point := Run b\<rparr>)"
  by (auto simp: got_to_def fresh_above_def)

lemma got_to_trans:
  assumes "got_to h f b s s1" "got_to h (f\<lparr>fr_point := Run b\<rparr>) b' s1 s2"
  shows "got_to h f b' s s2"
proof -
  obtain d1 d2 where d: "co_destroyed s1 = co_destroyed s @ d1" "distinct d1" "set d1 = {co_next s..<co_next s1}" "co_next s \<le> co_next s1"
      "co_destroyed s2 = co_destroyed s1 @ d2" "distinct d2" "set d2 = {co_next s1..<co_next s2}" "co_next s1 \<le> co_next s2"
    using assms by (auto simp: got_to_def)
  then have "distinct (d1 @ d2)" "set (d1 @ d2) = {co_next s..<co_next s2}" by auto
  then show ?thesis using assms d by (auto simp: got_to_def intro!: exI [of _ "d1 @ d2"])
qed

text \<open>The task that \<open>h\<close> awaits got to its end: two steps return to \<open>h\<close>.\<close>

lemma await_returns:
  assumes s: "co_frames s h = Some f" "h < co_next s" "fresh_above s"
    and c: "got_to (co_next s) ((new_frame b)\<lparr>m_continuation := Some h\<rparr>) (last_step r)
      (s\<lparr>co_frames := (co_frames s)(h \<mapsto> f\<lparr>fr_point := AtTask (co_next s) k\<rparr>, co_next s \<mapsto> (new_frame b)\<lparr>m_continuation := Some h\<rparr>),
         co_next := Suc (co_next s), co_running := Some (co_next s)\<rparr>) s1"
  shows "\<exists>s2. coro_run 2 (ins, w, s1) = Some (ins, w, s2) \<and> got_to h f (k r) s s2"
proof -
  let ?c = "co_next s"
  have F: "co_frames s1 = (co_frames s)(h \<mapsto> f\<lparr>fr_point := AtTask ?c k\<rparr>, ?c \<mapsto> (new_frame b)\<lparr>m_continuation := Some h, fr_point := Run (last_step r)\<rparr>)"
    and R: "co_running s1 = Some ?c" "Suc ?c \<le> co_next s1" "co_outcome s1 = co_outcome s"
    using c by (auto simp: got_to_def)
  obtain d where d: "co_destroyed s1 = co_destroyed s @ d" "distinct d" "set d = {Suc ?c..<co_next s1}" using c by (auto simp: got_to_def)
  have ne: "?c \<noteq> 0" "h \<noteq> ?c" "co_frames s ?c = None" using s by (auto simp: fresh_above_def)
  let ?fin = "(co_frames s)(h \<mapsto> f\<lparr>fr_point := AtTask ?c k\<rparr>, ?c \<mapsto> \<lparr>fr_point = Final, m_continuation = Some h, m_result = (case r of Inr v \<Rightarrow> Value v | Inl e \<Rightarrow> Exception e)\<rparr>)"
  let ?s1 = "s1\<lparr>co_frames := ?fin, co_running := Some h\<rparr>"
  have 1: "coro_step (ins, w, s1) = Some (ins, w, ?s1)"
    using F R ne by (cases r) (auto simp: coro_step_def finish_def final_suspend_def return_value_def unhandled_exception_def new_frame_def)
  let ?s2 = "s1\<lparr>co_frames := (co_frames s)(h \<mapsto> f\<lparr>fr_point := Run (k r)\<rparr>), co_running := Some h, co_destroyed := co_destroyed s1 @ [?c]\<rparr>"
  have 2: "coro_step (ins, w, ?s1) = Some (ins, w, ?s2)"
    using ne by (cases r) (auto simp: coro_step_def task_await_resume_def promise_result_def destroy_frame_def set_point_def fun_upd_def fun_eq_iff)
  have "distinct (d @ [?c])" "set (d @ [?c]) = {?c..<co_next s1}" using d(2,3) R(2) by auto
  then have "got_to h f (k r) s ?s2" using R d(1) by (auto simp: got_to_def intro!: exI [of _ "d @ [?c]"])
  then show ?thesis using 1 2 by (simp add: numeral_2_eq_2)
qed

lemma body_runs:
  "body_eval b ins = Some (r, ins') \<Longrightarrow> co_running s = Some h \<Longrightarrow> co_frames s h = Some f \<Longrightarrow> fr_point f = Run b \<Longrightarrow> fresh_above s \<Longrightarrow> h < co_next s \<Longrightarrow>
   \<exists>n w' s'. coro_run n (ins, w, s) = Some (ins', w', s') \<and> got_to h f (last_step r) s s'"
proof (induction b arbitrary: ins r ins' s h f w)
  case (Return v)
  then have "got_to h f (last_step r) s s" by (cases s, cases f) (auto simp: got_to_def)
  then show ?case using Return by (intro exI [of _ 0] exI [of _ w] exI [of _ s]) auto
next
  case (Throw e)
  then have "got_to h f (last_step r) s s" by (cases s, cases f) (auto simp: got_to_def)
  then show ?case using Throw by (intro exI [of _ 0] exI [of _ w] exI [of _ s]) auto
next
  case (Await b k)
  obtain r1 ins1 where e: "body_eval b ins = Some (r1, ins1)" "body_eval (k r1) ins1 = Some (r, ins')" using Await.prems(1) by (auto split: option.splits)
  let ?c = "co_next s" and ?g = "(new_frame b)\<lparr>m_continuation := Some h\<rparr>"
  let ?s = "s\<lparr>co_frames := (co_frames s)(h \<mapsto> f\<lparr>fr_point := AtTask ?c k\<rparr>, ?c \<mapsto> ?g), co_next := Suc ?c, co_running := Some ?c\<rparr>"
  have ne: "h \<noteq> ?c" "co_frames s ?c = None" using Await.prems(5,6) by (auto simp: fresh_above_def)
  have 0: "coro_step (ins, w, s) = Some (ins, w, ?s)"
    using Await.prems(2-4) ne by (auto simp: coro_step_def call_task_def task_ready_def new_frame_def set_point_def task_await_suspend_def fun_upd_def fun_eq_iff)
  have p: "co_running ?s = Some ?c" "co_frames ?s ?c = Some ?g" "fr_point ?g = Run b" "fresh_above ?s" "?c < co_next ?s"
    using Await.prems(5,6) by (auto simp: new_frame_def fresh_above_def)
  obtain n1 w1 s1 where 1: "coro_run n1 (ins, w, ?s) = Some (ins1, w1, s1)" "got_to ?c ?g (last_step r1) ?s s1"
    using Await.IH(1) [OF e(1) p] by blast
  obtain s2 where 2: "coro_run 2 (ins1, w1, s1) = Some (ins1, w1, s2)" "got_to h f (k r1) s s2"
    using await_returns [OF Await.prems(3,6,5) 1(2)] by blast
  note q = got_to_fresh [OF 2(2) Await.prems(5,6)]
  obtain n3 w3 s3 where 3: "coro_run n3 (ins1, w1, s2) = Some (ins', w3, s3)" "got_to h (f\<lparr>fr_point := Run (k r1)\<rparr>) (last_step r) s2 s3"
    using Await.IH(2) [OF rangeI e(2), of s2 h "f\<lparr>fr_point := Run (k r1)\<rparr>" w1] q by auto
  have "coro_run (1 + (n1 + (2 + n3))) (ins, w, s) = Some (ins', w3, s3)"
    using coro_run_trans [OF 0 [folded coro_run_one]] coro_run_trans [OF 1(1)] coro_run_trans [OF 2(1)] 3(1) by presburger
  then show ?case using got_to_trans [OF 2(2) 3(2)] by blast
next
  case (Suspend k)
  obtain v ins1 where e: "ins = v # ins1" "body_eval (k v) ins1 = Some (r, ins')" using Suspend.prems(1) by (auto split: list.splits)
  let ?s = "s\<lparr>co_frames := (co_frames s)(h \<mapsto> f\<lparr>fr_point := Run (k v)\<rparr>)\<rparr>"
  have 0: "coro_run 2 (ins, w, s) = Some (ins1, h, ?s)"
    using Suspend.prems(2-4) e(1) by (cases s) (auto simp: numeral_2_eq_2 coro_step_def set_point_def fun_upd_def fun_eq_iff)
  have g: "got_to h f (k v) s ?s" using Suspend.prems(2) by (auto simp: got_to_def)
  note q = got_to_fresh [OF g Suspend.prems(5,6)]
  obtain n w' s' where 1: "coro_run n (ins1, h, ?s) = Some (ins', w', s')" "got_to h (f\<lparr>fr_point := Run (k v)\<rparr>) (last_step r) ?s s'"
    using Suspend.IH [OF rangeI e(2), of ?s h "f\<lparr>fr_point := Run (k v)\<rparr>" h] q by auto
  have "coro_run (2 + n) (ins, w, s) = Some (ins', w', s')" using coro_run_trans [OF 0] 1(1) by presburger
  then show ?case using got_to_trans [OF g 1(2)] by blast
qed

text \<open>(C11) Awaiting a task is calling it: a detached coroutine whose body is any tree of awaits, suspensions, returns and exceptions gets the
  outcome of the body read as nested calls, receives the values of its suspensions in order, and every frame that was made is destroyed exactly
  once; only an exception that leaves the detached coroutine ends the program.\<close>

theorem task_correct:
  assumes "body_eval b ins = Some (r, ins')"
  shows "case r of
      Inr v \<Rightarrow> \<exists>n w s. coro_run n (ins, w0, coro_start b) = Some (ins', w, s) \<and> co_running s = None \<and> co_frames s = Map.empty \<and>
        co_outcome s = Some v \<and> distinct (co_destroyed s) \<and> set (co_destroyed s) = {0..<co_next s}
    | Inl e \<Rightarrow> \<exists>n w s. coro_run n (ins, w0, coro_start b) = Some (ins', w, s) \<and> co_running s = Some 0 \<and>
        map_option fr_point (co_frames s 0) = Some (Run (Throw e)) \<and> coro_step (ins', w, s) = None"
proof -
  let ?s = "coro_start b" and ?f = "new_frame b"
  obtain n w s where n: "coro_run n (ins, w0, ?s) = Some (ins', w, s)" "got_to 0 ?f (last_step r) ?s s"
    using body_runs [OF assms, of ?s 0 ?f w0] by (auto simp: coro_start_def new_frame_def fresh_above_def)
  have F: "co_frames s = [0 \<mapsto> ?f\<lparr>fr_point := Run (last_step r)\<rparr>]" "co_running s = Some 0" "1 \<le> co_next s" using n(2) by (auto simp: got_to_def coro_start_def)
  obtain d where d: "co_destroyed s = d" "distinct d" "set d = {1..<co_next s}" using n(2) by (auto simp: got_to_def coro_start_def)
  show ?thesis
  proof (cases r)
    case (Inr v)
    let ?t = "s\<lparr>co_frames := Map.empty, co_destroyed := d @ [0], co_outcome := Some v, co_running := None\<rparr>"
    have "coro_step (ins', w, s) = Some (ins', w, ?t)" using F d(1) Inr by (auto simp: coro_step_def finish_def destroy_frame_def fun_upd_def fun_eq_iff)
    then have "coro_run (n + 1) (ins, w0, ?s) = Some (ins', w, ?t)" using coro_run_trans [OF n(1), of 1] coro_run_one by metis
    moreover have "distinct (d @ [0])" "set (d @ [0]) = {0..<co_next s}" using d(2,3) F(3) by auto
    ultimately show ?thesis using Inr by (simp del: coro_run.simps) (intro exI [of _ "n + 1"] exI [of _ w] exI [of _ ?t], simp del: coro_run.simps)
  next
    case (Inl e)
    have "coro_step (ins', w, s) = None" using F Inl by (simp add: coro_step_def finish_def)
    then show ?thesis using n(1) F Inl by (simp del: coro_run.simps) (intro exI [of _ n] exI [of _ w] exI [of _ s], simp)
  qed
qed

text \<open>A coroutine that awaits a task which awaits another one; the inner one reads a value, and an exception is caught.\<close>

definition body_ex :: "int body" where
  "body_ex = Await (Await (Suspend (\<lambda>v. if v < 0 then Throw 7 else Return (v + 1))) (\<lambda>r. case r of Inr v \<Rightarrow> Return (10 * v) | Inl e \<Rightarrow> Throw e))
     (\<lambda>r. case r of Inr v \<Rightarrow> Return v | Inl e \<Rightarrow> Return (int e))"

theorem task_correct_witness:
  "(\<exists>n w s. coro_run n ([4], 0, coro_start body_ex) = Some ([], w, s) \<and> co_frames s = Map.empty \<and> co_outcome s = Some 50) \<and>
   (\<exists>n w s. coro_run n ([-1], 0, coro_start body_ex) = Some ([], w, s) \<and> co_frames s = Map.empty \<and> co_outcome s = Some 7)"
  using task_correct [of body_ex "[4]" "Inr 50" "[]" 0] task_correct [of body_ex "[-1]" "Inr 7" "[]" 0] by (auto simp: body_ex_def)

text \<open>A task that runs without being awaited has no continuation, and its end has no result.\<close>

lemma final_suspend_needs_continuation: "m_continuation f = None \<Longrightarrow> final_suspend h f s = None"
  by (simp add: final_suspend_def)

subsection \<open>Task objects\<close>

text \<open>The variables of type \<open>task\<close> with the handle that each holds, and the destroyed frames.\<close>

type_synonym task_vars = "nat option list \<times> nat list"

definition task_destroy :: "nat \<Rightarrow> task_vars \<Rightarrow> task_vars" where
  "task_destroy i st = (case fst st ! i of None \<Rightarrow> st | Some h \<Rightarrow> ((fst st)[i := None], snd st @ [h]))"

text \<open>The move constructor of the variable \<open>i\<close>, which holds nothing before.\<close>

definition task_move :: "nat \<Rightarrow> nat \<Rightarrow> task_vars \<Rightarrow> task_vars" where
  "task_move i j st = ((fst st)[i := fst st ! j, j := None], snd st)"

definition task_assign :: "nat \<Rightarrow> nat \<Rightarrow> task_vars \<Rightarrow> task_vars" where
  "task_assign i j st = (if j \<noteq> i then task_move i j (task_destroy i st) else st)"

datatype task_op = New_task nat nat | Move_construct nat nat | Move_assign nat nat | Destroy_task nat

fun task_vars_step :: "task_op \<Rightarrow> task_vars \<Rightarrow> task_vars option" where
  "task_vars_step (New_task i h) st = do { assert_opt (i < length (fst st) \<and> fst st ! i = None); Some ((fst st)[i := Some h], snd st) }"
| "task_vars_step (Move_construct i j) st = do {
     assert_opt (i < length (fst st) \<and> j < length (fst st) \<and> fst st ! i = None \<and> i \<noteq> j); Some (task_move i j st) }"
| "task_vars_step (Move_assign i j) st = do { assert_opt (i < length (fst st) \<and> j < length (fst st)); Some (task_assign i j st) }"
| "task_vars_step (Destroy_task i) st = do { assert_opt (i < length (fst st)); Some (task_destroy i st) }"

fun new_tasks :: "task_op list \<Rightarrow> nat list" where
  "new_tasks [] = []"
| "new_tasks (New_task i h # ops) = h # new_tasks ops"
| "new_tasks (_ # ops) = new_tasks ops"

definition handles :: "task_vars \<Rightarrow> nat multiset" where
  "handles st = mset (concat (map (case_option [] (\<lambda>h. [h])) (fst st))) + mset (snd st)"

lemma held_upd:
  "i < length vs \<Longrightarrow> mset (concat (map (case_option [] (\<lambda>h. [h])) (vs[i := x]))) + mset (case_option [] (\<lambda>h. [h]) (vs ! i)) =
     mset (concat (map (case_option [] (\<lambda>h. [h])) vs)) + mset (case_option [] (\<lambda>h. [h]) x)"
proof (induction vs arbitrary: i)
  case (Cons v vs)
  then show ?case by (cases i) (auto simp: ac_simps split: option.splits)
qed simp

lemma task_destroy_handles: "i < length (fst st) \<Longrightarrow> handles (task_destroy i st) = handles st \<and> fst (task_destroy i st) ! i = None \<and> length (fst (task_destroy i st)) = length (fst st)"
  using held_upd [of i "fst st" None] by (auto simp: task_destroy_def handles_def split: option.split)

lemma task_move_handles:
  assumes "i < length (fst st)" "j < length (fst st)" "fst st ! i = None" "i \<noteq> j"
  shows "handles (task_move i j st) = handles st"
  using held_upd [of i "fst st" "fst st ! j"] held_upd [of j "(fst st)[i := fst st ! j]" None] assms by (auto simp: task_move_def handles_def)

lemma task_vars_handles:
  "foldM task_vars_step ops st = Some st' \<Longrightarrow> handles st' = handles st + mset (new_tasks ops)"
proof (induction ops arbitrary: st)
  case (Cons op ops)
  then obtain st1 where 1: "task_vars_step op st = Some st1" "foldM task_vars_step ops st1 = Some st'" by (auto split: bind_splits)
  have "handles st1 + mset (new_tasks ops) = handles st + mset (new_tasks (op # ops))"
  proof (cases op)
    case (New_task i h)
    then show ?thesis using 1(1) held_upd [of i "fst st" "Some h"] by (auto simp: handles_def ac_simps split: bind_splits if_splits)
  next
    case (Move_construct i j)
    then show ?thesis using 1(1) task_move_handles [of i st j] by (auto split: bind_splits if_splits)
  next
    case (Move_assign i j)
    then show ?thesis using 1(1) task_move_handles [of i "task_destroy i st" j] task_destroy_handles [of i st] by (auto simp: task_assign_def split: bind_splits if_splits)
  next
    case (Destroy_task i)
    then show ?thesis using 1(1) task_destroy_handles [of i st] by (auto split: bind_splits if_splits)
  qed
  then show ?case using Cons.IH [OF 1(2)] by simp
qed simp

text \<open>(C40) A frame is destroyed exactly once: after any constructions, moves, assignments and destructions of task objects that leave no object with a
  frame, the destroyed frames are exactly the frames that were made.\<close>

theorem task_frames_destroyed:
  assumes "foldM task_vars_step ops (replicate n None, []) = Some (replicate n None, d)" "distinct (new_tasks ops)"
  shows "distinct d \<and> set d = set (new_tasks ops)"
proof -
  have e: "concat (map (case_option [] (\<lambda>h. [h])) (replicate n None)) = []" by (induction n) auto
  have "mset d = mset (new_tasks ops)" using task_vars_handles [OF assms(1)] e by (simp add: handles_def)
  then show ?thesis using assms(2) by (metis mset_eq_imp_distinct_iff mset_eq_setD)
qed

theorem task_frames_destroyed_witness:
  "foldM task_vars_step [New_task 0 5, New_task 1 6, Move_assign 0 1, Destroy_task 0, Destroy_task 1] (replicate 2 None, []) = Some (replicate 2 None, [5, 6]) \<and>
   distinct [5, 6 :: nat] \<and> set [5, 6 :: nat] = set (new_tasks [New_task 0 5, New_task 1 6, Move_assign 0 1, Destroy_task 0, Destroy_task 1])"
proof -
  have "foldM task_vars_step [New_task 0 5, New_task 1 6, Move_assign 0 1, Destroy_task 0, Destroy_task 1] (replicate 2 None, []) = Some (replicate 2 None, [5, 6])"
    by (simp add: task_assign_def task_destroy_def task_move_def numeral_2_eq_2)
  then show ?thesis using task_frames_destroyed by (intro conjI) auto
qed

end
