(* ===== verification/Proactor.thy ===== *)
theory Proactor
  imports Mpmc_Seq "HOL-Library.Multiset"
begin

text \<open>
  The event loop \<open>UringProactor\<close> of \<open>net/base/uring_proactor.hpp\<close> and \<open>.cpp\<close>: its two queues, the dispatch of
  tasks, the submission of reads, writes and accepts, the completion handler and the loop. The loop is cut
  where other code can run: between two tasks, between two operations, and around the completion handler; the
  calls that tasks, coroutines and other threads make in between are events of the schedule. The rings of
  \<open>liburing\<close> and the event descriptor belong to the kernel: they are the parameter \<open>K\<close>.
\<close>

subsection \<open>Operations and the kernel\<close>

text \<open>Fields that \<open>SubmitAccept\<close> leaves uninitialised are \<open>None\<close>. Buffers and awaitable objects are addresses.\<close>

record 'h PendingOp =
  op_fd :: int
  op_type :: nat
  op_buf :: "nat option"
  op_len :: "nat option"
  op_offset :: "int option"
  op_handle :: "'h option"
  op_awaitable :: "nat option"

datatype 'h user_data = WAKEUP_COOKIE | Null_Data | Op_Data "'h PendingOp"

datatype opcode =
  Prep_Accept int
| Prep_Read int "nat option" "nat option" "int option"
| Prep_Write int "nat option" "nat option" "int option"
| Prep_Close int
| Prep_Poll

text \<open>A completion: the user data of the submission and the result.\<close>

record 'h io_uring_cqe =
  cqe_data :: "'h user_data"
  cqe_res :: int

text \<open>
  The functions of \<open>liburing\<close> and of the kernel that the loop calls, on a state \<open>'r\<close> of the rings and the event
  descriptor. \<open>io_uring_prep\<close> fills the entry that \<open>io_uring_get_sqe\<close> returned last; no code is a switch that
  chose none.
\<close>

record ('h, 'r) kernel =
  io_uring_get_sqe :: "'r \<Rightarrow> 'r option"
  io_uring_prep :: "opcode option \<Rightarrow> 'h user_data \<Rightarrow> 'r \<Rightarrow> 'r"
  io_uring_submit :: "'r \<Rightarrow> 'r"
  io_uring_wait_cqe_timeout :: "'r \<Rightarrow> 'h io_uring_cqe option \<times> 'r"
  io_uring_cqe_seen :: "'h io_uring_cqe \<Rightarrow> 'r \<Rightarrow> 'r"
  eventfd_write :: "'r \<Rightarrow> 'r"
  eventfd_read :: "'r \<Rightarrow> 'r"

subsection \<open>The proactor\<close>

text \<open>The places of the loop: before the test of \<open>stop_\<close>, in \<open>DrainTasks\<close>, in \<open>SubmitPendingOps\<close> before and
  after an operation is taken, before the wait, and after the handler.\<close>

datatype 'h loop_pc = L_Idle | L_Top | L_Tasks | L_Ops | L_Have "'h PendingOp" | L_Wait | L_Seen "'h io_uring_cqe" | L_Done

text \<open>
  The object and what its callers see: the values set in the awaitable objects, the tasks that ran, and the
  coroutines that were resumed with the value their awaitable object held. The last three fields record history:
  the tasks and the operations that were accepted, and the operations whose completion was handled.
\<close>

record ('t, 'h, 'r) UringProactor =
  task_queue :: "'t option mpmc_bounded_queue"
  pending_ops :: "'h PendingOp mpmc_bounded_queue"
  p_ring :: 'r
  p_running :: bool
  p_stop :: bool
  loop_pc :: "'h loop_pc"
  awaitables :: "nat \<rightharpoonup> int"
  tasks_run :: "'t list"
  resumed :: "('h \<times> int option) list"
  accepted_tasks :: "'t list"
  accepted_ops :: "'h PendingOp list"
  completed_ops :: "'h PendingOp list"

definition Wakeup :: "('h, 'r) kernel \<Rightarrow> ('t, 'h, 'r) UringProactor \<Rightarrow> ('t, 'h, 'r) UringProactor" where
  "Wakeup K p = p\<lparr>p_ring := eventfd_write K (p_ring p)\<rparr>"

text \<open>\<open>None\<close> is a failed construction, among them an entry that is not there.\<close>

definition proactor_init :: "('h, 'r) kernel \<Rightarrow> 'r \<Rightarrow> u64 \<Rightarrow> ('t, 'h, 'r) UringProactor option" where
  "proactor_init K r queue_size = do {
     tq \<leftarrow> mpmc_init queue_size;
     po \<leftarrow> mpmc_init queue_size;
     r \<leftarrow> io_uring_get_sqe K r;
     let r = io_uring_submit K (io_uring_prep K (Some Prep_Poll) WAKEUP_COOKIE r);
     Some \<lparr>task_queue = tq, pending_ops = po, p_ring = r, p_running = False, p_stop = False, loop_pc = L_Idle,
       awaitables = Map.empty, tasks_run = [], resumed = [], accepted_tasks = [], accepted_ops = [], completed_ops = []\<rparr> }"

definition DispatchBrief :: "('h, 'r) kernel \<Rightarrow> 't \<Rightarrow> ('t, 'h, 'r) UringProactor \<Rightarrow> (bool \<times> ('t, 'h, 'r) UringProactor) option" where
  "DispatchBrief K t p = do {
     (ok, q) \<leftarrow> try_enqueue (task_queue p) (Some t);
     let p = p\<lparr>task_queue := q\<rparr>;
     if \<not> ok then Some (False, p)
     else Some (True, Wakeup K (p\<lparr>accepted_tasks := accepted_tasks p @ [t]\<rparr>)) }"

subsection \<open>Submission\<close>

definition EBUSY :: int where
  "EBUSY = 16"

definition resume :: "'h \<Rightarrow> nat option \<Rightarrow> ('t, 'h, 'r) UringProactor \<Rightarrow> ('t, 'h, 'r) UringProactor" where
  "resume h a p = p\<lparr>resumed := resumed p @ [(h, Option.bind a (awaitables p))]\<rparr>"

definition set_result :: "nat option \<Rightarrow> int \<Rightarrow> ('t, 'h, 'r) UringProactor \<Rightarrow> ('t, 'h, 'r) UringProactor" where
  "set_result a v p = (case a of None \<Rightarrow> p | Some a \<Rightarrow> p\<lparr>awaitables := (awaitables p)(a \<mapsto> v)\<rparr>)"

text \<open>The common end of the three submissions: a full queue resumes the coroutine at once, with an error.\<close>

definition submit_op :: "('h, 'r) kernel \<Rightarrow> 'h PendingOp \<Rightarrow> 'h \<Rightarrow> ('t, 'h, 'r) UringProactor \<Rightarrow> ('t, 'h, 'r) UringProactor option" where
  "submit_op K op h p = do {
     (ok, q) \<leftarrow> try_enqueue (pending_ops p) op;
     let p = p\<lparr>pending_ops := q\<rparr>;
     if \<not> ok then Some (resume h (op_awaitable op) (set_result (op_awaitable op) (- EBUSY) p))
     else Some (Wakeup K (p\<lparr>accepted_ops := accepted_ops p @ [op]\<rparr>)) }"

definition SubmitAccept :: "('h, 'r) kernel \<Rightarrow> int \<Rightarrow> 'h \<Rightarrow> nat option \<Rightarrow> ('t, 'h, 'r) UringProactor \<Rightarrow> ('t, 'h, 'r) UringProactor option" where
  "SubmitAccept K fd h aw = submit_op K \<lparr>op_fd = fd, op_type = 0, op_buf = None, op_len = None, op_offset = None, op_handle = Some h, op_awaitable = aw\<rparr> h"

definition SubmitRead :: "('h, 'r) kernel \<Rightarrow> int \<Rightarrow> nat \<Rightarrow> nat \<Rightarrow> int \<Rightarrow> 'h \<Rightarrow> nat option \<Rightarrow> ('t, 'h, 'r) UringProactor \<Rightarrow> ('t, 'h, 'r) UringProactor option" where
  "SubmitRead K fd buf len off h aw = submit_op K \<lparr>op_fd = fd, op_type = 1, op_buf = Some buf, op_len = Some len, op_offset = Some off, op_handle = Some h, op_awaitable = aw\<rparr> h"

definition SubmitWrite :: "('h, 'r) kernel \<Rightarrow> int \<Rightarrow> nat \<Rightarrow> nat \<Rightarrow> int \<Rightarrow> 'h \<Rightarrow> nat option \<Rightarrow> ('t, 'h, 'r) UringProactor \<Rightarrow> ('t, 'h, 'r) UringProactor option" where
  "SubmitWrite K fd buf len off h aw = submit_op K \<lparr>op_fd = fd, op_type = 2, op_buf = Some buf, op_len = Some len, op_offset = Some off, op_handle = Some h, op_awaitable = aw\<rparr> h"

subsection \<open>The loop\<close>

text \<open>One pass of the loop of \<open>DrainTasks\<close>: one task runs; an empty queue ends the loop.\<close>

definition DrainTasks_step :: "('t, 'h, 'r) UringProactor \<Rightarrow> ('t, 'h, 'r) UringProactor option" where
  "DrainTasks_step p = do {
     (r, q) \<leftarrow> try_dequeue (task_queue p);
     let p = p\<lparr>task_queue := q\<rparr>;
     case r of
       None \<Rightarrow> Some (p\<lparr>loop_pc := L_Ops\<rparr>)
     | Some None \<Rightarrow> Some p
     | Some (Some t) \<Rightarrow> Some (p\<lparr>tasks_run := tasks_run p @ [t]\<rparr>) }"

definition prep_of :: "'h PendingOp \<Rightarrow> opcode option" where
  "prep_of op = (
     if op_type op = 0 then Some (Prep_Accept (op_fd op))
     else if op_type op = 1 then Some (Prep_Read (op_fd op) (op_buf op) (op_len op) (op_offset op))
     else if op_type op = 2 then Some (Prep_Write (op_fd op) (op_buf op) (op_len op) (op_offset op))
     else if op_type op = 3 then Some (Prep_Close (op_fd op))
     else None)"

text \<open>The loop of \<open>SubmitPendingOps\<close>: taking an operation, or the submission that follows an empty queue.\<close>

definition SubmitPendingOps_take :: "('h, 'r) kernel \<Rightarrow> ('t, 'h, 'r) UringProactor \<Rightarrow> ('t, 'h, 'r) UringProactor option" where
  "SubmitPendingOps_take K p = do {
     (r, q) \<leftarrow> try_dequeue (pending_ops p);
     let p = p\<lparr>pending_ops := q\<rparr>;
     case r of
       None \<Rightarrow> Some (p\<lparr>p_ring := io_uring_submit K (p_ring p), loop_pc := L_Wait\<rparr>)
     | Some op \<Rightarrow> Some (p\<lparr>loop_pc := L_Have op\<rparr>) }"

text \<open>The rest of the pass: without a free entry, even after a submission, the operation goes back to the end of
  the queue, and the result of that attempt is ignored.\<close>

definition SubmitPendingOps_fill :: "('h, 'r) kernel \<Rightarrow> 'h PendingOp \<Rightarrow> ('t, 'h, 'r) UringProactor \<Rightarrow> ('t, 'h, 'r) UringProactor option" where
  "SubmitPendingOps_fill K op p = (
     let fill = (\<lambda>r. Some (p\<lparr>p_ring := io_uring_prep K (prep_of op) (Op_Data op) r, loop_pc := L_Ops\<rparr>)) in
     case io_uring_get_sqe K (p_ring p) of
       Some r \<Rightarrow> fill r
     | None \<Rightarrow>
         let r = io_uring_submit K (p_ring p) in
         case io_uring_get_sqe K r of
           Some r \<Rightarrow> fill r
         | None \<Rightarrow> do {
             (_, q) \<leftarrow> try_enqueue (pending_ops p) op;
             Some (p\<lparr>p_ring := r, pending_ops := q, loop_pc := L_Ops\<rparr>) })"

text \<open>\<open>None\<close> is the use of an entry that is not there.\<close>

definition HandleCqe :: "('h, 'r) kernel \<Rightarrow> 'h io_uring_cqe \<Rightarrow> ('t, 'h, 'r) UringProactor \<Rightarrow> ('t, 'h, 'r) UringProactor option" where
  "HandleCqe K cqe p = (case cqe_data cqe of
     WAKEUP_COOKIE \<Rightarrow> do {
       r \<leftarrow> io_uring_get_sqe K (eventfd_read K (p_ring p));
       Some (p\<lparr>p_ring := io_uring_submit K (io_uring_prep K (Some Prep_Poll) WAKEUP_COOKIE r)\<rparr>) }
   | Null_Data \<Rightarrow> Some p
   | Op_Data op \<Rightarrow>
       let p = (if op_type op \<le> 2 then set_result (op_awaitable op) (cqe_res cqe) p else p);
           p = (case op_handle op of None \<Rightarrow> p | Some h \<Rightarrow> resume h (op_awaitable op) p)
       in Some (p\<lparr>completed_ops := completed_ops p @ [op]\<rparr>))"

definition loop_step :: "('h, 'r) kernel \<Rightarrow> ('t, 'h, 'r) UringProactor \<Rightarrow> ('t, 'h, 'r) UringProactor option" where
  "loop_step K p = (case loop_pc p of
     L_Top \<Rightarrow> Some (if p_stop p then p\<lparr>p_running := False, loop_pc := L_Done\<rparr> else p\<lparr>loop_pc := L_Tasks\<rparr>)
   | L_Tasks \<Rightarrow> DrainTasks_step p
   | L_Ops \<Rightarrow> SubmitPendingOps_take K p
   | L_Have op \<Rightarrow> SubmitPendingOps_fill K op p
   | L_Wait \<Rightarrow> (let (c, r) = io_uring_wait_cqe_timeout K (p_ring p); p = p\<lparr>p_ring := r\<rparr> in
       case c of
         None \<Rightarrow> Some (p\<lparr>loop_pc := L_Top\<rparr>)
       | Some cqe \<Rightarrow> HandleCqe K cqe (p\<lparr>loop_pc := L_Seen cqe\<rparr>))
   | L_Seen cqe \<Rightarrow> Some (p\<lparr>p_ring := io_uring_cqe_seen K cqe (p_ring p), loop_pc := L_Top\<rparr>)
   | L_Idle \<Rightarrow> Some p
   | L_Done \<Rightarrow> Some p)"

text \<open>The entry of \<open>loop\<close>, and \<open>stop\<close> up to the wait for the end of the loop.\<close>

definition loop_begin :: "('t, 'h, 'r) UringProactor \<Rightarrow> ('t, 'h, 'r) UringProactor" where
  "loop_begin p = p\<lparr>p_running := True, p_stop := False, loop_pc := L_Top\<rparr>"

definition proactor_stop :: "('h, 'r) kernel \<Rightarrow> ('t, 'h, 'r) UringProactor \<Rightarrow> ('t, 'h, 'r) UringProactor" where
  "proactor_stop K p = Wakeup K (p\<lparr>p_stop := True\<rparr>)"

subsection \<open>Schedules\<close>

datatype ('t, 'h) event =
  Dispatch 't
| Accept int 'h "nat option"
| Read int nat nat int 'h "nat option"
| Write int nat nat int 'h "nat option"
| Begin
| Stop
| Loop

fun proactor_step :: "('h, 'r) kernel \<Rightarrow> ('t, 'h) event \<Rightarrow> ('t, 'h, 'r) UringProactor \<Rightarrow> ('t, 'h, 'r) UringProactor option" where
  "proactor_step K (Dispatch t) p = map_option snd (DispatchBrief K t p)"
| "proactor_step K (Accept fd h aw) p = SubmitAccept K fd h aw p"
| "proactor_step K (Read fd buf len off h aw) p = SubmitRead K fd buf len off h aw p"
| "proactor_step K (Write fd buf len off h aw) p = SubmitWrite K fd buf len off h aw p"
| "proactor_step K Begin p = (if loop_pc p = L_Idle \<or> loop_pc p = L_Done then Some (loop_begin p) else Some p)"
| "proactor_step K Stop p = Some (proactor_stop K p)"
| "proactor_step K Loop p = loop_step K p"

subsection \<open>What the loop keeps\<close>

fun op_of :: "'h user_data \<Rightarrow> 'h PendingOp multiset" where
  "op_of (Op_Data op) = {#op#}"
| "op_of _ = {#}"

definition ops_of :: "'h user_data multiset \<Rightarrow> 'h PendingOp multiset" where
  "ops_of M = (\<Sum>d \<in># M. op_of d)"

text \<open>The operation the loop has taken from the queue, and the completion it has handled but not yet marked.\<close>

fun held :: "'h loop_pc \<Rightarrow> 'h PendingOp multiset" where
  "held (L_Have op) = {#op#}"
| "held _ = {#}"

fun handled :: "'h loop_pc \<Rightarrow> 'h user_data multiset" where
  "handled (L_Seen cqe) = {#cqe_data cqe#}"
| "handled _ = {#}"

text \<open>
  What the loop relies on of the kernel: \<open>owed r\<close> is the user data of the entries that were filled and whose
  completion was not yet marked as seen. A submission frees entries of the submission ring, and a wait returns a completion
  of an entry that is owed one.
\<close>

definition kernel_laws :: "('h, 'r) kernel \<Rightarrow> ('r \<Rightarrow> 'h user_data multiset) \<Rightarrow> bool" where
  "kernel_laws K owed \<longleftrightarrow>
     (\<forall>r r'. io_uring_get_sqe K r = Some r' \<longrightarrow> owed r' = owed r) \<and>
     (\<forall>c d r. owed (io_uring_prep K c d r) = add_mset d (owed r)) \<and>
     (\<forall>r. owed (io_uring_submit K r) = owed r \<and> io_uring_get_sqe K (io_uring_submit K r) \<noteq> None) \<and>
     (\<forall>r c r'. io_uring_wait_cqe_timeout K r = (c, r') \<longrightarrow> owed r' = owed r \<and>
        (io_uring_get_sqe K r \<noteq> None \<longrightarrow> io_uring_get_sqe K r' \<noteq> None) \<and> (\<forall>q. c = Some q \<longrightarrow> cqe_data q \<in># owed r)) \<and>
     (\<forall>c r. owed (io_uring_cqe_seen K c r) = owed r - {#cqe_data c#}) \<and>
     (\<forall>r. owed (eventfd_write K r) = owed r \<and> (io_uring_get_sqe K r \<noteq> None \<longrightarrow> io_uring_get_sqe K (eventfd_write K r) \<noteq> None)) \<and>
     (\<forall>r. owed (eventfd_read K r) = owed r \<and> (io_uring_get_sqe K r \<noteq> None \<longrightarrow> io_uring_get_sqe K (eventfd_read K r) \<noteq> None))"

lemma kernelD:
  assumes "kernel_laws K owed"
  shows "io_uring_get_sqe K r = Some r' \<Longrightarrow> owed r' = owed r"
    and "owed (io_uring_prep K c d r) = add_mset d (owed r)"
    and "owed (io_uring_submit K r) = owed r" and "\<exists>r'. io_uring_get_sqe K (io_uring_submit K r) = Some r'"
    and "io_uring_wait_cqe_timeout K r = (cq, r') \<Longrightarrow> owed r' = owed r"
    and "io_uring_wait_cqe_timeout K r = (cq, r') \<Longrightarrow> io_uring_get_sqe K r \<noteq> None \<Longrightarrow> io_uring_get_sqe K r' \<noteq> None"
    and "io_uring_wait_cqe_timeout K r = (Some q, r') \<Longrightarrow> cqe_data q \<in># owed r"
    and "owed (io_uring_cqe_seen K q r) = owed r - {#cqe_data q#}"
    and "owed (eventfd_write K r) = owed r" and "io_uring_get_sqe K r \<noteq> None \<Longrightarrow> io_uring_get_sqe K (eventfd_write K r) \<noteq> None"
    and "owed (eventfd_read K r) = owed r" and "io_uring_get_sqe K r \<noteq> None \<Longrightarrow> io_uring_get_sqe K (eventfd_read K r) \<noteq> None"
  using assms unfolding kernel_laws_def by blast+

fun pc_ok :: "('h, 'r) kernel \<Rightarrow> ('r \<Rightarrow> 'h user_data multiset) \<Rightarrow> 'h loop_pc \<Rightarrow> 'r \<Rightarrow> bool" where
  "pc_ok K owed L_Wait r \<longleftrightarrow> io_uring_get_sqe K r \<noteq> None"
| "pc_ok K owed (L_Seen cqe) r \<longleftrightarrow> cqe_data cqe \<in># owed r"
| "pc_ok K owed _ r \<longleftrightarrow> True"

text \<open>The invariant after \<open>k\<close> events: \<open>ts\<close> and \<open>os\<close> are in the queues.\<close>

definition ops_ok :: "('h, 'r) kernel \<Rightarrow> ('r \<Rightarrow> 'h user_data multiset) \<Rightarrow> 'h loop_pc \<Rightarrow> 'r \<Rightarrow> 'h PendingOp list \<Rightarrow> 'h PendingOp list \<Rightarrow> 'h PendingOp list \<Rightarrow> bool" where
  "ops_ok K owed pc r os acc cmp \<longleftrightarrow> pc_ok K owed pc r \<and> mset acc = mset os + held pc + ops_of (owed r - handled pc) + mset cmp"

text \<open>The coroutines \<open>hs\<close> that were suspended so far: each was resumed, or its operation is not completed.\<close>

definition h_ok :: "'h multiset \<Rightarrow> 'h PendingOp list \<Rightarrow> 'h PendingOp list \<Rightarrow> ('h \<times> int option) list \<Rightarrow> bool" where
  "h_ok hs acc cmp res \<longleftrightarrow> (\<forall>op \<in> set acc. op_handle op \<noteq> None) \<and>
     hs + mset (map (the \<circ> op_handle) cmp) = mset (map fst res) + mset (map (the \<circ> op_handle) acc)"

definition p_inv :: "('h, 'r) kernel \<Rightarrow> ('r \<Rightarrow> 'h user_data multiset) \<Rightarrow> nat \<Rightarrow> nat \<Rightarrow> 'h multiset \<Rightarrow> 't list \<Rightarrow> 'h PendingOp list \<Rightarrow> ('t, 'h, 'r) UringProactor \<Rightarrow> bool" where
  "p_inv K owed n k hs ts os p \<longleftrightarrow>
     mpmc_holds n k (task_queue p) (map Some ts) \<and> mpmc_holds n k (pending_ops p) os \<and>
     accepted_tasks p = tasks_run p @ ts \<and> ops_ok K owed (loop_pc p) (p_ring p) os (accepted_ops p) (completed_ops p) \<and>
     h_ok hs (accepted_ops p) (completed_ops p) (resumed p) \<and> (p_running p \<longleftrightarrow> loop_pc p \<noteq> L_Idle \<and> loop_pc p \<noteq> L_Done)"

lemma ops_of_simps [simp]: "ops_of {#} = {#}" "ops_of (add_mset d M) = op_of d + ops_of M"
  by (simp_all add: ops_of_def)

lemma ops_of_diff: "d \<in># M \<Longrightarrow> ops_of (M - {#d#}) + op_of d = ops_of M"
  by (metis insert_DiffM ops_of_simps(2) union_commute)

lemma p_inv_enq_task:
  assumes "p_inv K owed n k hs ts os p" "k < 2 ^ 59"
  obtains q where "try_enqueue (task_queue p) (Some t) = Some (length ts < n, q)"
    "mpmc_holds n (Suc k) q (map Some (if length ts < n then ts @ [t] else ts))"
  using mpmc.enq [of n k "task_queue p" "map Some ts" "Some t"] assms unfolding p_inv_def by (auto split: if_splits)

lemma DispatchBrief_inv:
  assumes K: "kernel_laws K owed" and I: "p_inv K owed n k hs ts os p" "k < 2 ^ 59"
  shows "\<exists>p'. DispatchBrief K t p = Some (length ts < n, p') \<and> p_inv K owed n (Suc k) hs (if length ts < n then ts @ [t] else ts) os p' \<and>
    loop_pc p' = loop_pc p \<and> p_stop p' = p_stop p"
proof -
  obtain q where q: "try_enqueue (task_queue p) (Some t) = Some (length ts < n, q)"
    "mpmc_holds n (Suc k) q (map Some (if length ts < n then ts @ [t] else ts))"
    using p_inv_enq_task [OF I] by blast
  have po: "mpmc_holds n (Suc k) (pending_ops p) os" using I(1) by (auto simp: p_inv_def intro: mpmc.holds_mono)
  have "ops_ok K owed (loop_pc p) (eventfd_write K (p_ring p)) os (accepted_ops p) (completed_ops p)"
    using I(1) kernelD(9,10) [OF K] by (cases "loop_pc p") (auto simp: p_inv_def ops_ok_def)
  then show ?thesis using q po I(1) by (auto simp: DispatchBrief_def p_inv_def Wakeup_def Let_def)
qed

lemma ops_ok_write:
  assumes "kernel_laws K owed" "ops_ok K owed pc r os acc cmp"
  shows "ops_ok K owed pc (eventfd_write K r) os acc cmp"
  using assms(2) kernelD(9,10) [OF assms(1)] by (cases pc) (auto simp: ops_ok_def)

lemma ops_ok_accept: "ops_ok K owed pc r os acc cmp \<Longrightarrow> ops_ok K owed pc r (os @ [op]) (acc @ [op]) cmp"
  by (simp add: ops_ok_def)

lemma p_inv_mono: "p_inv K owed n k hs ts os p \<Longrightarrow> k \<le> k' \<Longrightarrow> p_inv K owed n k' hs ts os p"
  by (auto simp: p_inv_def intro: mpmc.holds_mono)

text \<open>The parts of the state that the operations outside the loop do not touch.\<close>

lemma set_result_simps [simp]:
  "task_queue (set_result a v p) = task_queue p" "pending_ops (set_result a v p) = pending_ops p" "p_ring (set_result a v p) = p_ring p"
  "loop_pc (set_result a v p) = loop_pc p" "p_stop (set_result a v p) = p_stop p" "p_running (set_result a v p) = p_running p"
  "tasks_run (set_result a v p) = tasks_run p" "accepted_tasks (set_result a v p) = accepted_tasks p" "resumed (set_result a v p) = resumed p"
  "accepted_ops (set_result a v p) = accepted_ops p" "completed_ops (set_result a v p) = completed_ops p"
  by (simp_all add: set_result_def split: option.split)

lemma resume_simps [simp]:
  "task_queue (resume h a p) = task_queue p" "pending_ops (resume h a p) = pending_ops p" "p_ring (resume h a p) = p_ring p"
  "loop_pc (resume h a p) = loop_pc p" "p_stop (resume h a p) = p_stop p" "p_running (resume h a p) = p_running p"
  "tasks_run (resume h a p) = tasks_run p" "accepted_tasks (resume h a p) = accepted_tasks p"
  "accepted_ops (resume h a p) = accepted_ops p" "completed_ops (resume h a p) = completed_ops p"
  by (simp_all add: resume_def)

lemma h_ok_accept: "h_ok hs acc cmp res \<Longrightarrow> op_handle op = Some h \<Longrightarrow> h_ok (add_mset h hs) (acc @ [op]) cmp res"
  by (auto simp: h_ok_def)

lemma h_ok_resume: "h_ok hs acc cmp res \<Longrightarrow> h_ok (add_mset h hs) acc cmp (res @ [(h, v)])"
  by (auto simp: h_ok_def)

lemma h_ok_complete: "h_ok hs acc cmp res \<Longrightarrow> op_handle op = Some h \<Longrightarrow> h_ok hs acc (cmp @ [op]) (res @ [(h, v)])"
  by (auto simp: h_ok_def)

lemma submit_op_inv:
  assumes K: "kernel_laws K owed" and I: "p_inv K owed n k hs ts os p" "k < 2 ^ 59" and h: "op_handle op = Some h"
  shows "\<exists>p'. submit_op K op h p = Some p' \<and> p_inv K owed n (Suc k) (add_mset h hs) ts (if length os < n then os @ [op] else os) p' \<and>
    loop_pc p' = loop_pc p \<and> p_stop p' = p_stop p"
proof -
  obtain q where q: "try_enqueue (pending_ops p) op = Some (length os < n, q)"
    "mpmc_holds n (Suc k) q (if length os < n then os @ [op] else os)"
    using mpmc.enq [of n k "pending_ops p" os op] I unfolding p_inv_def by auto
  have tq: "mpmc_holds n (Suc k) (task_queue p) (map Some ts)" using I(1) by (auto simp: p_inv_def intro: mpmc.holds_mono)
  have ok: "ops_ok K owed (loop_pc p) (p_ring p) os (accepted_ops p) (completed_ops p)" using I(1) by (simp add: p_inv_def)
  have hk: "h_ok hs (accepted_ops p) (completed_ops p) (resumed p)" using I(1) by (simp add: p_inv_def)
  show ?thesis
  proof (cases "length os < n")
    case True
    then show ?thesis using q tq I(1) ops_ok_write [OF K ops_ok_accept [OF ok]] h_ok_accept [OF hk h]
      by (auto simp: submit_op_def p_inv_def Wakeup_def Let_def)
  next
    case False
    then show ?thesis using q tq I(1) h_ok_resume [OF hk, of h] by (auto simp: submit_op_def p_inv_def resume_def Let_def)
  qed
qed

lemma DrainTasks_step_inv:
  assumes I: "p_inv K owed n k hs ts os p" "k < 2 ^ 59" and pc: "loop_pc p = L_Tasks"
  shows "\<exists>p'. DrainTasks_step p = Some p' \<and> p_inv K owed n (Suc k) hs (tl ts) os p' \<and> tasks_run p' = tasks_run p @ take 1 ts \<and>
    loop_pc p' = (if ts = [] then L_Ops else L_Tasks) \<and> p_stop p' = p_stop p"
proof -
  obtain q where q: "try_dequeue (task_queue p) = Some (case map Some ts of [] \<Rightarrow> None | x # _ \<Rightarrow> Some x, q)"
    "mpmc_holds n (Suc k) q (tl (map Some ts))"
    using mpmc.deq [of n k "task_queue p" "map Some ts"] I unfolding p_inv_def by auto
  have po: "mpmc_holds n (Suc k) (pending_ops p) os" using I(1) by (auto simp: p_inv_def intro: mpmc.holds_mono)
  show ?thesis using q po I(1) pc by (cases ts) (auto simp: DrainTasks_step_def p_inv_def ops_ok_def Let_def)
qed

lemma SubmitPendingOps_take_inv:
  assumes K: "kernel_laws K owed" and I: "p_inv K owed n k hs ts os p" "k < 2 ^ 59" and pc: "loop_pc p = L_Ops"
  shows "\<exists>p'. SubmitPendingOps_take K p = Some p' \<and> p_inv K owed n (Suc k) hs ts (tl os) p' \<and>
    loop_pc p' = (if os = [] then L_Wait else L_Have (hd os)) \<and> p_stop p' = p_stop p \<and> accepted_tasks p' = accepted_tasks p"
proof -
  obtain q where q: "try_dequeue (pending_ops p) = Some (case os of [] \<Rightarrow> None | x # _ \<Rightarrow> Some x, q)" "mpmc_holds n (Suc k) q (tl os)"
    using mpmc.deq [of n k "pending_ops p" os] I unfolding p_inv_def by auto
  have tq: "mpmc_holds n (Suc k) (task_queue p) (map Some ts)" using I(1) by (auto simp: p_inv_def intro: mpmc.holds_mono)
  show ?thesis using q tq I(1) pc kernelD(3,4) [OF K]
    by (cases os) (auto simp: SubmitPendingOps_take_def p_inv_def ops_ok_def Let_def)
qed

lemma SubmitPendingOps_fill_inv:
  assumes K: "kernel_laws K owed" and I: "p_inv K owed n k hs ts os p" and pc: "loop_pc p = L_Have op"
  shows "\<exists>p'. SubmitPendingOps_fill K op p = Some p' \<and> p_inv K owed n k hs ts os p' \<and> loop_pc p' = L_Ops \<and> p_stop p' = p_stop p \<and> accepted_tasks p' = accepted_tasks p"
proof -
  obtain r where r: "SubmitPendingOps_fill K op p = Some (p\<lparr>p_ring := io_uring_prep K (prep_of op) (Op_Data op) r, loop_pc := L_Ops\<rparr>)"
    "owed r = owed (p_ring p)"
  proof (cases "io_uring_get_sqe K (p_ring p)")
    case None
    obtain r where "io_uring_get_sqe K (io_uring_submit K (p_ring p)) = Some r" using kernelD(4) [OF K] by blast
    then show ?thesis using that [of r] None kernelD(1,3) [OF K] by (simp add: SubmitPendingOps_fill_def Let_def)
  next
    case (Some r)
    then show ?thesis using that [of r] kernelD(1) [OF K] by (simp add: SubmitPendingOps_fill_def Let_def)
  qed
  then show ?thesis using I pc kernelD(2) [OF K] by (auto simp: p_inv_def ops_ok_def)
qed

lemma HandleCqe_inv:
  assumes K: "kernel_laws K owed" and I: "p_inv K owed n k hs ts os p" and pc: "loop_pc p = L_Wait" and q: "cqe_data cqe \<in># owed (p_ring p)"
  shows "\<exists>p'. HandleCqe K cqe (p\<lparr>loop_pc := L_Seen cqe\<rparr>) = Some p' \<and> p_inv K owed n k hs ts os p' \<and> loop_pc p' = L_Seen cqe \<and> p_stop p' = p_stop p \<and> accepted_tasks p' = accepted_tasks p"
proof (cases "cqe_data cqe")
  case WAKEUP_COOKIE
  have "io_uring_get_sqe K (eventfd_read K (p_ring p)) \<noteq> None" using I pc kernelD(12) [OF K] by (auto simp: p_inv_def ops_ok_def)
  then obtain r where r: "io_uring_get_sqe K (eventfd_read K (p_ring p)) = Some r" "owed r = owed (p_ring p)"
    using kernelD(1,11) [OF K] by fastforce
  then show ?thesis using WAKEUP_COOKIE I pc q kernelD(2,3) [OF K] ops_of_diff [OF q] by (auto simp: HandleCqe_def p_inv_def ops_ok_def)
next
  case Null_Data
  then show ?thesis using I pc q ops_of_diff [OF q] by (auto simp: HandleCqe_def p_inv_def ops_ok_def)
next
  case (Op_Data op)
  have "mset (accepted_ops p) = mset os + ops_of (owed (p_ring p)) + mset (completed_ops p)"
    using I pc by (auto simp: p_inv_def ops_ok_def)
  also have "ops_of (owed (p_ring p)) = ops_of (owed (p_ring p) - {#Op_Data op#}) + {#op#}"
    using ops_of_diff [OF q] Op_Data by simp
  finally have m: "mset (accepted_ops p) = mset os + (ops_of (owed (p_ring p) - {#Op_Data op#}) + {#op#}) + mset (completed_ops p)" .
  then have "op \<in> set (accepted_ops p)" by (metis set_mset_mset union_iff union_single_eq_member add.commute)
  then obtain h where h: "op_handle op = Some h" using I by (auto simp: p_inv_def h_ok_def)
  have hk: "h_ok hs (accepted_ops p) (completed_ops p) (resumed p)" using I by (simp add: p_inv_def)
  show ?thesis using m Op_Data I pc q h h_ok_complete [OF hk h] by (auto simp: HandleCqe_def p_inv_def ops_ok_def Let_def resume_def)
qed

text \<open>The places the loop goes through, with the queues.\<close>

fun loop_next :: "bool \<Rightarrow> 'h loop_pc \<Rightarrow> 't list \<Rightarrow> 'h PendingOp list \<Rightarrow> 'h loop_pc \<Rightarrow> 't list \<Rightarrow> 'h PendingOp list \<Rightarrow> bool" where
  "loop_next stp L_Top ts os pc' ts' os' \<longleftrightarrow> pc' = (if stp then L_Done else L_Tasks) \<and> ts' = ts \<and> os' = os"
| "loop_next stp L_Tasks ts os pc' ts' os' \<longleftrightarrow> pc' = (if ts = [] then L_Ops else L_Tasks) \<and> ts' = tl ts \<and> os' = os"
| "loop_next stp L_Ops ts os pc' ts' os' \<longleftrightarrow> pc' = (if os = [] then L_Wait else L_Have (hd os)) \<and> ts' = ts \<and> os' = tl os"
| "loop_next stp (L_Have op) ts os pc' ts' os' \<longleftrightarrow> pc' = L_Ops \<and> ts' = ts \<and> os' = os"
| "loop_next stp L_Wait ts os pc' ts' os' \<longleftrightarrow> (pc' = L_Top \<or> (\<exists>cqe. pc' = L_Seen cqe)) \<and> ts' = ts \<and> os' = os"
| "loop_next stp (L_Seen cqe) ts os pc' ts' os' \<longleftrightarrow> pc' = L_Top \<and> ts' = ts \<and> os' = os"
| "loop_next stp pc ts os pc' ts' os' \<longleftrightarrow> pc' = pc \<and> ts' = ts \<and> os' = os"

text \<open>The number of steps of the loop until it ends, once \<open>stop_\<close> is set and nothing else happens.\<close>

fun loop_rank :: "'h loop_pc \<Rightarrow> nat \<Rightarrow> nat \<Rightarrow> nat" where
  "loop_rank L_Top t s = 1"
| "loop_rank L_Tasks t s = 5 + 2 * s + t"
| "loop_rank L_Ops t s = 4 + 2 * s"
| "loop_rank (L_Have op) t s = 5 + 2 * s"
| "loop_rank L_Wait t s = 3"
| "loop_rank (L_Seen cqe) t s = 2"
| "loop_rank _ t s = 0"

text \<open>The number of steps until the queue of tasks is empty, while \<open>stop_\<close> is not set.\<close>

fun task_rank :: "'h loop_pc \<Rightarrow> nat \<Rightarrow> nat \<Rightarrow> nat" where
  "task_rank pc 0 s = 0"
| "task_rank L_Tasks t s = t"
| "task_rank L_Top t s = t + 1"
| "task_rank (L_Seen cqe) t s = t + 2"
| "task_rank L_Wait t s = t + 3"
| "task_rank L_Ops t s = t + 4 + 2 * s"
| "task_rank (L_Have op) t s = t + 5 + 2 * s"
| "task_rank _ t s = 0"

lemma rank_bounds: "loop_rank pc t s \<le> t + 5 + 2 * s" "task_rank pc t s \<le> t + 5 + 2 * s"
  by (cases pc; simp) (cases t; cases pc; simp)

lemma loop_next_rank:
  assumes "loop_next stp pc ts os pc' ts' os'"
  shows "stp \<Longrightarrow> loop_rank pc' (length ts') (length os') \<le> loop_rank pc (length ts) (length os) - 1"
    and "\<not> stp \<Longrightarrow> task_rank pc' (length ts') (length os') \<le> task_rank pc (length ts) (length os) - 1"
    and "\<not> stp \<Longrightarrow> pc \<noteq> L_Idle \<Longrightarrow> pc \<noteq> L_Done \<Longrightarrow> pc' \<noteq> L_Idle \<and> pc' \<noteq> L_Done"
proof -
  show "loop_rank pc' (length ts') (length os') \<le> loop_rank pc (length ts) (length os) - 1" if stp
    using assms that by (cases pc; cases ts; cases os) auto
  show "task_rank pc' (length ts') (length os') \<le> task_rank pc (length ts) (length os) - 1" if "\<not> stp"
  proof (cases ts)
    case Nil
    then show ?thesis using assms by (cases pc) auto
  next
    case (Cons t us)
    then show ?thesis using assms that by (cases pc; cases us; cases os) auto
  qed
  show "pc' \<noteq> L_Idle \<and> pc' \<noteq> L_Done" if "\<not> stp" "pc \<noteq> L_Idle" "pc \<noteq> L_Done"
    using assms that by (cases pc) auto
qed

lemma loop_step_inv:
  assumes K: "kernel_laws K owed" and I: "p_inv K owed n k hs ts os p" "k < 2 ^ 59"
  shows "\<exists>p' ts' os'. loop_step K p = Some p' \<and> p_inv K owed n (Suc k) hs ts' os' p' \<and> p_stop p' = p_stop p \<and>
    accepted_tasks p' = accepted_tasks p \<and> loop_next (p_stop p) (loop_pc p) ts os (loop_pc p') ts' os'"
proof (cases "loop_pc p")
  case L_Tasks
  obtain p' where p': "DrainTasks_step p = Some p'" "p_inv K owed n (Suc k) hs (tl ts) os p'" "tasks_run p' = tasks_run p @ take 1 ts"
      "loop_pc p' = (if ts = [] then L_Ops else L_Tasks)" "p_stop p' = p_stop p"
    using DrainTasks_step_inv [OF I L_Tasks] by blast
  moreover have "accepted_tasks p' = accepted_tasks p" using p'(2,3) I(1) by (cases ts) (auto simp: p_inv_def)
  ultimately show ?thesis using L_Tasks by (intro exI [of _ p'] exI [of _ "tl ts"] exI [of _ os]) (simp add: loop_step_def)
next
  case L_Ops
  obtain p' where "SubmitPendingOps_take K p = Some p'" "p_inv K owed n (Suc k) hs ts (tl os) p'" "accepted_tasks p' = accepted_tasks p"
      "loop_pc p' = (if os = [] then L_Wait else L_Have (hd os))" "p_stop p' = p_stop p"
    using SubmitPendingOps_take_inv [OF K I L_Ops] by blast
  then show ?thesis using L_Ops by (intro exI [of _ p'] exI [of _ ts] exI [of _ "tl os"]) (simp add: loop_step_def)
next
  case (L_Have op)
  obtain p' where "SubmitPendingOps_fill K op p = Some p'" "p_inv K owed n k hs ts os p'" "loop_pc p' = L_Ops" "accepted_tasks p' = accepted_tasks p" "p_stop p' = p_stop p"
    using SubmitPendingOps_fill_inv [OF K I(1) L_Have] by blast
  then show ?thesis using L_Have p_inv_mono [of K owed n k hs ts os p' "Suc k"]
    by (intro exI [of _ p'] exI [of _ ts] exI [of _ os]) (simp add: loop_step_def)
next
  case L_Wait
  obtain c r where w: "io_uring_wait_cqe_timeout K (p_ring p) = (c, r)" by fastforce
  have I': "p_inv K owed n k hs ts os (p\<lparr>p_ring := r\<rparr>)" using I(1) L_Wait kernelD(5,6) [OF K w] by (simp add: p_inv_def ops_ok_def)
  show ?thesis
  proof (cases c)
    case None
    have "p_inv K owed n (Suc k) hs ts os (p\<lparr>p_ring := r, loop_pc := L_Top\<rparr>)"
      using p_inv_mono [OF I', of "Suc k"] L_Wait by (simp add: p_inv_def ops_ok_def)
    then show ?thesis using L_Wait w None
      by (intro exI [of _ "p\<lparr>p_ring := r, loop_pc := L_Top\<rparr>"] exI [of _ ts] exI [of _ os]) (simp add: loop_step_def)
  next
    case (Some cqe)
    have "cqe_data cqe \<in># owed r" using kernelD(5,7) [OF K] w Some by metis
    then obtain p' where p': "HandleCqe K cqe (p\<lparr>p_ring := r, loop_pc := L_Seen cqe\<rparr>) = Some p'" "p_inv K owed n k hs ts os p'"
        "loop_pc p' = L_Seen cqe" "accepted_tasks p' = accepted_tasks p" "p_stop p' = p_stop p"
      using HandleCqe_inv [OF K I', of cqe] L_Wait by auto
    then show ?thesis using L_Wait w Some p_inv_mono [OF p'(2), of "Suc k"]
      by (intro exI [of _ p'] exI [of _ ts] exI [of _ os]) (simp add: loop_step_def)
  qed
next
  case (L_Seen cqe)
  let ?p = "p\<lparr>p_ring := io_uring_cqe_seen K cqe (p_ring p), loop_pc := L_Top\<rparr>"
  have "p_inv K owed n (Suc k) hs ts os ?p" using p_inv_mono [OF I(1), of "Suc k"] L_Seen kernelD(8) [OF K] by (simp add: p_inv_def ops_ok_def)
  then show ?thesis using L_Seen by (intro exI [of _ ?p] exI [of _ ts] exI [of _ os]) (simp add: loop_step_def)
next
  case L_Top
  let ?p = "if p_stop p then p\<lparr>p_running := False, loop_pc := L_Done\<rparr> else p\<lparr>loop_pc := L_Tasks\<rparr>"
  have "p_inv K owed n (Suc k) hs ts os ?p" using p_inv_mono [OF I(1), of "Suc k"] L_Top by (simp add: p_inv_def ops_ok_def)
  then show ?thesis using L_Top by (intro exI [of _ ?p] exI [of _ ts] exI [of _ os]) (simp add: loop_step_def)
qed (use p_inv_mono [OF I(1), of "Suc k"] in \<open>auto simp: loop_step_def\<close>)

text \<open>The coroutine that an event suspends.\<close>

fun suspends :: "('t, 'h) event \<Rightarrow> 'h multiset" where
  "suspends (Accept fd h aw) = {#h#}"
| "suspends (Read fd buf len off h aw) = {#h#}"
| "suspends (Write fd buf len off h aw) = {#h#}"
| "suspends _ = {#}"

lemma proactor_step_inv:
  assumes K: "kernel_laws K owed" and I: "p_inv K owed n k hs ts os p" "k < 2 ^ 59"
  shows "\<exists>p' ts' os'. proactor_step K ev p = Some p' \<and> p_inv K owed n (Suc k) (suspends ev + hs) ts' os' p'"
proof (cases ev)
  case (Dispatch t)
  then show ?thesis using DispatchBrief_inv [OF K I, of t] by auto
next
  case Begin
  then show ?thesis using p_inv_mono [OF I(1), of "Suc k"] by (auto simp: loop_begin_def p_inv_def ops_ok_def)
next
  case Stop
  then have "p_inv K owed n (Suc k) (suspends ev + hs) ts os (proactor_stop K p)"
    using p_inv_mono [OF I(1), of "Suc k"] ops_ok_write [OF K] by (auto simp: proactor_stop_def Wakeup_def p_inv_def)
  then show ?thesis using Stop by auto
next
  case Loop
  then show ?thesis using loop_step_inv [OF K I] by auto
qed (use submit_op_inv [OF K I] in \<open>force simp: SubmitAccept_def SubmitRead_def SubmitWrite_def\<close>)+

lemma proactor_run_inv:
  assumes K: "kernel_laws K owed"
  shows "p_inv K owed n k hs ts os p \<Longrightarrow> k + length evs \<le> 2 ^ 59 \<Longrightarrow>
    \<exists>p' ts' os'. foldM (proactor_step K) evs p = Some p' \<and> p_inv K owed n (k + length evs) (sum_list (map suspends evs) + hs) ts' os' p'"
proof (induction evs arbitrary: k hs ts os p)
  case (Cons ev evs)
  obtain p' ts' os' where "proactor_step K ev p = Some p'" "p_inv K owed n (Suc k) (suspends ev + hs) ts' os' p'"
    using proactor_step_inv [OF K Cons.prems(1), of ev] Cons.prems(2) by auto
  then show ?case using Cons.IH [of "Suc k" "suspends ev + hs" ts' os' p'] Cons.prems(2) by (auto simp: ac_simps)
qed auto

lemma proactor_init_inv:
  assumes K: "kernel_laws K owed" and "owed r = {#}" and "proactor_init K r (2 ^ b) = Some p" and "1 \<le> b" "b \<le> 62"
  shows "p_inv K owed (2 ^ b) 0 {#} [] [] p"
proof -
  obtain tq po r' where q: "mpmc_init (2 ^ b) = Some tq" "mpmc_init (2 ^ b) = Some po" "io_uring_get_sqe K r = Some r'"
    and p: "p = \<lparr>task_queue = tq, pending_ops = po, p_ring = io_uring_submit K (io_uring_prep K (Some Prep_Poll) WAKEUP_COOKIE r'),
       p_running = False, p_stop = False, loop_pc = L_Idle,
       awaitables = Map.empty, tasks_run = [], resumed = [], accepted_tasks = [], accepted_ops = [], completed_ops = []\<rparr>"
    using assms(3) by (auto simp: proactor_init_def Let_def split: bind_splits)
  have "owed r' = {#}" using kernelD(1) [OF K q(3)] assms(2) by simp
  then show ?thesis using mpmc_init_holds [OF q(1)] mpmc_init_holds [OF q(2)] assms(4,5) kernelD(2,3) [OF K]
    by (simp add: p p_inv_def ops_ok_def h_ok_def)
qed

lemma loop_run_rank:
  assumes K: "kernel_laws K owed"
  shows "p_inv K owed n k hs ts os p \<Longrightarrow> k + m \<le> 2 ^ 59 \<Longrightarrow>
    \<exists>p' ts' os'. foldM (proactor_step K) (replicate m Loop) p = Some p' \<and> p_inv K owed n (k + m) hs ts' os' p' \<and>
      accepted_tasks p' = accepted_tasks p \<and>
      (p_stop p \<longrightarrow> loop_rank (loop_pc p') (length ts') (length os') \<le> loop_rank (loop_pc p) (length ts) (length os) - m) \<and>
      (\<not> p_stop p \<longrightarrow> p_running p \<longrightarrow> p_running p' \<and> task_rank (loop_pc p') (length ts') (length os') \<le> task_rank (loop_pc p) (length ts) (length os) - m)"
proof (induction m arbitrary: k ts os p)
  case (Suc m)
  obtain p1 ts1 os1 where s: "loop_step K p = Some p1" "p_inv K owed n (Suc k) hs ts1 os1 p1" "p_stop p1 = p_stop p"
      "accepted_tasks p1 = accepted_tasks p" "loop_next (p_stop p) (loop_pc p) ts os (loop_pc p1) ts1 os1"
    using loop_step_inv [OF K Suc.prems(1)] Suc.prems(2) by auto
  obtain p2 ts2 os2 where u: "foldM (proactor_step K) (replicate m Loop) p1 = Some p2" "p_inv K owed n (Suc k + m) hs ts2 os2 p2"
      "accepted_tasks p2 = accepted_tasks p1"
      "p_stop p1 \<longrightarrow> loop_rank (loop_pc p2) (length ts2) (length os2) \<le> loop_rank (loop_pc p1) (length ts1) (length os1) - m"
      "\<not> p_stop p1 \<longrightarrow> p_running p1 \<longrightarrow> p_running p2 \<and> task_rank (loop_pc p2) (length ts2) (length os2) \<le> task_rank (loop_pc p1) (length ts1) (length os1) - m"
    using Suc.IH [OF s(2)] Suc.prems(2) by auto
  note nx = loop_next_rank [OF s(5)]
  have run: "p_running p1" if "\<not> p_stop p" "p_running p" using nx(3) that Suc.prems(1) s(2) by (auto simp: p_inv_def)
  show ?case using s u nx(1,2) run by (intro exI [of _ p2] exI [of _ ts2] exI [of _ os2]) fastforce
qed auto

lemma p_inv_rank:
  assumes "p_inv K owed n k hs ts os p"
  shows "loop_rank (loop_pc p) (length ts) (length os) \<le> 3 * n + 5" "task_rank (loop_pc p) (length ts) (length os) \<le> 3 * n + 5"
proof -
  have "length (map Some ts) \<le> n" "length os \<le> n" using assms by (auto simp: p_inv_def dest: mpmc.holds_cap simp del: length_map)
  then show "loop_rank (loop_pc p) (length ts) (length os) \<le> 3 * n + 5" "task_rank (loop_pc p) (length ts) (length os) \<le> 3 * n + 5"
    using rank_bounds [of "loop_pc p" "length ts" "length os"] by auto
qed

lemma loop_runs_all:
  assumes "kernel_laws K owed" "p_inv K owed n k hs ts os p" "k + (3 * n + 5) \<le> 2 ^ 59"
  shows "\<exists>p'. foldM (proactor_step K) (replicate (3 * n + 5) Loop) p = Some p' \<and>
    (p_running p \<longrightarrow> \<not> p_stop p \<longrightarrow> tasks_run p' = accepted_tasks p)"
proof -
  obtain p' ts' os' where p': "foldM (proactor_step K) (replicate (3 * n + 5) Loop) p = Some p'" "p_inv K owed n (k + (3 * n + 5)) hs ts' os' p'"
      "accepted_tasks p' = accepted_tasks p"
      "\<not> p_stop p \<longrightarrow> p_running p \<longrightarrow> p_running p' \<and> task_rank (loop_pc p') (length ts') (length os') \<le> task_rank (loop_pc p) (length ts) (length os) - (3 * n + 5)"
    using loop_run_rank [OF assms] by auto
  have "tasks_run p' = accepted_tasks p" if "p_running p" "\<not> p_stop p"
  proof -
    have "task_rank (loop_pc p') (length ts') (length os') = 0" "p_running p'" using p'(4) that p_inv_rank(2) [OF assms(2)] by auto
    then have "ts' = []" using p'(2) by (cases "loop_pc p'"; cases ts') (auto simp: p_inv_def)
    then show ?thesis using p'(2,3) by (simp add: p_inv_def)
  qed
  then show ?thesis using p'(1) by blast
qed

lemma p_inv_suspended:
  assumes "p_inv K owed n k hs ts os p"
  shows "hs = mset (map fst (resumed p)) + image_mset (the \<circ> op_handle) (mset os + held (loop_pc p) + ops_of (owed (p_ring p) - handled (loop_pc p)))"
proof -
  have "hs + image_mset (the \<circ> op_handle) (mset (completed_ops p)) = mset (map fst (resumed p)) + image_mset (the \<circ> op_handle) (mset (accepted_ops p))"
    using assms by (simp add: p_inv_def h_ok_def)
  moreover have "mset (accepted_ops p) = mset os + held (loop_pc p) + ops_of (owed (p_ring p) - handled (loop_pc p)) + mset (completed_ops p)"
    using assms by (simp add: p_inv_def ops_ok_def)
  ultimately show ?thesis by (simp add: ac_simps)
qed

subsection \<open>Properties\<close>

text \<open>A ring of two hundred and fifty-six entries whose operations complete in order, with result zero.\<close>

definition list_kernel :: "('h, 'h user_data list \<times> nat) kernel" where
  "list_kernel = \<lparr>
     io_uring_get_sqe = (\<lambda>(ds, free). if 0 < free then Some (ds, free - 1) else None),
     io_uring_prep = (\<lambda>c d (ds, free). (ds @ [d], free)),
     io_uring_submit = (\<lambda>(ds, free). (ds, 256)),
     io_uring_wait_cqe_timeout = (\<lambda>(ds, free). (case ds of [] \<Rightarrow> None | d # _ \<Rightarrow> Some \<lparr>cqe_data = d, cqe_res = 0\<rparr>, ds, free)),
     io_uring_cqe_seen = (\<lambda>c (ds, free). (remove1 (cqe_data c) ds, free)),
     eventfd_write = id, eventfd_read = id\<rparr>"

lemma list_kernel_laws: "kernel_laws list_kernel (\<lambda>(ds, free). mset ds)"
  by (auto simp: kernel_laws_def list_kernel_def split: list.splits if_splits)

lemma list_kernel_init: "\<exists>p. proactor_init list_kernel ([], 256) (2 ^ 1) = Some p"
  by (simp add: proactor_init_def mpmc_init_def list_kernel_def)







end
