(* ===== verification/Proactor_Pool.thy ===== *)
theory Proactor_Pool
  imports Proactor
begin

text \<open>
  The pool of event loops, \<open>UringProactorPool\<close> of \<open>net/base/uring_proactor_pool.hpp\<close>: the dispatch to every loop
  and \<open>AwaitOnAll\<close>, which waits until the callback has run on every loop.
\<close>

type_synonym ('t, 'h, 'r) UringProactorPool = "('t, 'h, 'r) UringProactor list"

text \<open>Every loop gets a queue of \<open>4096\<close> entries; \<open>rs\<close> are the rings the kernel gives to them.\<close>

fun pool_init :: "('h, 'r) kernel \<Rightarrow> 'r list \<Rightarrow> ('t, 'h, 'r) UringProactorPool option" where
  "pool_init K [] = Some []"
| "pool_init K (r # rs) = do { p \<leftarrow> proactor_init K r 4096; ps \<leftarrow> pool_init K rs; Some (p # ps) }"

text \<open>The result of each dispatch is ignored; it is returned here so that it can be observed.\<close>

fun pool_DispatchBrief :: "('h, 'r) kernel \<Rightarrow> 't \<Rightarrow> ('t, 'h, 'r) UringProactorPool \<Rightarrow> (bool list \<times> ('t, 'h, 'r) UringProactorPool) option" where
  "pool_DispatchBrief K f [] = Some ([], [])"
| "pool_DispatchBrief K f (p # ps) = do { (ok, p) \<leftarrow> DispatchBrief K f p; (oks, ps) \<leftarrow> pool_DispatchBrief K f ps; Some (ok # oks, p # ps) }"

text \<open>\<open>AwaitOnAll\<close>: the latch starts at the number of loops, and every callback that runs counts it down. \<open>fuel\<close> is the
  number of steps each loop makes meanwhile; the call returns when the latch is at zero.\<close>

fun run_all :: "('h, 'r) kernel \<Rightarrow> nat \<Rightarrow> ('t, 'h, 'r) UringProactorPool \<Rightarrow> ('t, 'h, 'r) UringProactorPool option" where
  "run_all K fuel [] = Some []"
| "run_all K fuel (p # ps) = do { p \<leftarrow> foldM (proactor_step K) (replicate fuel Loop) p; ps \<leftarrow> run_all K fuel ps; Some (p # ps) }"

definition latch_count :: "'t \<Rightarrow> ('t, 'h, 'r) UringProactorPool \<Rightarrow> nat" where
  "latch_count cb ps = length ps - sum_list (map (\<lambda>p. count_list (tasks_run p) cb) ps)"

definition AwaitOnAll :: "('h, 'r) kernel \<Rightarrow> 't \<Rightarrow> nat \<Rightarrow> ('t, 'h, 'r) UringProactorPool \<Rightarrow> (bool \<times> ('t, 'h, 'r) UringProactorPool) option" where
  "AwaitOnAll K cb fuel ps = do {
     (_, ps) \<leftarrow> pool_DispatchBrief K cb ps;
     ps \<leftarrow> run_all K fuel ps;
     Some (latch_count cb ps = 0, ps) }"

text \<open>A loop that runs, with \<open>ts\<close> tasks waiting and after at most \<open>k\<close> events.\<close>

definition loop_live :: "('h, 'r) kernel \<Rightarrow> ('r \<Rightarrow> 'h user_data multiset) \<Rightarrow> nat \<Rightarrow> nat \<Rightarrow> ('t, 'h, 'r) UringProactor \<Rightarrow> 't list \<Rightarrow> bool" where
  "loop_live K owed n k p ts \<longleftrightarrow> (\<exists>hs os. p_inv K owed n k hs ts os p) \<and> p_running p \<and> \<not> p_stop p"

lemma sum_list_bool: "sum_list (map (\<lambda>x. if P x then 1 else 0) xs) = length (filter P xs)"
  by (induction xs) auto

lemma filter_all_length: "length xs \<le> length (filter P xs) \<longleftrightarrow> (\<forall>x \<in> set xs. P x)"
  by (metis antisym filter_True filter_id_conv length_filter_le length_filter_less less_le_not_le order_refl)

lemma loop_live_begin:
  assumes "p_inv K owed n k hs ts os p" "loop_pc p = L_Idle"
  shows "loop_live K owed n k (loop_begin p) ts"
proof -
  have "p_inv K owed n k hs ts os (loop_begin p)" using assms by (simp add: p_inv_def loop_begin_def ops_ok_def)
  then show ?thesis by (auto simp: loop_live_def loop_begin_def)
qed

lemma await_one:
  assumes K: "kernel_laws K owed" and p: "loop_live K owed n k p ts" and k: "k + 3 * n + 6 \<le> 2 ^ 59"
  shows "\<exists>p1 p2. DispatchBrief K cb p = Some (length ts < n, p1) \<and> foldM (proactor_step K) (replicate (3 * n + 5) Loop) p1 = Some p2 \<and>
    tasks_run p2 = tasks_run p @ ts @ (if length ts < n then [cb] else [])"
proof -
  obtain hs os where I: "p_inv K owed n k hs ts os p" and live: "p_running p" "\<not> p_stop p" using p by (auto simp: loop_live_def)
  obtain p1 where p1: "DispatchBrief K cb p = Some (length ts < n, p1)" "p_inv K owed n (Suc k) hs (if length ts < n then ts @ [cb] else ts) os p1"
      "loop_pc p1 = loop_pc p" "p_stop p1 = p_stop p"
    using DispatchBrief_inv [OF K I] k by auto
  have run: "p_running p1" using p1(2,3) I live(1) by (auto simp: p_inv_def)
  obtain p2 where p2: "foldM (proactor_step K) (replicate (3 * n + 5) Loop) p1 = Some p2" "tasks_run p2 = accepted_tasks p1"
    using loop_runs_all [OF K p1(2)] k run live(2) p1(4) by auto
  have "accepted_tasks p1 = tasks_run p @ ts @ (if length ts < n then [cb] else [])"
    using p1(1) I by (auto simp: p_inv_def DispatchBrief_def Wakeup_def Let_def split: bind_splits if_splits)
  then show ?thesis using p1(1) p2 by auto
qed

lemma await_all:
  assumes K: "kernel_laws K owed" and k: "k + 3 * n + 6 \<le> 2 ^ 59"
  shows "list_all2 (loop_live K owed n k) ps tss \<Longrightarrow> \<exists>ps1 ps2. pool_DispatchBrief K cb ps = Some (map (\<lambda>ts. length ts < n) tss, ps1) \<and>
    run_all K (3 * n + 5) ps1 = Some ps2 \<and> map tasks_run ps2 = map2 (\<lambda>p ts. tasks_run p @ ts @ (if length ts < n then [cb] else [])) ps tss"
proof (induction ps tss rule: list_all2_induct)
  case (Cons p ps ts tss)
  then show ?case using await_one [OF K Cons.hyps(1) k, of cb] by fastforce
qed auto

text \<open>\<open>AwaitOnAll\<close> with a callback that no loop has seen, on loops that run: it returns exactly when no queue of
  tasks is full. A loop with a full queue refuses the callback, the refusal is ignored, and the latch stays above zero
  although every loop has run everything it accepted.\<close>

theorem AwaitOnAll_returns_iff:
  assumes "kernel_laws K owed" "k + 3 * n + 6 \<le> 2 ^ 59" "list_all2 (loop_live K owed n k) ps tss"
    and "\<And>p. p \<in> set ps \<Longrightarrow> cb \<notin> set (tasks_run p)" "\<And>ts. ts \<in> set tss \<Longrightarrow> cb \<notin> set ts"
  shows "\<exists>ps'. AwaitOnAll K cb (3 * n + 5) ps = Some (\<forall>ts \<in> set tss. length ts < n, ps')"
proof -
  obtain ps1 ps2 where d: "pool_DispatchBrief K cb ps = Some (map (\<lambda>ts. length ts < n) tss, ps1)" "run_all K (3 * n + 5) ps1 = Some ps2"
      and r: "map tasks_run ps2 = map2 (\<lambda>p ts. tasks_run p @ ts @ (if length ts < n then [cb] else [])) ps tss"
    using await_all [OF assms(1-3), of cb] by blast
  have "map (\<lambda>p. count_list (tasks_run p) cb) ps2 = map (\<lambda>xs. count_list xs cb) (map tasks_run ps2)" by simp
  also have "\<dots> = map (\<lambda>ts. if length ts < n then 1 else 0) tss"
    using r assms(3-5) by (auto simp: list_all2_conv_all_nth count_list_append count_notin intro!: nth_equalityI)
  finally have "sum_list (map (\<lambda>p. count_list (tasks_run p) cb) ps2) = length (filter (\<lambda>ts. length ts < n) tss)"
    by (simp add: sum_list_bool)
  moreover have "length ps2 = length tss" using arg_cong [OF r, of length] list_all2_lengthD [OF assms(3)] by simp
  ultimately have "latch_count cb ps2 = 0 \<longleftrightarrow> (\<forall>ts \<in> set tss. length ts < n)"
    by (simp add: latch_count_def filter_all_length)
  then show ?thesis using d by (simp add: AwaitOnAll_def)
qed

theorem AwaitOnAll_returns_iff_witness:
  "\<exists>p ps'. proactor_init (list_kernel :: (nat, _) kernel) ([], 256) (2 ^ 1) = Some p \<and>
     AwaitOnAll list_kernel ''cb'' (3 * 2 ^ 1 + 5) [loop_begin p, loop_begin p] = Some (True, ps')"
proof -
  obtain p :: "(string, nat, _) UringProactor" where p: "proactor_init list_kernel ([], 256) (2 ^ 1) = Some p" using list_kernel_init by blast
  have I: "p_inv list_kernel (\<lambda>(ds, free). mset ds) (2 ^ 1) 0 {#} [] [] p" by (rule proactor_init_inv [OF list_kernel_laws _ p]) auto
  have pc: "loop_pc p = L_Idle" "tasks_run p = []" using p by (auto simp: proactor_init_def Let_def split: bind_splits)
  show ?thesis using p loop_live_begin [OF I pc(1)] pc(2)
      AwaitOnAll_returns_iff [OF list_kernel_laws, of 0 "2 ^ 1" "[loop_begin p, loop_begin p]" "[[], []]" "''cb''"]
    by (auto simp: loop_begin_def)
qed

end
