(* ===== verification/Pool_Life.thy ===== *)
theory Pool_Life
  imports Proactor_Pool
begin

text \<open>
  The life of the pool: the handle of a thread (\<open>net/util/thread.hpp\<close>), \<open>AsyncLoop\<close> and \<open>stop\<close> of \<open>UringProactorPool\<close>, the wait of
  \<open>UringProactor::stop\<close> and the destructors. A thread of the pool starts in the loop of its proactor and ends with it.
\<close>

subsection \<open>Threads\<close>

text \<open>An identifier of zero is a handle without a thread.\<close>

record Thread =
  tid :: nat
  th_joined :: bool

datatype thread_error = Not_joinable

definition Thread_init :: Thread where
  "Thread_init = \<lparr>tid = 0, th_joined = False\<rparr>"

text \<open>\<open>pthread_create\<close> gives the identifier, or fails.\<close>

definition Thread_start :: "nat option \<Rightarrow> Thread option" where
  "Thread_start pthread_create = map_option (\<lambda>i. Thread_init\<lparr>tid := i\<rparr>) pthread_create"

definition joinable :: "Thread \<Rightarrow> bool" where
  "joinable t \<longleftrightarrow> tid t \<noteq> 0 \<and> \<not> th_joined t"

text \<open>The move constructor gives the new handle and what is left in the other one. \<open>None\<close> is \<open>std::terminate\<close>.\<close>

definition Thread_move :: "Thread \<Rightarrow> Thread \<times> Thread" where
  "Thread_move other = (\<lparr>tid = tid other, th_joined = th_joined other\<rparr>, other\<lparr>tid := 0, th_joined := False\<rparr>)"

definition Thread_assign :: "Thread \<Rightarrow> Thread \<Rightarrow> (Thread \<times> Thread) option" where
  "Thread_assign t other = (if joinable t then None else Some (Thread_move other))"

definition Thread_destroy :: "Thread \<Rightarrow> unit option" where
  "Thread_destroy t = (if joinable t then None else Some ())"

text \<open>\<open>join\<close>, where \<open>ended\<close> says that the function of the thread has returned. \<open>None\<close> is a call that waits.\<close>

definition Thread_join :: "bool \<Rightarrow> Thread \<Rightarrow> (thread_error + Thread) option" where
  "Thread_join ended t = (if \<not> joinable t then Some (Inl Not_joinable) else if ended then Some (Inr (t\<lparr>th_joined := True\<rparr>)) else None)"

definition Thread_detach :: "Thread \<Rightarrow> thread_error + Thread" where
  "Thread_detach t = (if \<not> joinable t then Inl Not_joinable else Inr (t\<lparr>th_joined := True\<rparr>))"

definition current_thread :: "nat \<Rightarrow> Thread" where
  "current_thread pthread_self = Thread_init\<lparr>tid := pthread_self, th_joined := False\<rparr>"

lemma current_thread_terminates: "0 < self \<Longrightarrow> Thread_destroy (current_thread self) = None"
  by (simp add: Thread_destroy_def current_thread_def joinable_def)

lemma join_then_destroy: "Thread_join True t = Some (Inr t') \<Longrightarrow> Thread_destroy t' = Some () \<and> Thread_join e t' = Some (Inl Not_joinable)"
  by (auto simp: Thread_join_def Thread_destroy_def joinable_def split: if_splits)

subsection \<open>The pool with its threads\<close>

text \<open>\<open>unique_ptr\<close>s that are null are \<open>None\<close>.\<close>

record ('t, 'h, 'r) pool =
  pl_proactors :: "('t, 'h, 'r) UringProactorPool"
  pl_threads :: "Thread option list"

definition pool_new :: "('h, 'r) kernel \<Rightarrow> 'r list \<Rightarrow> ('t, 'h, 'r) pool option" where
  "pool_new K rs = do { ps \<leftarrow> pool_init K rs; Some \<lparr>pl_proactors = ps, pl_threads = replicate (length ps) None\<rparr> }"

text \<open>A new thread replaces the one that a slot held, whose handle is destroyed.\<close>

definition AsyncLoop_step :: "(nat \<Rightarrow> nat option) \<Rightarrow> nat \<Rightarrow> ('t, 'h, 'r) pool \<Rightarrow> ('t, 'h, 'r) pool option" where
  "AsyncLoop_step pthread_create i pl = do {
     t \<leftarrow> Thread_start (pthread_create i);
     (case pl_threads pl ! i of None \<Rightarrow> Some () | Some old \<Rightarrow> Thread_destroy old);
     Some (pl\<lparr>pl_threads := (pl_threads pl)[i := Some t]\<rparr>) }"

definition AsyncLoop :: "(nat \<Rightarrow> nat option) \<Rightarrow> ('t, 'h, 'r) pool \<Rightarrow> ('t, 'h, 'r) pool option" where
  "AsyncLoop pthread_create pl = foldM (AsyncLoop_step pthread_create) [0..<length (pl_proactors pl)] pl"

text \<open>A step of the loop in its thread. The task \<open>s\<close> is the callback of the pool's \<open>stop\<close>: it calls \<open>stop\<close> of the proactor in the
  thread of the loop, which therefore does not wait.\<close>

definition loop_task_step :: "('h, 'r) kernel \<Rightarrow> 't \<Rightarrow> ('t, 'h, 'r) UringProactor \<Rightarrow> ('t, 'h, 'r) UringProactor option" where
  "loop_task_step K s p = do {
     p' \<leftarrow> loop_step K p;
     if length (tasks_run p) < length (tasks_run p') \<and> last (tasks_run p') = s then Some (proactor_stop K p') else Some p' }"

definition thread_step :: "('h, 'r) kernel \<Rightarrow> 't \<Rightarrow> ('t, 'h, 'r) UringProactor \<Rightarrow> ('t, 'h, 'r) UringProactor option" where
  "thread_step K s p = (if loop_pc p = L_Idle then Some (loop_begin p) else loop_task_step K s p)"

fun pool_step :: "('h, 'r) kernel \<Rightarrow> 't \<Rightarrow> nat \<times> ('t, 'h) event \<Rightarrow> ('t, 'h, 'r) UringProactorPool \<Rightarrow> ('t, 'h, 'r) UringProactorPool option" where
  "pool_step K s (i, ev) ps = do {
     assert_opt (i < length ps);
     p \<leftarrow> (if ev = Loop then thread_step K s (ps ! i) else proactor_step K ev (ps ! i));
     Some (ps[i := p]) }"

text \<open>\<open>stop\<close> of the pool up to the joins, and the joins in order.\<close>

definition pool_stop :: "('h, 'r) kernel \<Rightarrow> 't \<Rightarrow> ('t, 'h, 'r) UringProactorPool \<Rightarrow> ('t, 'h, 'r) UringProactorPool option" where
  "pool_stop K s ps = map_option snd (pool_DispatchBrief K s ps)"

definition pool_join_step :: "nat \<Rightarrow> thread_error + ('t, 'h, 'r) pool \<Rightarrow> (thread_error + ('t, 'h, 'r) pool) option" where
  "pool_join_step i r = (case r of Inl e \<Rightarrow> Some (Inl e)
   | Inr pl \<Rightarrow> do {
       t \<leftarrow> pl_threads pl ! i;
       r \<leftarrow> Thread_join (loop_pc (pl_proactors pl ! i) = L_Done) t;
       Some (map_sum id (\<lambda>t. pl\<lparr>pl_threads := (pl_threads pl)[i := Some t]\<rparr>) r) })"

definition pool_join :: "('t, 'h, 'r) pool \<Rightarrow> (thread_error + ('t, 'h, 'r) pool) option" where
  "pool_join pl = foldM pool_join_step [0..<length (pl_proactors pl)] (Inr pl)"

text \<open>\<open>UringProactor::stop\<close> called by the thread of the loop, if \<open>own\<close>, or by another one: \<open>None\<close> is a call that waits for the end of
  the loop. The destructor calls it in the thread that destroys the pool.\<close>

definition stop_call :: "('h, 'r) kernel \<Rightarrow> bool \<Rightarrow> ('t, 'h, 'r) UringProactor \<Rightarrow> ('t, 'h, 'r) UringProactor option" where
  "stop_call K own p = (let p = proactor_stop K p in if \<not> own \<and> p_running p then None else Some p)"

definition proactor_destroy :: "('h, 'r) kernel \<Rightarrow> ('t, 'h, 'r) UringProactor \<Rightarrow> unit option" where
  "proactor_destroy K p = map_option (\<lambda>_. ()) (stop_call K False p)"

text \<open>The members of the pool are destroyed in the reverse order of their declaration: first the threads.\<close>

definition pool_destroy :: "('h, 'r) kernel \<Rightarrow> ('t, 'h, 'r) pool \<Rightarrow> unit option" where
  "pool_destroy K pl = do {
     foldM (\<lambda>t _. case t of None \<Rightarrow> Some () | Some t \<Rightarrow> Thread_destroy t) (pl_threads pl) ();
     foldM (\<lambda>p _. proactor_destroy K p) (pl_proactors pl) () }"

subsection \<open>One loop\<close>

text \<open>A loop that was not told to stop.\<close>

definition calm :: "('h, 'r) kernel \<Rightarrow> ('r \<Rightarrow> 'h user_data multiset) \<Rightarrow> nat \<Rightarrow> 't \<Rightarrow> nat \<Rightarrow> ('t, 'h, 'r) UringProactor \<Rightarrow> bool" where
  "calm K owed n s k p \<longleftrightarrow> (\<exists>hs ts os. p_inv K owed n k hs ts os p) \<and> s \<notin> set (accepted_tasks p) \<and> \<not> p_stop p \<and> loop_pc p \<noteq> L_Done"

text \<open>A loop that ends within \<open>r\<close> steps: it has not started, the callback of \<open>stop\<close> is the last task in its queue, or \<open>stop_\<close> is set.\<close>

definition stopping :: "('h, 'r) kernel \<Rightarrow> ('r \<Rightarrow> 'h user_data multiset) \<Rightarrow> nat \<Rightarrow> 't \<Rightarrow> nat \<Rightarrow> nat \<Rightarrow> ('t, 'h, 'r) UringProactor \<Rightarrow> bool" where
  "stopping K owed n s k r p \<longleftrightarrow> (\<exists>hs ts os us. p_inv K owed n k hs ts os p \<and> s \<notin> set us \<and> accepted_tasks p = us @ [s] \<and> 
     (loop_pc p = L_Idle \<and> ts \<noteq> [] \<and> 6 * n + 11 \<le> r \<or>
      p_running p \<and> \<not> p_stop p \<and> ts \<noteq> [] \<and> 3 * n + 5 + task_rank (loop_pc p) (length ts) (length os) \<le> r \<or>
      loop_pc p \<noteq> L_Idle \<and> p_stop p \<and> ts = [] \<and> loop_rank (loop_pc p) 0 (length os) \<le> r))"

lemma loop_next_tasks: "loop_next stp pc ts os pc' ts' os' \<Longrightarrow> ts' = ts \<or> ts \<noteq> [] \<and> ts' = tl ts"
  by (cases pc; cases ts) auto

lemma tasks_run_step:
  assumes "p_inv K owed n k hs ts os p" "p_inv K owed n k' hs' ts' os' p'" "accepted_tasks p' = accepted_tasks p" "ts' = ts \<or> ts \<noteq> [] \<and> ts' = tl ts"
  shows "tasks_run p' = (if ts' = ts then tasks_run p else tasks_run p @ [hd ts])"
  using assms by (cases ts) (auto simp: p_inv_def)

lemma p_inv_stop: "kernel_laws K owed \<Longrightarrow> p_inv K owed n k hs ts os p \<Longrightarrow> p_inv K owed n k hs ts os (proactor_stop K p)"
  using ops_ok_write [of K owed "loop_pc p" "p_ring p" os "accepted_ops p" "completed_ops p"] by (auto simp: p_inv_def proactor_stop_def Wakeup_def)

lemma p_inv_begin: "p_inv K owed n k hs ts os p \<Longrightarrow> loop_pc p = L_Idle \<Longrightarrow> p_inv K owed n k hs ts os (loop_begin p)"
  by (simp add: p_inv_def loop_begin_def ops_ok_def)

lemma thread_step_calm:
  assumes K: "kernel_laws K owed" and C: "calm K owed n s k p" and k: "k < 2 ^ 59"
  shows "\<exists>p'. thread_step K s p = Some p' \<and> calm K owed n s (Suc k) p' \<and> accepted_tasks p' = accepted_tasks p"
proof -
  obtain hs ts os where I: "p_inv K owed n k hs ts os p" using C by (auto simp: calm_def)
  have c: "s \<notin> set (accepted_tasks p)" "\<not> p_stop p" "loop_pc p \<noteq> L_Done" using C by (auto simp: calm_def)
  show ?thesis
  proof (cases "loop_pc p = L_Idle")
    case True
    then show ?thesis using p_inv_mono [OF p_inv_begin [OF I True], of "Suc k"] c by (auto simp: thread_step_def calm_def loop_begin_def)
  next
    case False
    obtain p' ts' os' where p': "loop_step K p = Some p'" "p_inv K owed n (Suc k) hs ts' os' p'" "p_stop p' = p_stop p"
        "accepted_tasks p' = accepted_tasks p" "loop_next (p_stop p) (loop_pc p) ts os (loop_pc p') ts' os'"
      using loop_step_inv [OF K I k] by blast
    have "loop_pc p' \<noteq> L_Done" using loop_next_rank(3) [OF p'(5)] c False by blast
    moreover have "set (tasks_run p') \<subseteq> set (accepted_tasks p)" using p'(2,4) by (auto simp: p_inv_def)
    then have "\<not> (length (tasks_run p) < length (tasks_run p') \<and> last (tasks_run p') = s)" using c(1) last_in_set [of "tasks_run p'"] by fastforce
    ultimately show ?thesis using False p' c by (auto simp: thread_step_def loop_task_step_def calm_def)
  qed
qed

lemma thread_step_stopping:
  assumes K: "kernel_laws K owed" and S: "stopping K owed n s k r p" and k: "k < 2 ^ 59"
  shows "\<exists>p'. thread_step K s p = Some p' \<and> stopping K owed n s (Suc k) (r - 1) p' \<and> accepted_tasks p' = accepted_tasks p"
proof -
  obtain hs ts os us where I: "p_inv K owed n k hs ts os p" and a: "s \<notin> set us" "accepted_tasks p = us @ [s]"
    and c: "loop_pc p = L_Idle \<and> ts \<noteq> [] \<and> 6 * n + 11 \<le> r \<or>
      p_running p \<and> \<not> p_stop p \<and> ts \<noteq> [] \<and> 3 * n + 5 + task_rank (loop_pc p) (length ts) (length os) \<le> r \<or>
      loop_pc p \<noteq> L_Idle \<and> p_stop p \<and> ts = [] \<and> loop_rank (loop_pc p) 0 (length os) \<le> r"
    using S unfolding stopping_def by blast
  have at: "tasks_run p @ ts = us @ [s]" using I a by (simp add: p_inv_def)
  show ?thesis
  proof (cases "loop_pc p = L_Idle")
    case True
    have "\<not> p_running p" using I True by (simp add: p_inv_def)
    then have "ts \<noteq> []" "6 * n + 11 \<le> r" using c True by auto
    moreover note J = p_inv_mono [OF p_inv_begin [OF I True], of "Suc k"]
    moreover note p_inv_rank(2) [OF J]
    ultimately have "stopping K owed n s (Suc k) (r - 1) (loop_begin p)" unfolding stopping_def
      using a by (intro exI [of _ hs] exI [of _ ts] exI [of _ os] exI [of _ us]) (simp add: loop_begin_def)
    then show ?thesis using True by (simp add: thread_step_def) (simp add: loop_begin_def)
  next
    case False
    obtain p' ts' os' where p': "loop_step K p = Some p'" "p_inv K owed n (Suc k) hs ts' os' p'" "p_stop p' = p_stop p"
        "accepted_tasks p' = accepted_tasks p" "loop_next (p_stop p) (loop_pc p) ts os (loop_pc p') ts' os'"
      using loop_step_inv [OF K I k] by blast
    note tl = loop_next_tasks [OF p'(5)] and nx = loop_next_rank [OF p'(5)]
    note tr = tasks_run_step [OF I p'(2,4) tl]
    have run: "p_running p' \<longleftrightarrow> loop_pc p' \<noteq> L_Idle \<and> loop_pc p' \<noteq> L_Done" "p_running p \<longleftrightarrow> loop_pc p \<noteq> L_Done" using I p'(2) False by (auto simp: p_inv_def)
    show ?thesis
    proof (cases "ts = []")
      case True
      then have "p_stop p" "loop_rank (loop_pc p) 0 (length os) \<le> r" "ts' = []" using c False tl by auto
      then have "stopping K owed n s (Suc k) (r - 1) p'" unfolding stopping_def using p' a nx(1) True False
        by (intro exI [of _ hs] exI [of _ ts'] exI [of _ os'] exI [of _ us]) (cases "loop_pc p"; auto)
      then show ?thesis using False p'(1,4) tr True \<open>ts' = []\<close> by (simp add: thread_step_def loop_task_step_def)
    next
      case ne: False
      then have c': "p_running p" "\<not> p_stop p" "3 * n + 5 + task_rank (loop_pc p) (length ts) (length os) \<le> r" using c False by auto
      have pos: "0 < task_rank (loop_pc p) (length ts) (length os)" using ne c'(1) run(2) False by (cases ts; cases "loop_pc p") auto
      show ?thesis
      proof (cases "ts' = []")
        case True
        then have "ts = [s]" "tasks_run p' = tasks_run p @ [s]" using tl ne at tr by (cases ts; auto)+
        moreover have "stopping K owed n s (Suc k) (r - 1) (proactor_stop K p')" unfolding stopping_def
          using p_inv_stop [OF K p'(2)] p'(4) a nx(2,3) c' True False run pos p_inv_rank(1) [OF p'(2)]
          by (intro exI [of _ hs] exI [of _ ts'] exI [of _ os'] exI [of _ us]) (auto simp: proactor_stop_def Wakeup_def)
        ultimately show ?thesis using False p'(1,4) by (simp add: thread_step_def loop_task_step_def) (simp add: proactor_stop_def Wakeup_def)
      next
        case more: False
        have "\<not> (length (tasks_run p) < length (tasks_run p') \<and> last (tasks_run p') = s)"
          using tr tl more at a(1) by (cases ts; cases "tl ts" rule: rev_cases) auto
        moreover have "stopping K owed n s (Suc k) (r - 1) p'" unfolding stopping_def
          using p' a nx(2,3) c' more False run pos by (intro exI [of _ hs] exI [of _ ts'] exI [of _ os'] exI [of _ us]) auto
        ultimately show ?thesis using False p'(1,4) by (auto simp: thread_step_def loop_task_step_def)
      qed
    qed
  qed
qed

subsection \<open>The pool\<close>

text \<open>The events of a pool in use: its threads and their clients, none of which stops a loop or starts one by hand.\<close>

fun pool_event_ok :: "'t \<Rightarrow> nat \<Rightarrow> nat \<times> ('t, 'h) event \<Rightarrow> bool" where
  "pool_event_ok s n (i, ev) \<longleftrightarrow> i < n \<and> ev \<noteq> Begin \<and> ev \<noteq> Stop \<and> ev \<noteq> Dispatch s"

lemma calm_mono: "calm K owed n s k p \<Longrightarrow> k \<le> k' \<Longrightarrow> calm K owed n s k' p"
  using p_inv_mono unfolding calm_def by blast

lemma stopping_mono: "stopping K owed n s k r p \<Longrightarrow> k \<le> k' \<Longrightarrow> stopping K owed n s k' r p"
  unfolding stopping_def by (elim exE conjE, intro exI conjI, rule p_inv_mono, assumption+)

lemma submit_op_keeps:
  "submit_op K op h p = Some p' \<Longrightarrow> accepted_tasks p' = accepted_tasks p \<and> p_stop p' = p_stop p \<and> loop_pc p' = loop_pc p"
  by (auto simp: submit_op_def Let_def Wakeup_def split: bind_splits if_splits)

lemma proactor_step_calm:
  assumes K: "kernel_laws K owed" and C: "calm K owed n s k p" and k: "k < 2 ^ 59" and ev: "pool_event_ok s m (i, ev)" "ev \<noteq> Loop"
  shows "\<exists>p'. proactor_step K ev p = Some p' \<and> calm K owed n s (Suc k) p'"
proof -
  obtain hs ts os where I: "p_inv K owed n k hs ts os p" using C by (auto simp: calm_def)
  obtain p' ts' os' where p': "proactor_step K ev p = Some p'" "p_inv K owed n (Suc k) (suspends ev + hs) ts' os' p'"
    using proactor_step_inv [OF K I k, of ev] by blast
  have "s \<notin> set (accepted_tasks p') \<and> p_stop p' = p_stop p \<and> loop_pc p' = loop_pc p"
  proof (cases ev)
    case (Dispatch t)
    then show ?thesis using p'(1) ev C by (auto simp: DispatchBrief_def Let_def Wakeup_def calm_def split: bind_splits if_splits)
  qed (use p'(1) ev C submit_op_keeps [of K _ _ p p'] in \<open>auto simp: calm_def SubmitAccept_def SubmitRead_def SubmitWrite_def\<close>)
  then show ?thesis using p' C unfolding calm_def by auto
qed

lemma pool_events:
  assumes K: "kernel_laws K owed"
  shows "list_all (calm K owed n s k) ps \<Longrightarrow> list_all (pool_event_ok s (length ps)) evs \<Longrightarrow> k + length evs \<le> 2 ^ 59 \<Longrightarrow>
    \<exists>ps'. foldM (pool_step K s) evs ps = Some ps' \<and> length ps' = length ps \<and> list_all (calm K owed n s (k + length evs)) ps'"
proof (induction evs arbitrary: k ps)
  case (Cons e evs)
  obtain i ev where e: "e = (i, ev)" "i < length ps" "pool_event_ok s (length ps) (i, ev)" using Cons.prems(2) by (cases e) auto
  have c: "calm K owed n s k (ps ! i)" "k < 2 ^ 59" using Cons.prems(1,3) e(2) by (auto simp: list_all_length)
  obtain p' where p': "(if ev = Loop then thread_step K s (ps ! i) else proactor_step K ev (ps ! i)) = Some p'" "calm K owed n s (Suc k) p'"
    using thread_step_calm [OF K c] proactor_step_calm [OF K c e(3)] by (cases "ev = Loop") auto
  have "list_all (calm K owed n s (Suc k)) (ps[i := p'])"
    using Cons.prems(1) p'(2) e(2) calm_mono [of K owed n s k _ "Suc k"] by (auto simp: list_all_length nth_list_update)
  then show ?case using Cons.IH [of "Suc k" "ps[i := p']"] Cons.prems(2,3) e p'(1) by auto
qed simp

lemma pool_loops_calm:
  assumes K: "kernel_laws K owed"
  shows "i < length ps \<Longrightarrow> calm K owed n s k (ps ! i) \<Longrightarrow> foldM (pool_step K s) (map (\<lambda>j. (j, Loop)) sched) ps = Some ps' \<Longrightarrow> k + length sched \<le> 2 ^ 59 \<Longrightarrow>
    calm K owed n s (k + length sched) (ps' ! i)"
proof (induction sched arbitrary: k ps)
  case (Cons j sched)
  obtain p where p: "thread_step K s (ps ! j) = Some p" "j < length ps" "foldM (pool_step K s) (map (\<lambda>j. (j, Loop)) sched) (ps[j := p]) = Some ps'"
    using Cons.prems(3) by (auto split: bind_splits)
  have "calm K owed n s (Suc k) (ps[j := p] ! i)"
    using Cons.prems(1,2,4) p(1) thread_step_calm [OF K Cons.prems(2)] calm_mono [OF Cons.prems(2), of "Suc k"] by (cases "j = i") auto
  then show ?case using Cons.IH [OF _ _ p(3), of "Suc k"] Cons.prems(1,4) by simp
qed simp

text \<open>Every loop makes the steps that a schedule gives to it; those that were told to stop get nearer to their end.\<close>

lemma pool_loops_run:
  assumes K: "kernel_laws K owed"
  shows "(\<And>i. i < length ps \<Longrightarrow> calm K owed n s k (ps ! i) \<or> stopping K owed n s k (r i) (ps ! i)) \<Longrightarrow> set sched \<subseteq> {..<length ps} \<Longrightarrow> k + length sched \<le> 2 ^ 59 \<Longrightarrow>
    \<exists>ps'. foldM (pool_step K s) (map (\<lambda>j. (j, Loop)) sched) ps = Some ps' \<and> length ps' = length ps \<and>
      (\<forall>i < length ps. accepted_tasks (ps' ! i) = accepted_tasks (ps ! i) \<and> (calm K owed n s (k + length sched) (ps' ! i) \<or>
        stopping K owed n s (k + length sched) (r i - count_list sched i) (ps' ! i)))"
proof (induction sched arbitrary: k ps r)
  case (Cons j sched)
  have j: "j < length ps" "k < 2 ^ 59" using Cons.prems(2,3) by auto
  obtain p where p: "thread_step K s (ps ! j) = Some p" "accepted_tasks p = accepted_tasks (ps ! j)"
      "calm K owed n s (Suc k) p \<or> stopping K owed n s (Suc k) (r j - 1) p"
    using Cons.prems(1) [OF j(1)] thread_step_calm [OF K _ j(2), of n s "ps ! j"] thread_step_stopping [OF K _ j(2), of n s "r j" "ps ! j"] by blast
  have "calm K owed n s (Suc k) (ps[j := p] ! i) \<or> stopping K owed n s (Suc k) ((r(j := r j - 1)) i) (ps[j := p] ! i)" if h: "i < length ps" for i
  proof (cases "j = i")
    case False
    then show ?thesis using Cons.prems(1) [OF h] calm_mono [of K owed n s k "ps ! i" "Suc k"] stopping_mono [of K owed n s k "r i" "ps ! i" "Suc k"] by simp metis
  qed (use p(3) j(1) in simp)
  then obtain ps' where ps': "foldM (pool_step K s) (map (\<lambda>j. (j, Loop)) sched) (ps[j := p]) = Some ps'" "length ps' = length ps"
      "\<forall>i < length ps. accepted_tasks (ps' ! i) = accepted_tasks (ps[j := p] ! i) \<and> (calm K owed n s (Suc k + length sched) (ps' ! i) \<or>
        stopping K owed n s (Suc k + length sched) ((r(j := r j - 1)) i - count_list sched i) (ps' ! i))"
    using Cons.IH [of "ps[j := p]" "Suc k" "r(j := r j - 1)"] Cons.prems(2,3) by auto
  have "accepted_tasks (ps' ! i) = accepted_tasks (ps ! i) \<and> (calm K owed n s (k + length (j # sched)) (ps' ! i) \<or>
      stopping K owed n s (k + length (j # sched)) (r i - count_list (j # sched) i) (ps' ! i))" if "i < length ps" for i
    using ps'(3) [rule_format, OF that] p(2) that by (cases "j = i") auto
  then show ?case using ps'(1,2) p(1) j(1) by auto
qed auto

lemma stopping_ends:
  assumes "stopping K owed n s k 0 p"
  shows "loop_pc p = L_Done \<and> \<not> p_running p \<and> tasks_run p = accepted_tasks p"
proof -
  obtain hs ts os us where I: "p_inv K owed n k hs ts os p"
    and c: "loop_pc p \<noteq> L_Idle" "ts = []" "loop_rank (loop_pc p) 0 (length os) = 0" using assms unfolding stopping_def by auto
  then have "loop_pc p = L_Done" by (cases "loop_pc p") auto
  then show ?thesis using I c(2) by (simp add: p_inv_def)
qed

text \<open>The dispatch of the callback of \<open>stop\<close>: a loop with a full queue does not get it.\<close>

definition task_queue_full :: "nat \<Rightarrow> ('t, 'h, 'r) UringProactor \<Rightarrow> bool" where
  "task_queue_full n p \<longleftrightarrow> length (accepted_tasks p) = length (tasks_run p) + n"

lemma dispatch_stop:
  assumes K: "kernel_laws K owed" and C: "calm K owed n s k p" and k: "k < 2 ^ 59"
  shows "\<exists>p'. DispatchBrief K s p = Some (\<not> task_queue_full n p, p') \<and>
    (if task_queue_full n p then calm K owed n s (Suc k) p' \<and> accepted_tasks p' = accepted_tasks p
     else stopping K owed n s (Suc k) (6 * n + 11) p' \<and> accepted_tasks p' = accepted_tasks p @ [s])"
proof -
  obtain hs ts os where I: "p_inv K owed n k hs ts os p" and c: "s \<notin> set (accepted_tasks p)" "\<not> p_stop p" "loop_pc p \<noteq> L_Done" using C by (auto simp: calm_def)
  obtain p' where p': "DispatchBrief K s p = Some (length ts < n, p')" "p_inv K owed n (Suc k) hs (if length ts < n then ts @ [s] else ts) os p'"
      "loop_pc p' = loop_pc p" "p_stop p' = p_stop p" using DispatchBrief_inv [OF K I k] by blast
  have "length (map Some ts) \<le> n" using I by (auto simp: p_inv_def dest: mpmc.holds_cap simp del: length_map)
  then have full: "length ts < n \<longleftrightarrow> \<not> task_queue_full n p" using I by (auto simp: task_queue_full_def p_inv_def)
  have acc: "accepted_tasks p' = (if length ts < n then accepted_tasks p @ [s] else accepted_tasks p)"
    using p'(1) by (auto simp: DispatchBrief_def Wakeup_def Let_def split: bind_splits if_splits)
  show ?thesis
  proof (cases "length ts < n")
    case True
    have r: "p_running p' \<longleftrightarrow> loop_pc p' \<noteq> L_Idle" using p'(2,3) c(3) by (simp add: p_inv_def)
    have "stopping K owed n s (Suc k) (6 * n + 11) p'" unfolding stopping_def
      using p' True acc c r p_inv_rank(2) [OF p'(2)]
      by (intro exI [of _ hs] exI [of _ "ts @ [s]"] exI [of _ os] exI [of _ "accepted_tasks p"]) (cases "loop_pc p = L_Idle"; auto)
    then show ?thesis using p'(1) True full acc by auto
  qed (use p' full acc c in \<open>auto simp: calm_def\<close>)
qed

lemma pool_dispatch_stop:
  assumes K: "kernel_laws K owed" and k: "k < 2 ^ 59"
  shows "list_all (calm K owed n s k) ps \<Longrightarrow> \<exists>ps'. pool_stop K s ps = Some ps' \<and> list_all2 (\<lambda>p p'.
    if task_queue_full n p then calm K owed n s (Suc k) p' \<and> accepted_tasks p' = accepted_tasks p
    else stopping K owed n s (Suc k) (6 * n + 11) p' \<and> accepted_tasks p' = accepted_tasks p @ [s]) ps ps'"
proof (induction ps)
  case (Cons p ps)
  then show ?case using dispatch_stop [OF K _ k, of n s p] unfolding pool_stop_def by fastforce
qed (simp add: pool_stop_def)

subsection \<open>Start and end\<close>

lemma pool_init_calm:
  assumes K: "kernel_laws K owed"
  shows "pool_init K rs = Some ps \<Longrightarrow> \<forall>r \<in> set rs. owed r = {#} \<Longrightarrow> length ps = length rs \<and> list_all (calm K owed (2 ^ 12) s 0) ps"
proof (induction rs arbitrary: ps)
  case (Cons r rs)
  obtain p qs where p: "proactor_init K r 4096 = Some p" "pool_init K rs = Some qs" "ps = p # qs" using Cons.prems(1) by (auto split: bind_splits)
  have "p_inv K owed (2 ^ 12) 0 {#} [] [] p" using proactor_init_inv [OF K, of r 12 p] p(1) Cons.prems(2) by simp
  moreover have "accepted_tasks p = [] \<and> \<not> p_stop p \<and> loop_pc p = L_Idle" using p(1) by (auto simp: proactor_init_def Let_def split: bind_splits)
  ultimately have "calm K owed (2 ^ 12) s 0 p" unfolding calm_def by auto
  then show ?case using Cons.IH [OF p(2)] Cons.prems(2) p(3) by simp
qed simp

definition live_thread :: "Thread option \<Rightarrow> bool" where
  "live_thread t \<longleftrightarrow> (\<exists>u. t = Some u \<and> joinable u)"

lemma AsyncLoop_threads:
  assumes "\<forall>i. \<exists>t > 0. pthread_create i = Some t" "\<forall>i < length (pl_threads pl). pl_threads pl ! i = None" "m \<le> length (pl_threads pl)"
  shows "\<exists>ths. foldM (AsyncLoop_step pthread_create) [0..<m] pl = Some (pl\<lparr>pl_threads := ths\<rparr>) \<and> length ths = length (pl_threads pl) \<and>
    (\<forall>i < length ths. if i < m then live_thread (ths ! i) else ths ! i = None)"
  using assms(3)
proof (induction m)
  case 0
  then show ?case using assms(2) by (intro exI [of _ "pl_threads pl"]) simp
next
  case (Suc m)
  then obtain ths where t: "foldM (AsyncLoop_step pthread_create) [0..<m] pl = Some (pl\<lparr>pl_threads := ths\<rparr>)" "length ths = length (pl_threads pl)"
      "\<forall>i < length ths. if i < m then live_thread (ths ! i) else ths ! i = None" by auto
  obtain c where c: "0 < c" "pthread_create m = Some c" using assms(1) by blast
  have "live_thread (Some (Thread_init\<lparr>tid := c\<rparr>))" using c(1) by (simp add: live_thread_def joinable_def Thread_init_def)
  moreover have "ths ! m = None" using t(2,3) Suc.prems by auto
  moreover have "AsyncLoop_step pthread_create m (pl\<lparr>pl_threads := ths\<rparr>) = Some (pl\<lparr>pl_threads := ths[m := Some (Thread_init\<lparr>tid := c\<rparr>)]\<rparr>)"
    using \<open>ths ! m = None\<close> c(2) by (simp add: AsyncLoop_step_def Thread_start_def)
  ultimately show ?case using t Suc.prems
    by (intro exI [of _ "ths[m := Some (Thread_init\<lparr>tid := c\<rparr>)]"]) (auto simp: foldM_append nth_list_update)
qed

text \<open>The joins return when every loop has ended, and wait for the first that has not.\<close>

definition joined :: "Thread option \<Rightarrow> Thread option" where
  "joined = map_option (\<lambda>t. t\<lparr>th_joined := True\<rparr>)"

lemma pool_joins:
  assumes "list_all live_thread (pl_threads pl)" "m \<le> length (pl_threads pl)"
  shows "foldM pool_join_step [0..<m] (Inr pl) = (if \<forall>i < m. loop_pc (pl_proactors pl ! i) = L_Done
    then Some (Inr (pl\<lparr>pl_threads := map joined (take m (pl_threads pl)) @ drop m (pl_threads pl)\<rparr>)) else None)"
  using assms(2)
proof (induction m)
  case (Suc m)
  have m: "m < length (pl_threads pl)" using Suc.prems by simp
  obtain t where t: "pl_threads pl ! m = Some t" "joinable t" using assms(1) m unfolding list_all_length live_thread_def by metis
  have d: "drop m (pl_threads pl) = Some t # drop (Suc m) (pl_threads pl)" using Cons_nth_drop_Suc [OF m] t(1) by simp
  show ?case
  proof (cases "\<forall>i < m. loop_pc (pl_proactors pl ! i) = L_Done")
    case True
    let ?r = "pl\<lparr>pl_threads := map joined (take m (pl_threads pl)) @ drop m (pl_threads pl)\<rparr>"
    have "pool_join_step m (Inr ?r) = (if loop_pc (pl_proactors pl ! m) = L_Done
        then Some (Inr (pl\<lparr>pl_threads := map joined (take (Suc m) (pl_threads pl)) @ drop (Suc m) (pl_threads pl)\<rparr>)) else None)"
      using t d m by (simp add: pool_join_step_def Thread_join_def nth_append list_update_append take_Suc_conv_app_nth joined_def)
    then show ?thesis using Suc True by (auto simp: foldM_append less_Suc_eq)
  next
    case False
    then show ?thesis using Suc by (auto simp: foldM_append less_Suc_eq)
  qed
qed simp

lemma foldM_unit: "list_all (\<lambda>x. f x () = Some ()) xs \<Longrightarrow> foldM f xs () = Some ()"
  by (induction xs) auto

lemma pool_destroy_joined:
  assumes "list_all (\<lambda>p. \<not> p_running p) ps"
  shows "pool_destroy K \<lparr>pl_proactors = ps, pl_threads = map joined ths\<rparr> = Some ()"
proof -
  have "list_all (\<lambda>t. (case t of None \<Rightarrow> Some () | Some t \<Rightarrow> Thread_destroy t) = Some ()) (map joined ths)"
    by (auto simp: list_all_length joined_def Thread_destroy_def joinable_def split: option.splits)
  moreover have "list_all (\<lambda>p. proactor_destroy K p = Some ()) ps"
    using assms by (auto simp: list_all_iff proactor_destroy_def stop_call_def proactor_stop_def Wakeup_def)
  ultimately show ?thesis using foldM_unit [of "\<lambda>t _. case t of None \<Rightarrow> Some () | Some t \<Rightarrow> Thread_destroy t" "map joined ths"]
      foldM_unit [of "\<lambda>p _. proactor_destroy K p" ps] by (simp add: pool_destroy_def)
qed

text \<open>A pool whose threads run cannot be destroyed, and its loops cannot be started again; its threads cannot be joined twice.\<close>

lemma pool_needs_stop:
  assumes "list_all live_thread (pl_threads pl)" "pl_threads pl \<noteq> []" "length (pl_proactors pl) = length (pl_threads pl)"
  shows "pool_destroy K pl = None \<and> AsyncLoop pthread_create pl = None"
proof -
  obtain u ths where t: "pl_threads pl = Some u # ths" "joinable u" using assms(1,2) by (cases "pl_threads pl") (auto simp: live_thread_def)
  then have "[0..<length (pl_proactors pl)] = 0 # [1..<Suc (length ths)]" using assms(3) by (simp add: upt_conv_Cons del: upt_Suc)
  then show ?thesis using t by (simp add: pool_destroy_def Thread_destroy_def AsyncLoop_def AsyncLoop_step_def split: bind_splits)
qed

lemma pool_join_twice:
  assumes "pl_threads pl = map joined ths" "ths \<noteq> []" "list_all live_thread ths" "length (pl_proactors pl) = length ths"
  shows "pool_join pl = Some (Inl Not_joinable)"
proof -
  obtain u us where t: "ths = Some u # us" using assms(2,3) by (cases ths) (auto simp: live_thread_def)
  then have "[0..<length (pl_proactors pl)] = 0 # [1..<Suc (length us)]" using assms(4) by (simp add: upt_conv_Cons del: upt_Suc)
  moreover have "foldM pool_join_step is (Inl e) = Some (Inl e)" for "is" and e :: thread_error by (induction "is") (simp_all add: pool_join_step_def)
  moreover have "pool_join_step 0 (Inr pl) = Some (Inl Not_joinable)" using t assms(1) by (simp add: pool_join_step_def Thread_join_def joined_def joinable_def)
  ultimately show ?thesis by (simp add: pool_join_def del: upt_Suc)
qed

text \<open>From the call of \<open>stop\<close> to the joins.\<close>

lemma pool_stop_run:
  assumes K: "kernel_laws K owed" and c: "list_all (calm K owed n s k) ps" and s: "set sched \<subseteq> {..<length ps}" "k + length sched < 2 ^ 59"
  shows "\<exists>ps3 ps4. pool_stop K s ps = Some ps3 \<and> foldM (pool_step K s) (map (\<lambda>i. (i, Loop)) sched) ps3 = Some ps4 \<and> length ps4 = length ps \<and>
    (\<forall>i < length ps. if task_queue_full n (ps ! i) then loop_pc (ps4 ! i) \<noteq> L_Done else 6 * n + 11 \<le> count_list sched i \<longrightarrow>
      loop_pc (ps4 ! i) = L_Done \<and> \<not> p_running (ps4 ! i) \<and> tasks_run (ps4 ! i) = accepted_tasks (ps ! i) @ [s])"
proof -
  obtain ps3 where ps3: "pool_stop K s ps = Some ps3" and d: "list_all2 (\<lambda>p p'.
    if task_queue_full n p then calm K owed n s (Suc k) p' \<and> accepted_tasks p' = accepted_tasks p
    else stopping K owed n s (Suc k) (6 * n + 11) p' \<and> accepted_tasks p' = accepted_tasks p @ [s]) ps ps3"
    using pool_dispatch_stop [OF K _ c] s(2) by auto
  have len: "length ps3 = length ps" using list_all2_lengthD [OF d] by simp
  have d': "if task_queue_full n (ps ! i) then calm K owed n s (Suc k) (ps3 ! i)
      else stopping K owed n s (Suc k) (6 * n + 11) (ps3 ! i) \<and> accepted_tasks (ps3 ! i) = accepted_tasks (ps ! i) @ [s]"
    if h: "i < length ps" for i using list_all2_nthD [OF d h] by (simp split: if_splits)
  then have "calm K owed n s (Suc k) (ps3 ! i) \<or> stopping K owed n s (Suc k) (6 * n + 11) (ps3 ! i)" if h: "i < length ps3" for i
    using h len by (cases "task_queue_full n (ps ! i)") fastforce+
  then obtain ps4 where ps4: "foldM (pool_step K s) (map (\<lambda>j. (j, Loop)) sched) ps3 = Some ps4" "length ps4 = length ps3"
      "\<forall>i < length ps3. accepted_tasks (ps4 ! i) = accepted_tasks (ps3 ! i) \<and> (calm K owed n s (Suc k + length sched) (ps4 ! i) \<or>
        stopping K owed n s (Suc k + length sched) (6 * n + 11 - count_list sched i) (ps4 ! i))"
    using pool_loops_run [OF K, of ps3 n s "Suc k" "\<lambda>_. 6 * n + 11" sched] len s by auto
  have "if task_queue_full n (ps ! i) then loop_pc (ps4 ! i) \<noteq> L_Done else 6 * n + 11 \<le> count_list sched i \<longrightarrow>
      loop_pc (ps4 ! i) = L_Done \<and> \<not> p_running (ps4 ! i) \<and> tasks_run (ps4 ! i) = accepted_tasks (ps ! i) @ [s]" if h: "i < length ps" for i
  proof (cases "task_queue_full n (ps ! i)")
    case True
    then have "calm K owed n s (Suc k) (ps3 ! i)" using d' [OF h] by simp
    from pool_loops_calm [OF K _ this ps4(1)] h len s(2) True show ?thesis by (simp add: calm_def)
  next
    case False
    then have a: "accepted_tasks (ps4 ! i) = accepted_tasks (ps ! i) @ [s]" using d' [OF h] ps4(3) h len by simp
    then have "stopping K owed n s (Suc k + length sched) (6 * n + 11 - count_list sched i) (ps4 ! i)" using ps4(3) h len by (auto simp: calm_def)
    then show ?thesis using False a stopping_ends [of K owed n s "Suc k + length sched" "ps4 ! i"] by auto
  qed
  then show ?thesis using ps3 ps4(1,2) len by - (rule exI [of _ ps3], rule exI [of _ ps4], simp)
qed


lemma count_list_replicate: "count_list (replicate n x) y = (if x = y then n else 0)"
  by (induction n) auto


end
