(* ===== verification/Shard_Life.thy ===== *)
theory Shard_Life
  imports Shard_Set Pool_Life
begin

text \<open>
  The start and the end of the shards: the wrapper of the task queue that owns the worker thread (\<open>src/detail/task_queue.hpp\<close>),
  \<open>EngineShard::DestroyThreadLocal\<close> (\<open>engine_shard.cpp\<close>) and \<open>EngineShardSet::Shutdown\<close> (\<open>engine_shard_set.cpp\<close>). The heaps and the
  memory of the objects are not modelled.
\<close>

text \<open>The shard with its worker.\<close>

record 'f shard_thread =
  st_shard :: "'f EngineShard"
  st_worker :: Thread

text \<open>\<open>Start\<close>: the new thread is assigned to the empty handle, and the temporary is destroyed.\<close>

definition TaskQueue_Start :: "nat option \<Rightarrow> Thread \<Rightarrow> Thread option" where
  "TaskQueue_Start pthread_create worker = do {
     t \<leftarrow> Thread_start pthread_create;
     (worker, t) \<leftarrow> Thread_assign worker t;
     Thread_destroy t;
     Some worker }"

definition shard_thread_new :: "nat option \<Rightarrow> nat \<Rightarrow> 'f shard_thread option" where
  "shard_thread_new pthread_create i = do {
     es \<leftarrow> EngineShard_new i;
     w \<leftarrow> TaskQueue_Start pthread_create Thread_init;
     Some \<lparr>st_shard = es, st_worker = w\<rparr> }"

text \<open>\<open>Shutdown\<close> of the wrapper: it closes the queue and joins the worker, which makes \<open>passes\<close> more passes meanwhile. \<open>None\<close> is a join
  that waits.\<close>

definition TaskQueue_Shutdown :: "(nat \<Rightarrow> EventCount \<Rightarrow> EventCount option) \<Rightarrow> nat \<Rightarrow> 'f shard_thread \<Rightarrow> (thread_error + 'f shard_thread) option" where
  "TaskQueue_Shutdown cont passes w = do {
     let es = shard_Shutdown (st_shard w);
     q \<leftarrow> foldM (\<lambda>_. Run_pass cont) [0..<passes] (es_queue es);
     r \<leftarrow> Thread_join (tq_ended q) (st_worker w);
     Some (map_sum id (\<lambda>t. w\<lparr>st_shard := es\<lparr>es_queue := q\<rparr>, st_worker := t\<rparr>) r) }"

text \<open>\<open>DestroyThreadLocal\<close> on the loop \<open>i\<close>; an exception of \<open>join\<close> leaves the callback and ends the program. The shards as they were
  destroyed are kept to be observed.\<close>

definition DestroyThreadLocal :: "(nat \<Rightarrow> EventCount \<Rightarrow> EventCount option) \<Rightarrow> nat \<Rightarrow> nat \<Rightarrow>
    'f shard_thread option list \<times> (nat \<times> 'f shard_thread) list \<Rightarrow> ('f shard_thread option list \<times> (nat \<times> 'f shard_thread) list) option" where
  "DestroyThreadLocal cont passes i st = (case fst st ! i of None \<Rightarrow> Some st
   | Some w \<Rightarrow> do {
       r \<leftarrow> TaskQueue_Shutdown cont passes w;
       case r of Inl e \<Rightarrow> None
       | Inr w \<Rightarrow> do { Thread_destroy (st_worker w); Some ((fst st)[i := None], snd st @ [(i, w)]) } })"

text \<open>\<open>RunBlockingInParallel\<close> runs the callback once on every loop; \<open>order\<close> is the order in which the loops get to it.\<close>

definition shard_set_Shutdown :: "(nat \<Rightarrow> EventCount \<Rightarrow> EventCount option) \<Rightarrow> nat \<Rightarrow> nat list \<Rightarrow> 'f shard_thread option list \<Rightarrow>
    ('f shard_thread option list \<times> (nat \<times> 'f shard_thread) list) option" where
  "shard_set_Shutdown cont passes order shards = foldM (DestroyThreadLocal cont passes) order (shards, [])"

text \<open>A shard with the waiting jobs \<open>xs\<close>, whose worker runs.\<close>

definition shard_live :: "nat \<Rightarrow> 'f list \<Rightarrow> 'f shard_thread \<Rightarrow> bool" where
  "shard_live k xs w \<longleftrightarrow> tq_inv 64 k [] xs (es_queue (st_shard w)) \<and> joinable (st_worker w)"

lemma shard_thread_new_live:
  assumes "0 < t"
  shows "\<exists>w :: 'f shard_thread. shard_thread_new (Some t) i = Some w \<and> shard_live 0 [] w"
proof -
  obtain q :: "'f TaskQueue" where q: "TaskQueue_init kQueueLen = Some q" by (simp add: TaskQueue_init_def mpmc_init_def kQueueLen_def)
  then have "TaskQueue_init (2 ^ 6) = Some q" by (simp add: kQueueLen_def)
  then have "tq_inv 64 0 [] [] q" using tq_init_inv by fastforce
  then show ?thesis using q assms
    by (simp add: shard_thread_new_def EngineShard_new_def TaskQueue_Start_def Thread_start_def Thread_assign_def Thread_move_def Thread_destroy_def
        Thread_init_def joinable_def shard_live_def)
qed

lemma ended_passes: "tq_ended q \<Longrightarrow> foldM (\<lambda>_. Run_pass cont) is q = Some q"
  by (induction "is") (simp_all add: Run_pass_def)

text \<open>The first pass after the shutdown ends the worker, whatever is in the queue.\<close>

lemma TaskQueue_Shutdown_live:
  assumes "shard_live k xs w" "0 < passes"
  shows "\<exists>w'. TaskQueue_Shutdown cont passes w = Some (Inr w') \<and> Thread_destroy (st_worker w') = Some () \<and>
    tq_ran (es_queue (st_shard w')) = tq_ran (es_queue (st_shard w)) \<and> tq_added (es_queue (st_shard w')) = tq_ran (es_queue (st_shard w')) @ xs"
proof -
  let ?q = "es_queue (st_shard w)"
  have I: "tq_inv 64 k [] xs ?q" and j: "joinable (st_worker w)" using assms(1) by (auto simp: shard_live_def)
  let ?e = "(Shutdown ?q)\<lparr>pull_ec := te_notifyAll (pull_ec ?q) - 1, tq_ended := True\<rparr>"
  have "Run_pass cont (Shutdown ?q) = Some ?e" using I by (simp add: Run_pass_def Shutdown_def tq_inv_def te_wait_def te_notifyAll_def)
  then have "foldM (\<lambda>_. Run_pass cont) [0..<passes] (Shutdown ?q) = Some ?e" using assms(2) ended_passes [of ?e cont] by (simp add: upt_conv_Cons del: upt_Suc)
  then show ?thesis using I j by (auto simp: TaskQueue_Shutdown_def shard_Shutdown_def Thread_join_def Thread_destroy_def joinable_def Shutdown_def tq_inv_def)
qed

lemma shutdown_shards:
  assumes "0 < passes"
  shows "distinct order \<Longrightarrow> (\<And>i. i \<in> set order \<Longrightarrow> i < length ws \<and> (\<exists>w. ws ! i = Some w \<and> shard_live k (xs i) w)) \<Longrightarrow>
    \<exists>gone. foldM (DestroyThreadLocal cont passes) order (ws, g) = Some (foldl (\<lambda>ws i. ws[i := None]) ws order, g @ gone) \<and> map fst gone = order \<and>
      (\<forall>(i, w') \<in> set gone. \<exists>w. ws ! i = Some w \<and> tq_ran (es_queue (st_shard w')) = tq_ran (es_queue (st_shard w)) \<and>
        tq_added (es_queue (st_shard w')) = tq_ran (es_queue (st_shard w')) @ xs i)"
proof (induction order arbitrary: ws g)
  case (Cons i order)
  obtain w where w: "i < length ws" "ws ! i = Some w" "shard_live k (xs i) w" using Cons.prems(2) [of i] by auto
  obtain w' where w': "TaskQueue_Shutdown cont passes w = Some (Inr w')" "Thread_destroy (st_worker w') = Some ()"
      "tq_ran (es_queue (st_shard w')) = tq_ran (es_queue (st_shard w))" "tq_added (es_queue (st_shard w')) = tq_ran (es_queue (st_shard w')) @ xs i"
    using TaskQueue_Shutdown_live [OF w(3) assms] by blast
  have rest: "j < length (ws[i := None]) \<and> (\<exists>w. ws[i := None] ! j = Some w \<and> shard_live k (xs j) w)" if h: "j \<in> set order" for j
  proof -
    have "i \<noteq> j" using Cons.prems(1) h by auto
    then show ?thesis using Cons.prems(2) [of j] h by simp
  qed
  obtain gone where g: "foldM (DestroyThreadLocal cont passes) order (ws[i := None], g @ [(i, w')]) =
        Some (foldl (\<lambda>ws i. ws[i := None]) (ws[i := None]) order, (g @ [(i, w')]) @ gone)" "map fst gone = order"
      "\<forall>(j, v) \<in> set gone. \<exists>w. ws[i := None] ! j = Some w \<and> tq_ran (es_queue (st_shard v)) = tq_ran (es_queue (st_shard w)) \<and>
        tq_added (es_queue (st_shard v)) = tq_ran (es_queue (st_shard v)) @ xs j"
    using Cons.IH [OF _ rest, of "g @ [(i, w')]"] Cons.prems(1) by auto
  have "DestroyThreadLocal cont passes i (ws, g) = Some (ws[i := None], g @ [(i, w')])" using w(2) w'(1,2) by (simp add: DestroyThreadLocal_def)
  moreover have "ws ! j = Some v" if "ws[i := None] ! j = Some v" for j v using that w(1) by (cases "j = i") auto
  ultimately show ?case using g w(2) w'(3,4) by (intro exI [of _ "(i, w') # gone"]) fastforce
qed simp

lemma all_removed: "set order = {..<length ws} \<Longrightarrow> foldl (\<lambda>ws i. ws[i := None]) ws order = replicate (length ws) None"
proof -
  have l: "length (foldl (\<lambda>ws i. ws[i := None]) ws is) = length ws" for "is" and ws :: "'a option list" by (induction "is" arbitrary: ws) auto
  have n: "j < length ws \<Longrightarrow> foldl (\<lambda>ws i. ws[i := None]) ws is ! j = (if j \<in> set is then None else ws ! j)" for "is" j and ws :: "'a option list"
    by (induction "is" arbitrary: ws) (auto simp: nth_list_update)
  assume "set order = {..<length ws}"
  then show ?thesis using l [of ws order] n [of _ ws order] by (auto intro: nth_equalityI)
qed



end
