(* ===== verification/Socket.thy ===== *)
theory Socket
  imports Proactor
begin

text \<open>
  \<open>UringSocket\<close> of \<open>net/base/socket.hpp\<close> and \<open>socket.cpp\<close>: the awaitable operations, which submit to the proactor of the socket, and the
  life of its descriptor. Buffers and awaitable objects are addresses; \<open>close\<close> of the operating system is recorded.
\<close>

record UringSocket =
  sk_fd :: int

definition UringSocket_init :: "int \<Rightarrow> UringSocket" where
  "UringSocket_init fd = \<lparr>sk_fd = fd\<rparr>"

subsection \<open>The awaitable operations\<close>

text \<open>The object that \<open>co_await\<close> works on; \<open>aw_result\<close> is \<open>fd_\<close> of an accept and \<open>result_\<close> of a read or a write.\<close>

datatype awaitable = AcceptAwaitable | ReadAwaitable nat nat int | WriteAwaitable nat nat int

definition AsyncAccept :: "awaitable \<times> int" where
  "AsyncAccept = (AcceptAwaitable, -1)"

definition AsyncRead :: "nat \<Rightarrow> nat \<Rightarrow> int \<Rightarrow> awaitable \<times> int" where
  "AsyncRead buf len off = (ReadAwaitable buf len off, 0)"

definition AsyncWrite :: "nat \<Rightarrow> nat \<Rightarrow> int \<Rightarrow> awaitable \<times> int" where
  "AsyncWrite buf len off = (WriteAwaitable buf len off, 0)"

text \<open>\<open>await_ready\<close> is false, so \<open>await_suspend\<close> always follows; the object is at the address \<open>a\<close>.\<close>

fun sk_await_suspend :: "('h, 'r) kernel \<Rightarrow> UringSocket \<Rightarrow> awaitable \<Rightarrow> nat \<Rightarrow> 'h \<Rightarrow> ('t, 'h, 'r) UringProactor \<Rightarrow> ('t, 'h, 'r) UringProactor option" where
  "sk_await_suspend K s AcceptAwaitable a h p = SubmitAccept K (sk_fd s) h (Some a) p"
| "sk_await_suspend K s (ReadAwaitable buf len off) a h p = SubmitRead K (sk_fd s) buf len off h (Some a) p"
| "sk_await_suspend K s (WriteAwaitable buf len off) a h p = SubmitWrite K (sk_fd s) buf len off h (Some a) p"

text \<open>\<open>co_await\<close>: the awaitable object is made with its first result, and the coroutine suspends.\<close>

definition co_await :: "('h, 'r) kernel \<Rightarrow> UringSocket \<Rightarrow> awaitable \<times> int \<Rightarrow> nat \<Rightarrow> 'h \<Rightarrow> ('t, 'h, 'r) UringProactor \<Rightarrow> ('t, 'h, 'r) UringProactor option" where
  "co_await K s aw a h p = sk_await_suspend K s (fst aw) a h (p\<lparr>awaitables := (awaitables p)(a \<mapsto> snd aw)\<rparr>)"

fun awaited_op :: "UringSocket \<Rightarrow> awaitable \<Rightarrow> nat \<Rightarrow> 'h \<Rightarrow> 'h PendingOp" where
  "awaited_op s AcceptAwaitable a h = \<lparr>op_fd = sk_fd s, op_type = 0, op_buf = None, op_len = None, op_offset = None, op_handle = Some h, op_awaitable = Some a\<rparr>"
| "awaited_op s (ReadAwaitable buf len off) a h = \<lparr>op_fd = sk_fd s, op_type = 1, op_buf = Some buf, op_len = Some len, op_offset = Some off, op_handle = Some h, op_awaitable = Some a\<rparr>"
| "awaited_op s (WriteAwaitable buf len off) a h = \<lparr>op_fd = sk_fd s, op_type = 2, op_buf = Some buf, op_len = Some len, op_offset = Some off, op_handle = Some h, op_awaitable = Some a\<rparr>"

lemma sk_await_suspend_submits: "sk_await_suspend K s aw a h p = submit_op K (awaited_op s aw a h) h p"
  by (cases aw) (simp_all add: SubmitAccept_def SubmitRead_def SubmitWrite_def)

text \<open>The completion of an awaited operation resumes its coroutine with the result of the kernel.\<close>

lemma completion_resumes:
  "HandleCqe K \<lparr>cqe_data = Op_Data (awaited_op s aw a h), cqe_res = v\<rparr> p = Some p' \<Longrightarrow> resumed p' = resumed p @ [(h, Some v)]"
  by (cases aw) (auto simp: HandleCqe_def Let_def resume_def set_result_def)

text \<open>(C32) An awaited accept, read or write of a socket either goes to the queue of the proactor, with the descriptor of the socket, or, exactly when
  that queue is full, resumes the coroutine at once with the error EBUSY; the completion of the operation resumes the coroutine with the
  result that the kernel gave.\<close>

theorem co_await_correct:
  assumes "kernel_laws K owed" "owed r = {#}" "proactor_init K r (2 ^ b) = Some p0" "1 \<le> b" "b \<le> 62" "length evs < 2 ^ 59" "foldM (proactor_step K) evs p0 = Some p"
  shows "\<exists>p' os. mpmc_holds (2 ^ b) (length evs) (pending_ops p) os \<and> co_await K s aw a h p = Some p' \<and>
    (if length os < 2 ^ b then accepted_ops p' = accepted_ops p @ [awaited_op s (fst aw) a h] \<and> resumed p' = resumed p
     else accepted_ops p' = accepted_ops p \<and> resumed p' = resumed p @ [(h, Some (- EBUSY))]) \<and>
    (\<forall>q q' v. HandleCqe K \<lparr>cqe_data = Op_Data (awaited_op s (fst aw) a h), cqe_res = v\<rparr> q = Some q' \<longrightarrow> resumed q' = resumed q @ [(h, Some v)])"
proof -
  obtain ts os where I: "p_inv K owed (2 ^ b) (length evs) (sum_list (map suspends evs)) ts os p"
    using proactor_run_inv [OF assms(1) proactor_init_inv [OF assms(1-5)], of evs] assms(6,7) by auto
  then have q: "mpmc_holds (2 ^ b) (length evs) (pending_ops p) os" by (simp add: p_inv_def)
  obtain q' where q': "try_enqueue (pending_ops p) (awaited_op s (fst aw) a h) = Some (length os < 2 ^ b, q')"
    using mpmc.enq [OF q assms(6), of "awaited_op s (fst aw) a h"] by auto
  have aw: "op_awaitable (awaited_op s (fst aw) a h) = Some a" by (cases "fst aw") simp_all
  let ?p = "the (co_await K s aw a h p)"
  have "co_await K s aw a h p = Some ?p" "if length os < 2 ^ b then accepted_ops ?p = accepted_ops p @ [awaited_op s (fst aw) a h] \<and> resumed ?p = resumed p
     else accepted_ops ?p = accepted_ops p \<and> resumed ?p = resumed p @ [(h, Some (- EBUSY))]"
    using q' aw by (simp_all add: co_await_def sk_await_suspend_submits submit_op_def Let_def Wakeup_def resume_def set_result_def)
  then show ?thesis using q completion_resumes [of K s "fst aw" a h] by (intro exI [of _ ?p] exI [of _ os]) blast
qed

theorem co_await_correct_witness:
  "\<exists>p0 p p' os. proactor_init (list_kernel :: (nat, _) kernel) ([], 256) (2 ^ 1) = Some (p0 :: (string, nat, _) UringProactor) \<and>
     foldM (proactor_step list_kernel) [Begin, Loop] p0 = Some p \<and> mpmc_holds (2 ^ 1) 2 (pending_ops p) os \<and> co_await list_kernel (UringSocket_init 7) (AsyncRead 100 10 (-1)) 1 2 p = Some p' \<and>
     (if length os < 2 ^ 1 then resumed p' = resumed p else resumed p' = resumed p @ [(2, Some (- EBUSY))])"
proof -
  obtain p0 :: "(string, nat, _) UringProactor" where p0: "proactor_init list_kernel ([], 256) (2 ^ 1) = Some p0" using list_kernel_init by blast
  obtain p where p: "foldM (proactor_step list_kernel) [Begin, Loop] p0 = Some p"
    using proactor_run_inv [OF list_kernel_laws proactor_init_inv [OF list_kernel_laws _ p0], of "[Begin, Loop]"] by auto
  let ?aw = "AsyncRead 100 10 (-1)" and ?s = "UringSocket_init 7"
  obtain p' os where "mpmc_holds (2 ^ 1) (length [Begin, Loop :: (string, nat) event]) (pending_ops p) os" "co_await list_kernel ?s ?aw 1 2 p = Some p'"
      "if length os < 2 ^ 1 then accepted_ops p' = accepted_ops p @ [awaited_op ?s (fst ?aw) 1 2] \<and> resumed p' = resumed p
       else accepted_ops p' = accepted_ops p \<and> resumed p' = resumed p @ [(2, Some (- EBUSY))]"
    using co_await_correct [OF list_kernel_laws _ p0 _ _ _ p, of ?s ?aw 1 2] by auto
  then show ?thesis using p0 p by - (rule exI [of _ p0], rule exI [of _ p], rule exI [of _ p'], rule exI [of _ os], cases "length os < 2"; simp add: numeral_2_eq_2)
qed

subsection \<open>Descriptors\<close>

text \<open>The socket objects that are alive, and the descriptors that \<open>close\<close> was called on.\<close>

type_synonym sockets = "UringSocket option list \<times> int list"

definition socket_Close :: "nat \<Rightarrow> sockets \<Rightarrow> sockets option" where
  "socket_Close i st = do { s \<leftarrow> fst st ! i; Some ((fst st)[i := Some (s\<lparr>sk_fd := -1\<rparr>)], snd st @ [sk_fd s]) }"

definition socket_destroy :: "nat \<Rightarrow> sockets \<Rightarrow> sockets option" where
  "socket_destroy i st = do { s \<leftarrow> fst st ! i; Some ((fst st)[i := None], if sk_fd s \<noteq> -1 then snd st @ [sk_fd s] else snd st) }"

datatype socket_op = Socket_new nat int | Socket_close nat | Socket_destroy nat

fun socket_step :: "socket_op \<Rightarrow> sockets \<Rightarrow> sockets option" where
  "socket_step (Socket_new i fd) st = do { assert_opt (i < length (fst st) \<and> fst st ! i = None); Some ((fst st)[i := Some (UringSocket_init fd)], snd st) }"
| "socket_step (Socket_close i) st = do { assert_opt (i < length (fst st)); socket_Close i st }"
| "socket_step (Socket_destroy i) st = do { assert_opt (i < length (fst st)); socket_destroy i st }"

fun new_fds :: "socket_op list \<Rightarrow> int list" where
  "new_fds [] = []"
| "new_fds (Socket_new i fd # ops) = fd # new_fds ops"
| "new_fds (_ # ops) = new_fds ops"

definition real_fd :: "UringSocket option \<Rightarrow> int multiset" where
  "real_fd s = (case s of None \<Rightarrow> {#} | Some s \<Rightarrow> if sk_fd s = -1 then {#} else {#sk_fd s#})"

text \<open>The descriptors that sockets hold or that were closed.\<close>

definition fds :: "sockets \<Rightarrow> int multiset" where
  "fds st = sum_list (map real_fd (fst st)) + filter_mset (\<lambda>fd. fd \<noteq> -1) (mset (snd st))"

lemma held_fds_upd: "i < length ss \<Longrightarrow> sum_list (map real_fd (ss[i := x])) + real_fd (ss ! i) = sum_list (map real_fd ss) + real_fd x"
proof (induction ss arbitrary: i)
  case (Cons s ss)
  then show ?case by (cases i) (auto simp: ac_simps)
qed simp

lemma socket_step_fds:
  assumes "socket_step op st = Some st'"
  shows "fds st' = fds st + filter_mset (\<lambda>fd. fd \<noteq> -1) (mset (new_fds [op]))"
proof (cases op)
  case (Socket_new i fd)
  then show ?thesis using assms held_fds_upd [of i "fst st" "Some (UringSocket_init fd)"]
    by (auto simp: fds_def real_fd_def UringSocket_init_def split: bind_splits if_splits)
next
  case (Socket_close i)
  then obtain s where s: "i < length (fst st)" "fst st ! i = Some s" using assms by (auto simp: socket_Close_def split: bind_splits if_splits)
  then show ?thesis using assms Socket_close held_fds_upd [of i "fst st" "Some (s\<lparr>sk_fd := -1\<rparr>)"]
    by (auto simp: fds_def real_fd_def socket_Close_def split: if_splits)
next
  case (Socket_destroy i)
  then obtain s where s: "i < length (fst st)" "fst st ! i = Some s" using assms by (auto simp: socket_destroy_def split: bind_splits if_splits)
  then show ?thesis using assms Socket_destroy held_fds_upd [of i "fst st" None]
    by (auto simp: fds_def real_fd_def socket_destroy_def split: if_splits)
qed

lemma sockets_fds: "foldM socket_step ops st = Some st' \<Longrightarrow> fds st' = fds st + filter_mset (\<lambda>fd. fd \<noteq> -1) (mset (new_fds ops))"
proof (induction ops arbitrary: st)
  case (Cons op ops)
  then obtain st1 where 1: "socket_step op st = Some st1" "foldM socket_step ops st1 = Some st'" by (auto split: bind_splits)
  have "mset (new_fds (op # ops)) = mset (new_fds [op]) + mset (new_fds ops)" by (cases op) simp_all
  then show ?case using socket_step_fds [OF 1(1)] Cons.IH [OF 1(2)] by simp
qed simp

text \<open>No descriptor leaks and none is closed twice: once all sockets are destroyed, whether \<open>Close\<close> was called on them or not, the valid
  descriptors passed to \<open>close\<close> are exactly those the sockets were made with.\<close>

theorem sockets_close_once:
  assumes "foldM socket_step ops (replicate n None, []) = Some (replicate n None, closed)" "distinct (new_fds ops)"
  shows "distinct (filter (\<lambda>fd. fd \<noteq> -1) closed) \<and> set (filter (\<lambda>fd. fd \<noteq> -1) closed) = set (filter (\<lambda>fd. fd \<noteq> -1) (new_fds ops))"
proof -
  have "sum_list (map real_fd (replicate n None)) = {#}" by (induction n) (simp_all add: real_fd_def)
  then have "mset (filter (\<lambda>fd. fd \<noteq> -1) closed) = mset (filter (\<lambda>fd. fd \<noteq> -1) (new_fds ops))" using sockets_fds [OF assms(1)] by (simp add: fds_def)
  then show ?thesis using assms(2) by (metis distinct_filter mset_eq_imp_distinct_iff mset_eq_setD)
qed

theorem sockets_close_once_witness:
  "foldM socket_step [Socket_new 0 7, Socket_new 1 8, Socket_close 0, Socket_close 0, Socket_destroy 0, Socket_destroy 1] (replicate 2 None, []) = Some (replicate 2 None, [7, -1, 8]) \<and>
   distinct (filter (\<lambda>fd. fd \<noteq> -1) [7, -1, 8 :: int]) \<and> set (filter (\<lambda>fd. fd \<noteq> -1) [7, -1, 8 :: int]) = {7, 8}"
proof -
  have r: "foldM socket_step [Socket_new 0 7, Socket_new 1 8, Socket_close 0, Socket_close 0, Socket_destroy 0, Socket_destroy 1] (replicate 2 None, []) = Some (replicate 2 None, [7, -1, 8])"
    by (simp add: socket_Close_def socket_destroy_def UringSocket_init_def numeral_2_eq_2)
  show ?thesis using r sockets_close_once [OF r] by auto
qed

end
