(* ===== verification/Mi_Memory.thy ===== *)
theory Mi_Memory
  imports Prelude
begin

text \<open>
  \<open>MiMemoryResource\<close> of \<open>src/detail/mi_memory_resource.hpp\<close> and \<open>.cpp\<close>: the memory resource of a shard, which counts the bytes it gave out.
  The heap of mimalloc is the map of its live blocks to their usable sizes; \<open>malloc\<close> is what \<open>mi_heap_malloc_aligned\<close> answers.
\<close>

record MiMemoryResource =
  mi_heap :: "nat \<rightharpoonup> u64"
  mi_used :: u64

definition MiMemoryResource_init :: "(nat \<rightharpoonup> u64) \<Rightarrow> MiMemoryResource" where
  "MiMemoryResource_init heap = \<lparr>mi_heap = heap, mi_used = 0\<rparr>"

datatype alloc_error = Bad_alloc

text \<open>\<open>do_allocate\<close>: \<open>malloc\<close> gives the address and the usable size of the new block.\<close>

definition do_allocate :: "(nat \<Rightarrow> nat \<Rightarrow> (nat \<rightharpoonup> u64) \<Rightarrow> (nat \<times> u64) option) \<Rightarrow> nat \<Rightarrow> nat \<Rightarrow> MiMemoryResource \<Rightarrow> alloc_error + nat \<times> MiMemoryResource" where
  "do_allocate malloc sz align r = (case malloc sz align (mi_heap r) of
     None \<Rightarrow> Inl Bad_alloc
   | Some (res, delta) \<Rightarrow> Inr (res, r\<lparr>mi_heap := (mi_heap r)(res \<mapsto> delta), mi_used := mi_used r + delta\<rparr>))"

text \<open>\<open>do_deallocate\<close>; a pointer that is not a live block has no result.\<close>

definition do_deallocate :: "nat \<Rightarrow> MiMemoryResource \<Rightarrow> MiMemoryResource option" where
  "do_deallocate ptr r = do {
     usable \<leftarrow> mi_heap r ptr;
     Some (r\<lparr>mi_used := mi_used r - usable, mi_heap := (mi_heap r)(ptr := None)\<rparr>) }"

datatype mi_op = Mi_alloc nat nat | Mi_free nat

fun mi_step :: "(nat \<Rightarrow> nat \<Rightarrow> (nat \<rightharpoonup> u64) \<Rightarrow> (nat \<times> u64) option) \<Rightarrow> mi_op \<Rightarrow> MiMemoryResource \<Rightarrow> MiMemoryResource option" where
  "mi_step malloc (Mi_alloc sz align) r = (case do_allocate malloc sz align r of Inl _ \<Rightarrow> Some r | Inr (_, r) \<Rightarrow> Some r)"
| "mi_step malloc (Mi_free ptr) r = do_deallocate ptr r"

text \<open>What the resource relies on: a new block is not a live one.\<close>

definition malloc_fresh :: "(nat \<Rightarrow> nat \<Rightarrow> (nat \<rightharpoonup> u64) \<Rightarrow> (nat \<times> u64) option) \<Rightarrow> bool" where
  "malloc_fresh malloc \<longleftrightarrow> (\<forall>sz align heap p d. malloc sz align heap = Some (p, d) \<longrightarrow> heap p = None)"

definition live_bytes :: "(nat \<rightharpoonup> u64) \<Rightarrow> u64" where
  "live_bytes heap = (\<Sum>p \<in> dom heap. the (heap p))"

lemma live_bytes_add: "finite (dom h) \<Longrightarrow> h p = None \<Longrightarrow> live_bytes (h(p \<mapsto> d)) = live_bytes h + d"
proof -
  assume h: "finite (dom h)" "h p = None"
  then have "(\<Sum>x \<in> dom h. the ((h(p \<mapsto> d)) x)) = (\<Sum>x \<in> dom h. the (h x))" by (intro sum.cong) auto
  then show ?thesis using h by (simp add: live_bytes_def domIff)
qed

lemma live_bytes_remove: "finite (dom h) \<Longrightarrow> h p = Some d \<Longrightarrow> live_bytes (h(p := None)) = live_bytes h - d"
  using live_bytes_add [of "h(p := None)" p d] by (simp add: fun_upd_idem)

lemma mi_step_used:
  assumes "malloc_fresh malloc" "mi_step malloc op r = Some r'" "mi_used r = live_bytes (mi_heap r)" "finite (dom (mi_heap r))"
  shows "mi_used r' = live_bytes (mi_heap r') \<and> finite (dom (mi_heap r'))"
proof (cases op)
  case (Mi_alloc sz align)
  show ?thesis
  proof (cases "malloc sz align (mi_heap r)")
    case (Some b)
    then have "mi_heap r (fst b) = None" using assms(1) unfolding malloc_fresh_def by (metis prod.collapse)
    then show ?thesis using assms(2-4) Mi_alloc Some live_bytes_add [of "mi_heap r" "fst b" "snd b"] by (auto simp: do_allocate_def split: prod.splits)
  qed (use assms(2-4) Mi_alloc in \<open>simp add: do_allocate_def\<close>)
next
  case (Mi_free ptr)
  then show ?thesis using assms(2-4) live_bytes_remove [of "mi_heap r" ptr] by (auto simp: do_deallocate_def split: bind_splits)
qed

text \<open>The counter is the number of bytes in live blocks after any allocations, failed ones included, and deallocations, and is zero when
  everything was returned.\<close>

lemma mi_used_correct:
  assumes "malloc_fresh malloc"
  shows "foldM (mi_step malloc) ops r = Some r' \<Longrightarrow> mi_used r = live_bytes (mi_heap r) \<Longrightarrow> finite (dom (mi_heap r)) \<Longrightarrow>
    mi_used r' = live_bytes (mi_heap r') \<and> (mi_heap r' = Map.empty \<longrightarrow> mi_used r' = 0)"
proof (induction ops arbitrary: r)
  case (Cons op ops)
  then obtain r1 where r1: "mi_step malloc op r = Some r1" "foldM (mi_step malloc) ops r1 = Some r'" by (auto split: bind_splits)
  then show ?case using mi_step_used [OF assms r1(1) Cons.prems(2,3)] Cons.IH [OF r1(2)] by blast
qed (simp add: live_bytes_def)

end
