(* ===== verification/Spsc_Queue.thy ===== *)
theory Spsc_Queue
  imports Bounded_Queue
begin

text \<open>
  The queue for one producer and one consumer (\<open>util/lock_free_queues/ProducerConsumerQueue.h\<close>): the
  operations run alone, and the same operations cut at their accesses to the shared indices and slots, under any
  schedule of the two threads. The accesses are sequentially consistent. A slot is \<open>None\<close> where no object
  lives; constructing over a live object and reading or destroying a dead one is \<open>None\<close>. The indices are
  numbers below the size, an \<open>uint32_t\<close>.
\<close>

subsection \<open>Operations\<close>

record 'a ProducerConsumerQueue =
  pc_size :: nat
  records :: "'a option list"
  readIndex :: nat
  writeIndex :: nat

definition ProducerConsumerQueue_init :: "nat \<Rightarrow> 'a ProducerConsumerQueue option" where
  "ProducerConsumerQueue_init sz = do {
     assert_opt (sz \<ge> 2);
     Some \<lparr>pc_size = sz, records = replicate sz None, readIndex = 0, writeIndex = 0\<rparr> }"

definition nextRecord :: "'a ProducerConsumerQueue \<Rightarrow> nat \<Rightarrow> nat" where
  "nextRecord q i = (let n = i + 1 in if n = pc_size q then 0 else n)"

text \<open>\<open>allocator_traits::construct\<close>, the move out of a slot with \<open>destroy\<close>.\<close>

definition construct :: "'a ProducerConsumerQueue \<Rightarrow> nat \<Rightarrow> 'a \<Rightarrow> 'a ProducerConsumerQueue option" where
  "construct q i v = do { assert_opt (i < length (records q) \<and> records q ! i = None); Some (q\<lparr>records := (records q)[i := Some v]\<rparr>) }"

definition take_slot :: "'a ProducerConsumerQueue \<Rightarrow> nat \<Rightarrow> ('a \<times> 'a ProducerConsumerQueue) option" where
  "take_slot q i = do {
     assert_opt (i < length (records q));
     v \<leftarrow> records q ! i;
     Some (v, q\<lparr>records := (records q)[i := None]\<rparr>) }"

definition pc_write :: "'a ProducerConsumerQueue \<Rightarrow> 'a \<Rightarrow> (bool \<times> 'a ProducerConsumerQueue) option" where
  "pc_write q v = do {
     let currentWrite = writeIndex q;
     let nxt = nextRecord q currentWrite;
     if nxt \<noteq> readIndex q
     then do { q \<leftarrow> construct q currentWrite v; Some (True, q\<lparr>writeIndex := nxt\<rparr>) }
     else Some (False, q) }"

definition pc_read :: "'a ProducerConsumerQueue \<Rightarrow> ('a option \<times> 'a ProducerConsumerQueue) option" where
  "pc_read q = do {
     let currentRead = readIndex q;
     if currentRead = writeIndex q then Some (None, q)
     else do {
       let nxt = nextRecord q currentRead;
       (v, q) \<leftarrow> take_slot q currentRead;
       Some (Some v, q\<lparr>readIndex := nxt\<rparr>) } }"

definition frontPtr :: "'a ProducerConsumerQueue \<Rightarrow> nat option" where
  "frontPtr q = (let currentRead = readIndex q in if currentRead = writeIndex q then None else Some currentRead)"

definition popFront :: "'a ProducerConsumerQueue \<Rightarrow> 'a ProducerConsumerQueue option" where
  "popFront q = do {
     let currentRead = readIndex q;
     assert_opt (currentRead \<noteq> writeIndex q);
     let nxt = nextRecord q currentRead;
     (_, q) \<leftarrow> take_slot q currentRead;
     Some (q\<lparr>readIndex := nxt\<rparr>) }"

definition pc_isEmpty :: "'a ProducerConsumerQueue \<Rightarrow> bool" where
  "pc_isEmpty q \<longleftrightarrow> readIndex q = writeIndex q"

definition pc_isFull :: "'a ProducerConsumerQueue \<Rightarrow> bool" where
  "pc_isFull q \<longleftrightarrow> nextRecord q (writeIndex q) = readIndex q"

definition sizeGuess :: "'a ProducerConsumerQueue \<Rightarrow> nat" where
  "sizeGuess q = (let ret = int (writeIndex q) - int (readIndex q) in nat (if ret < 0 then ret + int (pc_size q) else ret))"

definition pc_capacity :: "'a ProducerConsumerQueue \<Rightarrow> nat" where
  "pc_capacity q = pc_size q"

text \<open>The loop of \<open>destroy\<close>; the fuel is the number of slots.\<close>

fun pc_destroy :: "nat \<Rightarrow> 'a ProducerConsumerQueue \<Rightarrow> nat \<Rightarrow> nat \<Rightarrow> 'a ProducerConsumerQueue option" where
  "pc_destroy fuel q rd stop = (if rd = stop then Some q else (case fuel of 0 \<Rightarrow> None
     | Suc f \<Rightarrow> do { (_, q) \<leftarrow> take_slot q rd; pc_destroy f q (nextRecord q rd) stop }))"

subsection \<open>Two threads\<close>

text \<open>Where a thread is between two accesses. The producer has read its index; has seen that the queue is
  not full; has constructed the object. The consumer has read its index; has seen that the queue is not
  empty; has taken the object out.\<close>

datatype 'a producer = PIdle | PStart 'a nat | PConstruct 'a nat | PPublish 'a nat

datatype 'a consumer = CIdle | CStart nat | CMove nat | CPublish 'a nat

record 'a pc_state =
  pc_queue :: "'a ProducerConsumerQueue"
  prod :: "'a producer"
  cons :: "'a consumer"
  written :: "'a list"
  got :: "'a list"

datatype 'a actor = Producer 'a | Consumer

definition prod_step :: "'a \<Rightarrow> 'a pc_state \<Rightarrow> 'a pc_state option" where
  "prod_step v st = (let q = pc_queue st in case prod st of
       PIdle \<Rightarrow> Some (st\<lparr>prod := PStart v (writeIndex q)\<rparr>)
     | PStart x cw \<Rightarrow> Some (st\<lparr>prod := (if nextRecord q cw \<noteq> readIndex q then PConstruct x cw else PIdle)\<rparr>)
     | PConstruct x cw \<Rightarrow> do { q \<leftarrow> construct q cw x; Some (st\<lparr>pc_queue := q, prod := PPublish x cw\<rparr>) }
     | PPublish x cw \<Rightarrow> Some (st\<lparr>pc_queue := q\<lparr>writeIndex := nextRecord q cw\<rparr>, prod := PIdle, written := written st @ [x]\<rparr>))"

definition cons_step :: "'a pc_state \<Rightarrow> 'a pc_state option" where
  "cons_step st = (let q = pc_queue st in case cons st of
       CIdle \<Rightarrow> Some (st\<lparr>cons := CStart (readIndex q)\<rparr>)
     | CStart cr \<Rightarrow> Some (st\<lparr>cons := (if cr = writeIndex q then CIdle else CMove cr)\<rparr>)
     | CMove cr \<Rightarrow> do { (v, q) \<leftarrow> take_slot q cr; Some (st\<lparr>pc_queue := q, cons := CPublish v cr\<rparr>) }
     | CPublish v cr \<Rightarrow> Some (st\<lparr>pc_queue := q\<lparr>readIndex := nextRecord q cr\<rparr>, cons := CIdle, got := got st @ [v]\<rparr>))"

definition pc_step :: "'a actor \<Rightarrow> 'a pc_state \<Rightarrow> 'a pc_state option" where
  "pc_step a st = (case a of Producer v \<Rightarrow> prod_step v st | Consumer \<Rightarrow> cons_step st)"

definition pc_start :: "'a ProducerConsumerQueue \<Rightarrow> 'a pc_state" where
  "pc_start q = \<lparr>pc_queue = q, prod = PIdle, cons = CIdle, written = [], got = []\<rparr>"

subsection \<open>The ring\<close>

text \<open>\<open>xs\<close> lies in the slots from the read index to the write index; \<open>hole\<close> says that the first slot is empty
  already, \<open>extra\<close> what the slot after the last one holds.\<close>

definition ring :: "'a ProducerConsumerQueue \<Rightarrow> 'a list \<Rightarrow> bool \<Rightarrow> 'a option \<Rightarrow> bool" where
  "ring q xs hole extra \<longleftrightarrow> 2 \<le> pc_size q \<and> length (records q) = pc_size q \<and> readIndex q < pc_size q \<and> length xs < pc_size q \<and>
     writeIndex q = (readIndex q + length xs) mod pc_size q \<and>
     (\<forall>k < pc_size q. records q ! ((readIndex q + k) mod pc_size q) =
        (if k < length xs then if hole \<and> k = 0 then None else Some (xs ! k) else if k = length xs then extra else None))"

lemma nextRecord_mod: "2 \<le> pc_size q \<Longrightarrow> i < pc_size q \<Longrightarrow> nextRecord q i = Suc i mod pc_size q"
  by (auto simp: nextRecord_def Let_def)

lemma ringD:
  assumes "ring q xs hole extra"
  shows "2 \<le> pc_size q" "length (records q) = pc_size q" "readIndex q < pc_size q" "length xs < pc_size q" "writeIndex q < pc_size q"
    "writeIndex q = (readIndex q + length xs) mod pc_size q"
    "\<And>k. k < pc_size q \<Longrightarrow> records q ! ((readIndex q + k) mod pc_size q) =
        (if k < length xs then if hole \<and> k = 0 then None else Some (xs ! k) else if k = length xs then extra else None)"
  using assms by (auto simp: ring_def)

lemma mod_add_inj:
  assumes "(r + k) mod n = (r + j) mod n" "k < n" "j < (n :: nat)"
  shows "k = j"
proof -
  have "(int r + int k) mod int n = (int r + int j) mod int n" using assms(1) by (metis of_nat_add of_nat_mod)
  then have "int k mod int n = int j mod int n" by (metis add_diff_cancel_left' mod_diff_left_eq)
  then show ?thesis using assms(2,3) by simp
qed

lemma ring_empty_iff: "ring q xs hole extra \<Longrightarrow> readIndex q = writeIndex q \<longleftrightarrow> xs = []"
  using mod_add_inj [of "readIndex q" 0 "pc_size q" "length xs"] ringD [of q xs hole extra] by (metis add.right_neutral length_0_conv mod_less not_gr_zero not_less_zero)

lemma next_write: "ring q xs hole extra \<Longrightarrow> nextRecord q (writeIndex q) = (readIndex q + Suc (length xs)) mod pc_size q"
  using nextRecord_mod [of q "writeIndex q"] ringD(1,5,6) [of q xs hole extra] by (simp add: mod_Suc_eq)

lemma ring_full_iff: "ring q xs hole extra \<Longrightarrow> nextRecord q (writeIndex q) = readIndex q \<longleftrightarrow> Suc (length xs) = pc_size q"
proof -
  assume r: "ring q xs hole extra"
  note d = ringD [OF r]
  have "Suc (length xs) = pc_size q" if "(readIndex q + Suc (length xs)) mod pc_size q = readIndex q"
  proof (rule ccontr)
    assume "Suc (length xs) \<noteq> pc_size q"
    then show False using mod_add_inj [of "readIndex q" "Suc (length xs)" "pc_size q" 0] that d by simp
  qed
  moreover have "(readIndex q + Suc (length xs)) mod pc_size q = readIndex q" if "Suc (length xs) = pc_size q" unfolding that using d(3) by simp
  ultimately show ?thesis using next_write [OF r] by metis
qed

lemma ring_construct:
  assumes "ring q xs hole None" "Suc (length xs) < pc_size q"
  shows "\<exists>q'. construct q (writeIndex q) v = Some q' \<and> ring q' xs hole (Some v)"
proof -
  note d = ringD [OF assms(1)]
  let ?q = "q\<lparr>records := (records q)[writeIndex q := Some v]\<rparr>"
  have "records q ! writeIndex q = None" using d(7) [of "length xs"] d(4,6) by simp
  then have c: "construct q (writeIndex q) v = Some ?q" using d by (simp add: construct_def)
  have "records ?q ! ((readIndex q + k) mod pc_size q) =
      (if k < length xs then if hole \<and> k = 0 then None else Some (xs ! k) else if k = length xs then Some v else None)" if k: "k < pc_size q" for k
  proof (cases "k = length xs")
    case False
    then have "(readIndex q + k) mod pc_size q \<noteq> writeIndex q" using mod_add_inj k d(4,6) by metis
    then show ?thesis using d(7) [OF k] False by simp
  qed (use d in simp)
  then show ?thesis using c d by (simp add: ring_def)
qed

lemma ring_publish:
  assumes "ring q xs hole (Some v)" "Suc (length xs) < pc_size q" "hole \<longrightarrow> xs \<noteq> []"
  shows "ring (q\<lparr>writeIndex := nextRecord q (writeIndex q)\<rparr>) (xs @ [v]) hole None"
  using assms ringD [OF assms(1)] next_write [OF assms(1)] unfolding ring_def by (auto simp: nth_append less_Suc_eq)

lemma ring_take:
  assumes "ring q (x # xs) False extra"
  shows "\<exists>q'. take_slot q (readIndex q) = Some (x, q') \<and> ring q' (x # xs) True extra"
proof -
  note d = ringD [OF assms]
  let ?q = "q\<lparr>records := (records q)[readIndex q := None]\<rparr>"
  have t: "take_slot q (readIndex q) = Some (x, ?q)" using d(7) [of 0] d(1-3) by (simp add: take_slot_def)
  have "records ?q ! ((readIndex q + k) mod pc_size q) =
      (if k < length (x # xs) then if k = 0 then None else Some ((x # xs) ! k) else if k = length (x # xs) then extra else None)" if k: "k < pc_size q" for k
  proof (cases "k = 0")
    case False
    then have "(readIndex q + k) mod pc_size q \<noteq> readIndex q" using mod_add_inj [of "readIndex q" k "pc_size q" 0] k d(1,3) by auto
    then show ?thesis using d(7) [OF k] False by simp
  qed (use d in simp)
  then show ?thesis using t d by (simp add: ring_def)
qed

lemma ring_release:
  assumes "ring q (x # xs) True extra"
  shows "ring (q\<lparr>readIndex := nextRecord q (readIndex q)\<rparr>) xs False extra"
proof -
  note d = ringD [OF assms]
  let ?n = "pc_size q"
  have nx: "nextRecord q (readIndex q) = Suc (readIndex q) mod ?n" using nextRecord_mod d(1,3) by blast
  have sh: "(Suc (readIndex q) mod ?n + k) mod ?n = (readIndex q + Suc k) mod ?n" for k by (simp add: mod_simps)
  have "records q ! ((readIndex q + Suc k) mod ?n) = (if k < length xs then Some (xs ! k) else if k = length xs then extra else None)"
    if "k < ?n" for k
  proof (cases "Suc k < ?n")
    case False
    then have "Suc k = ?n" using that by simp
    then have "(readIndex q + Suc k) mod ?n = (readIndex q + 0) mod ?n" by simp
    then show ?thesis using d(7) [of 0] d(1,4) \<open>Suc k = ?n\<close> by auto
  qed (use d(7) [of "Suc k"] in simp)
  then show ?thesis using d nx sh by (simp add: ring_def)
qed

subsection \<open>All schedules\<close>

fun cons_ok :: "'a consumer \<Rightarrow> nat \<Rightarrow> 'a list \<Rightarrow> bool" where
  "cons_ok CIdle rd xs = True"
| "cons_ok (CStart cr) rd xs = (cr = rd)"
| "cons_ok (CMove cr) rd xs = (cr = rd \<and> xs \<noteq> [])"
| "cons_ok (CPublish v cr) rd xs = (cr = rd \<and> xs \<noteq> [] \<and> v = hd xs)"

fun prod_ok :: "'a producer \<Rightarrow> nat \<Rightarrow> nat \<Rightarrow> 'a list \<Rightarrow> bool" where
  "prod_ok PIdle n wr xs = True"
| "prod_ok (PStart v cw) n wr xs = (cw = wr)"
| "prod_ok (PConstruct v cw) n wr xs = (cw = wr \<and> Suc (length xs) < n)"
| "prod_ok (PPublish v cw) n wr xs = (cw = wr \<and> Suc (length xs) < n)"

fun hole :: "'a consumer \<Rightarrow> bool" where
  "hole (CPublish v cr) = True"
| "hole _ = False"

fun extra :: "'a producer \<Rightarrow> 'a option" where
  "extra (PPublish v cw) = Some v"
| "extra _ = None"

lemma cons_ok_snoc: "cons_ok c rd xs \<Longrightarrow> cons_ok c rd (xs @ ys)"
  by (cases c) auto

lemma prod_ok_tl: "prod_ok p n wr (x # xs) \<Longrightarrow> prod_ok p n wr xs"
  by (cases p) auto

lemma hole_nonempty: "cons_ok c rd xs \<Longrightarrow> hole c \<Longrightarrow> xs \<noteq> []"
  by (cases c) auto

definition pc_inv :: "nat \<Rightarrow> 'a pc_state \<Rightarrow> 'a list \<Rightarrow> bool" where
  "pc_inv n st xs \<longleftrightarrow> (let q = pc_queue st in pc_size q = n \<and> written st = got st @ xs \<and>
     cons_ok (cons st) (readIndex q) xs \<and> prod_ok (prod st) n (writeIndex q) xs \<and> ring q xs (hole (cons st)) (extra (prod st)))"

lemma slot_ops_frame:
  "construct q i v = Some q' \<Longrightarrow> pc_size q' = pc_size q \<and> readIndex q' = readIndex q \<and> writeIndex q' = writeIndex q"
  "take_slot q i = Some (v, q') \<Longrightarrow> pc_size q' = pc_size q \<and> readIndex q' = readIndex q \<and> writeIndex q' = writeIndex q"
  by (auto simp: construct_def take_slot_def split: bind_splits)

lemma prod_step_inv:
  assumes "pc_inv n st xs"
  shows "\<exists>st' ys. prod_step v st = Some st' \<and> pc_inv n st' ys"
proof (cases "prod st")
  case PIdle
  then show ?thesis using assms by (intro exI [of _ "st\<lparr>prod := PStart v (writeIndex (pc_queue st))\<rparr>"] exI [of _ xs]) (simp add: prod_step_def pc_inv_def Let_def)
next
  case (PStart x cw)
  have r: "ring (pc_queue st) xs (hole (cons st)) None" "pc_size (pc_queue st) = n" using assms PStart by (auto simp: pc_inv_def Let_def)
  have "Suc (length xs) < n" if "nextRecord (pc_queue st) (writeIndex (pc_queue st)) \<noteq> readIndex (pc_queue st)"
    using ring_full_iff [OF r(1)] ringD(4) [OF r(1)] that r(2) by linarith
  then show ?thesis using assms PStart by (auto simp: prod_step_def pc_inv_def Let_def)
next
  case (PConstruct x cw)
  have r: "ring (pc_queue st) xs (hole (cons st)) None" "Suc (length xs) < pc_size (pc_queue st)" "cw = writeIndex (pc_queue st)"
    using assms PConstruct by (auto simp: pc_inv_def Let_def)
  obtain q where q: "construct (pc_queue st) cw x = Some q" "ring q xs (hole (cons st)) (Some x)" using ring_construct [OF r(1,2)] r(3) by blast
  have "pc_inv n (st\<lparr>pc_queue := q, prod := PPublish x cw\<rparr>) xs"
    using assms PConstruct q(2) slot_ops_frame(1) [OF q(1)] by (simp add: pc_inv_def Let_def)
  then show ?thesis using q(1) PConstruct by (auto simp: prod_step_def Let_def)
next
  case (PPublish x cw)
  let ?q = "pc_queue st"
  have r: "ring ?q xs (hole (cons st)) (Some x)" "Suc (length xs) < pc_size ?q" "cw = writeIndex ?q" and c: "cons_ok (cons st) (readIndex ?q) xs"
    using assms PPublish by (auto simp: pc_inv_def Let_def)
  have "ring (?q\<lparr>writeIndex := nextRecord ?q cw\<rparr>) (xs @ [x]) (hole (cons st)) None" using ring_publish [OF r(1,2)] r(3) hole_nonempty [OF c] by simp
  then have "pc_inv n (st\<lparr>pc_queue := ?q\<lparr>writeIndex := nextRecord ?q cw\<rparr>, prod := PIdle, written := written st @ [x]\<rparr>) (xs @ [x])"
    using assms cons_ok_snoc [OF c] by (simp add: pc_inv_def Let_def)
  then show ?thesis using PPublish by (auto simp: prod_step_def Let_def)
qed

lemma cons_step_inv:
  assumes "pc_inv n st xs"
  shows "\<exists>st' ys. cons_step st = Some st' \<and> pc_inv n st' ys"
proof (cases "cons st")
  case CIdle
  then show ?thesis using assms by (intro exI [of _ "st\<lparr>cons := CStart (readIndex (pc_queue st))\<rparr>"] exI [of _ xs]) (simp add: cons_step_def pc_inv_def Let_def)
next
  case (CStart cr)
  have r: "ring (pc_queue st) xs False (extra (prod st))" using assms CStart by (simp add: pc_inv_def Let_def)
  then show ?thesis using assms CStart ring_empty_iff [OF r] by (auto simp: cons_step_def pc_inv_def Let_def)
next
  case (CMove cr)
  obtain x ys where x: "xs = x # ys" using assms CMove by (cases xs) (auto simp: pc_inv_def Let_def)
  have r: "ring (pc_queue st) (x # ys) False (extra (prod st))" "cr = readIndex (pc_queue st)" using assms CMove x by (auto simp: pc_inv_def Let_def)
  obtain q where q: "take_slot (pc_queue st) cr = Some (x, q)" "ring q (x # ys) True (extra (prod st))" using ring_take [OF r(1)] r(2) by blast
  have "pc_inv n (st\<lparr>pc_queue := q, cons := CPublish x cr\<rparr>) xs"
    using assms CMove x q(2) slot_ops_frame(2) [OF q(1)] by (simp add: pc_inv_def Let_def)
  then show ?thesis using q(1) CMove by (auto simp: cons_step_def Let_def)
next
  case (CPublish v cr)
  let ?q = "pc_queue st"
  obtain ys where x: "xs = v # ys" using assms CPublish by (cases xs) (auto simp: pc_inv_def Let_def)
  have r: "ring ?q (v # ys) True (extra (prod st))" "cr = readIndex ?q" "prod_ok (prod st) n (writeIndex ?q) (v # ys)"
    using assms CPublish x by (auto simp: pc_inv_def Let_def)
  have "pc_inv n (st\<lparr>pc_queue := ?q\<lparr>readIndex := nextRecord ?q cr\<rparr>, cons := CIdle, got := got st @ [v]\<rparr>) ys"
    using assms ring_release [OF r(1)] r(2) prod_ok_tl [OF r(3)] x by (simp add: pc_inv_def Let_def)
  then show ?thesis using CPublish by (auto simp: cons_step_def Let_def)
qed

lemma pc_step_inv: "pc_inv n st xs \<Longrightarrow> \<exists>st' ys. pc_step a st = Some st' \<and> pc_inv n st' ys"
  using prod_step_inv cons_step_inv by (cases a) (auto simp: pc_step_def)

lemma pc_run_inv: "pc_inv n st xs \<Longrightarrow> \<exists>st' ys. foldM pc_step sched st = Some st' \<and> pc_inv n st' ys"
proof (induction sched arbitrary: st xs)
  case (Cons a sched)
  obtain st' ys where "pc_step a st = Some st'" "pc_inv n st' ys" using pc_step_inv [OF Cons.prems] by blast
  then show ?case using Cons.IH by fastforce
qed auto

lemma init_inv: "ProducerConsumerQueue_init n = Some q \<Longrightarrow> pc_inv n (pc_start q) []"
  by (auto simp: ProducerConsumerQueue_init_def pc_inv_def pc_start_def ring_def Let_def split: bind_splits)

text \<open>(C27) Under every schedule of the producer and the consumer the queue neither touches a dead slot nor
  overwrites a live one; the consumer gets exactly what the producer wrote, in order, and at most
  \<open>size - 1\<close> values are inside.\<close>

theorem spsc_correct:
  assumes "ProducerConsumerQueue_init n = Some q"
  shows "\<exists>st inside. foldM pc_step sched (pc_start q) = Some st \<and> written st = got st @ inside \<and> length inside \<le> n - 1"
proof -
  obtain st xs where st: "foldM pc_step sched (pc_start q) = Some st" "pc_inv n st xs" using pc_run_inv [OF init_inv [OF assms]] by blast
  then have "written st = got st @ xs" "length xs < n" using ringD(4) by (auto simp: pc_inv_def Let_def)
  then show ?thesis using st(1) by (intro exI [of _ st] exI [of _ xs]) simp
qed

theorem spsc_correct_witness:
  "\<exists>q st inside. ProducerConsumerQueue_init 2 = Some q \<and>
     foldM pc_step [Producer 7, Producer 0, Consumer, Producer 0, Producer 0, Producer 8, Consumer] (pc_start q) = Some st \<and>
     written st = got st @ inside \<and> length inside \<le> (1 :: nat) \<and> written st = [7 :: nat]"
proof -
  let ?q = "\<lparr>pc_size = 2, records = [None, None], readIndex = 0, writeIndex = 0\<rparr> :: nat ProducerConsumerQueue"
  have q: "ProducerConsumerQueue_init 2 = Some ?q" by (simp add: ProducerConsumerQueue_init_def numeral_2_eq_2)
  show ?thesis
    using spsc_correct [OF q, of "[Producer 7, Producer 0, Consumer, Producer 0, Producer 0, Producer 8, Consumer]"] q
    by (intro exI [of _ ?q]) (auto simp: pc_step_def prod_step_def cons_step_def pc_start_def nextRecord_def construct_def Let_def)
qed

text \<open>The operations run alone are the steps of their thread.\<close>

lemma write_steps:
  assumes "prod st = PIdle" "pc_write (pc_queue st) v = Some (ok, q)"
  shows "foldM pc_step (if ok then [Producer v, Producer v, Producer v, Producer v] else [Producer v, Producer v]) st =
    Some (st\<lparr>pc_queue := q, written := written st @ (if ok then [v] else [])\<rparr>)"
  using assms by (auto simp: pc_write_def pc_step_def prod_step_def Let_def construct_def nextRecord_def split: if_splits bind_splits)

lemma read_steps:
  assumes "cons st = CIdle" "pc_read (pc_queue st) = Some (r, q)"
  shows "foldM pc_step (if r = None then [Consumer, Consumer] else [Consumer, Consumer, Consumer, Consumer]) st =
    Some (st\<lparr>pc_queue := q, got := got st @ (case r of None \<Rightarrow> [] | Some v \<Rightarrow> [v])\<rparr>)"
  using assms by (auto simp: pc_read_def pc_step_def cons_step_def Let_def take_slot_def nextRecord_def split: if_splits bind_splits)

lemma sizeGuess_eq: "ring q xs h e \<Longrightarrow> sizeGuess q = length xs"
proof -
  assume r: "ring q xs h e"
  note d = ringD [OF r]
  show ?thesis
  proof (cases "readIndex q + length xs < pc_size q")
    case False
    then have "writeIndex q = readIndex q + length xs - pc_size q" using d by (simp add: mod_if)
    then show ?thesis using False d by (simp add: sizeGuess_def Let_def)
  qed (use d in \<open>simp add: sizeGuess_def\<close>)
qed

text \<open>One thread at a time, the queue of size \<open>Suc n\<close> is a bounded queue for \<open>n\<close> values.\<close>

definition spsc_holds :: "nat \<Rightarrow> nat \<Rightarrow> 'a ProducerConsumerQueue \<Rightarrow> 'a list \<Rightarrow> bool" where
  "spsc_holds n k q xs \<longleftrightarrow> pc_size q = Suc n \<and> ring q xs False None"

lemma pc_write_spec:
  assumes "ring q xs False None"
  shows "\<exists>q'. pc_write q v = Some (Suc (length xs) < pc_size q, q') \<and> pc_size q' = pc_size q \<and>
    ring q' (if Suc (length xs) < pc_size q then xs @ [v] else xs) False None"
proof (cases "Suc (length xs) < pc_size q")
  case True
  then have nf: "nextRecord q (writeIndex q) \<noteq> readIndex q" using ring_full_iff [OF assms] by simp
  obtain q' where q': "construct q (writeIndex q) v = Some q'" "ring q' xs False (Some v)" using ring_construct [OF assms True] by blast
  note f = slot_ops_frame(1) [OF q'(1)]
  have "nextRecord q' (writeIndex q') = nextRecord q (writeIndex q)" using f by (simp add: nextRecord_def)
  then have "ring (q'\<lparr>writeIndex := nextRecord q (writeIndex q)\<rparr>) (xs @ [v]) False None" using ring_publish [OF q'(2)] True f by simp
  then show ?thesis using nf q'(1) f True by (simp add: pc_write_def Let_def)
next
  case False
  then have "nextRecord q (writeIndex q) = readIndex q" using ring_full_iff [OF assms] ringD(4) [OF assms] by simp
  then show ?thesis using assms False by (simp add: pc_write_def Let_def)
qed

lemma pc_read_spec:
  assumes "ring q xs False None"
  shows "\<exists>q'. pc_read q = Some (case xs of [] \<Rightarrow> None | x # _ \<Rightarrow> Some x, q') \<and> pc_size q' = pc_size q \<and> ring q' (tl xs) False None"
proof (cases xs)
  case Nil
  then show ?thesis using assms ring_empty_iff [OF assms] by (simp add: pc_read_def Let_def)
next
  case (Cons x ys)
  obtain q' where q': "take_slot q (readIndex q) = Some (x, q')" "ring q' (x # ys) True None" using ring_take [of q x ys None] assms Cons by auto
  note f = slot_ops_frame(2) [OF q'(1)]
  have "nextRecord q' (readIndex q') = nextRecord q (readIndex q)" using f by (simp add: nextRecord_def)
  then have "ring (q'\<lparr>readIndex := nextRecord q (readIndex q)\<rparr>) ys False None" using ring_release [OF q'(2)] by simp
  then show ?thesis using q'(1) f Cons ring_empty_iff [OF assms] by (simp add: pc_read_def Let_def)
qed

interpretation spsc: bounded_queue "spsc_holds n" n limit pc_write pc_read
proof
  show "length xs \<le> n" if "spsc_holds n k q xs" for k and q :: "'b ProducerConsumerQueue" and xs
    using that ringD(4) by (fastforce simp: spsc_holds_def)
  show "spsc_holds n k' q xs" if "spsc_holds n k q xs" for k k' and q :: "'b ProducerConsumerQueue" and xs
    using that by (simp add: spsc_holds_def)
  show "\<exists>q'. pc_write q x = Some (length xs < n, q') \<and> spsc_holds n (Suc k) q' (if length xs < n then xs @ [x] else xs)"
    if "spsc_holds n k q xs" for k and q :: "'b ProducerConsumerQueue" and xs x
    using that pc_write_spec [of q xs x] by (auto simp: spsc_holds_def)
  show "\<exists>q'. pc_read q = Some (case xs of [] \<Rightarrow> None | x # _ \<Rightarrow> Some x, q') \<and> spsc_holds n (Suc k) q' (tl xs)"
    if "spsc_holds n k q xs" for k and q :: "'b ProducerConsumerQueue" and xs
    using that pc_read_spec [of q xs] by (auto simp: spsc_holds_def)
qed

end
