(* ===== verification/Mpsc_Queue.thy ===== *)
theory Mpsc_Queue
  imports Prelude
begin

text \<open>
  \<open>MPSCIntrusiveQueue\<close> of \<open>net/util/lock_free_queues/mpsc_intrusive_queue.h\<close>: many threads push, one pops. Nodes are
  numbers, node \<open>0\<close> is the stub inside the queue, and the links are a store. \<open>Push\<close> and \<open>PopWeak\<close> are cut at their
  accesses to shared memory, and a schedule lets one thread make its next access; accesses are sequentially consistent.
\<close>

definition stub :: nat where "stub = 0"

text \<open>A producer that pushes node \<open>n\<close>: before the store of its link, before the exchange of the tail, and before the link
  of the previous tail.\<close>

datatype prod_pc = P_Idle | P_Store nat | P_Exchange nat | P_Link nat nat

text \<open>The consumer inside \<open>PopWeak\<close>, with its local \<open>head\<close>: before the load of the tail behind an empty stub, before the
  second load of a link, before the load of the tail, in the three accesses of \<open>Push(stub())\<close>, before the last load.\<close>

datatype cons_pc = C_Idle | C_Stub_Tail | C_Next nat | C_Tail nat | C_Store nat | C_Exchange nat | C_Link nat nat | C_Last nat

text \<open>The last four fields record history: the nodes in use, the nodes pushed, in the order of the exchanges, the nodes
  popped, and for every report of an empty queue whether all pushed nodes were popped then.\<close>

record mpsc =
  mq_head :: nat
  mq_tail :: nat
  mq_next :: "nat \<Rightarrow> nat option"
  mq_prods :: "nat \<Rightarrow> prod_pc"
  mq_cons :: cons_pc
  mq_used :: "nat list"
  mq_pushed :: "nat list"
  mq_popped :: "nat list"
  mq_empties :: "bool list"

definition mpsc_init :: mpsc where
  "mpsc_init = \<lparr>mq_head = stub, mq_tail = stub, mq_next = (\<lambda>_. None), mq_prods = (\<lambda>_. P_Idle), mq_cons = C_Idle,
     mq_used = [], mq_pushed = [], mq_popped = [], mq_empties = []\<rparr>"

definition p_goto :: "nat \<Rightarrow> prod_pc \<Rightarrow> mpsc \<Rightarrow> mpsc" where
  "p_goto t pc q = q\<lparr>mq_prods := (mq_prods q)(t := pc)\<rparr>"

definition Push_step :: "nat \<Rightarrow> mpsc \<Rightarrow> mpsc" where
  "Push_step t q = (case mq_prods q t of
     P_Idle \<Rightarrow> q
   | P_Store n \<Rightarrow> p_goto t (P_Exchange n) (q\<lparr>mq_next := (mq_next q)(n := None)\<rparr>)
   | P_Exchange n \<Rightarrow> p_goto t (P_Link (mq_tail q) n) (q\<lparr>mq_tail := n, mq_pushed := mq_pushed q @ [n]\<rparr>)
   | P_Link prev n \<Rightarrow> p_goto t P_Idle (q\<lparr>mq_next := (mq_next q)(prev := Some n)\<rparr>))"

text \<open>\<open>PopWeak\<close> returns the node \<open>h\<close> after the head moved to \<open>n\<close>.\<close>

definition pop_node :: "nat \<Rightarrow> nat \<Rightarrow> mpsc \<Rightarrow> mpsc" where
  "pop_node h n q = q\<lparr>mq_head := n, mq_cons := C_Idle, mq_popped := mq_popped q @ [h], mq_used := removeAll h (mq_used q)\<rparr>"

definition PopWeak_step :: "mpsc \<Rightarrow> mpsc" where
  "PopWeak_step q = (case mq_cons q of
     C_Idle \<Rightarrow> (let hd' = mq_head q in case mq_next q hd' of
         None \<Rightarrow> q\<lparr>mq_cons := (if hd' = stub then C_Stub_Tail else C_Tail hd')\<rparr>
       | Some n \<Rightarrow> if hd' = stub then q\<lparr>mq_head := n, mq_cons := C_Next n\<rparr> else pop_node hd' n q)
   | C_Stub_Tail \<Rightarrow> q\<lparr>mq_cons := C_Idle, mq_empties := mq_empties q @ (if mq_tail q = stub then [mq_pushed q = mq_popped q] else [])\<rparr>
   | C_Next h \<Rightarrow> (case mq_next q h of None \<Rightarrow> q\<lparr>mq_cons := C_Tail h\<rparr> | Some n \<Rightarrow> pop_node h n q)
   | C_Tail h \<Rightarrow> q\<lparr>mq_cons := (if mq_tail q \<noteq> h then C_Idle else C_Store h)\<rparr>
   | C_Store h \<Rightarrow> q\<lparr>mq_next := (mq_next q)(stub := None), mq_cons := C_Exchange h\<rparr>
   | C_Exchange h \<Rightarrow> q\<lparr>mq_tail := stub, mq_cons := C_Link h (mq_tail q)\<rparr>
   | C_Link h prev \<Rightarrow> q\<lparr>mq_next := (mq_next q)(prev := Some stub), mq_cons := C_Last h\<rparr>
   | C_Last h \<Rightarrow> (case mq_next q h of None \<Rightarrow> q\<lparr>mq_cons := C_Idle\<rparr> | Some n \<Rightarrow> pop_node h n q))"

definition mpsc_Empty :: "mpsc \<Rightarrow> bool" where
  "mpsc_Empty q \<longleftrightarrow> mq_head q = stub \<and> mq_next q (mq_head q) = None"

text \<open>A thread begins to push a node that is in nobody's hands, goes on with its push, or the consumer goes on; a call out
  of turn is skipped.\<close>

datatype mpsc_event = Begin_Push nat nat | Push_On nat | Pop_On

fun mpsc_step :: "mpsc_event \<Rightarrow> mpsc \<Rightarrow> mpsc" where
  "mpsc_step (Begin_Push t n) q = (if mq_prods q t = P_Idle \<and> n \<noteq> stub \<and> n \<notin> set (mq_used q)
     then p_goto t (P_Store n) (q\<lparr>mq_used := n # mq_used q\<rparr>) else q)"
| "mpsc_step (Push_On t) q = Push_step t q"
| "mpsc_step Pop_On q = PopWeak_step q"

subsection \<open>Lists with missing links\<close>

text \<open>\<open>R\<close> are the pairs whose link is still to be stored.\<close>

fun linked :: "(nat \<Rightarrow> nat option) \<Rightarrow> (nat \<times> nat) set \<Rightarrow> nat list \<Rightarrow> bool" where
  "linked nx R [] \<longleftrightarrow> False"
| "linked nx R [x] \<longleftrightarrow> nx x = None"
| "linked nx R (x # y # zs) \<longleftrightarrow> (nx x = Some y \<or> nx x = None \<and> (x, y) \<in> R) \<and> linked nx R (y # zs)"

definition adj :: "nat \<Rightarrow> nat \<Rightarrow> nat list \<Rightarrow> bool" where
  "adj a b L \<longleftrightarrow> (\<exists>xs ys. L = xs @ a # b # ys)"

lemma adj_Cons: "adj a b (x # L) \<longleftrightarrow> (x = a \<and> (\<exists>ys. L = b # ys)) \<or> adj a b L"
  unfolding adj_def by (metis (no_types, opaque_lifting) append_Cons append_Nil list.inject neq_Nil_conv)

lemma adj_Nil [simp]: "\<not> adj a b []"
  by (simp add: adj_def)

lemma adj_append: "adj a b L \<Longrightarrow> adj a b (L @ [n])"
  unfolding adj_def by force

lemma adj_last: "L \<noteq> [] \<Longrightarrow> adj (last L) n (L @ [n])"
  unfolding adj_def by (metis append_butlast_last_id append_Cons append_Nil append_assoc)

lemma adj_in: "adj a b L \<Longrightarrow> a \<in> set L \<and> b \<in> set (tl L)"
  unfolding adj_def by (auto simp: tl_append split: list.split)

lemma adj_fun: "adj a b L \<Longrightarrow> adj a b' L \<Longrightarrow> distinct L \<Longrightarrow> b = b'"
  by (induction L) (auto simp: adj_Cons dest: adj_in)

lemma linked_mono: "linked nx R L \<Longrightarrow> R \<subseteq> R' \<Longrightarrow> linked nx R' L"
  by (induction nx R L rule: linked.induct) auto

lemma linked_upd: "x \<notin> set L \<Longrightarrow> linked (nx(x := v)) R L \<longleftrightarrow> linked nx R L"
  by (induction nx R L rule: linked.induct) auto

lemma linked_append: "linked nx R L \<Longrightarrow> nx n = None \<Longrightarrow> (last L, n) \<in> R \<Longrightarrow> linked nx R (L @ [n])"
  by (induction nx R L rule: linked.induct) auto

lemma linked_link: "linked nx R L \<Longrightarrow> adj a b L \<Longrightarrow> distinct L \<Longrightarrow> linked (nx(a := Some b)) (R - {(a, b)}) L"
proof (induction nx R L rule: linked.induct)
  case (3 nx R x y zs)
  show ?case
  proof (cases "x = a")
    case True
    have bb: "b = y" using "3.prems"(2,3) True by (auto simp: adj_Cons dest: adj_in)
    have "linked nx (R - {(a, b)}) (y # zs)"
    proof -
      have "linked nx' R' L" if "linked nx' R'' L" "a \<notin> set L" "R'' - {(a, b)} \<subseteq> R'" for nx' R' R'' L
        using that by (induction nx' R'' L rule: linked.induct) auto
      then show ?thesis using "3.prems"(1,3) True by auto
    qed
    then have "linked (nx(a := Some b)) (R - {(a, b)}) (y # zs)" using "3.prems"(3) True by (subst linked_upd) auto
    then show ?thesis using True bb by (simp del: fun_upd_apply add: fun_upd_same)
  next
    case False
    then have "adj a b (y # zs)" using "3.prems"(2) by (simp add: adj_Cons)
    then show ?thesis using "3.IH" "3.prems" False by auto
  qed
qed (auto simp: adj_Cons)

lemma linked_last: "linked nx R L \<Longrightarrow> nx (last L) = None"
  by (induction nx R L rule: linked.induct) auto

lemma hd_last_single: "L \<noteq> [] \<Longrightarrow> distinct L \<Longrightarrow> hd L = last L \<Longrightarrow> L = [last L]"
  by (cases L) (auto, metis last_in_set)

lemma linked_hd: "linked nx R (x # L) \<Longrightarrow> nx x = Some n \<Longrightarrow> \<exists>zs. L = n # zs \<and> linked nx R L"
  by (cases L) auto

subsection \<open>The invariant\<close>

fun p_item :: "prod_pc \<Rightarrow> nat option" where
  "p_item P_Idle = None"
| "p_item (P_Store n) = Some n"
| "p_item (P_Exchange n) = Some n"
| "p_item (P_Link prev n) = Some n"

definition missing :: "(nat \<Rightarrow> prod_pc) \<Rightarrow> cons_pc \<Rightarrow> (nat \<times> nat) set" where
  "missing ps c = {(a, b). (\<exists>t. ps t = P_Link a b) \<or> (b = stub \<and> (\<exists>h. c = C_Link h a))}"

lemma missing_goto:
  assumes "(a, b) \<in> missing ps c" "ps t \<noteq> P_Link a b"
  shows "(a, b) \<in> missing (ps(t := pc)) c"
proof (cases "\<exists>u. ps u = P_Link a b")
  case True
  then obtain u where "ps u = P_Link a b" by blast
  moreover from this have "u \<noteq> t" using assms(2) by blast
  ultimately have "(ps(t := pc)) u = P_Link a b" by simp
  then show ?thesis unfolding missing_def by blast
next
  case False
  then show ?thesis using assms(1) by (auto simp: missing_def)
qed

text \<open>What the threads know: \<open>L\<close> are the nodes from the head to the tail.\<close>

fun prod_ok :: "(nat \<Rightarrow> nat option) \<Rightarrow> nat list \<Rightarrow> prod_pc \<Rightarrow> bool" where
  "prod_ok nx L P_Idle \<longleftrightarrow> True"
| "prod_ok nx L (P_Store n) \<longleftrightarrow> n \<notin> set L"
| "prod_ok nx L (P_Exchange n) \<longleftrightarrow> n \<notin> set L \<and> nx n = None"
| "prod_ok nx L (P_Link a b) \<longleftrightarrow> adj a b L \<and> nx a = None"

fun cons_ok :: "(nat \<Rightarrow> nat option) \<Rightarrow> nat list \<Rightarrow> cons_pc \<Rightarrow> bool" where
  "cons_ok nx L C_Idle \<longleftrightarrow> True"
| "cons_ok nx L C_Stub_Tail \<longleftrightarrow> hd L = stub"
| "cons_ok nx L (C_Next h) \<longleftrightarrow> hd L = h \<and> h \<noteq> stub"
| "cons_ok nx L (C_Tail h) \<longleftrightarrow> hd L = h \<and> h \<noteq> stub"
| "cons_ok nx L (C_Store h) \<longleftrightarrow> hd L = h \<and> stub \<notin> set L"
| "cons_ok nx L (C_Exchange h) \<longleftrightarrow> hd L = h \<and> stub \<notin> set L \<and> nx stub = None"
| "cons_ok nx L (C_Link h a) \<longleftrightarrow> hd L = h \<and> h \<noteq> stub \<and> adj a stub L \<and> nx a = None"
| "cons_ok nx L (C_Last h) \<longleftrightarrow> hd L = h \<and> h \<noteq> stub"

definition shape :: "nat list \<Rightarrow> nat \<Rightarrow> nat \<Rightarrow> (nat \<Rightarrow> nat option) \<Rightarrow> (nat \<Rightarrow> prod_pc) \<Rightarrow> cons_pc \<Rightarrow> nat list \<Rightarrow> bool" where
  "shape L h tl' nx ps c us \<longleftrightarrow> L \<noteq> [] \<and> hd L = h \<and> last L = tl' \<and> distinct L \<and> linked nx (missing ps c) L \<and>
     (\<forall>t. prod_ok nx L (ps t)) \<and> cons_ok nx L c \<and>
     (\<forall>t n. p_item (ps t) = Some n \<longrightarrow> n \<noteq> stub \<and> n \<in> set us) \<and> (\<forall>t u n. p_item (ps t) = Some n \<longrightarrow> p_item (ps u) = Some n \<longrightarrow> t = u) \<and>
     set L \<subseteq> insert stub (set us)"

definition mpsc_inv :: "nat list \<Rightarrow> mpsc \<Rightarrow> bool" where
  "mpsc_inv L q \<longleftrightarrow> shape L (mq_head q) (mq_tail q) (mq_next q) (mq_prods q) (mq_cons q) (mq_used q) \<and>
     mq_pushed q = mq_popped q @ filter (\<lambda>n. n \<noteq> stub) L \<and> (\<forall>e \<in> set (mq_empties q). e)"

lemma shapeD:
  assumes "shape L h tl' nx ps c us"
  shows "L \<noteq> []" "hd L = h" "last L = tl'" "distinct L" "linked nx (missing ps c) L" "\<And>t. prod_ok nx L (ps t)" "cons_ok nx L c"
    "\<And>t n. p_item (ps t) = Some n \<Longrightarrow> n \<noteq> stub \<and> n \<in> set us" "\<And>t u n. p_item (ps t) = Some n \<Longrightarrow> p_item (ps u) = Some n \<Longrightarrow> t = u"
    "set L \<subseteq> insert stub (set us)"
  using assms unfolding shape_def by blast+

lemma prod_ok_append: "prod_ok nx L pc \<Longrightarrow> p_item pc \<noteq> Some n \<Longrightarrow> prod_ok nx (L @ [n]) pc"
  by (cases pc) (auto intro: adj_append)

lemma cons_ok_append: "cons_ok nx L c \<Longrightarrow> L \<noteq> [] \<Longrightarrow> n \<noteq> stub \<Longrightarrow> cons_ok nx (L @ [n]) c"
  by (cases c) (auto intro: adj_append)

text \<open>A store to the link of a node that nobody waits to link.\<close>

lemma shape_store:
  assumes S: "shape L h tl' nx ps c us" and n: "n \<notin> set L" "\<And>t. p_item (ps t) = Some n \<Longrightarrow> \<exists>m. ps t = P_Store m" "\<And>h. c = C_Exchange h \<Longrightarrow> n \<noteq> stub"
  shows "shape L h tl' (nx(n := None)) ps c us"
proof -
  note s = shapeD [OF S]
  have "prod_ok (nx(n := None)) L (ps t)" for t using s(6) [of t] n(1) by (cases "ps t") auto
  moreover have "cons_ok (nx(n := None)) L c" using s(7) n(1) by (cases c) (auto dest: adj_in)
  moreover have "linked (nx(n := None)) (missing ps c) L" using s(5) n(1) by (simp add: linked_upd)
  ultimately show ?thesis using s unfolding shape_def by blast
qed

lemma shape_push:
  assumes S: "shape L h tl' nx ps c us" and pc: "ps t = P_Exchange n"
  shows "shape (L @ [n]) h n nx (ps(t := P_Link tl' n)) c us"
proof -
  note s = shapeD [OF S]
  have n: "n \<notin> set L" "nx n = None" "n \<noteq> stub" "n \<in> set us" using s(6) [of t] s(8) [of t n] pc by auto
  let ?ps = "ps(t := P_Link tl' n)"
  have mis: "missing ps c \<subseteq> missing ?ps c" using pc by (auto intro: missing_goto)
  have "?ps t = P_Link (last L) n" using s(3) by simp
  then have mis': "(last L, n) \<in> missing ?ps c" unfolding missing_def by blast
  have nl: "nx tl' = None" using linked_last [OF s(5)] s(3) by simp
  have "prod_ok nx (L @ [n]) (?ps u)" for u
    using prod_ok_append [OF s(6) [of u], of n] s(9) [of t n u] pc adj_last [OF s(1), of n] s(3) nl by (cases "u = t") auto
  moreover have "cons_ok nx (L @ [n]) c" by (rule cons_ok_append [OF s(7,1) n(3)])
  moreover have "linked nx (missing ?ps c) (L @ [n])" using linked_append [OF linked_mono [OF s(5) mis] n(2) mis'] .
  moreover have "p_item (?ps u) = p_item (ps u)" for u using pc by simp
  ultimately show ?thesis using s n unfolding shape_def by (auto simp: hd_append)
qed

lemma shape_link:
  assumes S: "shape L h tl' nx ps c us" and pc: "ps t = P_Link a b"
  shows "shape L h tl' (nx(a := Some b)) (ps(t := P_Idle)) c us"
proof -
  note s = shapeD [OF S]
  have ab: "adj a b L" "nx a = None" "b \<noteq> stub" using s(6) [of t] s(8) [of t b] pc by auto
  have a: "a \<in> set L" using adj_in [OF ab(1)] by simp
  let ?ps = "ps(t := P_Idle)"
  have other: "a' \<noteq> a" if "ps u = P_Link a' b'" "u \<noteq> t" for u a' b'
    using adj_fun [OF ab(1) _ s(4)] s(6) [of u] s(9) [of u b t] that pc by auto
  have "missing ps c - {(a, b)} \<subseteq> missing ?ps c" using pc by (auto intro: missing_goto)
  then have "linked (nx(a := Some b)) (missing ?ps c) L" using linked_mono [OF linked_link [OF s(5) ab(1) s(4)]] by blast
  moreover have "prod_ok (nx(a := Some b)) L (?ps u)" for u using s(6) [of u] a other by (cases "ps u") auto
  moreover have "cons_ok (nx(a := Some b)) L c" using s(7) a adj_fun [OF ab(1) _ s(4)] ab(3) by (cases c) auto
  moreover have "p_item (?ps u) = Some n \<Longrightarrow> p_item (ps u) = Some n" for u n by (auto split: if_splits)
  ultimately show ?thesis using s unfolding shape_def by (metis (no_types, lifting))
qed

fun at_link :: "cons_pc \<Rightarrow> bool" where
  "at_link (C_Link h a) \<longleftrightarrow> True"
| "at_link _ \<longleftrightarrow> False"

lemma missing_cons: "\<not> at_link c \<Longrightarrow> missing ps c \<subseteq> missing ps c'"
  by (cases c) (auto simp: missing_def)

lemma shape_cons:
  assumes S: "shape L h tl' nx ps c us" and c: "\<not> at_link c" "cons_ok nx L c'"
  shows "shape L h tl' nx ps c' us"
  using shapeD [OF S] linked_mono [OF _ missing_cons [OF c(1)]] c(2) unfolding shape_def by blast

lemma shape_next:
  assumes S: "shape L h tl' nx ps c us" and c: "\<not> at_link c" and n: "nx h = Some n" and us: "us' = (if h = stub then us else removeAll h us)"
  shows "\<exists>zs. L = h # n # zs \<and> shape (n # zs) n tl' nx ps C_Idle us'"
proof -
  note s = shapeD [OF S]
  obtain M where M: "L = h # M" using s(1,2) by (cases L) auto
  obtain zs where zs: "M = n # zs" "linked nx (missing ps c) M" using linked_hd [of nx _ h M n] s(5) M n by blast
  have "prod_ok nx M (ps t)" for t using s(6) [of t] n M by (cases "ps t") (auto simp: adj_Cons)
  moreover have free: "p_item (ps t) \<noteq> Some h" for t
    using s(6) [of t] s(4) M by (cases "ps t") (auto dest: adj_in)
  moreover have "linked nx (missing ps C_Idle) M" using zs(2) missing_cons [OF c] linked_mono by blast
  moreover have "set M \<subseteq> insert stub (set us')" using s(4,10) M us by auto
  moreover have "m \<noteq> stub \<and> m \<in> set us'" if "p_item (ps t) = Some m" for t m using s(8) [OF that] free [of t] that us by auto
  ultimately have "shape M n tl' nx ps C_Idle us'" using s(3,4,9) M zs(1) unfolding shape_def by auto
  then show ?thesis using M zs(1) by blast
qed

lemma shape_push_stub:
  assumes S: "shape L h tl' nx ps (C_Exchange h) us"
  shows "shape (L @ [stub]) h stub nx ps (C_Link h tl') us"
proof -
  note s = shapeD [OF S]
  have c: "stub \<notin> set L" "nx stub = None" "h \<noteq> stub" using s(1,2,7) by (auto, metis hd_in_set)
  have l: "linked nx (missing ps (C_Link h tl')) L" using s(5) missing_cons [of "C_Exchange h"] linked_mono by fastforce
  have "(last L, stub) \<in> missing ps (C_Link h tl')" using s(3) by (simp add: missing_def)
  then have "linked nx (missing ps (C_Link h tl')) (L @ [stub])" by (rule linked_append [OF l c(2)])
  moreover have "prod_ok nx (L @ [stub]) (ps t)" for t using prod_ok_append [OF s(6) [of t], of stub] s(8) [of t stub] by auto
  moreover have "cons_ok nx (L @ [stub]) (C_Link h tl')" using s(1,2,3) c(3) adj_last [OF s(1), of stub] linked_last [OF s(5)] by (auto simp: hd_append)
  ultimately show ?thesis using s c unfolding shape_def by (auto simp: hd_append)
qed

lemma shape_link_stub:
  assumes S: "shape L h tl' nx ps (C_Link h a) us"
  shows "shape L h tl' (nx(a := Some stub)) ps (C_Last h) us"
proof -
  note s = shapeD [OF S]
  have ab: "adj a stub L" "nx a = None" "h \<noteq> stub" using s(7) by auto
  have a: "a \<in> set L" using adj_in [OF ab(1)] by simp
  have "missing ps (C_Link h a) - {(a, stub)} \<subseteq> missing ps (C_Last h)" by (auto simp: missing_def)
  then have "linked (nx(a := Some stub)) (missing ps (C_Last h)) L" using linked_mono [OF linked_link [OF s(5) ab(1) s(4)]] by blast
  moreover have "prod_ok (nx(a := Some stub)) L (ps t)" for t
    using s(6) [of t] s(8) [of t stub] a adj_fun [OF ab(1) _ s(4)] by (cases "ps t") auto
  ultimately show ?thesis using s ab(3) unfolding shape_def by auto
qed

lemma mpsc_invI:
  assumes "shape L (mq_head q) (mq_tail q) (mq_next q) (mq_prods q) (mq_cons q) (mq_used q)"
    "mq_pushed q = mq_popped q @ filter (\<lambda>n. n \<noteq> stub) L" "\<forall>e \<in> set (mq_empties q). e"
  shows "mpsc_inv L q"
  using assms by (simp add: mpsc_inv_def)

lemma shape_goto:
  assumes S: "shape L h tl' nx ps c us" and p: "p_item pc = p_item (ps t)" "prod_ok nx L pc" "\<And>a b. ps t \<noteq> P_Link a b"
  shows "shape L h tl' nx (ps(t := pc)) c us"
proof -
  note s = shapeD [OF S]
  have "linked nx (missing (ps(t := pc)) c) L" by (rule linked_mono [OF s(5)]) (use p(3) in \<open>auto intro: missing_goto\<close>)
  moreover have "p_item ((ps(t := pc)) u) = p_item (ps u)" for u using p(1) by simp
  moreover have "prod_ok nx L ((ps(t := pc)) u)" for u using p(2) s(6) by simp
  ultimately show ?thesis using s unfolding shape_def by metis
qed

lemma Push_step_inv:
  assumes I: "mpsc_inv L q"
  shows "\<exists>L'. mpsc_inv L' (Push_step t q)"
proof -
  have S: "shape L (mq_head q) (mq_tail q) (mq_next q) (mq_prods q) (mq_cons q) (mq_used q)"
    and P: "mq_pushed q = mq_popped q @ filter (\<lambda>n. n \<noteq> stub) L" "\<forall>e \<in> set (mq_empties q). e" using I by (auto simp: mpsc_inv_def)
  note s = shapeD [OF S]
  show ?thesis
  proof (cases "mq_prods q t")
    case P_Idle
    then show ?thesis using I by (auto simp: Push_step_def)
  next
    case (P_Store n)
    have n: "n \<notin> set L" "n \<noteq> stub" using s(6) [of t] s(8) [of t n] P_Store by auto
    have own: "\<exists>m. mq_prods q u = P_Store m" if "p_item (mq_prods q u) = Some n" for u
      using s(9) [of u n t] that P_Store by auto
    have "shape L (mq_head q) (mq_tail q) ((mq_next q)(n := None)) (mq_prods q) (mq_cons q) (mq_used q)"
      using n by (intro shape_store [OF S]) (auto intro: own)
    then have "shape L (mq_head q) (mq_tail q) ((mq_next q)(n := None)) ((mq_prods q)(t := P_Exchange n)) (mq_cons q) (mq_used q)"
      by (rule shape_goto) (use n P_Store in auto)
    then show ?thesis using P P_Store by (intro exI [of _ L] mpsc_invI) (auto simp: Push_step_def p_goto_def)
  next
    case (P_Exchange n)
    have "n \<noteq> stub" using s(8) [of t n] P_Exchange by auto
    then show ?thesis using shape_push [OF S P_Exchange] P P_Exchange
      by (intro exI [of _ "L @ [n]"] mpsc_invI) (auto simp: Push_step_def p_goto_def)
  next
    case (P_Link a b)
    then show ?thesis using shape_link [OF S P_Link] P by (intro exI [of _ L] mpsc_invI) (auto simp: Push_step_def p_goto_def)
  qed
qed

lemma pop_node_inv:
  assumes S: "shape L (mq_head q) (mq_tail q) (mq_next q) (mq_prods q) (mq_cons q) (mq_used q)"
    and P: "mq_pushed q = mq_popped q @ filter (\<lambda>n. n \<noteq> stub) L" "\<forall>e \<in> set (mq_empties q). e"
    and h: "mq_head q \<noteq> stub" "mq_next q (mq_head q) = Some n" "\<not> at_link (mq_cons q)"
  shows "\<exists>L'. mpsc_inv L' (pop_node (mq_head q) n q)"
proof -
  obtain zs where zs: "L = mq_head q # n # zs"
      "shape (n # zs) n (mq_tail q) (mq_next q) (mq_prods q) C_Idle (removeAll (mq_head q) (mq_used q))"
    using shape_next [OF S h(3,2)] h(1) by auto
  then show ?thesis using P h(1) by (intro exI [of _ "n # zs"] mpsc_invI) (auto simp: pop_node_def)
qed

lemma PopWeak_step_inv:
  assumes I: "mpsc_inv L q"
  shows "\<exists>L'. mpsc_inv L' (PopWeak_step q)"
proof -
  let ?n = "mq_next q" and ?ps = "mq_prods q" and ?us = "mq_used q"
  have S: "shape L (mq_head q) (mq_tail q) ?n ?ps (mq_cons q) ?us"
    and P: "mq_pushed q = mq_popped q @ filter (\<lambda>n. n \<noteq> stub) L" "\<forall>e \<in> set (mq_empties q). e" using I by (auto simp: mpsc_inv_def)
  note s = shapeD [OF S] and pop = pop_node_inv [OF S P]
  have go: "\<exists>L'. mpsc_inv L' (q\<lparr>mq_cons := c\<rparr>)" if "\<not> at_link (mq_cons q)" "cons_ok ?n L c" for c
    using shape_cons [OF S that] P by (intro exI [of _ L] mpsc_invI) auto
  show ?thesis
  proof (cases "mq_cons q")
    case C_Idle
    have "\<exists>L'. mpsc_inv L' (q\<lparr>mq_head := n, mq_cons := C_Next n\<rparr>)" if h: "mq_head q = stub" "?n (mq_head q) = Some n" for n
    proof -
      obtain zs where zs: "L = stub # n # zs" "shape (n # zs) n (mq_tail q) ?n ?ps C_Idle ?us"
        using shape_next [OF S _ h(2)] C_Idle h(1) by auto
      then have "n \<noteq> stub" using s(4) by auto
      then have "shape (n # zs) n (mq_tail q) ?n ?ps (C_Next n) ?us" by (intro shape_cons [OF zs(2)]) auto
      then show ?thesis using P zs(1) by (intro exI [of _ "n # zs"] mpsc_invI) auto
    qed
    then show ?thesis using go [of C_Stub_Tail] go [of "C_Tail (mq_head q)"] pop C_Idle s(2) by (auto simp: PopWeak_step_def Let_def split: option.split)
  next
    case C_Stub_Tail
    have "mq_pushed q = mq_popped q" if "mq_tail q = stub"
    proof -
      have "hd L = last L" using s(3,7) C_Stub_Tail that by simp
      then have "L = [stub]" using hd_last_single [OF s(1,4)] s(3) that by simp
      then show ?thesis using P(1) by simp
    qed
    then have e: "\<forall>e \<in> set (mq_empties (PopWeak_step q)). e" using P(2) C_Stub_Tail by (auto simp: PopWeak_step_def)
    have "shape L (mq_head q) (mq_tail q) ?n ?ps C_Idle ?us" using shape_cons [OF S] C_Stub_Tail by simp
    then show ?thesis using P(1) e C_Stub_Tail by (intro exI [of _ L] mpsc_invI) (auto simp: PopWeak_step_def)
  next
    case (C_Next h)
    then show ?thesis using go [of "C_Tail h"] pop s(2,7) by (auto simp: PopWeak_step_def split: option.split)
  next
    case (C_Tail h)
    have "stub \<notin> set L" if "mq_tail q = h"
    proof -
      have "hd L = last L" "hd L \<noteq> stub" using s(3,7) C_Tail that by auto
      then show ?thesis using hd_last_single [OF s(1,4)] by (metis empty_iff insert_iff list.set(1) list.simps(15))
    qed
    then show ?thesis using go [of C_Idle] go [of "C_Store h"] C_Tail s(7) by (auto simp: PopWeak_step_def)
  next
    case (C_Store h)
    have c: "stub \<notin> set L" "hd L = h" using s(7) C_Store by auto
    have "shape L (mq_head q) (mq_tail q) (?n(stub := None)) ?ps (C_Store h) ?us"
      using shape_store [OF S, of stub] c s(8) C_Store by auto
    then have "shape L (mq_head q) (mq_tail q) (?n(stub := None)) ?ps (C_Exchange h) ?us" by (rule shape_cons) (use c in auto)
    then show ?thesis using P C_Store by (intro exI [of _ L] mpsc_invI) (auto simp: PopWeak_step_def)
  next
    case (C_Exchange h)
    then have "shape (L @ [stub]) (mq_head q) stub ?n ?ps (C_Link h (mq_tail q)) ?us" using shape_push_stub [of L "mq_head q"] S s(2,7) by auto
    then show ?thesis using P C_Exchange by (intro exI [of _ "L @ [stub]"] mpsc_invI) (auto simp: PopWeak_step_def)
  next
    case (C_Link h a)
    then have "shape L (mq_head q) (mq_tail q) (?n(a := Some stub)) ?ps (C_Last h) ?us" using shape_link_stub [of L "mq_head q"] S s(2,7) by auto
    then show ?thesis using P C_Link by (intro exI [of _ L] mpsc_invI) (auto simp: PopWeak_step_def)
  next
    case (C_Last h)
    then show ?thesis using go [of C_Idle] pop s(2,7) by (auto simp: PopWeak_step_def split: option.split)
  qed
qed

lemma mpsc_step_inv:
  assumes I: "mpsc_inv L q"
  shows "\<exists>L'. mpsc_inv L' (mpsc_step ev q)"
proof (cases ev)
  case (Begin_Push t n)
  have S: "shape L (mq_head q) (mq_tail q) (mq_next q) (mq_prods q) (mq_cons q) (mq_used q)" using I by (simp add: mpsc_inv_def)
  note s = shapeD [OF S]
  have "mpsc_inv L (p_goto t (P_Store n) (q\<lparr>mq_used := n # mq_used q\<rparr>))" if g: "mq_prods q t = P_Idle" "n \<noteq> stub" "n \<notin> set (mq_used q)"
  proof -
    let ?ps = "(mq_prods q)(t := P_Store n)"
    have "linked (mq_next q) (missing ?ps (mq_cons q)) L" by (rule linked_mono [OF s(5)]) (use g(1) in \<open>auto intro: missing_goto\<close>)
    moreover have "prod_ok (mq_next q) L (?ps u)" for u using s(6) [of u] s(10) g(2,3) by auto
    moreover have "m \<noteq> stub \<and> m \<in> set (n # mq_used q)" if "p_item (?ps u) = Some m" for u m
      using s(8) [of u m] that g(2) by (auto split: if_splits)
    moreover have "u = v" if "p_item (?ps u) = Some m" "p_item (?ps v) = Some m" for u v m
    proof (cases "m = n")
      case True
      then have "w = t" if "p_item (?ps w) = Some m" for w using s(8) [of w m] that g(3) by (auto split: if_splits)
      then show ?thesis using that by blast
    next
      case False
      then have "p_item (mq_prods q w) = Some m" if "p_item (?ps w) = Some m" for w using that by (auto split: if_splits)
      then show ?thesis using s(9) that by blast
    qed
    moreover have "set L \<subseteq> insert stub (set (n # mq_used q))" using s(10) by auto
    ultimately have "shape L (mq_head q) (mq_tail q) (mq_next q) ?ps (mq_cons q) (n # mq_used q)"
      using s(1-4,7) unfolding shape_def by blast
    then show ?thesis using I by (auto simp: mpsc_inv_def p_goto_def)
  qed
  then show ?thesis using I Begin_Push by (cases "mq_prods q t = P_Idle \<and> n \<noteq> stub \<and> n \<notin> set (mq_used q)") auto
qed (use Push_step_inv [OF I] PopWeak_step_inv [OF I] in auto)

text \<open>(C28) Under every schedule of any number of producers and one consumer, nodes are popped in the order in which their
  producers exchanged the tail, none is lost and none is popped twice: the nodes pushed are the nodes popped followed by
  the distinct nodes still between head and tail; and \<open>PopWeak\<close> reports an empty queue only when everything pushed was popped.\<close>

theorem mpsc_correct:
  "\<exists>ws. mq_pushed (fold mpsc_step evs mpsc_init) = mq_popped (fold mpsc_step evs mpsc_init) @ ws \<and> distinct ws \<and>
    (\<forall>e \<in> set (mq_empties (fold mpsc_step evs mpsc_init)). e)"
proof -
  have "\<exists>L'. mpsc_inv L' (fold mpsc_step evs q)" if "mpsc_inv L q" for L q
    using that
  proof (induction evs arbitrary: L q)
    case (Cons ev evs)
    then show ?case using mpsc_step_inv [OF Cons.prems, of ev] by auto
  qed auto
  moreover have "mpsc_inv [stub] mpsc_init" by (simp add: mpsc_inv_def shape_def mpsc_init_def)
  ultimately obtain L where L: "mpsc_inv L (fold mpsc_step evs mpsc_init)" by blast
  then show ?thesis by (auto simp: mpsc_inv_def shape_def)
qed

theorem mpsc_correct_witness:
  "\<exists>ws. mq_pushed (fold mpsc_step [Begin_Push 1 5, Begin_Push 2 6, Push_On 1, Push_On 2, Push_On 2, Push_On 1, Push_On 2, Pop_On, Pop_On, Push_On 1, Pop_On] mpsc_init) =
      mq_popped (fold mpsc_step [Begin_Push 1 5, Begin_Push 2 6, Push_On 1, Push_On 2, Push_On 2, Push_On 1, Push_On 2, Pop_On, Pop_On, Push_On 1, Pop_On] mpsc_init) @ ws \<and> distinct ws"
  using mpsc_correct [of "[Begin_Push 1 5, Begin_Push 2 6, Push_On 1, Push_On 2, Push_On 2, Push_On 1, Push_On 2, Pop_On, Pop_On, Push_On 1, Pop_On]"] by blast

end
