(* ===== verification/Lock_Step.thy ===== *)
theory Lock_Step
  imports Prelude
begin

text \<open>
  The interface of the locks: a step function for the threads that compete, an invariant of the state, and the
  threads that hold the lock. The law is that no step fails and every step keeps the invariant, under which two
  holders are the same thread; mutual exclusion follows for every schedule.
\<close>

locale lock_step =
  fixes step :: "'e \<Rightarrow> 's \<Rightarrow> 's option" and inv :: "'s \<Rightarrow> bool" and holder :: "'s \<Rightarrow> nat \<Rightarrow> bool"
  assumes inv_step: "inv s \<Longrightarrow> \<exists>s'. step e s = Some s' \<and> inv s'"
    and one_holder: "inv s \<Longrightarrow> holder s t \<Longrightarrow> holder s u \<Longrightarrow> t = u"
begin

lemma inv_run: "inv s \<Longrightarrow> \<exists>s'. foldM step es s = Some s' \<and> inv s'"
proof (induction es arbitrary: s)
  case (Cons e es)
  obtain s' where "step e s = Some s'" "inv s'" using inv_step [OF Cons.prems] by blast
  then show ?case using Cons.IH by auto
qed simp

lemma exclusion:
  assumes "inv s"
  shows "\<exists>s'. foldM step es s = Some s' \<and> inv s' \<and> (\<forall>t u. holder s' t \<longrightarrow> holder s' u \<longrightarrow> t = u)"
  using inv_run [OF assms] one_holder by blast

end

end
