(* ===== verification/Async_Mutex.thy ===== *)
theory Async_Mutex
  imports Lock_Step
begin

text \<open>
  \<open>cppcoro::async_mutex\<close> of \<open>net/cppcoro/async_mutex.hpp\<close> and \<open>.cpp\<close>: the state word that is free, locked or the
  head of a stack of waiting operations, the list of waiters of the owner, and the lock operation. Coroutines
  are cut at their accesses to the state word; a waiting operation is named by its coroutine. Accesses are
  sequentially consistent; \<open>sp\<close> is a spurious failure of a weak exchange.
\<close>

datatype mstate = Not_Locked | Locked_No_Waiters | Waiters nat

text \<open>The points: before the load of \<open>await_suspend\<close>, before its exchange with the value of \<open>oldState\<close>, suspended, owner,
  and in \<open>unlock\<close> before the list of new waiters is taken.\<close>

datatype mutex_pc = M_Idle | M_Load | M_Cas mstate | M_Suspended | M_Owner | M_Take

datatype mutex_call = Lock_Async | Try_Lock | Unlock

text \<open>\<open>m_next\<close> are the links of the operations. The last two fields record history: the operations that were
  queued, and those that were resumed.\<close>

record async_mutex =
  m_state :: mstate
  m_waiters :: "nat option"
  m_next :: "nat \<Rightarrow> nat option"
  m_pcs :: "nat \<Rightarrow> mutex_pc"
  m_queued :: "nat list"
  m_granted :: "nat list"

definition async_mutex_init :: async_mutex where
  "async_mutex_init = \<lparr>m_state = Not_Locked, m_waiters = None, m_next = (\<lambda>_. None), m_pcs = (\<lambda>_. M_Idle), m_queued = [], m_granted = []\<rparr>"

definition m_goto :: "nat \<Rightarrow> mutex_pc \<Rightarrow> async_mutex \<Rightarrow> async_mutex" where
  "m_goto t pc m = m\<lparr>m_pcs := (m_pcs m)(t := pc)\<rparr>"

definition m_try_lock :: "nat \<Rightarrow> async_mutex \<Rightarrow> async_mutex" where
  "m_try_lock t m = (if m_state m = Not_Locked then m_goto t M_Owner (m\<lparr>m_state := Locked_No_Waiters\<rparr>) else m)"

text \<open>The state word read as a pointer to an operation; \<open>Locked_No_Waiters\<close> is the null pointer.\<close>

fun as_pointer :: "mstate \<Rightarrow> nat option" where
  "as_pointer (Waiters p) = Some p"
| "as_pointer _ = None"

definition await_suspend :: "nat \<Rightarrow> mstate \<Rightarrow> bool \<Rightarrow> async_mutex \<Rightarrow> async_mutex" where
  "await_suspend t oldState sp m = (
     if m_state m \<noteq> oldState \<or> sp then m_goto t (M_Cas (m_state m)) m
     else if oldState = Not_Locked then m_goto t M_Owner (m\<lparr>m_state := Locked_No_Waiters\<rparr>)
     else m_goto t M_Suspended (m\<lparr>m_next := (m_next m)(t := as_pointer oldState), m_state := Waiters t, m_queued := m_queued m @ [t]\<rparr>))"

text \<open>The loop of \<open>unlock\<close> that moves the new waiters to the list of the owner and reverses them.\<close>

partial_function (option) move_waiters :: "(nat \<Rightarrow> nat option) \<Rightarrow> nat \<Rightarrow> nat option \<Rightarrow> ((nat \<Rightarrow> nat option) \<times> nat) option" where
  "move_waiters nx cur waitersHead = (
     let temp = nx cur; nx = nx(cur := waitersHead) in
     case temp of None \<Rightarrow> Some (nx, cur) | Some p \<Rightarrow> move_waiters nx p (Some cur))"

text \<open>The end of \<open>unlock\<close>: the first waiter becomes the owner.\<close>

definition resume_waiter :: "nat \<Rightarrow> nat \<Rightarrow> async_mutex \<Rightarrow> async_mutex" where
  "resume_waiter t waitersHead m =
     m\<lparr>m_waiters := m_next m waitersHead, m_pcs := (m_pcs m)(t := M_Idle, waitersHead := M_Owner), m_granted := m_granted m @ [waitersHead]\<rparr>"

definition m_unlock :: "nat \<Rightarrow> async_mutex \<Rightarrow> async_mutex option" where
  "m_unlock t m = do {
     assert_opt (m_state m \<noteq> Not_Locked);
     case m_waiters m of
       Some waitersHead \<Rightarrow> Some (resume_waiter t waitersHead m)
     | None \<Rightarrow>
         if m_state m = Locked_No_Waiters then Some (m_goto t M_Idle (m\<lparr>m_state := Not_Locked\<rparr>))
         else Some (m_goto t M_Take m) }"

definition m_unlock_take :: "nat \<Rightarrow> async_mutex \<Rightarrow> async_mutex option" where
  "m_unlock_take t m = do {
     let oldState = m_state m;
     let m = m\<lparr>m_state := Locked_No_Waiters\<rparr>;
     assert_opt (oldState \<noteq> Locked_No_Waiters \<and> oldState \<noteq> Not_Locked);
     new \<leftarrow> as_pointer oldState;
     (nx, waitersHead) \<leftarrow> move_waiters (m_next m) new None;
     Some (resume_waiter t waitersHead (m\<lparr>m_next := nx\<rparr>)) }"

text \<open>One access of coroutine \<open>t\<close>. A coroutine outside the lock asks for it, an owner gives it up, and a suspended
  one waits; a call out of turn is skipped. \<open>None\<close> is a failed assertion, a null pointer or a loop that does not end.\<close>

fun mutex_step :: "nat \<times> mutex_call \<times> bool \<Rightarrow> async_mutex \<Rightarrow> async_mutex option" where
  "mutex_step (t, call, sp) m = (case m_pcs m t of
     M_Idle \<Rightarrow> Some (case call of Lock_Async \<Rightarrow> m_goto t M_Load m | Try_Lock \<Rightarrow> m_try_lock t m | Unlock \<Rightarrow> m)
   | M_Load \<Rightarrow> Some (m_goto t (M_Cas (m_state m)) m)
   | M_Cas oldState \<Rightarrow> Some (await_suspend t oldState sp m)
   | M_Suspended \<Rightarrow> Some m
   | M_Owner \<Rightarrow> (case call of Unlock \<Rightarrow> m_unlock t m | _ \<Rightarrow> Some m)
   | M_Take \<Rightarrow> m_unlock_take t m)"

definition m_holds :: "async_mutex \<Rightarrow> nat \<Rightarrow> bool" where
  "m_holds m t \<longleftrightarrow> m_pcs m t = M_Owner \<or> m_pcs m t = M_Take"

subsection \<open>Lists of operations\<close>

fun chain :: "(nat \<Rightarrow> nat option) \<Rightarrow> nat option \<Rightarrow> nat list \<Rightarrow> bool" where
  "chain nx p [] \<longleftrightarrow> p = None"
| "chain nx p (x # xs) \<longleftrightarrow> p = Some x \<and> chain nx (nx x) xs"

lemma chain_upd: "x \<notin> set xs \<Longrightarrow> chain (nx(x := v)) p xs \<longleftrightarrow> chain nx p xs"
  by (induction xs arbitrary: p) auto

lemma chain_None: "chain nx None xs \<longleftrightarrow> xs = []"
  by (cases xs) auto

lemma chain_Some: "chain nx (Some x) xs \<longleftrightarrow> (\<exists>ys. xs = x # ys \<and> chain nx (nx x) ys)"
  by (cases xs) auto

lemma move_waiters_rev:
  "chain nx (Some cur) (cur # xs) \<Longrightarrow> chain nx hd' ys \<Longrightarrow> distinct (cur # xs @ ys) \<Longrightarrow>
     \<exists>nx' h zs. move_waiters nx cur hd' = Some (nx', h) \<and> rev (cur # xs) @ ys = h # zs \<and> chain nx' (Some h) (h # zs)"
proof (induction xs arbitrary: nx cur hd' ys)
  case Nil
  then show ?case by (simp add: move_waiters.simps Let_def chain_upd chain_None)
next
  case (Cons x xs)
  have n: "nx cur = Some x" using Cons.prems(1) by simp
  have c: "chain (nx(cur := hd')) (Some x) (x # xs)" "chain (nx(cur := hd')) (Some cur) (cur # ys)" "distinct (x # xs @ cur # ys)"
    using Cons.prems by (auto simp: chain_upd)
  have "\<exists>nx' h zs. move_waiters (nx(cur := hd')) x (Some cur) = Some (nx', h) \<and> rev (x # xs) @ cur # ys = h # zs \<and> chain nx' (Some h) (h # zs)"
    by (rule Cons.IH [OF c])
  then show ?case using n by (subst move_waiters.simps) (simp add: Let_def)
qed

subsection \<open>The invariant\<close>

text \<open>The stack \<open>S\<close> of new waiters, the list \<open>Q\<close> of the owner and the owner itself.\<close>

definition m_rep :: "async_mutex \<Rightarrow> nat list \<Rightarrow> nat list \<Rightarrow> nat option \<Rightarrow> bool" where
  "m_rep m S Q ow \<longleftrightarrow> chain (m_next m) (as_pointer (m_state m)) S \<and> chain (m_next m) (m_waiters m) Q \<and> distinct (S @ Q) \<and>
     (\<forall>t. m_pcs m t = M_Suspended \<longleftrightarrow> t \<in> set (S @ Q)) \<and> (\<forall>t. m_holds m t \<longleftrightarrow> ow = Some t) \<and>
     (m_state m = Not_Locked \<longleftrightarrow> ow = None) \<and> (ow = None \<longrightarrow> Q = []) \<and>
     (\<forall>t. m_pcs m t = M_Take \<longrightarrow> S \<noteq> [] \<and> Q = []) \<and> m_queued m = m_granted m @ Q @ rev S"

definition m_inv :: "async_mutex \<Rightarrow> bool" where
  "m_inv m \<longleftrightarrow> (\<exists>S Q ow. m_rep m S Q ow)"

lemma m_rep_goto:
  assumes "m_rep m S Q ow" "\<not> m_holds m t" "m_pcs m t \<noteq> M_Suspended" "pc \<noteq> M_Suspended" "pc \<noteq> M_Owner" "pc \<noteq> M_Take"
  shows "m_rep (m_goto t pc m) S Q ow"
  using assms unfolding m_rep_def m_goto_def m_holds_def by auto

lemma m_rep_owner:
  assumes "m_rep m S Q (Some t)"
  shows "t \<notin> set S" "t \<notin> set Q" "m_pcs m t \<noteq> M_Suspended"
proof -
  have "m_holds m t" using assms by (simp add: m_rep_def)
  then show "m_pcs m t \<noteq> M_Suspended" by (auto simp: m_holds_def)
  then show "t \<notin> set S" "t \<notin> set Q" using assms by (auto simp: m_rep_def)
qed

lemma m_rep_free:
  assumes "m_rep m S Q ow" "m_state m = Not_Locked"
  shows "S = []" "Q = []" "ow = None"
  using assms unfolding m_rep_def by (auto simp: chain_None)

lemma m_rep_acquire:
  assumes "m_rep m S Q ow" "m_state m = Not_Locked" "m_pcs m t \<noteq> M_Suspended"
  shows "m_rep (m_goto t M_Owner (m\<lparr>m_state := Locked_No_Waiters\<rparr>)) [] [] (Some t)"
  using assms m_rep_free [OF assms(1,2)] unfolding m_rep_def m_goto_def m_holds_def by (auto simp: chain_None)

lemma m_rep_push:
  assumes "m_rep m S Q ow" "m_state m \<noteq> Not_Locked" "\<not> m_holds m t" "m_pcs m t \<noteq> M_Suspended"
  shows "m_rep (m_goto t M_Suspended (m\<lparr>m_next := (m_next m)(t := as_pointer (m_state m)), m_state := Waiters t, m_queued := m_queued m @ [t]\<rparr>)) (t # S) Q ow"
proof -
  have "t \<notin> set S" "t \<notin> set Q" using assms(1,4) by (auto simp: m_rep_def)
  then show ?thesis using assms unfolding m_rep_def m_goto_def m_holds_def by (auto simp: chain_upd)
qed

lemma m_rep_resume:
  assumes "m_rep m S (h # Q) (Some t)"
  shows "m_rep (resume_waiter t h m) S Q (Some h)"
proof -
  note o = m_rep_owner [OF assms]
  let ?m = "resume_waiter t h m"
  have own: "\<forall>u. m_holds m u \<longleftrightarrow> t = u" and susp: "\<forall>u. m_pcs m u = M_Suspended \<longleftrightarrow> u \<in> set (S @ h # Q)"
    and d: "distinct (S @ h # Q)" using assms by (auto simp: m_rep_def)
  have "\<forall>u. m_holds ?m u \<longleftrightarrow> Some h = Some u" using own by (auto simp: resume_waiter_def m_holds_def)
  moreover have "\<forall>u. m_pcs ?m u = M_Suspended \<longleftrightarrow> u \<in> set (S @ Q)" using susp d o by (auto simp: resume_waiter_def)
  moreover have "\<forall>u. m_pcs ?m u \<noteq> M_Take" using own by (auto simp: resume_waiter_def m_holds_def)
  ultimately show ?thesis using assms unfolding m_rep_def by (auto simp: resume_waiter_def)
qed

lemma m_rep_release:
  assumes "m_rep m S [] (Some t)" "m_state m = Locked_No_Waiters"
  shows "m_rep (m_goto t M_Idle (m\<lparr>m_state := Not_Locked\<rparr>)) S [] None"
  using assms unfolding m_rep_def m_goto_def m_holds_def by (auto simp: chain_None)

lemma m_rep_take:
  assumes "m_rep m S [] (Some t)" "m_state m \<noteq> Locked_No_Waiters"
  shows "m_rep (m_goto t M_Take m) S [] (Some t)"
  using assms m_rep_owner [OF assms(1)] unfolding m_rep_def m_goto_def m_holds_def by (cases "m_state m") (auto simp: chain_Some)

lemma m_unlock_rep:
  assumes "m_rep m S Q ow" "m_pcs m t = M_Owner"
  shows "\<exists>m' S' Q' ow'. m_unlock t m = Some m' \<and> m_rep m' S' Q' ow'"
proof -
  have ow: "ow = Some t" "m_state m \<noteq> Not_Locked" using assms by (auto simp: m_rep_def m_holds_def)
  have q: "chain (m_next m) (m_waiters m) Q" using assms(1) by (simp add: m_rep_def)
  show ?thesis
  proof (cases Q)
    case Nil
    then show ?thesis using q ow m_rep_release [of m S t] m_rep_take [of m S t] assms(1) by (auto simp: m_unlock_def)
  next
    case (Cons h Q')
    then show ?thesis using q ow m_rep_resume [of m S h Q' t] assms(1) by (auto simp: m_unlock_def)
  qed
qed

lemma m_unlock_take_rep:
  assumes R: "m_rep m S Q ow" and pc: "m_pcs m t = M_Take"
  shows "\<exists>m' S' Q' ow'. m_unlock_take t m = Some m' \<and> m_rep m' S' Q' ow'"
proof -
  have ow: "ow = Some t" and S: "S \<noteq> []" "Q = []" using assms by (auto simp: m_rep_def m_holds_def)
  obtain x xs where xs: "S = x # xs" using S(1) by (cases S) auto
  have st: "m_state m = Waiters x" and ch: "chain (m_next m) (Some x) (x # xs)" "distinct (x # xs)"
    using R xs S(2) by (cases "m_state m"; auto simp: m_rep_def)+
  obtain nx h zs where mv: "move_waiters (m_next m) x None = Some (nx, h)" "rev (x # xs) = h # zs" "chain nx (Some h) (h # zs)"
    using move_waiters_rev [OF ch(1), of None "[]"] ch(2) by auto
  let ?m = "m\<lparr>m_state := Locked_No_Waiters, m_waiters := Some h, m_next := nx\<rparr>"
  have set: "set (h # zs) = set S" "distinct (h # zs)" using mv(2) xs ch(2) by (metis set_rev, metis distinct_rev)
  have "t \<noteq> h" using m_rep_owner(1) [OF R [unfolded ow]] set(1) by auto
  moreover have "\<forall>u. m_holds m u \<longleftrightarrow> t = u" "\<forall>u. m_pcs m u = M_Suspended \<longleftrightarrow> u \<in> set (h # zs)" "m_queued m = m_granted m @ rev S"
    using R ow S(2) set(1) by (auto simp: m_rep_def)
  ultimately have "m_rep (m_goto t M_Owner ?m) [] (h # zs) (Some t)"
    using mv(2,3) set(2) xs pc by (auto simp: m_rep_def m_goto_def m_holds_def)
  then have "m_rep (resume_waiter t h (m_goto t M_Owner ?m)) [] zs (Some h)" by (rule m_rep_resume)
  moreover have "m_unlock_take t m = Some (resume_waiter t h (m_goto t M_Owner ?m))"
    using st mv(1) by (simp add: m_unlock_take_def Let_def resume_waiter_def m_goto_def)
  ultimately show ?thesis by blast
qed

lemma mutex_step_rep:
  assumes R: "m_rep m S Q ow"
  shows "\<exists>m' S' Q' ow'. mutex_step (t, call, sp) m = Some m' \<and> m_rep m' S' Q' ow'"
proof (cases "m_pcs m t")
  case M_Idle
  then show ?thesis using R m_rep_goto [OF R, of t M_Load] m_rep_acquire [OF R, of t]
    by (cases call) (auto simp: m_try_lock_def m_holds_def)
next
  case M_Load
  then show ?thesis using m_rep_goto [OF R, of t "M_Cas (m_state m)"] by (auto simp: m_holds_def)
next
  case (M_Cas old)
  then show ?thesis using m_rep_goto [OF R, of t "M_Cas (m_state m)"] m_rep_acquire [OF R, of t] m_rep_push [OF R, of t]
    by (auto simp: await_suspend_def m_holds_def)
next
  case M_Suspended
  then show ?thesis using R by auto
next
  case M_Owner
  then show ?thesis using R m_unlock_rep [OF R M_Owner] by (cases call) auto
next
  case M_Take
  then show ?thesis using m_unlock_take_rep [OF R M_Take] by auto
qed

interpretation async_mutex_lock: lock_step mutex_step m_inv m_holds
proof
  show "\<exists>m'. mutex_step e m = Some m' \<and> m_inv m'" if "m_inv m" for e m
    using that mutex_step_rep [of m _ _ _ "fst e" "fst (snd e)" "snd (snd e)"] unfolding m_inv_def by (cases e) force
  show "t = u" if "m_inv m" "m_holds m t" "m_holds m u" for m t u
    using that by (auto simp: m_inv_def m_rep_def)
qed

text \<open>(C10) Under every schedule at most one coroutine owns the mutex, no assertion fails and \<open>unlock\<close> returns; ownership
  passes to the waiters in the order in which they queued: those resumed are a prefix of those that queued, the
  suspended coroutines are exactly the rest, and none is suspended while the mutex is free.\<close>

theorem async_mutex_correct:
  "\<exists>m ws. foldM mutex_step es async_mutex_init = Some m \<and> (\<forall>t u. m_holds m t \<longrightarrow> m_holds m u \<longrightarrow> t = u) \<and>
    m_queued m = m_granted m @ ws \<and> distinct ws \<and> (\<forall>t. m_pcs m t = M_Suspended \<longleftrightarrow> t \<in> set ws) \<and>
    (m_state m = Not_Locked \<longrightarrow> ws = [] \<and> (\<forall>t. \<not> m_holds m t))"
proof -
  have "m_rep async_mutex_init [] [] None" by (simp add: m_rep_def async_mutex_init_def m_holds_def)
  then obtain m where m: "foldM mutex_step es async_mutex_init = Some m" "m_inv m" "\<forall>t u. m_holds m t \<longrightarrow> m_holds m u \<longrightarrow> t = u"
    using async_mutex_lock.exclusion [of async_mutex_init es] unfolding m_inv_def by blast
  obtain S Q ow where R: "m_rep m S Q ow" using m(2) by (auto simp: m_inv_def)
  have "m_queued m = m_granted m @ (Q @ rev S)" "distinct (Q @ rev S)" "\<forall>t. m_pcs m t = M_Suspended \<longleftrightarrow> t \<in> set (Q @ rev S)"
    using R by (auto simp: m_rep_def)
  moreover have "Q @ rev S = [] \<and> (\<forall>t. \<not> m_holds m t)" if "m_state m = Not_Locked"
    using m_rep_free [OF R that] R by (auto simp: m_rep_def)
  ultimately show ?thesis using m(1,3) by blast
qed

theorem async_mutex_correct_witness:
  "\<exists>m ws. foldM mutex_step [(0, Try_Lock, False), (1, Lock_Async, False), (2, Lock_Async, False), (1, Lock_Async, False), (2, Lock_Async, False),
       (1, Lock_Async, False), (2, Lock_Async, False), (2, Lock_Async, False), (0, Unlock, False), (0, Unlock, False)] async_mutex_init = Some m \<and>
     (\<forall>t u. m_holds m t \<longrightarrow> m_holds m u \<longrightarrow> t = u) \<and> m_queued m = m_granted m @ ws"
  using async_mutex_correct [of "[(0, Try_Lock, False), (1, Lock_Async, False), (2, Lock_Async, False), (1, Lock_Async, False), (2, Lock_Async, False),
       (1, Lock_Async, False), (2, Lock_Async, False), (2, Lock_Async, False), (0, Unlock, False), (0, Unlock, False)]"] by blast

end
