(* ===== verification/Spin_Lock.thy ===== *)
theory Spin_Lock
  imports Lock_Step
begin

text \<open>
  \<open>SpinLock\<close> of \<open>net/util/spinlock.hpp\<close>, cut at its accesses to the lock word: every thread is at a point of the
  source between two accesses, and a schedule lets one thread make its next access. Accesses are sequentially
  consistent; \<open>sp\<close> is a spurious failure of a weak exchange.
\<close>

definition kLocked :: u32 where
  "kLocked = 1"

definition kSleeper :: u32 where
  "kSleeper = 8"

text \<open>The points: before the first exchange of \<open>lock\<close>, in the loop of \<open>slowLock\<close> before the load and before the exchange
  at round \<open>i\<close>, in the endless loop before the exchange and before the load.\<close>

datatype spin_pc = S_Idle | S_Lock | S_Load nat | S_Cas nat u32 | S_Spin u32 | S_Reload | S_Held

datatype spin_call = Spin_Lock | Spin_Try_Lock | Spin_Unlock

record spin =
  lockword :: u32
  spin_pcs :: "nat \<Rightarrow> spin_pc"

definition SpinLock_init :: spin where
  "SpinLock_init = \<lparr>lockword = 0, spin_pcs = (\<lambda>_. S_Idle)\<rparr>"

definition spin_goto :: "nat \<Rightarrow> spin_pc \<Rightarrow> spin \<Rightarrow> spin" where
  "spin_goto t pc s = s\<lparr>spin_pcs := (spin_pcs s)(t := pc)\<rparr>"

definition spin_try_lock :: "nat \<Rightarrow> spin_pc \<Rightarrow> spin \<Rightarrow> spin" where
  "spin_try_lock t fail s = (if lockword s = 0 then spin_goto t S_Held (s\<lparr>lockword := kLocked\<rparr>) else spin_goto t fail s)"

definition spin_unlock :: "nat \<Rightarrow> spin \<Rightarrow> spin" where
  "spin_unlock t s = spin_goto t S_Idle (s\<lparr>lockword := 0\<rparr>)"

definition slowLock_step :: "nat \<Rightarrow> bool \<Rightarrow> spin \<Rightarrow> spin" where
  "slowLock_step t sp s = (case spin_pcs s t of
     S_Load i \<Rightarrow>
       let expected = lockword s in
       spin_goto t (if 100 \<le> i then S_Spin expected else if expected AND kLocked = 0 then S_Cas i expected else S_Load (Suc i)) s
   | S_Cas i expected \<Rightarrow>
       if lockword s = expected \<and> \<not> sp then spin_goto t S_Held (s\<lparr>lockword := kLocked\<rparr>) else spin_goto t (S_Load (Suc i)) s
   | S_Spin expected \<Rightarrow>
       if lockword s = expected \<and> \<not> sp then
         if expected AND kLocked = 0 then spin_goto t S_Held (s\<lparr>lockword := kLocked\<rparr>)
         else spin_goto t S_Reload (s\<lparr>lockword := expected OR kSleeper\<rparr>)
       else spin_goto t S_Reload s
   | S_Reload \<Rightarrow> spin_goto t (S_Spin (lockword s)) s
   | _ \<Rightarrow> s)"

text \<open>One access of thread \<open>t\<close>. A thread outside the lock calls \<open>lock\<close> or \<open>try_lock\<close>, a holder calls \<open>unlock\<close>; a call out
  of turn is skipped.\<close>

fun spin_step :: "nat \<times> spin_call \<times> bool \<Rightarrow> spin \<Rightarrow> spin option" where
  "spin_step (t, call, sp) s = (case spin_pcs s t of
     S_Idle \<Rightarrow> Some (case call of Spin_Lock \<Rightarrow> spin_goto t S_Lock s | Spin_Try_Lock \<Rightarrow> spin_try_lock t S_Idle s | Spin_Unlock \<Rightarrow> s)
   | S_Lock \<Rightarrow> Some (spin_try_lock t (S_Load 0) s)
   | S_Held \<Rightarrow> Some (case call of Spin_Unlock \<Rightarrow> spin_unlock t s | _ \<Rightarrow> s)
   | _ \<Rightarrow> Some (slowLock_step t sp s))"

definition spin_holds :: "spin \<Rightarrow> nat \<Rightarrow> bool" where
  "spin_holds s t \<longleftrightarrow> spin_pcs s t = S_Held"

fun spin_pc_ok :: "spin_pc \<Rightarrow> bool" where
  "spin_pc_ok (S_Cas i e) \<longleftrightarrow> e = 0"
| "spin_pc_ok (S_Spin e) \<longleftrightarrow> e = 0 \<or> e = 1 \<or> e = 9"
| "spin_pc_ok _ \<longleftrightarrow> True"

definition spin_inv :: "spin \<Rightarrow> bool" where
  "spin_inv s \<longleftrightarrow> (\<forall>t. spin_pc_ok (spin_pcs s t)) \<and>
     (lockword s = 0 \<and> (\<forall>t. spin_pcs s t \<noteq> S_Held) \<or> (lockword s = 1 \<or> lockword s = 9) \<and> (\<exists>h. \<forall>t. spin_pcs s t = S_Held \<longleftrightarrow> t = h))"

lemma spin_inv_free: "spin_inv s \<Longrightarrow> lockword s = 0 \<Longrightarrow> spin_inv (spin_goto t S_Held (s\<lparr>lockword := kLocked\<rparr>))"
  by (auto simp: spin_inv_def spin_goto_def kLocked_def)

lemma spin_inv_goto: "spin_inv s \<Longrightarrow> spin_pcs s t \<noteq> S_Held \<Longrightarrow> pc \<noteq> S_Held \<Longrightarrow> spin_pc_ok pc \<Longrightarrow> spin_inv (spin_goto t pc s)"
  by (auto simp: spin_inv_def spin_goto_def)

lemma spin_inv_word: "spin_inv s \<Longrightarrow> lockword s = 0 \<or> lockword s = 1 \<or> lockword s = 9"
  by (auto simp: spin_inv_def)

lemma spin_inv_sleeper: "spin_inv s \<Longrightarrow> lockword s = 1 \<or> lockword s = 9 \<Longrightarrow> spin_inv (s\<lparr>lockword := 9\<rparr>)"
  by (auto simp: spin_inv_def)

lemma spin_inv_unlock: "spin_inv s \<Longrightarrow> spin_pcs s t = S_Held \<Longrightarrow> spin_inv (spin_unlock t s)"
  by (auto simp: spin_inv_def spin_goto_def spin_unlock_def)

lemma slowLock_inv:
  assumes "spin_inv s" "spin_pcs s t \<noteq> S_Held"
  shows "spin_inv (slowLock_step t sp s)"
proof -
  note g = spin_inv_goto [OF assms] and w = spin_inv_word [OF assms(1)] and f = spin_inv_free [OF assms(1)]
  have ok: "spin_pc_ok (spin_pcs s t)" using assms(1) by (simp add: spin_inv_def)
  have bits: "(0 :: u32) AND kLocked = 0" "1 AND kLocked \<noteq> 0" "9 AND kLocked \<noteq> 0" "1 OR kSleeper = 9" "9 OR kSleeper = 9"
    by (simp_all add: kLocked_def kSleeper_def)
  show ?thesis
  proof (cases "spin_pcs s t")
    case (S_Load i)
    then show ?thesis using g w bits by (auto simp: slowLock_step_def Let_def)
  next
    case (S_Cas i e)
    then show ?thesis using g f ok by (auto simp: slowLock_step_def)
  next
    case (S_Spin e)
    have "spin_inv (spin_goto t S_Reload (s\<lparr>lockword := 9\<rparr>))" if "lockword s = 1 \<or> lockword s = 9"
      using spin_inv_goto [OF spin_inv_sleeper [OF assms(1) that]] assms(2) by simp
    then show ?thesis using S_Spin g f ok bits by (auto simp: slowLock_step_def)
  next
    case S_Reload
    then show ?thesis using g w by (auto simp: slowLock_step_def)
  qed (use assms in \<open>auto simp: slowLock_step_def\<close>)
qed

interpretation spin_lock: lock_step spin_step spin_inv spin_holds
proof
  show "\<exists>s'. spin_step e s = Some s' \<and> spin_inv s'" if I: "spin_inv s" for e s
  proof -
    obtain t call sp where e: "e = (t, call, sp)" by (cases e) auto
    show ?thesis
      using I spin_inv_goto [OF I, of t] spin_inv_free [OF I, of t] spin_inv_unlock [OF I, of t] slowLock_inv [OF I, of t sp]
      by (cases "spin_pcs s t"; cases call) (auto simp: e spin_try_lock_def)
  qed
  show "t = u" if "spin_inv s" "spin_holds s t" "spin_holds s u" for s t u
    using that by (auto simp: spin_inv_def spin_holds_def)
qed

text \<open>Under every schedule of any number of threads at most one thread holds the spin lock, and the lock word is
  free exactly when none does.\<close>

theorem spin_exclusion:
  "\<exists>s. foldM spin_step es SpinLock_init = Some s \<and> (\<forall>t u. spin_holds s t \<longrightarrow> spin_holds s u \<longrightarrow> t = u) \<and>
    (lockword s AND kLocked = 0 \<longleftrightarrow> (\<forall>t. \<not> spin_holds s t))"
proof -
  have "spin_inv SpinLock_init" by (simp add: spin_inv_def SpinLock_init_def)
  then obtain s where s: "foldM spin_step es SpinLock_init = Some s" "spin_inv s" "\<forall>t u. spin_holds s t \<longrightarrow> spin_holds s u \<longrightarrow> t = u"
    using spin_lock.exclusion by blast
  moreover have "lockword s AND kLocked = 0 \<longleftrightarrow> (\<forall>t. \<not> spin_holds s t)"
    using s(2) by (auto simp: spin_inv_def spin_holds_def kLocked_def)
  ultimately show ?thesis by blast
qed

theorem spin_exclusion_witness:
  "\<exists>s. foldM spin_step [(0, Spin_Lock, False), (1, Spin_Lock, False), (1, Spin_Lock, False), (0, Spin_Lock, False), (0, Spin_Lock, False)] SpinLock_init = Some s \<and>
    (\<forall>t u. spin_holds s t \<longrightarrow> spin_holds s u \<longrightarrow> t = u)"
  using spin_exclusion [of "[(0, Spin_Lock, False), (1, Spin_Lock, False), (1, Spin_Lock, False), (0, Spin_Lock, False), (0, Spin_Lock, False)]"] by blast

end
