(* ===== verification/Pod_Array.thy ===== *)
theory Pod_Array
  imports Prelude
begin

text \<open>
  \<open>PODArray\<close> of \<open>net/util/pmr/pod_array.h\<close>, at the level of bytes: a block from a memory resource and the end of the
  used part. \<open>E\<close> is the size of an element, \<open>A\<close> the alignment. A byte that was never written is \<open>None\<close>; an operation that
  writes outside the block, or returns a block to a resource that did not give it, has no result. Sizes are below \<open>2 ^ 64\<close>.
\<close>

type_synonym bytes = "u8 option list"

text \<open>\<open>c_from\<close> is the resource that gave the block.\<close>

record PODArray =
  c_block :: "bytes option"
  c_end :: nat
  c_from :: nat
  pod_mr :: nat

text \<open>\<open>absl::bit_ceil\<close>.\<close>

function bit_ceil_from :: "nat \<Rightarrow> nat \<Rightarrow> nat" where
  "bit_ceil_from p n = (if p = 0 \<or> n \<le> p then p else bit_ceil_from (2 * p) n)"
  by auto

termination
  by (relation "measure (\<lambda>(p, n). n - p)") auto

declare bit_ceil_from.simps [simp del]

definition bit_ceil :: "nat \<Rightarrow> nat" where
  "bit_ceil n = bit_ceil_from 1 n"

subsection \<open>Memory\<close>

definition pod_bytes :: "PODArray \<Rightarrow> bytes" where
  "pod_bytes p = (case c_block p of None \<Rightarrow> [] | Some b \<Rightarrow> b)"

definition allocated_size :: "PODArray \<Rightarrow> nat" where
  "allocated_size p = length (pod_bytes p)"

text \<open>\<open>memcpy\<close>, \<open>memset\<close> and \<open>std::fill\<close> into the block at an offset.\<close>

definition pod_write :: "nat \<Rightarrow> bytes \<Rightarrow> PODArray \<Rightarrow> PODArray option" where
  "pod_write off bs p = (
     if bs = [] then Some p
     else if off + length bs \<le> allocated_size p
     then Some (p\<lparr>c_block := Some (take off (pod_bytes p) @ bs @ drop (off + length bs) (pod_bytes p))\<rparr>) else None)"

definition pod_alloc :: "nat \<Rightarrow> PODArray \<Rightarrow> PODArray" where
  "pod_alloc bytes p = p\<lparr>c_block := Some (replicate (bit_ceil bytes) None), c_end := 0, c_from := pod_mr p\<rparr>"

definition pod_dealloc :: "PODArray \<Rightarrow> unit option" where
  "pod_dealloc p = (case c_block p of None \<Rightarrow> Some () | Some b \<Rightarrow> assert_opt (c_from p = pod_mr p))"

definition minimum_memory_for_elements :: "nat \<Rightarrow> nat \<Rightarrow> nat \<Rightarrow> nat" where
  "minimum_memory_for_elements E A n = max A (n * E)"

definition pod_realloc :: "nat \<Rightarrow> PODArray \<Rightarrow> PODArray option" where
  "pod_realloc bytes p = (case c_block p of
     None \<Rightarrow> Some (pod_alloc bytes p)
   | Some b \<Rightarrow> do {
       pod_dealloc p;
       p' \<leftarrow> pod_write 0 (take (c_end p) b) (pod_alloc bytes p);
       Some (p'\<lparr>c_end := c_end p\<rparr>) })"

subsection \<open>The array\<close>

definition pod_init :: "nat \<Rightarrow> PODArray" where
  "pod_init mr = \<lparr>c_block = None, c_end = 0, c_from = mr, pod_mr = mr\<rparr>"

definition pod_capacity :: "nat \<Rightarrow> PODArray \<Rightarrow> nat" where
  "pod_capacity E p = allocated_size p div E"

definition pod_size :: "nat \<Rightarrow> PODArray \<Rightarrow> nat" where
  "pod_size E p = c_end p div E"

definition pod_clear :: "PODArray \<Rightarrow> PODArray" where
  "pod_clear p = p\<lparr>c_end := 0\<rparr>"

definition pod_reserve :: "nat \<Rightarrow> nat \<Rightarrow> nat \<Rightarrow> PODArray \<Rightarrow> PODArray option" where
  "pod_reserve E A n p = (if n > pod_capacity E p then pod_realloc (minimum_memory_for_elements E A n) p else Some p)"

definition pod_resize :: "nat \<Rightarrow> nat \<Rightarrow> nat \<Rightarrow> PODArray \<Rightarrow> PODArray option" where
  "pod_resize E A n p = do { p \<leftarrow> pod_reserve E A n p; Some (p\<lparr>c_end := n * E\<rparr>) }"

definition pod_resize_fill :: "nat \<Rightarrow> nat \<Rightarrow> nat \<Rightarrow> PODArray \<Rightarrow> PODArray option" where
  "pod_resize_fill E A n p = do {
     let old_size = pod_size E p;
     p \<leftarrow> (if n > old_size then do { p \<leftarrow> pod_reserve E A n p; pod_write (c_end p) (replicate (n - old_size) (Some 0)) p } else Some p);
     Some (p\<lparr>c_end := n * E\<rparr>) }"

definition pod_resize_fill_value :: "nat \<Rightarrow> nat \<Rightarrow> nat \<Rightarrow> bytes \<Rightarrow> PODArray \<Rightarrow> PODArray option" where
  "pod_resize_fill_value E A n x p = do {
     let old_size = pod_size E p;
     p \<leftarrow> (if n > old_size then do { p \<leftarrow> pod_reserve E A n p; pod_write (c_end p) (concat (replicate (n - old_size) x)) p } else Some p);
     Some (p\<lparr>c_end := n * E\<rparr>) }"

text \<open>\<open>reserve\<close> without an argument; \<open>REAL_MIN_SIZE\<close> is the alignment.\<close>

definition pod_grow :: "nat \<Rightarrow> nat \<Rightarrow> PODArray \<Rightarrow> PODArray option" where
  "pod_grow E A p = (if c_block p = None then Some (pod_alloc (max A (minimum_memory_for_elements E A 1)) p)
     else pod_realloc (minimum_memory_for_elements E A (pod_capacity E p * 2)) p)"

definition push_back :: "nat \<Rightarrow> nat \<Rightarrow> bytes \<Rightarrow> PODArray \<Rightarrow> PODArray option" where
  "push_back E A x p = do {
     p \<leftarrow> (if c_end p = allocated_size p then pod_grow E A p else Some p);
     p \<leftarrow> pod_write (c_end p) x p;
     Some (p\<lparr>c_end := c_end p + E\<rparr>) }"

definition pop_back :: "nat \<Rightarrow> PODArray \<Rightarrow> PODArray option" where
  "pop_back E p = do { assert_opt (E \<le> c_end p); Some (p\<lparr>c_end := c_end p - E\<rparr>) }"

definition insert_assume_reserved :: "bytes list \<Rightarrow> PODArray \<Rightarrow> PODArray option" where
  "insert_assume_reserved xs p = do { p \<leftarrow> pod_write (c_end p) (concat xs) p; Some (p\<lparr>c_end := c_end p + length (concat xs)\<rparr>) }"

definition pod_make_room :: "nat \<Rightarrow> nat \<Rightarrow> nat \<Rightarrow> PODArray \<Rightarrow> PODArray option" where
  "pod_make_room E A required_capacity p =
     (if required_capacity > pod_capacity E p then pod_reserve E A (bit_ceil required_capacity) p else Some p)"

definition pod_insert :: "nat \<Rightarrow> nat \<Rightarrow> bytes list \<Rightarrow> PODArray \<Rightarrow> PODArray option" where
  "pod_insert E A xs p = do { p \<leftarrow> pod_make_room E A (pod_size E p + length xs) p; insert_assume_reserved xs p }"

text \<open>\<open>insert\<close> at the element \<open>i\<close>; \<open>memmove\<close> reads its source before it writes.\<close>

definition pod_insert_at :: "nat \<Rightarrow> nat \<Rightarrow> nat \<Rightarrow> bytes list \<Rightarrow> PODArray \<Rightarrow> PODArray option" where
  "pod_insert_at E A i xs p = do {
     let bytes_to_copy = length xs * E;
     let bytes_to_move = (pod_size E p - i) * E;
     p \<leftarrow> pod_make_room E A (pod_size E p + length xs) p;
     p \<leftarrow> (if bytes_to_move \<noteq> 0
       then pod_write (c_end p + bytes_to_copy - bytes_to_move) (take bytes_to_move (drop (c_end p - bytes_to_move) (pod_bytes p))) p
       else Some p);
     p \<leftarrow> pod_write (c_end p - bytes_to_move) (concat xs) p;
     Some (p\<lparr>c_end := c_end p + bytes_to_copy\<rparr>) }"

definition pod_assign :: "nat \<Rightarrow> nat \<Rightarrow> bytes list \<Rightarrow> PODArray \<Rightarrow> PODArray option" where
  "pod_assign E A xs p = do {
     p \<leftarrow> pod_make_room E A (length xs) p;
     p \<leftarrow> pod_write 0 (concat xs) p;
     Some (p\<lparr>c_end := length xs * E\<rparr>) }"

definition pod_assign_fill :: "nat \<Rightarrow> nat \<Rightarrow> nat \<Rightarrow> bytes \<Rightarrow> PODArray \<Rightarrow> PODArray option" where
  "pod_assign_fill E A n x p = do { p \<leftarrow> pod_resize E A n p; pod_write 0 (concat (replicate n x)) p }"

text \<open>The constructors with a number of elements, with copies of an element and with a range.\<close>

definition pod_init_n :: "nat \<Rightarrow> nat \<Rightarrow> nat \<Rightarrow> nat \<Rightarrow> PODArray" where
  "pod_init_n E A n mr = (pod_alloc (minimum_memory_for_elements E A n) (pod_init mr))\<lparr>c_end := n * E\<rparr>"

definition pod_init_fill :: "nat \<Rightarrow> nat \<Rightarrow> nat \<Rightarrow> bytes \<Rightarrow> nat \<Rightarrow> PODArray option" where
  "pod_init_fill E A n x mr = pod_assign_fill E A n x (pod_alloc (minimum_memory_for_elements E A n) (pod_init mr))"

definition pod_init_range :: "nat \<Rightarrow> nat \<Rightarrow> bytes list \<Rightarrow> nat \<Rightarrow> PODArray option" where
  "pod_init_range E A xs mr = pod_insert E A xs (pod_alloc (minimum_memory_for_elements E A (length xs)) (pod_init mr))"

text \<open>\<open>swap\<close> exchanges the blocks and leaves the resources; the move constructor starts from the default resource \<open>0\<close>.\<close>

definition pod_swap :: "PODArray \<Rightarrow> PODArray \<Rightarrow> PODArray \<times> PODArray" where
  "pod_swap p q = (p\<lparr>c_block := c_block q, c_end := c_end q, c_from := c_from q\<rparr>, q\<lparr>c_block := c_block p, c_end := c_end p, c_from := c_from p\<rparr>)"

definition pod_move :: "PODArray \<Rightarrow> PODArray \<times> PODArray" where
  "pod_move other = pod_swap (pod_init 0) other"

subsection \<open>Facts\<close>

lemma bit_ceil_from_pow: "p = 2 ^ k \<Longrightarrow> n \<le> bit_ceil_from p n \<and> (\<exists>j. bit_ceil_from p n = 2 ^ j)"
proof (induction p n arbitrary: k rule: bit_ceil_from.induct)
  case (1 p n)
  show ?case
  proof (cases "n \<le> p")
    case True
    then have "bit_ceil_from p n = p" by (simp add: bit_ceil_from.simps [of p])
    then show ?thesis using True "1.prems" by auto
  next
    case False
    then have "n \<le> bit_ceil_from (2 * p) n \<and> (\<exists>j. bit_ceil_from (2 * p) n = 2 ^ j)" using "1.IH" [of "Suc k"] "1.prems" by simp
    moreover have "bit_ceil_from p n = bit_ceil_from (2 * p) n" using False "1.prems" by (subst bit_ceil_from.simps) auto
    ultimately show ?thesis by simp
  qed
qed

lemma bit_ceil: "n \<le> bit_ceil n" "\<exists>j. bit_ceil n = 2 ^ j" "0 < bit_ceil n"
  using bit_ceil_from_pow [of 1 0 n] by (auto simp: bit_ceil_def)

text \<open>The array holds the elements \<open>xs\<close> of \<open>E\<close> bytes each, in a block that its resource gave.\<close>

definition pod_holds :: "nat \<Rightarrow> PODArray \<Rightarrow> bytes list \<Rightarrow> bool" where
  "pod_holds E p xs \<longleftrightarrow> (\<forall>x \<in> set xs. length x = E) \<and> c_end p = length xs * E \<and> c_end p \<le> allocated_size p \<and>
     take (c_end p) (pod_bytes p) = concat xs \<and> (c_block p \<noteq> None \<longrightarrow> c_from p = pod_mr p)"

lemma length_concat_E: "\<forall>x \<in> set xs. length x = E \<Longrightarrow> length (concat xs) = length xs * E"
  by (induction xs) auto

lemma pod_holds_size: "pod_holds E p xs \<Longrightarrow> 0 < E \<Longrightarrow> pod_size E p = length xs"
  by (simp add: pod_holds_def pod_size_def)

lemma pod_init_holds: "pod_holds E (pod_init mr) []"
  by (simp add: pod_holds_def pod_init_def allocated_size_def pod_bytes_def)

lemma pod_alloc_simps [simp]:
  "pod_bytes (pod_alloc n p) = replicate (bit_ceil n) None" "allocated_size (pod_alloc n p) = bit_ceil n" "c_end (pod_alloc n p) = 0"
  "c_from (pod_alloc n p) = pod_mr p" "pod_mr (pod_alloc n p) = pod_mr p" "c_block (pod_alloc n p) = Some (replicate (bit_ceil n) None)"
  by (simp_all add: pod_alloc_def pod_bytes_def allocated_size_def)

lemma c_end_upd [simp]: "pod_bytes (p\<lparr>c_end := e\<rparr>) = pod_bytes p" "allocated_size (p\<lparr>c_end := e\<rparr>) = allocated_size p"
  by (simp_all add: pod_bytes_def allocated_size_def)

lemma pod_write_Some:
  assumes "off + length bs \<le> allocated_size p"
  shows "\<exists>p'. pod_write off bs p = Some p' \<and> pod_bytes p' = take off (pod_bytes p) @ bs @ drop (off + length bs) (pod_bytes p) \<and>
    c_end p' = c_end p \<and> c_from p' = c_from p \<and> pod_mr p' = pod_mr p \<and> (c_block p' = None \<longleftrightarrow> c_block p = None)"
  using assms by (cases "c_block p") (auto simp: pod_write_def pod_bytes_def allocated_size_def)

lemma pod_realloc_holds:
  assumes H: "pod_holds E p xs" and n: "c_end p \<le> n"
  shows "\<exists>p'. pod_realloc n p = Some p' \<and> pod_holds E p' xs \<and> allocated_size p' = bit_ceil n"
proof (cases "c_block p")
  case None
  then have "xs = [] \<or> E = 0" using H by (auto simp: pod_holds_def allocated_size_def pod_bytes_def)
  then show ?thesis using None H by (auto simp: pod_realloc_def pod_holds_def length_concat_E)
next
  case (Some b)
  then have b: "pod_bytes p = b" "c_from p = pod_mr p" "c_end p \<le> length b" using H by (auto simp: pod_bytes_def pod_holds_def allocated_size_def)
  have "0 + length (take (c_end p) b) \<le> allocated_size (pod_alloc n p)" using n bit_ceil(1) [of n] by simp
  then obtain p' where p': "pod_write 0 (take (c_end p) b) (pod_alloc n p) = Some p'"
      "pod_bytes p' = take (c_end p) b @ drop (c_end p) (replicate (bit_ceil n) None)" "c_from p' = pod_mr p" "pod_mr p' = pod_mr p"
    using pod_write_Some [of 0 "take (c_end p) b" "pod_alloc n p"] b(3) by auto
  have "c_end p \<le> bit_ceil n" using n bit_ceil(1) [of n] by simp
  then have "pod_holds E (p'\<lparr>c_end := c_end p\<rparr>) xs \<and> allocated_size (p'\<lparr>c_end := c_end p\<rparr>) = bit_ceil n"
    using H p'(2-4) b by (auto simp: pod_holds_def allocated_size_def)
  then show ?thesis using Some p'(1) b(2) by (auto simp: pod_realloc_def pod_dealloc_def)
qed

lemma pod_append:
  assumes H: "pod_holds E p xs" and ys: "\<forall>y \<in> set ys. length y = E" and room: "(length xs + length ys) * E \<le> allocated_size p"
  shows "\<exists>p'. insert_assume_reserved ys p = Some p' \<and> pod_holds E p' (xs @ ys)"
proof -
  have l: "length (concat ys) = length ys * E" by (rule length_concat_E [OF ys])
  have e: "c_end p = length xs * E" "take (c_end p) (pod_bytes p) = concat xs" using H by (auto simp: pod_holds_def)
  obtain p' where p': "pod_write (c_end p) (concat ys) p = Some p'"
      "pod_bytes p' = take (c_end p) (pod_bytes p) @ concat ys @ drop (c_end p + length (concat ys)) (pod_bytes p)"
      "c_end p' = c_end p" "c_from p' = c_from p" "pod_mr p' = pod_mr p" "c_block p' = None \<longleftrightarrow> c_block p = None"
    using pod_write_Some [of "c_end p" "concat ys" p] room e(1) l by (auto simp: add_mult_distrib)
  have "length (concat (xs @ ys)) = length (xs @ ys) * E" using H ys by (intro length_concat_E) (auto simp: pod_holds_def)
  then have "pod_holds E (p'\<lparr>c_end := c_end p' + length (concat ys)\<rparr>) (xs @ ys)"
    using H p'(2-6) e ys l room unfolding pod_holds_def by (auto simp: allocated_size_def add_mult_distrib)
  then show ?thesis using p'(1) by (simp add: insert_assume_reserved_def)
qed

lemma push_back_eq:
  "push_back E A x p = (if c_end p = allocated_size p then pod_grow E A p else Some p) \<bind>
     (\<lambda>p. do { p \<leftarrow> pod_write (c_end p) x p; Some (p\<lparr>c_end := c_end p + E\<rparr>) })"
  by (simp add: push_back_def)

lemma push_room:
  assumes H: "pod_holds E p xs" and x: "length x = E" and room: "(length xs + 1) * E \<le> allocated_size p"
  shows "\<exists>p'. do { p \<leftarrow> pod_write (c_end p) x p; Some (p\<lparr>c_end := c_end p + E\<rparr>) } = Some p' \<and> pod_holds E p' (xs @ [x])"
  using pod_append [OF H, of "[x]"] x room by (simp add: insert_assume_reserved_def)

text \<open>Blocks of a size that the elements fill exactly.\<close>

definition pod_even :: "nat \<Rightarrow> PODArray \<Rightarrow> bool" where
  "pod_even E p \<longleftrightarrow> (c_block p \<noteq> None \<longrightarrow> 0 < allocated_size p \<and> E dvd allocated_size p)"

lemma pow_dvd: "(2 :: nat) ^ e \<le> 2 ^ j \<Longrightarrow> 2 ^ e dvd (2 :: nat) ^ j"
  by (simp add: le_imp_power_dvd)

lemma pod_grow_room:
  assumes H: "pod_holds E p xs" and E: "E = 2 ^ e" and ev: "pod_even E p" and full: "c_end p = allocated_size p"
  shows "\<exists>p'. pod_grow E A p = Some p' \<and> pod_holds E p' xs \<and> pod_even E p' \<and> (length xs + 1) * E \<le> allocated_size p'"
proof (cases "c_block p")
  case None
  then have xs: "xs = []" using H E by (auto simp: pod_holds_def allocated_size_def pod_bytes_def)
  let ?n = "max A (minimum_memory_for_elements E A 1)"
  obtain j where j: "bit_ceil ?n = 2 ^ j" using bit_ceil(2) by blast
  have le: "E \<le> bit_ceil ?n" using bit_ceil(1) [of ?n] by (simp add: minimum_memory_for_elements_def)
  then have "E dvd bit_ceil ?n" using pow_dvd j E by simp
  then show ?thesis using None xs le bit_ceil(3) [of ?n] by (simp add: pod_grow_def pod_holds_def pod_even_def)
next
  case (Some b)
  let ?n = "minimum_memory_for_elements E A (pod_capacity E p * 2)"
  have al: "0 < allocated_size p" "E dvd allocated_size p" using ev Some by (auto simp: pod_even_def)
  have cap: "pod_capacity E p * E = allocated_size p" using al(2) by (simp add: pod_capacity_def)
  have n: "allocated_size p + allocated_size p \<le> ?n" using cap by (simp add: minimum_memory_for_elements_def max_def mult.commute mult.left_commute)
  obtain p' where p': "pod_realloc ?n p = Some p'" "pod_holds E p' xs" "allocated_size p' = bit_ceil ?n"
    using pod_realloc_holds [OF H, of ?n] n full by auto
  obtain j where j: "bit_ceil ?n = 2 ^ j" using bit_ceil(2) by blast
  have E_le: "E \<le> allocated_size p" using al by (simp add: dvd_imp_le)
  have big: "allocated_size p + allocated_size p \<le> bit_ceil ?n" using n bit_ceil(1) [of ?n] by linarith
  have "2 ^ e \<le> (2 :: nat) ^ j" using big E_le E unfolding j by linarith
  then have "E dvd bit_ceil ?n" using pow_dvd [of e j] j E by simp
  moreover have "length xs * E = allocated_size p" using H full by (simp add: pod_holds_def)
  then have "(length xs + 1) * E \<le> allocated_size p'" using big E_le p'(3) by simp
  ultimately show ?thesis using p' Some bit_ceil(3) [of ?n] by (auto simp: pod_grow_def pod_even_def)
qed

lemma push_back_holds:
  assumes H: "pod_holds E p xs" and E: "E = 2 ^ e" and ev: "pod_even E p" and x: "length x = E"
  shows "\<exists>p'. push_back E A x p = Some p' \<and> pod_holds E p' (xs @ [x]) \<and> pod_even E p'"
proof -
  have room: "\<exists>p'. (if c_end p = allocated_size p then pod_grow E A p else Some p) = Some p' \<and> pod_holds E p' xs \<and> pod_even E p' \<and>
      (length xs + 1) * E \<le> allocated_size p'"
  proof (cases "c_end p = allocated_size p")
    case True
    then show ?thesis using pod_grow_room [OF H E ev] by simp
  next
    case False
    then have lt: "length xs * E < allocated_size p" using H by (auto simp: pod_holds_def)
    then have "c_block p \<noteq> None" by (cases "c_block p") (auto simp: allocated_size_def pod_bytes_def)
    with lt obtain m where m: "allocated_size p = m * E" "length xs * E < m * E" using ev by (auto simp: pod_even_def elim!: dvdE)
    then have "(length xs + 1) * E \<le> m * E" by (intro mult_le_mono1) simp
    then show ?thesis using False H ev m by simp
  qed
  then obtain p1 where p1: "(if c_end p = allocated_size p then pod_grow E A p else Some p) = Some p1" "pod_holds E p1 xs" "pod_even E p1"
      "(length xs + 1) * E \<le> allocated_size p1" by blast
  obtain p' where p': "pod_write (c_end p1) x p1 \<bind> (\<lambda>p. Some (p\<lparr>c_end := c_end p + E\<rparr>)) = Some p'" "pod_holds E p' (xs @ [x])"
    using push_room [OF p1(2) x p1(4)] by auto
  have "allocated_size p' = allocated_size p1 \<and> (c_block p1 = None \<longrightarrow> x = [])"
    using p'(1) by (cases "c_block p1") (auto simp: pod_write_def allocated_size_def pod_bytes_def split: if_splits)
  then have "pod_even E p'" using p1(3) x E by (auto simp: pod_even_def)
  then show ?thesis using p1(1) p' by (simp add: push_back_eq)
qed

subsection \<open>Properties\<close>

text \<open>For elements whose size is a power of two, pushing any list of elements onto a new array stores exactly these
  elements in order, without leaving the block, however often the array grows.\<close>

theorem push_back_correct:
  assumes "E = 2 ^ e" "\<forall>x \<in> set xs. length x = E"
  shows "\<exists>p. foldM (push_back E A) xs (pod_init mr) = Some p \<and> pod_holds E p xs \<and> pod_size E p = length xs \<and> pod_dealloc p = Some ()"
proof -
  have "\<exists>p'. foldM (push_back E A) ys p = Some p' \<and> pod_holds E p' (zs @ ys)"
    if "pod_holds E p zs" "pod_even E p" "\<forall>y \<in> set ys. length y = E" for ys zs p
    using that
  proof (induction ys arbitrary: zs p)
    case (Cons y ys)
    obtain p1 where "push_back E A y p = Some p1" "pod_holds E p1 (zs @ [y])" "pod_even E p1"
      using push_back_holds [OF Cons.prems(1) assms(1) Cons.prems(2), of y A] Cons.prems(3) by auto
    then show ?case using Cons.IH [of p1 "zs @ [y]"] Cons.prems(3) by auto
  qed auto
  then obtain p where p: "foldM (push_back E A) xs (pod_init mr) = Some p" "pod_holds E p xs"
    using pod_init_holds [of E mr] assms(2) by (metis append_Nil pod_even_def pod_init_def PODArray.select_convs(1))
  moreover have "pod_dealloc p = Some ()" using p(2) by (auto simp: pod_dealloc_def pod_holds_def split: option.split)
  ultimately show ?thesis using pod_holds_size [OF p(2)] assms(1) by auto
qed

theorem push_back_correct_witness:
  "\<exists>p. foldM (push_back 4 16) (replicate 9 [Some 1, Some 2, Some 3, Some 4]) (pod_init 7) = Some p \<and> pod_size 4 p = 9"
  using push_back_correct [of 4 2 "replicate 9 [Some 1, Some 2, Some 3, Some 4]" 16 7] by auto

text \<open>(C38) For elements that do not fill the first block exactly the array is written past its end: the test for a full
  array compares the end of the data with the end of the block, and misses it.\<close>

theorem push_back_overflow:
  assumes "0 < E" "\<not> E dvd bit_ceil (max A E)" "length xs = Suc (bit_ceil (max A E) div E)" "\<forall>x \<in> set xs. length x = E"
  shows "foldM (push_back E A) xs (pod_init mr) = None"
proof -
  let ?n = "bit_ceil (max A E)"
  have step: "foldM (push_back E A) ys p = None"
    if "pod_holds E p zs" "allocated_size p = ?n" "\<forall>y \<in> set ys. length y = E" "length zs + length ys = Suc (?n div E)" "length zs \<le> ?n div E" for ys zs p
    using that
  proof (induction ys arbitrary: zs p)
    case (Cons y ys)
    have c: "c_end p = length zs * E" using Cons.prems(1) by (simp add: pod_holds_def)
    then have ne: "c_end p \<noteq> allocated_size p" using Cons.prems(2) assms(2) by (metis dvd_triv_right)
    show ?case
    proof (cases "length zs < ?n div E")
      case True
      then have "(length zs + 1) * E \<le> ?n" by (metis Suc_eq_plus1 Suc_leI div_times_less_eq_dividend le_trans mult_le_mono1)
      then obtain p1 where p1: "pod_write (c_end p) y p \<bind> (\<lambda>p. Some (p\<lparr>c_end := c_end p + E\<rparr>)) = Some p1" "pod_holds E p1 (zs @ [y])"
        using push_room [OF Cons.prems(1), of y] Cons.prems(2,3) by auto
      have "allocated_size p1 = allocated_size p" using p1(1) by (auto simp: pod_write_def allocated_size_def pod_bytes_def split: if_splits)
      then show ?thesis using Cons.IH [OF p1(2)] Cons.prems True p1(1) ne by (simp add: push_back_eq)
    next
      case False
      have "?n < (length zs + 1) * E" using False Cons.prems(5) assms(1) by (metis Suc_eq_plus1 dividend_less_div_times le_antisym linorder_not_less mult.commute mult_Suc)
      then have "pod_write (c_end p) y p = None" using c Cons.prems(2,3) assms(1) by (auto simp: pod_write_def)
      then show ?thesis using ne by (simp add: push_back_eq)
    qed
  qed (use that in auto)
  obtain y ys where xs: "xs = y # ys" using assms(3) by (cases xs) auto
  have grow: "pod_grow E A (pod_init mr) = Some (pod_alloc (max A E) (pod_init mr))"
    by (simp add: pod_grow_def pod_init_def minimum_memory_for_elements_def)
  let ?p = "pod_alloc (max A E) (pod_init mr)"
  have H: "pod_holds E ?p []" by (simp add: pod_holds_def)
  have "push_back E A y (pod_init mr) = push_back E A y ?p"
    using grow bit_ceil(3) [of "max A E"] by (simp add: push_back_eq) (simp add: pod_init_def allocated_size_def pod_bytes_def)
  then have "foldM (push_back E A) xs (pod_init mr) = foldM (push_back E A) xs ?p" by (simp add: xs)
  then show ?thesis using step [OF H] assms(3,4) by simp
qed

theorem push_back_overflow_witness: "foldM (push_back 12 16) [replicate 12 (Some 1), replicate 12 (Some 2)] (pod_init 0) = None"
proof -
  have "bit_ceil 16 = 16" by (simp add: bit_ceil_def bit_ceil_from.simps)
  then show ?thesis using push_back_overflow [of 12 16 "[replicate 12 (Some 1), replicate 12 (Some 2)]" 0] by simp
qed

lemma pod_make_room_holds:
  assumes H: "pod_holds E p xs" and E: "0 < E" and n: "length xs \<le> n"
  shows "\<exists>p'. pod_make_room E A n p = Some p' \<and> pod_holds E p' xs \<and> n * E \<le> allocated_size p'"
proof (cases "n > pod_capacity E p")
  case True
  then have c: "bit_ceil n > pod_capacity E p" using bit_ceil(1) [of n] by linarith
  let ?m = "minimum_memory_for_elements E A (bit_ceil n)"
  have m: "n * E \<le> ?m" using bit_ceil(1) [of n] by (simp add: minimum_memory_for_elements_def le_max_iff_disj)
  moreover have "c_end p \<le> n * E" using H n by (simp add: pod_holds_def)
  ultimately have "c_end p \<le> ?m" by linarith
  then obtain p' where "pod_realloc ?m p = Some p'" "pod_holds E p' xs" "allocated_size p' = bit_ceil ?m"
    using pod_realloc_holds [OF H] by blast
  then show ?thesis using True c m bit_ceil(1) [of ?m] by (simp add: pod_make_room_def pod_reserve_def)
next
  case False
  then have "n * E \<le> allocated_size p" by (metis div_times_less_eq_dividend le_trans linorder_not_less mult_le_mono1 pod_capacity_def)
  then show ?thesis using False H by (simp add: pod_make_room_def)
qed

lemma pod_insert_holds:
  assumes "pod_holds E p xs" "0 < E" "\<forall>y \<in> set ys. length y = E"
  shows "\<exists>p'. pod_insert E A ys p = Some p' \<and> pod_holds E p' (xs @ ys)"
proof -
  obtain p1 where p1: "pod_make_room E A (length xs + length ys) p = Some p1" "pod_holds E p1 xs" "(length xs + length ys) * E \<le> allocated_size p1"
    using pod_make_room_holds [OF assms(1,2), of "length xs + length ys"] by auto
  then show ?thesis using pod_append [OF p1(2) assms(3) p1(3)] pod_holds_size [OF assms(1,2)] by (simp add: pod_insert_def)
qed

lemma pod_init_range_holds:
  assumes "0 < E" "\<forall>x \<in> set xs. length x = E"
  shows "\<exists>p. pod_init_range E A xs mr = Some p \<and> pod_holds E p xs"
proof -
  have "pod_holds E (pod_alloc (minimum_memory_for_elements E A (length xs)) (pod_init mr)) []" by (simp add: pod_holds_def)
  from pod_insert_holds [OF this assms] show ?thesis by (simp add: pod_init_range_def)
qed

lemma concat_take_drop:
  assumes "\<forall>x \<in> set xs. length x = E"
  shows "take (i * E) (concat xs) = concat (take i xs)" "drop (i * E) (concat xs) = concat (drop i xs)"
proof -
  have c: "concat (take i xs) @ concat (drop i xs) = concat xs" by (metis append_take_drop_id concat_append)
  have lt: "length (concat (take i xs)) = length (take i xs) * E" using assms by (intro length_concat_E) (auto dest: in_set_takeD)
  have lx: "length (concat xs) = length xs * E" by (rule length_concat_E [OF assms])
  have "take (i * E) (concat xs) = concat (take i xs) \<and> drop (i * E) (concat xs) = concat (drop i xs)"
  proof (cases "i \<le> length xs")
    case True
    then have "length (concat (take i xs)) = i * E" using lt by simp
    then show ?thesis using c by (metis append_eq_conv_conj)
  next
    case False
    then show ?thesis using lx by simp
  qed
  then show "take (i * E) (concat xs) = concat (take i xs)" "drop (i * E) (concat xs) = concat (drop i xs)" by auto
qed

text \<open>Inserting a range of elements at any position of an array gives the elements before the position, the range, and the
  elements after it; the array grows as needed and never leaves its block.\<close>

theorem insert_at_correct:
  assumes H: "pod_holds E p xs" and E: "0 < E" and i: "i \<le> length xs" and ys: "\<forall>y \<in> set ys. length y = E"
  shows "\<exists>p'. pod_insert_at E A i ys p = Some p' \<and> pod_holds E p' (take i xs @ ys @ drop i xs)"
proof -
  let ?mv = "(length xs - i) * E" and ?cp = "length ys * E"
  have sz: "pod_size E p = length xs" by (rule pod_holds_size [OF H E])
  have lx: "\<forall>x \<in> set xs. length x = E" using H by (simp add: pod_holds_def)
  note td = concat_take_drop [OF lx, of i]
  have ly: "length (concat ys) = ?cp" by (rule length_concat_E [OF ys])
  obtain p1 where p1: "pod_make_room E A (length xs + length ys) p = Some p1" "pod_holds E p1 xs" "(length xs + length ys) * E \<le> allocated_size p1"
    using pod_make_room_holds [OF H E, of "length xs + length ys"] by auto
  have c1: "c_end p1 = length xs * E" "take (c_end p1) (pod_bytes p1) = concat xs" using p1(2) by (auto simp: pod_holds_def)
  have off: "c_end p1 - ?mv = i * E" "c_end p1 + ?cp - ?mv = i * E + ?cp" "i * E + ?mv = length xs * E"
    using i c1(1) by (auto simp: diff_mult_distrib)
  have src: "take ?mv (drop (i * E) (pod_bytes p1)) = concat (drop i xs)"
    using c1 off(3) td(2) by (metis add.commute take_drop)
  have ld: "length (concat (drop i xs)) = ?mv" using lx by (subst length_concat_E [of _ E]) (auto dest: in_set_dropD)
  have fit: "i * E + ?cp + ?mv \<le> allocated_size p1" using p1(3) off(3) by (simp add: add_mult_distrib)
  obtain p2 where p2: "pod_write (i * E + ?cp) (concat (drop i xs)) p1 = Some p2"
      "pod_bytes p2 = take (i * E + ?cp) (pod_bytes p1) @ concat (drop i xs) @ drop (i * E + ?cp + ?mv) (pod_bytes p1)"
      "c_end p2 = c_end p1" "c_from p2 = c_from p1" "pod_mr p2 = pod_mr p1" "c_block p2 = None \<longleftrightarrow> c_block p1 = None"
    using pod_write_Some [of "i * E + ?cp" "concat (drop i xs)" p1] ld fit by auto
  have al2: "allocated_size p2 = allocated_size p1" using p2(2) ld fit by (simp add: allocated_size_def)
  obtain p3 where p3: "pod_write (i * E) (concat ys) p2 = Some p3"
      "pod_bytes p3 = take (i * E) (pod_bytes p2) @ concat ys @ drop (i * E + ?cp) (pod_bytes p2)"
      "c_end p3 = c_end p2" "c_from p3 = c_from p2" "pod_mr p3 = pod_mr p2" "c_block p3 = None \<longleftrightarrow> c_block p2 = None"
    using pod_write_Some [of "i * E" "concat ys" p2] ly fit al2 by auto
  have "take (i * E) (pod_bytes p2) = concat (take i xs)"
  proof -
    have "take (i * E) (pod_bytes p2) = take (i * E) (pod_bytes p1)" using p2(2) fit by (simp add: allocated_size_def)
    also have "\<dots> = take (i * E) (concat xs)" using c1 i by (metis min.absorb1 mult_le_mono1 take_take)
    finally show ?thesis using td(1) by simp
  qed
  moreover have "drop (i * E + ?cp) (pod_bytes p2) = concat (drop i xs) @ drop (i * E + ?cp + ?mv) (pod_bytes p1)"
    using p2(2) fit by (simp add: allocated_size_def)
  ultimately have b: "pod_bytes p3 = concat (take i xs @ ys @ drop i xs) @ drop (i * E + ?cp + ?mv) (pod_bytes p1)" using p3(2) by simp
  have len: "length (concat (take i xs @ ys @ drop i xs)) = length (take i xs @ ys @ drop i xs) * E"
    using lx ys by (intro length_concat_E) (auto dest: in_set_takeD in_set_dropD)
  have tot: "length (take i xs @ ys @ drop i xs) * E = c_end p3 + ?cp" using i p3(3) p2(3) c1(1) by (simp add: add_mult_distrib diff_mult_distrib)
  have "pod_holds E (p3\<lparr>c_end := c_end p3 + ?cp\<rparr>) (take i xs @ ys @ drop i xs)"
    using b len tot lx ys p3(4-6) p2(4-6) p1(2) unfolding pod_holds_def
    by (auto simp: allocated_size_def dest: in_set_takeD in_set_dropD)
  moreover have "pod_insert_at E A i ys p = Some (p3\<lparr>c_end := c_end p3 + ?cp\<rparr>)"
    using p1(1) p2(1,3) p3(1) off(1,2) src sz E by (cases "i < length xs") (auto simp: pod_insert_at_def Let_def pod_write_def [of _ "[]"])
  ultimately show ?thesis by blast
qed

theorem insert_at_correct_witness:
  "\<exists>p'. pod_insert_at 2 16 0 [[Some 1, Some 2], [Some 3, Some 4]] (pod_init 0) = Some p' \<and> pod_holds 2 p' [[Some 1, Some 2], [Some 3, Some 4]]"
  using insert_at_correct [OF pod_init_holds, of 2 0 "[[Some 1, Some 2], [Some 3, Some 4]]" 16 0] by simp

text \<open>\<open>resize_fill\<close> zeroes as many bytes as there are new elements, and leaves the rest of them unwritten.\<close>

lemma resize_fill_short:
  "map_option (\<lambda>p. take 8 (pod_bytes p)) (pod_resize_fill 4 16 2 (pod_init 0)) = Some ([Some 0, Some 0] @ replicate 6 None)"
  by code_simp

text \<open>An array that was moved out of another resource than the default one returns its block to the wrong resource.\<close>

lemma move_wrong_resource:
  assumes "pod_holds E p xs" "c_block p \<noteq> None" "pod_mr p \<noteq> 0"
  shows "pod_dealloc (fst (pod_move p)) = None"
  using assms by (auto simp: pod_move_def pod_swap_def pod_dealloc_def pod_init_def pod_holds_def)

end
