(* ===== verification/Arena.thy ===== *)
theory Arena
  imports Prelude
begin

text \<open>
  \<open>PmrArena\<close> of \<open>net/util/pmr/arena.h\<close> and \<open>arena.cc\<close>: small pieces of memory cut from blocks of a memory resource.
  The resource is the parameter \<open>allocate\<close>: it gives an address for a size, knowing the blocks in use. A region
  is its address and its length; a failed assertion has no result.
\<close>

type_synonym region = "nat \<times> nat"

text \<open>The last field records the pieces that were given out.\<close>

record PmrArena =
  alloc_ptr :: nat
  alloc_bytes_remaining :: nat
  blocks_memory :: nat
  arena_blocks :: "region list"
  arena_given :: "region list"

definition kBlockSize :: nat where "kBlockSize = 8192"

definition PmrArena_init :: PmrArena where
  "PmrArena_init = \<lparr>alloc_ptr = 0, alloc_bytes_remaining = 0, blocks_memory = 0, arena_blocks = [], arena_given = []\<rparr>"

text \<open>The size of a block is cut to 32 bits.\<close>

definition AllocateNewBlock :: "(region list \<Rightarrow> nat \<Rightarrow> nat) \<Rightarrow> nat \<Rightarrow> PmrArena \<Rightarrow> nat \<times> PmrArena" where
  "AllocateNewBlock allocate bytes a = (
     let block_bytes = bytes mod 2 ^ 32; result = allocate (arena_blocks a) block_bytes in
     (result, a\<lparr>blocks_memory := blocks_memory a + block_bytes, arena_blocks := (result, block_bytes) # arena_blocks a\<rparr>))"

definition AllocateFallback :: "(region list \<Rightarrow> nat \<Rightarrow> nat) \<Rightarrow> nat \<Rightarrow> PmrArena \<Rightarrow> nat \<times> PmrArena" where
  "AllocateFallback allocate bytes a = (
     if bytes > kBlockSize div 4 then AllocateNewBlock allocate bytes a
     else let (ptr, a) = AllocateNewBlock allocate kBlockSize a in
       (ptr, a\<lparr>alloc_ptr := ptr + bytes, alloc_bytes_remaining := kBlockSize - bytes\<rparr>))"

definition give :: "nat \<Rightarrow> nat \<times> PmrArena \<Rightarrow> nat \<times> PmrArena" where
  "give bytes r = (fst r, (snd r)\<lparr>arena_given := (fst r, bytes) # arena_given (snd r)\<rparr>)"

definition Allocate :: "(region list \<Rightarrow> nat \<Rightarrow> nat) \<Rightarrow> nat \<Rightarrow> PmrArena \<Rightarrow> (nat \<times> PmrArena) option" where
  "Allocate allocate bytes a = do {
     assert_opt (bytes > 0);
     Some (give bytes (
       if bytes \<le> alloc_bytes_remaining a
       then (alloc_ptr a, a\<lparr>alloc_ptr := alloc_ptr a + bytes, alloc_bytes_remaining := alloc_bytes_remaining a - bytes\<rparr>)
       else AllocateFallback allocate bytes a)) }"

text \<open>The alignment is that of a pointer, eight bytes.\<close>

definition AllocateAligned :: "(region list \<Rightarrow> nat \<Rightarrow> nat) \<Rightarrow> nat \<Rightarrow> PmrArena \<Rightarrow> (nat \<times> PmrArena) option" where
  "AllocateAligned allocate bytes a = do {
     let current_mod = alloc_ptr a mod 8;
     let slop = (if current_mod = 0 then 0 else 8 - current_mod);
     let needed = bytes + slop;
     let r = (if needed \<le> alloc_bytes_remaining a
       then (alloc_ptr a + slop, a\<lparr>alloc_ptr := alloc_ptr a + needed, alloc_bytes_remaining := alloc_bytes_remaining a - needed\<rparr>)
       else AllocateFallback allocate bytes a);
     assert_opt (fst r mod 8 = 0);
     Some (give bytes r) }"

definition arena_Swap :: "PmrArena \<times> PmrArena \<Rightarrow> PmrArena \<times> PmrArena" where
  "arena_Swap p = (snd p, fst p)"

text \<open>The blocks that the destructor gives back, in its order.\<close>

definition arena_destroy :: "PmrArena \<Rightarrow> region list" where
  "arena_destroy a = rev (arena_blocks a)"

subsection \<open>Disjoint regions\<close>

definition apart :: "region \<Rightarrow> region \<Rightarrow> bool" where
  "apart x y \<longleftrightarrow> fst x + snd x \<le> fst y \<or> fst y + snd y \<le> fst x"

definition within :: "region \<Rightarrow> region \<Rightarrow> bool" where
  "within x y \<longleftrightarrow> fst y \<le> fst x \<and> fst x + snd x \<le> fst y + snd y"

fun all_apart :: "region list \<Rightarrow> bool" where
  "all_apart [] \<longleftrightarrow> True"
| "all_apart (x # xs) \<longleftrightarrow> (\<forall>y \<in> set xs. apart x y) \<and> all_apart xs"

text \<open>What the arena relies on of the resource: a new block does not meet the blocks in use, and starts at a multiple of eight.\<close>

definition allocate_ok :: "(region list \<Rightarrow> nat \<Rightarrow> nat) \<Rightarrow> bool" where
  "allocate_ok allocate \<longleftrightarrow> (\<forall>bs n. (\<forall>b \<in> set bs. apart (allocate bs n, n) b) \<and> allocate bs n mod 8 = 0)"

lemma within_apart: "within x b \<Longrightarrow> apart c b \<Longrightarrow> apart c x"
  by (auto simp: within_def apart_def)

lemma apart_sym: "apart x y \<longleftrightarrow> apart y x"
  by (auto simp: apart_def)

text \<open>The pieces and the free rest of the current block are disjoint parts of the blocks.\<close>

definition arena_inv :: "PmrArena \<Rightarrow> bool" where
  "arena_inv a \<longleftrightarrow> all_apart (arena_given a) \<and> (\<forall>g \<in> set (arena_given a). \<exists>b \<in> set (arena_blocks a). within g b) \<and>
     (alloc_bytes_remaining a > 0 \<longrightarrow> (\<exists>b \<in> set (arena_blocks a). within (alloc_ptr a, alloc_bytes_remaining a) b)) \<and>
     (\<forall>g \<in> set (arena_given a). apart (alloc_ptr a, alloc_bytes_remaining a) g \<or> alloc_bytes_remaining a = 0)"

lemma arena_inv_give:
  assumes "arena_inv a" "\<exists>b \<in> set (arena_blocks a). within (ptr, bytes) b" "\<forall>g \<in> set (arena_given a). apart (ptr, bytes) g"
    "0 < alloc_bytes_remaining a \<Longrightarrow> apart (ptr, bytes) (alloc_ptr a, alloc_bytes_remaining a)"
  shows "arena_inv (snd (give bytes (ptr, a)))"
  using assms apart_sym by (auto simp: arena_inv_def give_def)

lemma arena_inv_shrink:
  assumes I: "arena_inv a" and n: "slop + bytes \<le> alloc_bytes_remaining a"
  shows "arena_inv (a\<lparr>alloc_ptr := alloc_ptr a + (slop + bytes), alloc_bytes_remaining := alloc_bytes_remaining a - (slop + bytes)\<rparr>)"
proof -
  have "within (alloc_ptr a + (slop + bytes), alloc_bytes_remaining a - (slop + bytes)) b" if "within (alloc_ptr a, alloc_bytes_remaining a) b" for b
    using that n by (auto simp: within_def)
  moreover have "apart (alloc_ptr a + (slop + bytes), alloc_bytes_remaining a - (slop + bytes)) g"
    if "apart (alloc_ptr a, alloc_bytes_remaining a) g" for g
    using that n by (auto simp: apart_def)
  ultimately show ?thesis using I unfolding arena_inv_def by fastforce
qed

lemma arena_cut:
  assumes I: "arena_inv a" and n: "0 < bytes" "slop + bytes \<le> alloc_bytes_remaining a"
  shows "arena_inv (snd (give bytes (alloc_ptr a + slop, a\<lparr>alloc_ptr := alloc_ptr a + (slop + bytes), alloc_bytes_remaining := alloc_bytes_remaining a - (slop + bytes)\<rparr>)))"
proof (rule arena_inv_give [OF arena_inv_shrink [OF I n(2)]])
  have "within (alloc_ptr a + slop, bytes) b" if "within (alloc_ptr a, alloc_bytes_remaining a) b" for b
    using that n by (auto simp: within_def)
  then show "\<exists>b \<in> set (arena_blocks (a\<lparr>alloc_ptr := alloc_ptr a + (slop + bytes), alloc_bytes_remaining := alloc_bytes_remaining a - (slop + bytes)\<rparr>)).
      within (alloc_ptr a + slop, bytes) b"
    using I n unfolding arena_inv_def by force
  show "\<forall>g \<in> set (arena_given (a\<lparr>alloc_ptr := alloc_ptr a + (slop + bytes), alloc_bytes_remaining := alloc_bytes_remaining a - (slop + bytes)\<rparr>)).
      apart (alloc_ptr a + slop, bytes) g"
    using I n by (auto simp: arena_inv_def apart_def)
qed (auto simp: apart_def)

lemma arena_block:
  assumes I: "arena_inv a" and ok: "allocate_ok allocate" and n: "bytes < 2 ^ 32"
  shows "\<exists>ptr a'. AllocateNewBlock allocate bytes a = (ptr, a') \<and> ptr mod 8 = 0 \<and> arena_inv a' \<and> arena_given a' = arena_given a \<and>
    alloc_ptr a' = alloc_ptr a \<and> alloc_bytes_remaining a' = alloc_bytes_remaining a \<and>
    (ptr, bytes) \<in> set (arena_blocks a') \<and> (\<forall>g \<in> set (arena_given a). apart (ptr, bytes) g) \<and>
    (alloc_bytes_remaining a > 0 \<longrightarrow> apart (ptr, bytes) (alloc_ptr a, alloc_bytes_remaining a))"
proof -
  let ?p = "allocate (arena_blocks a) bytes"
  have f: "\<forall>b \<in> set (arena_blocks a). apart (?p, bytes) b" "?p mod 8 = 0" using ok by (auto simp: allocate_ok_def)
  have "apart (?p, bytes) g" if "g \<in> set (arena_given a)" for g
    using I f(1) that within_apart unfolding arena_inv_def by blast
  moreover have "apart (?p, bytes) (alloc_ptr a, alloc_bytes_remaining a)" if "alloc_bytes_remaining a > 0"
    using I f(1) that within_apart unfolding arena_inv_def by blast
  ultimately show ?thesis using I f(2) n by (auto simp: AllocateNewBlock_def arena_inv_def Let_def)
qed

lemma arena_fallback:
  assumes I: "arena_inv a" and ok: "allocate_ok allocate" and n: "0 < bytes" "bytes < 2 ^ 32"
  shows "fst (AllocateFallback allocate bytes a) mod 8 = 0 \<and> arena_inv (snd (give bytes (AllocateFallback allocate bytes a)))"
proof (cases "bytes > kBlockSize div 4")
  case True
  obtain ptr a' where r: "AllocateNewBlock allocate bytes a = (ptr, a')" "ptr mod 8 = 0" "arena_inv a'" "arena_given a' = arena_given a"
      "alloc_ptr a' = alloc_ptr a" "alloc_bytes_remaining a' = alloc_bytes_remaining a" "(ptr, bytes) \<in> set (arena_blocks a')"
      "\<forall>g \<in> set (arena_given a). apart (ptr, bytes) g" "alloc_bytes_remaining a > 0 \<longrightarrow> apart (ptr, bytes) (alloc_ptr a, alloc_bytes_remaining a)"
    using arena_block [OF I ok n(2)] by (elim exE conjE)
  have "\<exists>b \<in> set (arena_blocks a'). within (ptr, bytes) b" using r(7) by (intro bexI) (auto simp: within_def)
  then have "arena_inv (snd (give bytes (ptr, a')))" using arena_inv_give [OF r(3)] r(4-6,8,9) by simp
  then show ?thesis using True r(1,2) by (simp add: AllocateFallback_def)
next
  case False
  have k: "kBlockSize < 2 ^ 32" by (simp add: kBlockSize_def)
  obtain ptr a' where r: "AllocateNewBlock allocate kBlockSize a = (ptr, a')" "ptr mod 8 = 0" "arena_inv a'" "arena_given a' = arena_given a"
      "(ptr, kBlockSize) \<in> set (arena_blocks a')" "\<forall>g \<in> set (arena_given a). apart (ptr, kBlockSize) g"
    using arena_block [OF I ok k] by (elim exE conjE)
  let ?a = "a'\<lparr>alloc_ptr := ptr, alloc_bytes_remaining := kBlockSize\<rparr>"
  have "\<exists>b \<in> set (arena_blocks a'). within (ptr, kBlockSize) b" using r(5) by (intro bexI) (auto simp: within_def)
  then have "arena_inv ?a" using r(3,4,6) by (auto simp: arena_inv_def)
  then have "arena_inv (snd (give bytes (ptr, a'\<lparr>alloc_ptr := ptr + bytes, alloc_bytes_remaining := kBlockSize - bytes\<rparr>)))"
    using arena_cut [of ?a bytes 0] n(1) False by (simp add: kBlockSize_def)
  then show ?thesis using False r(1,2) by (simp add: AllocateFallback_def)
qed

datatype request = Plain nat | Aligned nat

fun arena_step :: "(region list \<Rightarrow> nat \<Rightarrow> nat) \<Rightarrow> request \<Rightarrow> PmrArena \<Rightarrow> PmrArena option" where
  "arena_step allocate (Plain n) a = map_option snd (Allocate allocate n a)"
| "arena_step allocate (Aligned n) a = map_option snd (AllocateAligned allocate n a)"

fun req_size :: "request \<Rightarrow> nat" where
  "req_size (Plain n) = n"
| "req_size (Aligned n) = n"

lemma arena_step_inv:
  assumes I: "arena_inv a" and ok: "allocate_ok allocate" and n: "0 < req_size r" "req_size r < 2 ^ 32"
  shows "\<exists>a'. arena_step allocate r a = Some a' \<and> arena_inv a'"
proof (cases r)
  case (Plain m)
  then show ?thesis using arena_cut [OF I, of m 0] arena_fallback [OF I ok] n by (auto simp: Allocate_def)
next
  case (Aligned m)
  define s where "s = (if alloc_ptr a mod 8 = 0 then 0 else 8 - alloc_ptr a mod 8)"
  have "(alloc_ptr a + s) mod 8 = 0" unfolding s_def by presburger
  then have "\<exists>x. AllocateAligned allocate m a = Some x \<and> arena_inv (snd x)"
    using Aligned n arena_cut [OF I, of m s] arena_fallback [OF I ok, of m] unfolding AllocateAligned_def Let_def s_def [symmetric]
    by (cases "AllocateFallback allocate m a") (simp add: add.commute give_def)
  then show ?thesis using Aligned by auto
qed

text \<open>(C39) The pieces an arena gives out, for any requests of less than four gigabytes, are disjoint parts of its blocks, and no
  assertion fails: aligned requests get aligned addresses.\<close>

theorem arena_correct:
  assumes "allocate_ok allocate" "\<forall>r \<in> set rs. 0 < req_size r \<and> req_size r < 2 ^ 32"
  shows "\<exists>a. foldM (arena_step allocate) rs PmrArena_init = Some a \<and> all_apart (arena_given a) \<and>
    (\<forall>g \<in> set (arena_given a). \<exists>b \<in> set (arena_blocks a). within g b)"
proof -
  have "\<exists>a'. foldM (arena_step allocate) rs a = Some a' \<and> arena_inv a'" if "arena_inv a" for a
    using that assms(2)
  proof (induction rs arbitrary: a)
    case (Cons r rs)
    obtain b where b: "arena_step allocate r a = Some b" "arena_inv b"
      using arena_step_inv [OF Cons.prems(1) assms(1), of r] Cons.prems(2) by auto
    then show ?case using Cons.IH [OF b(2)] Cons.prems(2) by simp
  qed auto
  from this [of PmrArena_init] obtain a where "foldM (arena_step allocate) rs PmrArena_init = Some a" "arena_inv a"
    by (auto simp: arena_inv_def PmrArena_init_def)
  then show ?thesis by (auto simp: arena_inv_def)
qed

text \<open>A resource that puts every block behind the others.\<close>

definition bump :: "region list \<Rightarrow> nat \<Rightarrow> nat" where
  "bump bs n = 8 * (sum_list (map (\<lambda>b. fst b + snd b) bs))"

lemma bump_ok: "allocate_ok bump"
proof -
  have "fst b + snd b \<le> sum_list (map (\<lambda>b. fst b + snd b) bs)" if "b \<in> set bs" for b :: region and bs
    using that by (intro member_le_sum_list) auto
  then show ?thesis by (fastforce simp: allocate_ok_def bump_def apart_def)
qed

theorem arena_correct_witness:
  "\<exists>a. foldM (arena_step bump) [Plain 3, Aligned 5, Plain 4000, Aligned 2000] PmrArena_init = Some a \<and> all_apart (arena_given a)"
  using arena_correct [OF bump_ok, of "[Plain 3, Aligned 5, Plain 4000, Aligned 2000]"] by auto

end
