(* ===== verification/Spec2Isabelle.thy ===== *)
theory Spec2Isabelle
  imports Kv_Store Coro_Task Shard_Life Socket Mi_Memory Spsc_Queue Mpsc_Queue Async_Mutex Spin_Lock Pod_Array Arena
begin

text \<open>
  Verification of the storage engine under \<open>src/\<close>, a key-value server in C++ that speaks the Redis protocol.

  \<^bold>\<open>The program.\<close> A client connects to \<open>RedisServer\<close> (\<open>src/src/network/redis_server.hpp\<close>), which gives every connection a
  \<open>RedisSession\<close> on one of the loops of a pool of \<open>UringProactor\<close>s (\<open>src/net/base\<close>). The session reads bytes into a
  \<open>TcpBuffer\<close>, parses commands (\<open>src/src/redis/facade\<close>), finds the handler in the registry (\<open>src/src/command_layer\<close>) and runs
  it as a coroutine. The handler hops to the shard of its key: \<open>Transaction::Scheduling\<close> adds a job to the \<open>TaskQueue\<close> of
  that \<open>EngineShard\<close>, whose worker thread runs the callback on the \<open>DbSlice\<close> of the shard and resumes the coroutine, which
  sends the reply. A slice keeps its databases in \<open>DashTable\<close>s (\<open>src/src/sharding/DashTable\<close>), an extendible hash table whose
  segments hold buckets of 14 slots and stash buckets. The queues, locks and events are in \<open>src/net/util\<close> and \<open>src/net/cppcoro\<close>.

  \<^bold>\<open>Conventions.\<close> Machine integers are words where their width matters. A failed assertion, an access out of range or undefined
  behaviour is \<open>None\<close>, and so is a call that never returns; every property that states a result therefore states that the call
  returns. Code of other libraries is a parameter with named laws: the hash of the standard library (\<open>hs\<close>, \<open>hi\<close>), what a moved
  string holds (\<open>sm\<close>), the kernel behind \<open>liburing\<close> (\<open>kernel_laws\<close> in \<open>Proactor\<close>), the memory resource (\<open>allocate_ok\<close> in \<open>Arena\<close>),
  the clock. In the concurrent components a call is cut at its accesses to shared memory and a schedule is a list of
  thread numbers; accesses are sequentially consistent, so the memory orders that the code names are not examined.

  \<^bold>\<open>Theories and sources.\<close>
  \<^item> \<open>Prelude\<close>, \<open>Decimal\<close>: the option monad with its loops, shared lemmas on lists and words, decimal numbers.
  \<^item> \<open>Slot_Bitmap\<close>, \<open>Bucket\<close>, \<open>Segment\<close>: \<open>SlotBitmap\<close>, \<open>BucketBase\<close>, \<open>Segment\<close> of \<open>dash_internal.hpp\<close>; \<open>Segment_Correct\<close>,
    \<open>Segment_Split\<close>, \<open>Segment_Visit\<close>: a segment refines a finite map, with displacement, stash, split and traversal.
  \<^item> \<open>Dash_Table\<close>: \<open>dash_table.hpp\<close>. \<open>Dash_Table_Correct\<close> has the invariant of the directory, \<open>Dash_Insert\<close>, \<open>Dash_Erase\<close>,
    \<open>Dash_Assign\<close>, \<open>Dash_Touch\<close>, \<open>Dash_Iter\<close> and \<open>Dash_Walk\<close> the operations and cursors, and \<open>Dash_Map\<close> states the table as a map.
    The policy of the table is a locale, interpreted on \<open>PrimeTablePolicy\<close>.
  \<^item> \<open>Compact_Obj\<close>, \<open>Op_Status\<close>: \<open>compact_obj.hpp\<close>, \<open>table_policy.hpp\<close>, \<open>op_status.hpp\<close>, \<open>string_or_view.hpp\<close>.
  \<^item> \<open>Db_Slice\<close>, \<open>Db_Slice_Correct\<close>, \<open>Db_Expire\<close>, \<open>Db_Props\<close>: \<open>db_slice.hpp\<close>, \<open>db_slice.cpp\<close>, \<open>db_table.hpp\<close>: find, add,
    update, delete, expiry, cursor traversal, iterators that find their entry again.
  \<^item> \<open>Engine\<close>: the choice of the shard, namespaces, transactions and the hop as one step. \<open>Cmd_Parser\<close>, \<open>Commands\<close>,
    \<open>Commands_Correct\<close>: the argument parser, the registry and every handler.
  \<^item> \<open>Io_Buf\<close>, \<open>Resp\<close>, \<open>Session\<close>: \<open>io_buf.hpp\<close>, \<open>io_buf.cpp\<close>, the RESP parser and the replies, the session as a state machine.
  \<^item> \<open>Mpmc_Queue\<close>, \<open>Spsc_Queue\<close>, \<open>Mpsc_Queue\<close>: the three queues of \<open>lock_free_queues\<close> under every schedule. \<open>Bounded_Queue\<close> is
    the interface that their clients use, as a locale; \<open>Mpmc_Seq\<close> interprets it on \<open>mpmc_bounded_queue\<close>.
  \<^item> \<open>Lock_Step\<close>: the contract of a lock as a locale, interpreted in \<open>Spin_Lock\<close> (\<open>spinlock.hpp\<close>) and \<open>Async_Mutex\<close>
    (\<open>async_mutex.hpp\<close>, \<open>async_mutex.cpp\<close>). \<open>Event_Count\<close>: \<open>synchronization.hpp\<close> and \<open>wait_queue.hpp\<close>.
  \<^item> \<open>Proactor\<close>, \<open>Proactor_Pool\<close>: \<open>uring_proactor.hpp\<close>, \<open>uring_proactor.cpp\<close>, \<open>uring_proactor_pool.hpp\<close>. \<open>Socket\<close>: \<open>socket.hpp\<close>,
    \<open>socket.cpp\<close>. \<open>Pool_Life\<close> has the threads of the pool (\<open>thread.hpp\<close>) from \<open>AsyncLoop\<close> to \<open>stop\<close> and the destructors, \<open>Shard_Life\<close> the workers of the
    shards until their shutdown.
  \<^item> \<open>Task_Queue\<close>, \<open>Shard_Set\<close>, \<open>Hop\<close>: \<open>task_queue.hpp\<close>, \<open>engine_shard.cpp\<close>, \<open>engine_shard_set.hpp\<close>, and the hop across threads
    (\<open>cmd_support.hpp\<close>, \<open>transaction.cpp\<close>). \<open>Server_Steps\<close> has the clients and the shards as a step relation with its reachable states,
    and \<open>Kv_Store\<close> puts the handlers of SET, GET, DEL and EXISTS into it.
  \<^item> \<open>Coro_Task\<close>: the coroutine types of \<open>task.hpp\<close> and \<open>async_task.hpp\<close>.
  \<^item> \<open>Pod_Array\<close>, \<open>Arena\<close>, \<open>Mi_Memory\<close>: \<open>pod_array.h\<close>, \<open>arena.h\<close>, \<open>arena.cc\<close>, \<open>mi_memory_resource.cpp\<close>.

  \<^bold>\<open>What is shown.\<close> Over the wire, SET followed by GET answers the value, and a session answers every complete command exactly
  once however the socket splits the writes. Hops of many coroutines are atomic: under every schedule of hops and workers the
  databases and the results are those of the jobs in single steps; with at most 64 clients that wait for their answers
  no queue fills up, no step fails and every client is answered. The commands SET, GET, DEL and EXISTS of such clients are answered as by one
  map from keys to values, in the order in which their jobs ran. Awaiting a task is calling it, and its frame is destroyed once. The hash table is a finite map for
  insert, find, erase, iteration and cursor traversal; on it the slice and the commands refine map updates. Parsing inverts the
  encoding of commands. The buffer is a byte queue, the queues are first in first out and lose or duplicate nothing, the locks
  exclude and do not lose waiters, the loop of a proactor runs every task once, loses no suspended coroutine and ends after
  \<open>stop\<close>; the pool and the shards can be stopped and destroyed. Some theorems state what the code does where that is not what it means
  to do: the options of SET, a full task queue, the shutdown of a task queue with waiting jobs, the stop of a pool with a full queue, overlapping
  writes of a session, a command that arrives in pieces, an array whose elements do not fill its block.

  \<^bold>\<open>Bounds and fuel.\<close> The loop of an insertion that splits segments has 64 rounds of fuel. An insertion needs \<open>room\<close>: at some depth of at most
  31 bits fewer than 84 entries share the top bits of the hash, and no split on the way overflows the new segment. It then returns within
  31 rounds; without it the code fails an assertion or does not return. Up to 83 keys at a shard always have room. A traversal by
  cursor has \<open>56 * 2 ^ depth\<close> rounds of fuel, one per logical bucket. \<open>ParseSetParams\<close> has fuel as an argument, and a property says for which
  arguments any fuel is enough. The positions of \<open>mpmc_bounded_queue\<close> are 64 bits; the schedules of its property have fewer than \<open>2 ^ 62\<close>
  steps, and its clients make fewer than \<open>2 ^ 59\<close> calls, so that no position wraps around. The steps in which a proactor runs a task
  or ends are bounded by the capacity of its queues and rings. The queue of a shard has room for 64 jobs; the hops are atomic while it is
  not exceeded, and what happens when it is exceeded is stated in \<open>Task_Queue\<close>.

  \<^bold>\<open>Not modelled.\<close> The vendored \<open>function2.hpp\<close> and \<open>libdivide.h\<close>; the concepts and traits of \<open>awaiter_impl.hpp\<close>, which only
  the compiler reads; the system calls behind sockets and threads; the stateless allocators, which forward to the memory resource;
  \<open>expected.hpp\<close>, \<open>iterator.hpp\<close> and \<open>async_scope.hpp\<close>, which have no users; weak memory; the logging.
\<close>

end
